(* ===== verification/Prelude.thy ===== *)
theory Prelude
  imports Main "HOL-Library.Char_ord" "HOL-Library.List_Lexorder" "HOL-Library.AList"
begin

text \<open>
  Shared vocabulary of the development: Go's maps, string helpers, comparator sorts and the
  list lemmas several components use.

  A Go string is a byte sequence, which is what \<open>string\<close> (a \<open>char list\<close>) is, and Go's
  \<open><\<close> on strings is the lexicographic order of \<open>HOL-Library.List_Lexorder\<close> over
  \<open>Char_ord\<close>. A Go \<open>map[string]V\<close> that the code iterates over is a \<open>dict\<close>, an
  association list whose order stands for one iteration order; one that is only looked up
  and updated is a function \<open>string \<rightharpoonup> 'v\<close>.
\<close>

named_theorems go_simps \<open>unfolding of the string and map helpers\<close>

type_synonym 'v dict = "(string \<times> 'v) list"

definition keys :: "'v dict \<Rightarrow> string list" where
  "keys m = map fst m"

definition wf_dict :: "'v dict \<Rightarrow> bool" where
  "wf_dict m \<longleftrightarrow> distinct (keys m)"

lemma keys_simps [simp]: "keys [] = []" "keys (p # m) = fst p # keys m" "keys (m @ n) = keys m @ keys n"
  by (simp_all add: keys_def)

lemma set_keys: "set (keys m) = dom (map_of m)"
  by (simp add: keys_def dom_map_of_conv_image_fst)

lemma map_of_in_keys: "map_of m k = Some v \<Longrightarrow> k \<in> set (keys m)"
  by (auto simp: set_keys)

lemma in_keys_map_of: "k \<in> set (keys m) \<Longrightarrow> \<exists>v. map_of m k = Some v"
  by (auto simp: set_keys)

lemma map_of_wf_dict: "wf_dict m \<Longrightarrow> (k, v) \<in> set m \<longleftrightarrow> map_of m k = Some v"
  by (auto simp: wf_dict_def keys_def map_of_eq_Some_iff)

text \<open>\<open>strings.IndexByte\<close>/\<open>strings.Cut\<close>: the text before and after the first separator.\<close>

fun cut :: "char \<Rightarrow> string \<Rightarrow> (string \<times> string) option" where
  "cut sep [] = None"
| "cut sep (c # cs) =
     (if c = sep then Some ([], cs)
      else map_option (\<lambda>(a, b). (c # a, b)) (cut sep cs))"

lemma cut_Some_iff: "cut sep s = Some (a, b) \<longleftrightarrow> s = a @ sep # b \<and> sep \<notin> set a"
proof (induction s arbitrary: a)
  case Nil
  then show ?case by simp
next
  case (Cons c cs)
  show ?case
  proof (cases "c = sep")
    case True
    then show ?thesis by (cases a) auto
  next
    case False
    then show ?thesis using Cons.IH by (cases a) (auto simp: Cons_eq_append_conv)
  qed
qed

lemma cut_None_iff: "cut sep s = None \<longleftrightarrow> sep \<notin> set s"
  by (induction s) auto

lemma cut_append: "sep \<notin> set a \<Longrightarrow> cut sep (a @ sep # b) = Some (a, b)"
  by (simp add: cut_Some_iff)

text \<open>\<open>strings.LastIndexByte\<close>: the text before and after the last separator.\<close>

definition rcut :: "char \<Rightarrow> string \<Rightarrow> (string \<times> string) option" where
  "rcut sep s = map_option (\<lambda>(a, b). (rev b, rev a)) (cut sep (rev s))"

lemma rcut_Some_iff: "rcut sep s = Some (a, b) \<longleftrightarrow> s = a @ sep # b \<and> sep \<notin> set b"
proof -
  have "rcut sep s = Some (a, b) \<longleftrightarrow> cut sep (rev s) = Some (rev b, rev a)"
    by (auto simp: rcut_def)
  also have "\<dots> \<longleftrightarrow> rev s = rev b @ sep # rev a \<and> sep \<notin> set b"
    by (simp add: cut_Some_iff)
  also have "\<dots> \<longleftrightarrow> s = a @ sep # b \<and> sep \<notin> set b"
    by (metis append.assoc append_Cons append_Nil rev.simps(2) rev_append rev_rev_ident)
  finally show ?thesis .
qed

lemma rcut_None_iff: "rcut sep s = None \<longleftrightarrow> sep \<notin> set s"
  by (simp add: rcut_def cut_None_iff)

text \<open>\<open>strings.Join\<close>, \<open>strings.HasPrefix\<close> and \<open>strings.Split\<close> on one byte.\<close>

fun join :: "string \<Rightarrow> string list \<Rightarrow> string" where
  "join sep [] = []"
| "join sep [x] = x"
| "join sep (x # y # zs) = x @ sep @ join sep (y # zs)"

fun has_prefix :: "string \<Rightarrow> string \<Rightarrow> bool" where
  "has_prefix s [] = True"
| "has_prefix [] (p # ps) = False"
| "has_prefix (c # s) (p # ps) = (c = p \<and> has_prefix s ps)"

lemma has_prefix_iff: "has_prefix s p \<longleftrightarrow> (\<exists>t. s = p @ t)"
  by (induction s p rule: has_prefix.induct) auto

text \<open>\<open>strings.Split(s, sep)\<close> on one byte: never empty, one field for \<open>""\<close>.\<close>

fun split_on :: "char \<Rightarrow> string \<Rightarrow> string list" where
  "split_on sep [] = [[]]"
| "split_on sep (c # cs) =
     (if c = sep then [] # split_on sep cs
      else (case split_on sep cs of [] \<Rightarrow> [[c]] | f # fs \<Rightarrow> (c # f) # fs))"

lemma split_on_nonempty: "split_on sep s \<noteq> []"
  by (induction s) (auto split: list.splits)

lemma split_on_clean: "sep \<notin> set s \<Longrightarrow> split_on sep s = [s]"
  by (induction s) auto

lemma split_on_append: "sep \<notin> set a \<Longrightarrow> split_on sep (a @ sep # b) = a # split_on sep b"
  by (induction a) auto

lemma split_on_join: "xs \<noteq> [] \<Longrightarrow> \<forall>x\<in>set xs. sep \<notin> set x \<Longrightarrow> split_on sep (join [sep] xs) = xs"
  by (induction "[sep]" xs rule: join.induct) (auto simp: split_on_clean split_on_append)

text \<open>\<open>strings.TrimPrefix\<close>.\<close>

definition trim_prefix :: "string \<Rightarrow> string \<Rightarrow> string" where
  "trim_prefix s p = (if has_prefix s p then drop (length p) s else s)"

text \<open>
  \<open>strings.TrimSpace\<close> over ASCII: tab, newline, vertical tab, form feed, carriage return, space.
\<close>

definition is_space :: "char \<Rightarrow> bool" where
  "is_space c \<longleftrightarrow> (of_char c :: nat) \<in> {9, 10, 11, 12, 13, 32}"

definition trim_space :: "string \<Rightarrow> string" where
  "trim_space s = rev (dropWhile is_space (rev (dropWhile is_space s)))"

lemma trim_space_id: "s = [] \<or> (\<not> is_space (hd s) \<and> \<not> is_space (last s)) \<Longrightarrow> trim_space s = s"
proof -
  assume s: "s = [] \<or> (\<not> is_space (hd s) \<and> \<not> is_space (last s))"
  then have 1: "dropWhile is_space s = s" by (cases s) auto
  from s have 2: "dropWhile is_space (rev s) = rev s" by (cases s rule: rev_cases) auto
  show ?thesis by (simp add: trim_space_def 1 2)
qed

lemma trim_space_snoc: "is_space c \<Longrightarrow> trim_space (s @ [c]) = trim_space s"
proof (cases "\<forall>x\<in>set s. is_space x")
  case True
  assume "is_space c"
  with True have "\<forall>x\<in>set (s @ [c]). is_space x" by simp
  then have "dropWhile is_space (s @ [c]) = []" by (simp only: dropWhile_eq_Nil_conv)
  moreover have "dropWhile is_space s = []" using True by (simp only: dropWhile_eq_Nil_conv)
  ultimately show ?thesis unfolding trim_space_def by (simp only: rev.simps dropWhile.simps)
next
  case False
  assume "is_space c"
  with False show ?thesis by (auto simp: trim_space_def dropWhile_append)
qed

lemma trim_space_right: "trim_space (rev (dropWhile is_space (rev s))) = trim_space s"
  by (induction s rule: rev_induct) (auto simp: trim_space_snoc)

lemma trim_space_Cons: "\<not> is_space c \<Longrightarrow> trim_space (c # s) = c # rev (dropWhile is_space (rev s))"
  by (auto simp: trim_space_def dropWhile_append dropWhile_eq_Nil_conv)

lemma trim_space_no_space: "\<forall>c\<in>set s. \<not> is_space c \<Longrightarrow> trim_space s = s"
  by (rule trim_space_id) (cases s; auto)

subsection \<open>Sorting with a comparator\<close>

text \<open>
  \<open>sort.SliceStable(xs, less)\<close>: insertion sort, which keeps equal elements in order. Where the
  code calls \<open>sort.Slice\<close> with an order that is total on the elements, the result is the same.
  \<open>sort.Strings\<close> is the library's \<open>sort\<close>: equal strings are indistinguishable.
\<close>

fun insert_by :: "('a \<Rightarrow> 'a \<Rightarrow> bool) \<Rightarrow> 'a \<Rightarrow> 'a list \<Rightarrow> 'a list" where
  "insert_by lt x [] = [x]"
| "insert_by lt x (y # ys) = (if lt y x then y # insert_by lt x ys else x # y # ys)"

definition sort_by :: "('a \<Rightarrow> 'a \<Rightarrow> bool) \<Rightarrow> 'a list \<Rightarrow> 'a list" where
  "sort_by lt xs = foldr (insert_by lt) xs []"

lemma sort_by_simps [simp]:
  "sort_by lt [] = []"
  "sort_by lt (x # xs) = insert_by lt x (sort_by lt xs)"
  by (simp_all add: sort_by_def)

lemma set_insert_by [simp]: "set (insert_by lt x ys) = insert x (set ys)"
  by (induction ys) auto

lemma set_sort_by [simp]: "set (sort_by lt xs) = set xs"
  by (induction xs) auto

lemma length_insert_by [simp]: "length (insert_by lt x ys) = Suc (length ys)"
  by (induction ys) auto

lemma length_sort_by [simp]: "length (sort_by lt xs) = length xs"
  by (induction xs) auto

lemma distinct_insert_by: "distinct (insert_by lt x ys) \<longleftrightarrow> x \<notin> set ys \<and> distinct ys"
  by (induction ys) auto

lemma distinct_sort_by [simp]: "distinct (sort_by lt xs) = distinct xs"
  by (induction xs) (auto simp: distinct_insert_by)

lemma sort_by_Nil_iff [simp]: "sort_by lt xs = [] \<longleftrightarrow> xs = []"
  by (metis length_0_conv length_sort_by)

text \<open>A strict weak order: what Go requires of \<open>less\<close>, stated through incomparability.\<close>

definition strict_weak :: "('a \<Rightarrow> 'a \<Rightarrow> bool) \<Rightarrow> bool" where
  "strict_weak lt \<longleftrightarrow>
     (\<forall>x. \<not> lt x x) \<and> (\<forall>x y z. lt x y \<longrightarrow> lt y z \<longrightarrow> lt x z) \<and>
     (\<forall>x y z. \<not> lt x y \<longrightarrow> \<not> lt y z \<longrightarrow> \<not> lt x z)"

lemma strict_weak_asym: "strict_weak lt \<Longrightarrow> lt x y \<Longrightarrow> \<not> lt y x"
  unfolding strict_weak_def by blast

lemma strict_weak_neg_trans: "strict_weak lt \<Longrightarrow> \<not> lt x y \<Longrightarrow> \<not> lt y z \<Longrightarrow> \<not> lt x z"
  unfolding strict_weak_def by blast

lemma strict_weak_trans: "strict_weak lt \<Longrightarrow> lt x y \<Longrightarrow> lt y z \<Longrightarrow> lt x z"
  unfolding strict_weak_def by blast

lemma sorted_insert_by:
  assumes sw: "strict_weak lt" and "sorted_wrt (\<lambda>a b. \<not> lt b a) ys"
  shows "sorted_wrt (\<lambda>a b. \<not> lt b a) (insert_by lt x ys)"
  using assms(2)
proof (induction ys)
  case Nil
  then show ?case by simp
next
  case (Cons y ys)
  show ?case
  proof (cases "lt y x")
    case True
    then show ?thesis using Cons strict_weak_asym [OF sw] by auto
  next
    case False
    then show ?thesis using Cons.prems strict_weak_neg_trans [OF sw] by auto
  qed
qed

lemma sorted_sort_by: "strict_weak lt \<Longrightarrow> sorted_wrt (\<lambda>a b. \<not> lt b a) (sort_by lt xs)"
  by (induction xs) (auto intro: sorted_insert_by)

lemma sort_by_hd_least:
  assumes sw: "strict_weak lt" and ys: "sort_by lt xs = y # ys" and x: "x \<in> set xs"
  shows "\<not> lt x y"
proof -
  have "x \<in> set (y # ys)" using x ys set_sort_by [of lt xs] by simp
  moreover have "\<forall>z\<in>set ys. \<not> lt z y" using sorted_sort_by [OF sw, of xs] ys by simp
  moreover have "\<not> lt y y" using sw by (simp add: strict_weak_def)
  ultimately show ?thesis by auto
qed

text \<open>Comparators that try one key after another.\<close>

lemma strict_weak_key: "strict_weak (\<lambda>a b. (f a :: 'b::linorder) < f b)"
  by (auto simp: strict_weak_def)

lemma strict_weak_lex:
  assumes "strict_weak lt"
  shows "strict_weak (\<lambda>a b. if f a \<noteq> f b then (f a :: 'b::linorder) < f b else lt a b)"
  unfolding strict_weak_def
proof (intro conjI allI impI)
  fix x y z
  show "\<not> (if f x \<noteq> f x then f x < f x else lt x x)" using assms by (simp add: strict_weak_def)
  show "if f x \<noteq> f z then f x < f z else lt x z"
    if "if f x \<noteq> f y then f x < f y else lt x y" "if f y \<noteq> f z then f y < f z else lt y z"
    using that strict_weak_trans [OF assms, of x y z] by (auto split: if_splits)
  show "\<not> (if f x \<noteq> f z then f x < f z else lt x z)"
    if "\<not> (if f x \<noteq> f y then f x < f y else lt x y)" "\<not> (if f y \<noteq> f z then f y < f z else lt y z)"
    using that strict_weak_neg_trans [OF assms, of x y z] by (auto split: if_splits)
qed

lemma distinct_map_sort_by [simp]: "distinct (map f (sort_by lt xs)) = distinct (map f xs)"
proof -
  have "distinct (map f (insert_by lt x ys)) \<longleftrightarrow> f x \<notin> f ` set ys \<and> distinct (map f ys)" for x ys
    by (induction ys) auto
  then show ?thesis by (induction xs) auto
qed

subsection \<open>Lists\<close>

text \<open>The first element with a property, as the code's search loops return it.\<close>

lemma find_Some_in: "List.find P xs = Some x \<Longrightarrow> x \<in> set xs \<and> P x"
  by (auto simp: find_Some_iff)

lemma find_None_all: "List.find P xs = None \<Longrightarrow> x \<in> set xs \<Longrightarrow> \<not> P x"
  by (simp add: find_None_iff)

text \<open>The last element with a property, for the loops that scan a log backwards.\<close>

definition find_last :: "('a \<Rightarrow> bool) \<Rightarrow> 'a list \<Rightarrow> 'a option" where
  "find_last P xs = List.find P (rev xs)"

lemma find_last_Nil [simp]: "find_last P [] = None"
  by (simp add: find_last_def)

lemma find_append: "List.find P (xs @ ys) = (case List.find P xs of None \<Rightarrow> List.find P ys | r \<Rightarrow> r)"
  by (induction xs) auto

lemma find_last_snoc [simp]: "find_last P (xs @ [x]) = (if P x then Some x else find_last P xs)"
  by (simp add: find_last_def)

lemma find_last_SomeD: "find_last P xs = Some x \<Longrightarrow> x \<in> set xs \<and> P x"
  unfolding find_last_def by (drule find_Some_in) simp

lemma find_last_None_iff: "find_last P xs = None \<longleftrightarrow> (\<forall>x\<in>set xs. \<not> P x)"
  by (auto simp: find_last_def find_None_iff)

text \<open>Keeping the first of each key, as the code's \<open>seen\<close> maps do.\<close>

fun dedup_by :: "('a \<Rightarrow> 'k) \<Rightarrow> 'k set \<Rightarrow> 'a list \<Rightarrow> 'a list" where
  "dedup_by key seen [] = []"
| "dedup_by key seen (x # xs) =
     (if key x \<in> seen then dedup_by key seen xs
      else x # dedup_by key (insert (key x) seen) xs)"

lemma set_dedup_by_subset: "set (dedup_by key seen xs) \<subseteq> set xs"
  by (induction xs arbitrary: seen) auto

lemma dedup_by_keys: "key ` set (dedup_by key seen xs) = key ` set xs - seen"
  by (induction xs arbitrary: seen) auto

lemma distinct_dedup_by: "distinct (map key (dedup_by key seen xs))"
proof (induction xs arbitrary: seen)
  case Nil
  then show ?case by simp
next
  case (Cons x xs)
  then show ?case using dedup_by_keys [of key "insert (key x) seen" xs] by auto
qed

lemma dedup_by_id: "distinct (map key xs) \<Longrightarrow> key ` set xs \<inter> seen = {} \<Longrightarrow> dedup_by key seen xs = xs"
  by (induction xs arbitrary: seen) auto

end
