(* ===== verification/Go_Num.thy ===== *)
theory Go_Num
  imports Prelude
begin

text \<open>
  The numbers the expression evaluator uses, as Go has them: 64-bit integers read by
  \<open>strconv.Atoi\<close> and IEEE 754 double-precision values read by \<open>strconv.ParseFloat\<close>, compared
  by the hardware and written back by \<open>strconv.FormatFloat(x, 'f', -1, 64)\<close>.

  Every finite double is a whole multiple of \<open>2 ^ -1074\<close>, so \<open>Fin neg k\<close> stands for
  \<open>k * 2 ^ -1074\<close> with its sign (a negative zero included), and a comparison of finite values
  is a comparison of integers. Rounding to nearest, ties to even, is \<open>round_mag\<close>.
\<close>

subsection \<open>Digits and 64-bit integers\<close>

definition char_code :: "char \<Rightarrow> nat" where
  "char_code c = of_char c"

definition is_digit :: "char \<Rightarrow> bool" where
  "is_digit c \<longleftrightarrow> 48 \<le> char_code c \<and> char_code c \<le> 57"

definition digit_val :: "char \<Rightarrow> nat" where
  "digit_val c = char_code c - 48"

text \<open>Go's \<open>lower\<close>: ASCII letters to lower case, by code.\<close>

definition lower_code :: "char \<Rightarrow> nat" where
  "lower_code c = (let n = char_code c in if 65 \<le> n \<and> n \<le> 90 then n + 32 else n)"

text \<open>\<open>strings.ToLower\<close> of ASCII text.\<close>

definition to_lower :: "string \<Rightarrow> string" where
  "to_lower s = map (\<lambda>c. char_of (lower_code c)) s"

fun dec_value :: "string \<Rightarrow> nat \<Rightarrow> nat" where
  "dec_value [] acc = acc"
| "dec_value (c # cs) acc = dec_value cs (10 * acc + digit_val c)"

text \<open>\<open>strconv.Atoi\<close>: an optional sign and decimal digits, within the range of \<open>int\<close>.\<close>

definition atoi_digits :: "bool \<Rightarrow> string \<Rightarrow> int option" where
  "atoi_digits neg ds =
     (if ds = [] \<or> \<not> list_all is_digit ds then None
      else let v = (if neg then - int (dec_value ds 0) else int (dec_value ds 0))
           in if - (2 ^ 63) \<le> v \<and> v < 2 ^ 63 then Some v else None)"

definition atoi :: "string \<Rightarrow> int option" where
  "atoi s =
     (case s of
        [] \<Rightarrow> None
      | c # cs \<Rightarrow>
          if c = CHR ''-'' then atoi_digits True cs
          else if c = CHR ''+'' then atoi_digits False cs
          else atoi_digits False s)"

text \<open>\<open>strconv.Itoa\<close>.\<close>

definition digit_char :: "nat \<Rightarrow> char" where
  "digit_char d = char_of (48 + d)"

fun nat_to_dec :: "nat \<Rightarrow> string" where
  "nat_to_dec n = (if n < 10 then [digit_char n] else nat_to_dec (n div 10) @ [digit_char (n mod 10)])"

declare nat_to_dec.simps [simp del]

definition itoa :: "int \<Rightarrow> string" where
  "itoa i = (if i < 0 then CHR ''-'' # nat_to_dec (nat (- i)) else nat_to_dec (nat i))"

lemma char_code_digit_char: "d < 10 \<Longrightarrow> char_code (digit_char d) = 48 + d"
  by (simp add: char_code_def digit_char_def)

lemma is_digit_digit_char: "d < 10 \<Longrightarrow> is_digit (digit_char d)"
  by (simp add: is_digit_def char_code_digit_char)

lemma digit_val_digit_char: "d < 10 \<Longrightarrow> digit_val (digit_char d) = d"
  by (simp add: digit_val_def char_code_digit_char)

lemma dec_value_append: "dec_value (xs @ ys) acc = dec_value ys (dec_value xs acc)"
  by (induction xs arbitrary: acc) auto

lemma nat_to_dec_nonempty [simp]: "nat_to_dec n \<noteq> []"
  by (subst nat_to_dec.simps) simp

lemma nat_to_dec_digits: "list_all is_digit (nat_to_dec n)"
proof (induction n rule: nat_to_dec.induct)
  case (1 n)
  then show ?case
    by (subst nat_to_dec.simps) (auto simp: is_digit_digit_char)
qed

lemma dec_value_nat_to_dec: "dec_value (nat_to_dec n) 0 = n"
proof (induction n rule: nat_to_dec.induct)
  case (1 n)
  then show ?case
    by (subst nat_to_dec.simps) (auto simp: dec_value_append digit_val_digit_char)
qed

lemma not_sign_digit: "is_digit c \<Longrightarrow> c \<noteq> CHR ''-'' \<and> c \<noteq> CHR ''+''"
  by (auto simp: is_digit_def char_code_def)

lemma hd_nat_to_dec: "nat_to_dec n = c # cs \<Longrightarrow> is_digit c"
  using nat_to_dec_digits [of n] by simp

theorem atoi_itoa: "- (2 ^ 63) \<le> i \<Longrightarrow> i < 2 ^ 63 \<Longrightarrow> atoi (itoa i) = Some i"
proof (cases "i < 0")
  case True
  assume "- (2 ^ 63) \<le> i" "i < 2 ^ 63"
  with True show ?thesis
    by (simp add: itoa_def atoi_def atoi_digits_def nat_to_dec_digits dec_value_nat_to_dec)
next
  case False
  assume b: "- (2 ^ 63) \<le> i" "i < 2 ^ 63"
  obtain c cs where cs: "nat_to_dec (nat i) = c # cs"
    by (cases "nat_to_dec (nat i)") auto
  have "atoi (itoa i) = atoi_digits False (nat_to_dec (nat i))"
    using False cs not_sign_digit [OF hd_nat_to_dec [OF cs]] by (simp add: itoa_def atoi_def)
  with False b show ?thesis
    by (simp add: atoi_digits_def nat_to_dec_digits dec_value_nat_to_dec)
qed

lemma atoi_range: "atoi s = Some i \<Longrightarrow> - (2 ^ 63) \<le> i \<and> i < 2 ^ 63"
  by (auto simp: atoi_def atoi_digits_def Let_def split: list.splits if_splits)

subsection \<open>Doubles\<close>

datatype f64 = NaN | Inf bool | Fin bool nat

fun nbits :: "nat \<Rightarrow> nat" where
  "nbits n = (if n = 0 then 0 else Suc (nbits (n div 2)))"

declare nbits.simps [simp del]

text \<open>
  The magnitude nearest to \<open>num / den\<close>, in units of \<open>2 ^ -1074\<close>: 53 significant bits, half to
  even, subnormals at the bottom; \<open>None\<close> beyond the largest finite double.
\<close>

definition half_even :: "nat \<Rightarrow> nat \<Rightarrow> nat" where
  "half_even q d =
     (let m = q div d; r = q mod d
      in if d < 2 * r \<or> (2 * r = d \<and> odd m) then Suc m else m)"

definition round_mag :: "nat \<Rightarrow> nat \<Rightarrow> nat option" where
  "round_mag num den =
     (let q = num * 2 ^ 1074;
          s = nbits (q div den) - 53;
          k = half_even q (den * 2 ^ s) * 2 ^ s
      in if 2 ^ 2098 \<le> k then None else Some k)"

definition f64_of_int :: "int \<Rightarrow> f64" where
  "f64_of_int i =
     (case round_mag (nat \<bar>i\<bar>) 1 of Some k \<Rightarrow> Fin (i < 0) k | None \<Rightarrow> Inf (i < 0))"

text \<open>A finite value as a signed number of units, which comparisons read.\<close>

definition units :: "bool \<Rightarrow> nat \<Rightarrow> int" where
  "units neg k = (if neg then - int k else int k)"

fun f64_eq :: "f64 \<Rightarrow> f64 \<Rightarrow> bool" where
  "f64_eq NaN b = False"
| "f64_eq a NaN = False"
| "f64_eq (Inf m) (Inf n) = (m = n)"
| "f64_eq (Fin m j) (Fin n k) = (units m j = units n k)"
| "f64_eq (Inf m) (Fin n k) = False"
| "f64_eq (Fin m j) (Inf n) = False"

fun f64_lt :: "f64 \<Rightarrow> f64 \<Rightarrow> bool" where
  "f64_lt NaN b = False"
| "f64_lt a NaN = False"
| "f64_lt (Inf m) (Inf n) = (m \<and> \<not> n)"
| "f64_lt (Fin m j) (Fin n k) = (units m j < units n k)"
| "f64_lt (Inf m) (Fin n k) = m"
| "f64_lt (Fin m j) (Inf n) = (\<not> n)"

lemma f64_lt_asym: "f64_lt a b \<Longrightarrow> \<not> f64_lt b a"
  by (cases a; cases b) auto

lemma f64_lt_not_eq: "f64_lt a b \<Longrightarrow> \<not> f64_eq a b"
  by (cases a; cases b) auto

lemma f64_total: "a \<noteq> NaN \<Longrightarrow> b \<noteq> NaN \<Longrightarrow> f64_lt a b \<or> f64_eq a b \<or> f64_lt b a"
  by (cases a; cases b) auto

lemma f64_eq_sym: "f64_eq a b = f64_eq b a"
  by (cases a; cases b) auto

lemma nbits_le: "n < 2 ^ k \<Longrightarrow> nbits n \<le> k"
proof (induction k arbitrary: n)
  case 0
  then show ?case by (simp add: nbits.simps)
next
  case (Suc k)
  show ?case
  proof (cases "n = 0")
    case True
    then show ?thesis by (simp add: nbits.simps)
  next
    case False
    from Suc.prems have "n div 2 < 2 ^ k" by (simp add: less_mult_imp_div_less mult.commute)
    then have "nbits (n div 2) \<le> k" by (rule Suc.IH)
    with False show ?thesis by (subst nbits.simps) simp
  qed
qed

text \<open>Whole numbers below \<open>2 ^ 53\<close> are exact.\<close>

lemma half_even_exact: "0 < d \<Longrightarrow> d dvd q \<Longrightarrow> half_even q d * d = q"
  by (auto simp: half_even_def)

lemma round_mag_exact:
  assumes "n < 2 ^ 53"
  shows "round_mag n 1 = Some (n * 2 ^ 1074)"
proof -
  define u :: nat where "u = 1074"
  let ?q = "n * 2 ^ u"
  let ?s = "nbits ?q - 53"
  have lt: "?q < 2 ^ (53 + u)"
    unfolding power_add using assms by (intro mult_strict_right_mono) simp_all
  then have "nbits ?q \<le> 53 + u" by (rule nbits_le)
  then have s: "?s \<le> u" by simp
  then have "2 ^ u = (2::nat) ^ (u - ?s) * 2 ^ ?s"
    by (simp only: power_add [symmetric]) simp
  then have "?q = (n * 2 ^ (u - ?s)) * 2 ^ ?s" by (simp only: mult.assoc)
  then have dvd: "(2::nat) ^ ?s dvd ?q" by (metis dvd_triv_right)
  have "half_even ?q (2 ^ ?s) * 2 ^ ?s = ?q"
    using dvd by (intro half_even_exact) simp_all
  moreover have "53 + u < 2098" by (simp add: u_def)
  then have "2 ^ (53 + u) < (2::nat) ^ 2098" by (intro power_strict_increasing) simp_all
  with lt have "\<not> 2 ^ 2098 \<le> ?q" by (meson less_trans not_le)
  ultimately show ?thesis
    unfolding round_mag_def Let_def u_def [symmetric] div_by_1 mult_1 by (simp only: if_False)
qed

lemma f64_of_int_exact: "\<bar>i\<bar> < 2 ^ 53 \<Longrightarrow> f64_of_int i = Fin (i < 0) (nat \<bar>i\<bar> * 2 ^ 1074)"
  by (simp only: f64_of_int_def round_mag_exact nat_less_numeral_power_cancel_iff option.case)

lemma units_of_int: "units (i < 0) (nat \<bar>i\<bar> * 2 ^ u) = i * 2 ^ u"
  by (simp add: units_def)

lemma f64_int_compare:
  assumes "\<bar>i\<bar> < 2 ^ 53" and "\<bar>j\<bar> < 2 ^ 53"
  shows "f64_eq (f64_of_int i) (f64_of_int j) \<longleftrightarrow> i = j"
    and "f64_lt (f64_of_int i) (f64_of_int j) \<longleftrightarrow> i < j"
proof -
  define u :: nat where "u = 1074"
  have e: "f64_of_int i = Fin (i < 0) (nat \<bar>i\<bar> * 2 ^ u)" "f64_of_int j = Fin (j < 0) (nat \<bar>j\<bar> * 2 ^ u)"
    unfolding u_def using assms by (simp_all only: f64_of_int_exact)
  show "f64_eq (f64_of_int i) (f64_of_int j) \<longleftrightarrow> i = j"
    "f64_lt (f64_of_int i) (f64_of_int j) \<longleftrightarrow> i < j"
    by (simp_all add: e units_of_int)
qed

subsection \<open>Reading a double: \<open>strconv.ParseFloat(s, 64)\<close>\<close>

text \<open>Go's \<open>special\<close>: infinities (signed or not) and NaN (unsigned), in any case.\<close>

definition lower_is :: "string \<Rightarrow> string \<Rightarrow> bool" where
  "lower_is s w \<longleftrightarrow> map lower_code s = map char_code w"

definition inf_word :: "string \<Rightarrow> bool" where
  "inf_word s \<longleftrightarrow> lower_is s ''inf'' \<or> lower_is s ''infinity''"

definition special_float :: "string \<Rightarrow> f64 option" where
  "special_float s =
     (if inf_word s then Some (Inf False)
      else if lower_is s ''nan'' then Some NaN
      else (case s of
              [] \<Rightarrow> None
            | c # cs \<Rightarrow>
                if c = CHR ''+'' \<and> inf_word cs then Some (Inf False)
                else if c = CHR ''-'' \<and> inf_word cs then Some (Inf True)
                else None))"

text \<open>
  Go's \<open>readFloat\<close>. The mantissa loop takes digits (hexadecimal ones after \<open>0x\<close>), one point
  and underscores; it returns the mantissa, the number of digits after the point, whether it
  saw a digit, a point and an underscore, and the rest.
\<close>

definition mant_digit :: "bool \<Rightarrow> char \<Rightarrow> nat option" where
  "mant_digit hex c =
     (if is_digit c then Some (digit_val c)
      else if hex \<and> 97 \<le> lower_code c \<and> lower_code c \<le> 102 then Some (lower_code c - 87)
      else None)"

record mant_scan =
  ms_mant :: nat
  ms_frac :: nat
  ms_dot :: bool
  ms_digits :: bool
  ms_under :: bool

fun scan_mant :: "bool \<Rightarrow> mant_scan \<Rightarrow> string \<Rightarrow> mant_scan \<times> string" where
  "scan_mant hex a [] = (a, [])"
| "scan_mant hex a (c # cs) =
     (if c = CHR ''_'' then scan_mant hex (a\<lparr>ms_under := True\<rparr>) cs
      else if c = CHR ''.'' then
        (if ms_dot a then (a, c # cs) else scan_mant hex (a\<lparr>ms_dot := True\<rparr>) cs)
      else (case mant_digit hex c of
              None \<Rightarrow> (a, c # cs)
            | Some d \<Rightarrow>
                scan_mant hex
                  (a\<lparr>ms_digits := True, ms_mant := (if hex then 16 else 10) * ms_mant a + d,
                     ms_frac := (if ms_dot a then Suc (ms_frac a) else ms_frac a)\<rparr>) cs))"

text \<open>The exponent's digits: the value saturates once it has passed 10000.\<close>

fun scan_exp :: "nat \<Rightarrow> bool \<Rightarrow> string \<Rightarrow> nat \<times> bool \<times> string" where
  "scan_exp e u [] = (e, u, [])"
| "scan_exp e u (c # cs) =
     (if c = CHR ''_'' then scan_exp e True cs
      else if is_digit c then scan_exp (if e < 10000 then 10 * e + digit_val c else e) u cs
      else (e, u, c # cs))"

text \<open>Go's \<open>underscoreOK\<close>: an underscore stands between digits, or after a base prefix.\<close>

datatype saw = SawStart | SawDigit | SawUnder | SawOther

fun under_loop :: "bool \<Rightarrow> saw \<Rightarrow> string \<Rightarrow> bool" where
  "under_loop hex w [] = (w \<noteq> SawUnder)"
| "under_loop hex w (c # cs) =
     (if is_digit c \<or> (hex \<and> 97 \<le> lower_code c \<and> lower_code c \<le> 102) then under_loop hex SawDigit cs
      else if c = CHR ''_'' then (w = SawDigit \<and> under_loop hex SawUnder cs)
      else (w \<noteq> SawUnder \<and> under_loop hex SawOther cs))"

definition strip_sign :: "string \<Rightarrow> bool \<times> string" where
  "strip_sign s =
     (case s of
        [] \<Rightarrow> (False, [])
      | c # cs \<Rightarrow> if c = CHR ''-'' then (True, cs) else if c = CHR ''+'' then (False, cs) else (False, s))"

definition underscore_ok :: "string \<Rightarrow> bool" where
  "underscore_ok s =
     (case snd (strip_sign s) of
        z # x # rest \<Rightarrow>
          if z = CHR ''0'' \<and> lower_code x \<in> {98, 111, 120} then under_loop (lower_code x = 120) SawDigit rest
          else under_loop False SawStart (z # x # rest)
      | t \<Rightarrow> under_loop False SawStart t)"

text \<open>The value of a well-formed number: a numerator and a denominator.\<close>

definition scaled :: "bool \<Rightarrow> nat \<Rightarrow> int \<Rightarrow> nat \<times> nat" where
  "scaled hex mant e =
     (let b = (if hex then 2 else 10)
      in if 0 \<le> e then (mant * b ^ nat e, 1) else (mant, b ^ nat (- e)))"

definition read_float :: "string \<Rightarrow> (bool \<times> nat \<times> nat) option" where
  "read_float s =
     (let (neg, t) = strip_sign s;
          hex = (case t of z # x # y # _ \<Rightarrow> z = CHR ''0'' \<and> lower_code x = 120 | _ \<Rightarrow> False);
          (a, r) = scan_mant hex \<lparr>ms_mant = 0, ms_frac = 0, ms_dot = False, ms_digits = False, ms_under = False\<rparr>
                     (if hex then drop 2 t else t);
          frac = (if hex then 4 * int (ms_frac a) else int (ms_frac a))
      in if \<not> ms_digits a then None
         else (case r of
                 [] \<Rightarrow>
                   if hex \<or> (ms_under a \<and> \<not> underscore_ok s) then None
                   else Some (neg, scaled hex (ms_mant a) (- frac))
               | x # r1 \<Rightarrow>
                   if lower_code x = (if hex then 112 else 101) then
                     (let (eneg, r2) = strip_sign r1
                      in case r2 of
                           [] \<Rightarrow> None
                         | d # _ \<Rightarrow>
                             if \<not> is_digit d then None
                             else (let (e, u, r3) = scan_exp 0 (ms_under a) r2
                                   in if r3 \<noteq> [] \<or> (u \<and> \<not> underscore_ok s) then None
                                      else Some (neg, scaled hex (ms_mant a)
                                                        ((if eneg then - int e else int e) - frac))))
                   else None))"

text \<open>
  \<open>ParseFloat\<close> with a nil error; a syntax error and an overflow (\<open>ErrRange\<close>) are \<open>None\<close>, which
  is all its callers look at.
\<close>

definition parse_float :: "string \<Rightarrow> f64 option" where
  "parse_float s =
     (case special_float s of
        Some f \<Rightarrow> Some f
      | None \<Rightarrow>
          (case read_float s of
             None \<Rightarrow> None
           | Some (neg, num, den) \<Rightarrow> map_option (Fin neg) (round_mag num den)))"

subsection \<open>Writing a double: \<open>strconv.FormatFloat(x, 'f', -1, 64)\<close>\<close>

text \<open>
  The shortest decimal that reads back as the same double. \<open>dec_point\<close> is the position of the
  first significant digit (\<open>10 ^ (p - 1) \<le> v < 10 ^ p\<close>), \<open>short_digits\<close> tries 1, 2, ... digits and
  takes the nearer of the two candidates that rounds back to \<open>k\<close>; 17 digits always do.
\<close>

fun lead_zeros :: "nat \<Rightarrow> nat \<Rightarrow> nat" where
  "lead_zeros 0 k = 0"
| "lead_zeros (Suc fuel) k = (if 2 ^ 1074 \<le> 10 * k then 0 else Suc (lead_zeros fuel (10 * k)))"

definition dec_point :: "nat \<Rightarrow> int" where
  "dec_point k =
     (if 2 ^ 1074 \<le> k then int (length (nat_to_dec (k div 2 ^ 1074)))
      else - int (lead_zeros 400 k))"

text \<open>\<open>k\<close> in units of \<open>10 ^ e\<close>, as a fraction.\<close>

definition in_tens :: "nat \<Rightarrow> int \<Rightarrow> nat \<times> nat" where
  "in_tens k e = (if 0 \<le> e then (k, 2 ^ 1074 * 10 ^ nat e) else (k * 10 ^ nat (- e), 2 ^ 1074))"

definition reads_back :: "nat \<Rightarrow> int \<Rightarrow> nat \<Rightarrow> bool" where
  "reads_back k e m =
     (case scaled False m e of (num, den) \<Rightarrow> round_mag num den = Some k)"

fun short_digits :: "nat \<Rightarrow> nat \<Rightarrow> nat \<Rightarrow> int \<Rightarrow> nat \<times> int" where
  "short_digits 0 n k p = (0, 0)"
| "short_digits (Suc fuel) n k p =
     (let e = p - int n;
          (num, den) = in_tens k e;
          lo = num div den;
          up_nearer = (den < 2 * (num mod den) \<or> (2 * (num mod den) = den \<and> odd lo));
          (a, b) = (if up_nearer then (Suc lo, lo) else (lo, Suc lo))
      in if reads_back k e a then (a, e)
         else if reads_back k e b then (b, e)
         else short_digits fuel (Suc n) k p)"

text \<open>Trailing zeros of the digits go into the exponent: the upper candidate may be \<open>10 ^ n\<close>.\<close>

fun trim_zeros :: "nat \<Rightarrow> int \<Rightarrow> nat \<times> int" where
  "trim_zeros m e = (if 0 < m \<and> m mod 10 = 0 then trim_zeros (m div 10) (e + 1) else (m, e))"

declare trim_zeros.simps [simp del]

text \<open>The digits placed around the point, without an exponent.\<close>

definition place_point :: "string \<Rightarrow> int \<Rightarrow> string" where
  "place_point ds e =
     (if 0 \<le> e then ds @ replicate (nat e) CHR ''0''
      else (let f = nat (- e)
            in if f < length ds then take (length ds - f) ds @ ''.'' @ drop (length ds - f) ds
               else ''0.'' @ replicate (f - length ds) CHR ''0'' @ ds))"

fun format_float :: "f64 \<Rightarrow> string" where
  "format_float NaN = ''NaN''"
| "format_float (Inf neg) = (if neg then ''-Inf'' else ''+Inf'')"
| "format_float (Fin neg k) =
     (if neg then ''-'' else []) @
     (if k = 0 then ''0''
      else (let (m0, e0) = short_digits 17 1 k (dec_point k);
               (m, e) = trim_zeros m0 e0
           in place_point (nat_to_dec m) e))"

text \<open>\<open>int64(f)\<close>: towards zero.\<close>

definition int64_of_f64 :: "(f64 \<Rightarrow> int) \<Rightarrow> f64 \<Rightarrow> int" where
  "int64_of_f64 conv f =
     (case f of
        Fin neg k \<Rightarrow>
          (let t = (if neg then - int (k div 2 ^ 1074) else int (k div 2 ^ 1074))
           in if - (2 ^ 63) \<le> t \<and> t < 2 ^ 63 then t else conv f)
      | _ \<Rightarrow> conv f)"

end
