(* ===== verification/Expr.thy ===== *)
theory Expr
  imports Go_Num
begin

text \<open>
  The expression language of \<open>internal/expr\<close>: values, the AST, and its evaluator (types.go,
  eval.go, error.go). Health rules, state \<open>when:\<close> predicates and \<open>while:\<close> guards are all
  expressions. An evaluation either decides a truth value or fails with an error, of which
  \<open>UnresolvedError\<close> means "unknown".

  The lemmas show that \<open>AndNode\<close>/\<open>OrNode\<close> are Kleene's strong connectives on
  decided/undecided results, that an error is always some leaf's error, that a result depends
  only on the facts the expression names, and that a decided result survives learning more.
\<close>

subsection \<open>Values and the AST\<close>

text \<open>
  A dynamic value (Go's \<open>any\<close>) as facts and literals carry it. \<open>VOther\<close> is a value of any
  other dynamic type (a YAML list, a map); a \<open>nil\<close> value is modelled by its absence.
\<close>

datatype val = VInt int | VInt64 int | VFloat32 f64 | VFloat64 f64 | VBool bool | VStr string | VOther

datatype cmp_op = OpEq | OpNeq | OpLt | OpGt | OpLte | OpGte

datatype node =
    AndNode node node
  | OrNode node node
  | CmpNode (n_component: string) (n_fact: string) (n_op: cmp_op) (n_value: val)

datatype eval_error =
    Unresolved string string string \<comment> \<open>component, fact, reason\<close>
  | UnsupportedFact val
  | BadBoolOp cmp_op
  | BadStringOp cmp_op
  | NoStringForm

type_synonym eval_result = "eval_error + bool"

text \<open>
  \<open>expr.Ctx\<close>: the interfaces \<open>FactLookup\<close> and \<open>VarLookup\<close> are the functions they offer. A nil
  \<open>Vars\<close> looks up nothing, and a nil \<open>States\<close> is the empty map.
\<close>

record ctx =
  cx_component :: string
  cx_facts :: "string \<Rightarrow> string \<Rightarrow> val option"
  cx_states :: "string \<rightharpoonup> string"
  cx_vars :: "string \<Rightarrow> string \<Rightarrow> string option"

subsection \<open>Coercions and comparisons\<close>

fun to_numeric :: "val \<Rightarrow> f64 option" where
  "to_numeric (VInt i) = Some (f64_of_int i)"
| "to_numeric (VInt64 i) = Some (f64_of_int i)"
| "to_numeric (VFloat32 f) = Some f"
| "to_numeric (VFloat64 f) = Some f"
| "to_numeric v = None"

definition to_float :: "val \<Rightarrow> f64 option" where
  "to_float v =
     (case to_numeric v of
        Some f \<Rightarrow> Some f
      | None \<Rightarrow>
          (case v of
             VStr s \<Rightarrow>
               (case parse_float s of
                  Some f \<Rightarrow> Some f
                | None \<Rightarrow> map_option f64_of_int (atoi s))
           | _ \<Rightarrow> None))"

fun compare_floats :: "cmp_op \<Rightarrow> f64 \<Rightarrow> f64 \<Rightarrow> bool" where
  "compare_floats OpEq a b = f64_eq a b"
| "compare_floats OpNeq a b = (\<not> f64_eq a b)"
| "compare_floats OpLt a b = f64_lt a b"
| "compare_floats OpGt a b = f64_lt b a"
| "compare_floats OpLte a b = (f64_lt a b \<or> f64_eq a b)"
| "compare_floats OpGte a b = (f64_lt b a \<or> f64_eq a b)"

fun compare_bools :: "cmp_op \<Rightarrow> bool \<Rightarrow> bool \<Rightarrow> eval_result" where
  "compare_bools OpEq a b = Inr (a = b)"
| "compare_bools OpNeq a b = Inr (a \<noteq> b)"
| "compare_bools oper a b = Inl (BadBoolOp oper)"

fun as_bool :: "val \<Rightarrow> bool option" where
  "as_bool (VBool b) = Some b"
| "as_bool (VStr s) = (if s = ''true'' then Some True else if s = ''false'' then Some False else None)"
| "as_bool v = None"

fun as_string :: "val \<Rightarrow> string option" where
  "as_string (VStr s) = Some s"
| "as_string (VInt i) = Some (itoa i)"
| "as_string (VFloat64 f) = Some (format_float f)"
| "as_string (VBool b) = Some (if b then ''true'' else ''false'')"
| "as_string v = None"

definition compare_strings :: "cmp_op \<Rightarrow> string \<Rightarrow> val \<Rightarrow> eval_result" where
  "compare_strings oper fs v =
     (case as_string v of
        None \<Rightarrow> Inl NoStringForm
      | Some s \<Rightarrow>
          (case oper of
             OpEq \<Rightarrow> Inr (fs = s)
           | OpNeq \<Rightarrow> Inr (fs \<noteq> s)
           | _ \<Rightarrow> Inl (BadStringOp oper)))"

definition compare_bool_fact :: "cmp_op \<Rightarrow> bool \<Rightarrow> val \<Rightarrow> string \<Rightarrow> eval_result" where
  "compare_bool_fact oper fv v cn =
     (case as_bool v of
        None \<Rightarrow> Inl (Unresolved cn [] ''type mismatch'')
      | Some b \<Rightarrow> compare_bools oper fv b)"

definition compare_string_fact :: "cmp_op \<Rightarrow> string \<Rightarrow> val \<Rightarrow> string \<Rightarrow> eval_result" where
  "compare_string_fact oper fv v cn =
     (case (parse_float fv, to_float v) of
        (Some f, Some g) \<Rightarrow> Inr (compare_floats oper f g)
      | _ \<Rightarrow>
          (case as_string v of
             None \<Rightarrow> Inl (Unresolved cn [] ''type mismatch'')
           | Some s \<Rightarrow> compare_strings oper fv (VStr s)))"

text \<open>\<open>lookupVar\<close>: a variable as a number when it reads as one, else as its text.\<close>

definition lookup_var :: "ctx \<Rightarrow> string \<Rightarrow> string \<Rightarrow> val option" where
  "lookup_var c cn key =
     (case cx_vars c cn key of
        None \<Rightarrow> None
      | Some raw \<Rightarrow>
          (case parse_float (trim_space raw) of
             None \<Rightarrow> Some (VStr raw)
           | Some f \<Rightarrow> Some (VFloat64 f)))"

definition compare_numeric_fact :: "cmp_op \<Rightarrow> val \<Rightarrow> val \<Rightarrow> string \<Rightarrow> ctx \<Rightarrow> eval_result" where
  "compare_numeric_fact oper fv v cn c =
     (case to_numeric fv of
        None \<Rightarrow> Inl (UnsupportedFact fv)
      | Some f \<Rightarrow>
          (case to_float v of
             Some g \<Rightarrow> Inr (compare_floats oper f g)
           | None \<Rightarrow>
               (case v of
                  VStr s \<Rightarrow>
                    (case (case cx_facts c cn s of Some w \<Rightarrow> Some w | None \<Rightarrow> lookup_var c cn s) of
                       None \<Rightarrow> Inl (Unresolved cn s ''missing'')
                     | Some w \<Rightarrow>
                         (case to_numeric w of
                            None \<Rightarrow> Inl (Unresolved cn s ''type mismatch'')
                          | Some g \<Rightarrow> Inr (compare_floats oper f g)))
                | _ \<Rightarrow> Inl (Unresolved cn [] ''type mismatch''))))"

definition compare_fact_value :: "cmp_op \<Rightarrow> val \<Rightarrow> val \<Rightarrow> string \<Rightarrow> ctx \<Rightarrow> eval_result" where
  "compare_fact_value oper fv v cn c =
     (case fv of
        VBool b \<Rightarrow> compare_bool_fact oper b v cn
      | VStr s \<Rightarrow> compare_string_fact oper s v cn
      | _ \<Rightarrow> compare_numeric_fact oper fv v cn c)"

subsection \<open>Evaluation\<close>

definition eval_cmp :: "ctx \<Rightarrow> string \<Rightarrow> string \<Rightarrow> cmp_op \<Rightarrow> val \<Rightarrow> eval_result" where
  "eval_cmp c cn0 fct oper v =
     (let cn = (if cn0 = [] then cx_component c else cn0)
      in if fct = ''state'' then
           (case cx_states c cn of
              None \<Rightarrow> Inl (Unresolved cn ''state'' ''missing'')
            | Some st \<Rightarrow> compare_strings oper st v)
         else
           (case cx_facts c cn fct of
              None \<Rightarrow> Inl (Unresolved cn fct ''missing'')
            | Some fv \<Rightarrow> compare_fact_value oper fv v cn c))"

definition eval_and :: "eval_result \<Rightarrow> eval_result \<Rightarrow> eval_result" where
  "eval_and l r =
     (case (l, r) of
        (Inl e, Inl _) \<Rightarrow> Inl e
      | (Inl e, Inr rv) \<Rightarrow> if \<not> rv then Inr False else Inl e
      | (Inr lv, Inl e) \<Rightarrow> if \<not> lv then Inr False else Inl e
      | (Inr lv, Inr rv) \<Rightarrow> Inr (lv \<and> rv))"

definition eval_or :: "eval_result \<Rightarrow> eval_result \<Rightarrow> eval_result" where
  "eval_or l r =
     (case (l, r) of
        (Inl e, Inl _) \<Rightarrow> Inl e
      | (Inl e, Inr rv) \<Rightarrow> if rv then Inr True else Inl e
      | (Inr lv, Inl e) \<Rightarrow> if lv then Inr True else Inl e
      | (Inr lv, Inr rv) \<Rightarrow> Inr (lv \<or> rv))"

fun eval :: "ctx \<Rightarrow> node \<Rightarrow> eval_result" where
  "eval c (AndNode l r) = eval_and (eval c l) (eval c r)"
| "eval c (OrNode l r) = eval_or (eval c l) (eval c r)"
| "eval c (CmpNode cn fct oper v) = eval_cmp c cn fct oper v"

subsection \<open>Three truth values\<close>

text \<open>What a result decides: \<open>None\<close> is "unknown".\<close>

definition decided :: "eval_result \<Rightarrow> bool option" where
  "decided r = (case r of Inl _ \<Rightarrow> None | Inr b \<Rightarrow> Some b)"

definition kleene_and :: "bool option \<Rightarrow> bool option \<Rightarrow> bool option" where
  "kleene_and a b =
     (if a = Some False \<or> b = Some False then Some False
      else if a = Some True \<and> b = Some True then Some True else None)"

definition kleene_or :: "bool option \<Rightarrow> bool option \<Rightarrow> bool option" where
  "kleene_or a b =
     (if a = Some True \<or> b = Some True then Some True
      else if a = Some False \<and> b = Some False then Some False else None)"

fun kleene_eval :: "(node \<Rightarrow> bool option) \<Rightarrow> node \<Rightarrow> bool option" where
  "kleene_eval leaf (AndNode l r) = kleene_and (kleene_eval leaf l) (kleene_eval leaf r)"
| "kleene_eval leaf (OrNode l r) = kleene_or (kleene_eval leaf l) (kleene_eval leaf r)"
| "kleene_eval leaf (CmpNode cn fct oper v) = leaf (CmpNode cn fct oper v)"

lemma decided_simps [simp]: "decided (Inl e) = None" "decided (Inr b) = Some b"
  by (simp_all add: decided_def)

lemma decided_eq_Some [simp]:
  "decided r = Some b \<longleftrightarrow> r = Inr b" "Some b = decided r \<longleftrightarrow> r = Inr b"
  by (cases r; auto)+

lemma decided_eval_and: "decided (eval_and l r) = kleene_and (decided l) (decided r)"
  by (cases l; cases r) (auto simp: eval_and_def kleene_and_def)

lemma decided_eval_or: "decided (eval_or l r) = kleene_or (decided l) (decided r)"
  by (cases l; cases r) (auto simp: eval_or_def kleene_or_def)

text \<open>
  C33: Evaluation is Kleene's strong three-valued logic over what the leaves decide: an
  unresolved side is absorbed exactly when the other side settles the connective.
\<close>

theorem eval_refines_kleene: "decided (eval c n) = kleene_eval (\<lambda>leaf. decided (eval c leaf)) n"
  by (induction n) (auto simp: decided_eval_and decided_eval_or)

fun leaves :: "node \<Rightarrow> node set" where
  "leaves (AndNode l r) = leaves l \<union> leaves r"
| "leaves (OrNode l r) = leaves l \<union> leaves r"
| "leaves (CmpNode cn fct oper v) = {CmpNode cn fct oper v}"

lemma eval_and_error: "eval_and l r = Inl e \<Longrightarrow> l = Inl e \<or> r = Inl e"
  by (cases l; cases r) (auto simp: eval_and_def split: if_splits)

lemma eval_or_error: "eval_or l r = Inl e \<Longrightarrow> l = Inl e \<or> r = Inl e"
  by (cases l; cases r) (auto simp: eval_or_def split: if_splits)

text \<open>An error is the error of a leaf: no connective invents one.\<close>

lemma eval_error_from_leaf: "eval c n = Inl e \<Longrightarrow> \<exists>leaf\<in>leaves n. eval c leaf = Inl e"
  by (induction n) (auto dest!: eval_and_error eval_or_error)

subsection \<open>What an expression reads\<close>

text \<open>The (component, fact) pairs an expression may look up, the right-hand side included.\<close>

fun fact_reads :: "string \<Rightarrow> node \<Rightarrow> (string \<times> string) set" where
  "fact_reads cur (AndNode l r) = fact_reads cur l \<union> fact_reads cur r"
| "fact_reads cur (OrNode l r) = fact_reads cur l \<union> fact_reads cur r"
| "fact_reads cur (CmpNode cn fct oper v) =
     (let c = (if cn = [] then cur else cn)
      in insert (c, fct) (case v of VStr s \<Rightarrow> {(c, s)} | _ \<Rightarrow> {}))"

lemma compare_fact_value_cong:
  assumes "\<And>s. v = VStr s \<Longrightarrow> f cn s = cx_facts c cn s"
  shows "compare_fact_value oper fv v cn (c\<lparr>cx_facts := f\<rparr>) = compare_fact_value oper fv v cn c"
  using assms
  by (auto simp: compare_fact_value_def compare_numeric_fact_def lookup_var_def split: val.splits option.splits)

text \<open>Changing a fact the expression does not name cannot change its value.\<close>

lemma eval_reads_only:
  "(\<And>k. k \<in> fact_reads (cx_component c) n \<Longrightarrow> f (fst k) (snd k) = cx_facts c (fst k) (snd k)) \<Longrightarrow>
   eval (c\<lparr>cx_facts := f\<rparr>) n = eval c n"
proof (induction n)
  case (CmpNode cn fct oper v)
  let ?c = "if cn = [] then cx_component c else cn"
  have f: "f ?c fct = cx_facts c ?c fct"
    using CmpNode.prems [of "(?c, fct)"] by (simp add: Let_def)
  have "f ?c s = cx_facts c ?c s" if "v = VStr s" for s
    using CmpNode.prems [of "(?c, s)"] that by (simp add: Let_def)
  then have "compare_fact_value oper fv v ?c (c\<lparr>cx_facts := f\<rparr>) = compare_fact_value oper fv v ?c c" for fv
    by (rule compare_fact_value_cong)
  with f show ?case by (cases "cn = []") (auto simp: eval_cmp_def Let_def split: option.split)
qed auto

subsection \<open>Learning more never flips a decision\<close>

text \<open>
  \<open>c\<close> knows less than \<open>d\<close>: every fact and derived state of \<open>c\<close> is in \<open>d\<close>. A fact that is new
  in \<open>d\<close> must not take the name of a variable (\<open>compareNumericFact\<close> prefers the fact).
\<close>

definition less_known :: "ctx \<Rightarrow> ctx \<Rightarrow> bool" where
  "less_known c d \<longleftrightarrow>
     cx_component c = cx_component d \<and> cx_vars c = cx_vars d \<and> cx_states c \<subseteq>\<^sub>m cx_states d \<and>
     (\<forall>cn. cx_facts c cn \<subseteq>\<^sub>m cx_facts d cn) \<and>
     (\<forall>cn k. cx_facts c cn k = None \<longrightarrow> cx_facts d cn k \<noteq> None \<longrightarrow> cx_vars c cn k = None)"

lemma less_known_fact: "less_known c d \<Longrightarrow> cx_facts c cn k = Some v \<Longrightarrow> cx_facts d cn k = Some v"
  unfolding less_known_def map_le_def by (metis domI)

lemma less_known_state: "less_known c d \<Longrightarrow> cx_states c cn = Some v \<Longrightarrow> cx_states d cn = Some v"
  unfolding less_known_def map_le_def by (metis domI)

lemma less_known_var:
  "less_known c d \<Longrightarrow> cx_facts c cn k = None \<Longrightarrow> lookup_var c cn k = Some v \<Longrightarrow>
   cx_facts d cn k = None \<and> lookup_var d cn k = Some v"
  unfolding less_known_def lookup_var_def by (cases "cx_facts d cn k") (auto split: option.splits)

lemma compare_numeric_fact_mono:
  "less_known c d \<Longrightarrow> compare_numeric_fact oper fv v cn c = Inr b \<Longrightarrow>
   compare_numeric_fact oper fv v cn d = Inr b"
  by (auto simp: compare_numeric_fact_def split: option.splits val.splits
      dest: less_known_fact less_known_var)

lemma compare_fact_value_mono:
  "less_known c d \<Longrightarrow> compare_fact_value oper fv v cn c = Inr b \<Longrightarrow>
   compare_fact_value oper fv v cn d = Inr b"
  by (auto simp: compare_fact_value_def split: val.splits dest: compare_numeric_fact_mono)

lemma eval_cmp_mono:
  assumes "less_known c d" and "eval_cmp c cn fct oper v = Inr b"
  shows "eval_cmp d cn fct oper v = Inr b"
proof -
  let ?c = "if cn = [] then cx_component c else cn"
  have cd: "cx_component d = cx_component c" using assms(1) by (simp add: less_known_def)
  show ?thesis
  proof (cases "fct = ''state''")
    case True
    with assms(2) obtain st where "cx_states c ?c = Some st" and "compare_strings oper st v = Inr b"
      by (auto simp: eval_cmp_def Let_def split: option.splits)
    with less_known_state [OF assms(1), of ?c] True cd show ?thesis
      by (simp add: eval_cmp_def Let_def split: if_splits)
  next
    case False
    with assms(2) obtain fv where "cx_facts c ?c fct = Some fv"
      and "compare_fact_value oper fv v ?c c = Inr b"
      by (auto simp: eval_cmp_def Let_def split: option.splits)
    with less_known_fact [OF assms(1), of ?c fct] compare_fact_value_mono [OF assms(1)] False cd
    show ?thesis by (simp add: eval_cmp_def Let_def split: if_splits)
  qed
qed

definition info_le :: "bool option \<Rightarrow> bool option \<Rightarrow> bool" where
  "info_le a b \<longleftrightarrow> a = None \<or> a = b"

lemma kleene_and_mono: "info_le a a' \<Longrightarrow> info_le b b' \<Longrightarrow> info_le (kleene_and a b) (kleene_and a' b')"
  by (auto simp: info_le_def kleene_and_def)

lemma kleene_or_mono: "info_le a a' \<Longrightarrow> info_le b b' \<Longrightarrow> info_le (kleene_or a b) (kleene_or a' b')"
  by (auto simp: info_le_def kleene_or_def)

lemma eval_info_le: "less_known c d \<Longrightarrow> info_le (decided (eval c n)) (decided (eval d n))"
proof (induction n)
  case (CmpNode cn fct oper v)
  then show ?case
    by (cases "eval_cmp c cn fct oper v") (auto simp: info_le_def dest: eval_cmp_mono)
qed (auto simp: decided_eval_and decided_eval_or intro: kleene_and_mono kleene_or_mono)

text \<open>
  A decision survives new facts: what evaluates to a truth value keeps it when more facts and
  derived states become known, as long as no new fact takes the name of a variable.
\<close>

theorem eval_decision_stable:
  assumes "less_known c d" and "eval c n = Inr b"
  shows "eval d n = Inr b"
  using eval_info_le [OF assms(1), of n] assms(2) by (auto simp: info_le_def)

definition ex_ctx :: "(string \<rightharpoonup> val) \<Rightarrow> ctx" where
  "ex_ctx m = \<lparr>cx_component = ''api'', cx_facts = (\<lambda>c. if c = ''api'' then m else Map.empty),
     cx_states = Map.empty, cx_vars = (\<lambda>_ _. None)\<rparr>"

theorem eval_decision_stable_witness:
  "eval (ex_ctx [''up'' \<mapsto> VBool False, ''n'' \<mapsto> VStr ''x''])
     (AndNode (CmpNode [] ''up'' OpEq (VBool True)) (CmpNode [] ''m'' OpEq (VInt 1))) = Inr False"
proof -
  let ?n = "AndNode (CmpNode [] ''up'' OpEq (VBool True)) (CmpNode [] ''m'' OpEq (VInt 1))"
  have "eval (ex_ctx [''up'' \<mapsto> VBool False]) ?n = Inr False"
    by (simp add: ex_ctx_def eval_cmp_def eval_and_def compare_fact_value_def compare_bool_fact_def)
  moreover have "less_known (ex_ctx [''up'' \<mapsto> VBool False]) (ex_ctx [''up'' \<mapsto> VBool False, ''n'' \<mapsto> VStr ''x''])"
    by (auto simp: less_known_def ex_ctx_def map_le_def)
  ultimately show ?thesis using eval_decision_stable by blast
qed

subsection \<open>Comparison operators\<close>

text \<open>The operators pair up as negations, NaN aside.\<close>

fun negate_op :: "cmp_op \<Rightarrow> cmp_op" where
  "negate_op OpEq = OpNeq"
| "negate_op OpNeq = OpEq"
| "negate_op OpLt = OpGte"
| "negate_op OpGt = OpLte"
| "negate_op OpLte = OpGt"
| "negate_op OpGte = OpLt"

lemma compare_floats_negate:
  "a \<noteq> NaN \<Longrightarrow> b \<noteq> NaN \<Longrightarrow> compare_floats (negate_op oper) a b \<longleftrightarrow> \<not> compare_floats oper a b"
  using f64_total [of a b] f64_lt_asym [of a b] f64_lt_asym [of b a] f64_lt_not_eq [of a b]
    f64_lt_not_eq [of b a] f64_eq_sym [of a b]
  by (cases oper) auto

fun int_compare :: "cmp_op \<Rightarrow> int \<Rightarrow> int \<Rightarrow> bool" where
  "int_compare OpEq a b = (a = b)"
| "int_compare OpNeq a b = (a \<noteq> b)"
| "int_compare OpLt a b = (a < b)"
| "int_compare OpGt a b = (a > b)"
| "int_compare OpLte a b = (a \<le> b)"
| "int_compare OpGte a b = (a \<ge> b)"

lemma compare_floats_int:
  assumes "\<bar>i\<bar> < 2 ^ 53" and "\<bar>j\<bar> < 2 ^ 53"
  shows "compare_floats oper (f64_of_int i) (f64_of_int j) = int_compare oper i j"
  using f64_int_compare [OF assms] f64_int_compare [OF assms(2,1)]
  by (cases oper) (auto simp only: compare_floats.simps int_compare.simps)

text \<open>
  A comparison of two integer facts is the comparison of the integers as long as both are
  exact doubles, although the code compares them as \<open>float64\<close>.
\<close>

theorem eval_int_exact:
  assumes "fct \<noteq> ''state''" and "cx_facts c (cx_component c) fct = Some (VInt i)"
    and "\<bar>i\<bar> < 2 ^ 53" and "\<bar>j\<bar> < 2 ^ 53"
  shows "eval c (CmpNode [] fct oper (VInt j)) = Inr (int_compare oper i j)"
proof -
  have "eval c (CmpNode [] fct oper (VInt j)) =
      Inr (compare_floats oper (f64_of_int i) (f64_of_int j))"
    using assms(1,2)
    by (simp add: eval_cmp_def compare_fact_value_def compare_numeric_fact_def to_float_def)
  then show ?thesis by (simp only: compare_floats_int [OF assms(3,4)])
qed

theorem eval_int_exact_witness:
  "eval (ex_ctx [''ready'' \<mapsto> VInt 2]) (CmpNode [] ''ready'' OpLt (VInt 3)) = Inr True"
  by (subst eval_int_exact [where i = 2]) (simp_all add: ex_ctx_def)

end
