(* ===== verification/Expr_Parse.thy ===== *)
theory Expr_Parse
  imports Expr
begin

text \<open>
  The parser of the expression language (\<open>internal/expr/parser.go\<close>): the tokeniser and the
  recursive-descent parser, translated over the tokens still to read in place of the position
  \<open>p.pos\<close>. Input text is ASCII, where a rune is a byte.

  \<open>g_or\<close> states the documented grammar as a relation. The parser accepts exactly its sentences
  and returns their tree, and printing an AST and parsing it gives the AST back.
\<close>

subsection \<open>Tokens\<close>

datatype parse_error =
    UnexpectedChar char
  | Unterminated
  | UnexpectedToken string nat
  | UnexpectedEnd
  | ExpectedAtEnd string
  | ExpectedGot string string
  | RefAtEnd
  | RefGotOperator string
  | CmpAtEnd
  | CmpGot string
  | ValueAtEnd

definition is_letter :: "char \<Rightarrow> bool" where
  "is_letter c \<longleftrightarrow> (let n = char_code c in (65 \<le> n \<and> n \<le> 90) \<or> (97 \<le> n \<and> n \<le> 122))"

definition is_cmp_start :: "char \<Rightarrow> bool" where
  "is_cmp_start c \<longleftrightarrow> c = CHR ''='' \<or> c = CHR ''!'' \<or> c = CHR ''<'' \<or> c = CHR ''>''"

definition is_word_start :: "char \<Rightarrow> bool" where
  "is_word_start c \<longleftrightarrow> is_letter c \<or> is_digit c \<or> c = CHR ''_''"

definition is_word_continue :: "char \<Rightarrow> bool" where
  "is_word_continue c \<longleftrightarrow>
     is_letter c \<or> is_digit c \<or> c = CHR ''_'' \<or> c = CHR ''.'' \<or> c = CHR ''-'' \<or> c = CHR ''/''"

definition quote :: char where
  "quote = CHR 0x22"

definition cons_token :: "string \<Rightarrow> parse_error + string list \<Rightarrow> parse_error + string list" where
  "cons_token t r = (case r of Inl e \<Rightarrow> Inl e | Inr ts \<Rightarrow> Inr (t # ts))"

lemma cons_token_Inr [simp]: "cons_token t r = Inr ts \<longleftrightarrow> (\<exists>us. r = Inr us \<and> ts = t # us)"
  by (auto simp: cons_token_def split: sum.splits)

lemma cons_token_of_Inr [simp]: "cons_token t (Inr ts) = Inr (t # ts)"
  by simp

function (sequential) tokenize :: "string \<Rightarrow> parse_error + string list" where
  "tokenize [] = Inr []"
| "tokenize (c # cs) =
     (if is_space c then tokenize cs
      else if is_cmp_start c then
        (case cs of
           d # ds \<Rightarrow> if d = CHR ''='' then cons_token [c, d] (tokenize ds) else cons_token [c] (tokenize cs)
         | [] \<Rightarrow> cons_token [c] (tokenize cs))
      else if c = CHR ''&'' \<or> c = CHR ''|'' \<or> c = CHR ''('' \<or> c = CHR '')'' then cons_token [c] (tokenize cs)
      else if c = quote then
        (case cut quote cs of
           None \<Rightarrow> Inl Unterminated
         | Some (a, b) \<Rightarrow> cons_token (quote # a @ [quote]) (tokenize b))
      else if is_word_start c \<or> c = CHR ''-'' then
        cons_token (c # takeWhile is_word_continue cs) (tokenize (dropWhile is_word_continue cs))
      else Inl (UnexpectedChar c))"
  by pat_completeness auto
termination tokenize
  by (relation "measure length") (auto simp: cut_Some_iff less_Suc_eq_le length_dropWhile_le)

declare tokenize.simps(2) [simp del]

subsection \<open>Values and references\<close>

text \<open>\<open>InferValue\<close>: the narrowest type that reads the token.\<close>

definition infer_value :: "string \<Rightarrow> val" where
  "infer_value s =
     (if s = ''true'' then VBool True
      else if s = ''false'' then VBool False
      else (case atoi s of
              Some i \<Rightarrow> VInt i
            | None \<Rightarrow> (case parse_float s of Some f \<Rightarrow> VFloat64 f | None \<Rightarrow> VStr s)))"

definition parse_value :: "string \<Rightarrow> val" where
  "parse_value tok =
     (if 2 \<le> length tok \<and> hd tok = quote \<and> last tok = quote then VStr (butlast (tl tok))
      else infer_value tok)"

definition cmp_op_of :: "string \<Rightarrow> cmp_op option" where
  "cmp_op_of t =
     (if t = ''=='' then Some OpEq
      else if t = ''!='' then Some OpNeq
      else if t = ''<'' then Some OpLt
      else if t = ''>'' then Some OpGt
      else if t = ''<='' then Some OpLte
      else if t = ''>='' then Some OpGte
      else None)"

definition is_operator :: "string \<Rightarrow> bool" where
  "is_operator t \<longleftrightarrow> cmp_op_of t \<noteq> None \<or> t = ''&'' \<or> t = ''|'' \<or> t = ''('' \<or> t = '')''"

definition split_ref :: "string \<Rightarrow> string \<times> string" where
  "split_ref t = (case cut CHR ''.'' t of None \<Rightarrow> ([], t) | Some (a, b) \<Rightarrow> (a, b))"

subsection \<open>Recursive descent\<close>

definition parse_cmp :: "string list \<Rightarrow> parse_error + node \<times> string list" where
  "parse_cmp ts =
     (case ts of
        [] \<Rightarrow> Inl RefAtEnd
      | t1 # ts1 \<Rightarrow>
          if is_operator t1 then Inl (RefGotOperator t1)
          else (case ts1 of
                  [] \<Rightarrow> Inl CmpAtEnd
                | t2 # ts2 \<Rightarrow>
                    (case cmp_op_of t2 of
                       None \<Rightarrow> Inl (CmpGot t2)
                     | Some oper \<Rightarrow>
                         (case ts2 of
                            [] \<Rightarrow> Inl ValueAtEnd
                          | t3 # rest \<Rightarrow>
                              Inr (CmpNode (fst (split_ref t1)) (snd (split_ref t1)) oper (parse_value t3), rest)))))"

definition expect :: "string \<Rightarrow> node \<Rightarrow> string list \<Rightarrow> parse_error + node \<times> string list" where
  "expect tok n ts =
     (case ts of
        [] \<Rightarrow> Inl (ExpectedAtEnd tok)
      | t # rest \<Rightarrow> if t = tok then Inr (n, rest) else Inl (ExpectedGot tok t))"

lemma expect_Inr: "expect tok n ts = Inr (m, rest) \<longleftrightarrow> m = n \<and> ts = tok # rest"
  by (auto simp: expect_def split: list.splits)

function (sequential) parse_or :: "string list \<Rightarrow> parse_error + node \<times> string list"
  and or_loop :: "node \<Rightarrow> string list \<Rightarrow> parse_error + node \<times> string list"
  and parse_and :: "string list \<Rightarrow> parse_error + node \<times> string list"
  and and_loop :: "node \<Rightarrow> string list \<Rightarrow> parse_error + node \<times> string list"
  and parse_primary :: "string list \<Rightarrow> parse_error + node \<times> string list" where
  "parse_or ts = (case parse_and ts of Inl e \<Rightarrow> Inl e | Inr (l, rest) \<Rightarrow> or_loop l rest)"
| "or_loop l [] = Inr (l, [])"
| "or_loop l (t # ts) =
     (if t = ''|'' then (case parse_and ts of Inl e \<Rightarrow> Inl e | Inr (r, rest) \<Rightarrow> or_loop (OrNode l r) rest)
      else Inr (l, t # ts))"
| "parse_and ts = (case parse_primary ts of Inl e \<Rightarrow> Inl e | Inr (l, rest) \<Rightarrow> and_loop l rest)"
| "and_loop l [] = Inr (l, [])"
| "and_loop l (t # ts) =
     (if t = ''&'' then (case parse_primary ts of Inl e \<Rightarrow> Inl e | Inr (r, rest) \<Rightarrow> and_loop (AndNode l r) rest)
      else Inr (l, t # ts))"
| "parse_primary [] = Inl UnexpectedEnd"
| "parse_primary (t # ts) =
     (if t = ''('' then (case parse_or ts of Inl e \<Rightarrow> Inl e | Inr (n, rest) \<Rightarrow> expect '')'' n rest)
      else parse_cmp (t # ts))"
  by pat_completeness auto

lemma parse_cmp_length: "parse_cmp ts = Inr (n, rest) \<Longrightarrow> length rest < length ts"
  by (auto simp: parse_cmp_def split: list.splits if_splits option.splits)

lemma parser_shrinks:
  "parse_or_or_loop_parse_and_and_loop_parse_primary_dom (Inl (Inl ts)) \<Longrightarrow>
     (\<forall>n rest. parse_or ts = Inr (n, rest) \<longrightarrow> length rest \<le> length ts)"
  "parse_or_or_loop_parse_and_and_loop_parse_primary_dom (Inl (Inr (l, ts))) \<Longrightarrow>
     (\<forall>n rest. or_loop l ts = Inr (n, rest) \<longrightarrow> length rest \<le> length ts)"
  "parse_or_or_loop_parse_and_and_loop_parse_primary_dom (Inr (Inl ts)) \<Longrightarrow>
     (\<forall>n rest. parse_and ts = Inr (n, rest) \<longrightarrow> length rest \<le> length ts)"
  "parse_or_or_loop_parse_and_and_loop_parse_primary_dom (Inr (Inr (Inl (l, ts)))) \<Longrightarrow>
     (\<forall>n rest. and_loop l ts = Inr (n, rest) \<longrightarrow> length rest \<le> length ts)"
  "parse_or_or_loop_parse_and_and_loop_parse_primary_dom (Inr (Inr (Inr ts))) \<Longrightarrow>
     (\<forall>n rest. parse_primary ts = Inr (n, rest) \<longrightarrow> length rest \<le> length ts)"
proof (induction ts and l ts and ts and l ts and ts rule: parse_or_or_loop_parse_and_and_loop_parse_primary.pinduct)
  case (1 ts)
  then show ?case
    by (fastforce simp: parse_or.psimps split: sum.splits)
next
  case (3 l t ts)
  then show ?case
    by (fastforce simp: or_loop.psimps split: sum.splits if_splits)
next
  case (4 ts)
  then show ?case
    by (fastforce simp: parse_and.psimps split: sum.splits)
next
  case (6 l t ts)
  then show ?case
    by (fastforce simp: and_loop.psimps split: sum.splits if_splits)
next
  case (8 t ts)
  then show ?case
    by (fastforce simp: parse_primary.psimps expect_Inr dest: parse_cmp_length split: sum.splits if_splits)
qed (simp_all add: or_loop.psimps and_loop.psimps parse_primary.psimps)

termination parse_or
  apply (relation "measures
     [\<lambda>x. case x of
            Inl (Inl ts) \<Rightarrow> length ts | Inl (Inr (l, ts)) \<Rightarrow> length ts
          | Inr (Inl ts) \<Rightarrow> length ts | Inr (Inr (Inl (l, ts))) \<Rightarrow> length ts
          | Inr (Inr (Inr ts)) \<Rightarrow> length ts,
      \<lambda>x. case x of Inl (Inl _) \<Rightarrow> 3 | Inr (Inl _) \<Rightarrow> 2 | _ \<Rightarrow> 1]")
  by (auto dest!: parser_shrinks)

text \<open>\<open>Parse\<close>: the whole input, or an error at the first token left over.\<close>

definition parse_tokens :: "string list \<Rightarrow> parse_error + node" where
  "parse_tokens ts =
     (case parse_or ts of
        Inl e \<Rightarrow> Inl e
      | Inr (n, []) \<Rightarrow> Inr n
      | Inr (n, t # rest) \<Rightarrow> Inl (UnexpectedToken t (length ts - length (t # rest))))"

definition parse :: "string \<Rightarrow> parse_error + node" where
  "parse s = (case tokenize s of Inl e \<Rightarrow> Inl e | Inr ts \<Rightarrow> parse_tokens ts)"

subsection \<open>The grammar\<close>

text \<open>
  The grammar of \<open>Parse\<close>'s comment, as derivations over tokens: \<open>|\<close> binds loosest, \<open>&\<close>
  tighter, both to the left; a leaf is a reference, an operator and any token as value.
\<close>

inductive g_or :: "string list \<Rightarrow> node \<Rightarrow> bool"
  and g_and :: "string list \<Rightarrow> node \<Rightarrow> bool"
  and g_prim :: "string list \<Rightarrow> node \<Rightarrow> bool" where
  or_one: "g_and ts n \<Longrightarrow> g_or ts n"
| or_more: "g_or ts l \<Longrightarrow> g_and us r \<Longrightarrow> g_or (ts @ ''|'' # us) (OrNode l r)"
| and_one: "g_prim ts n \<Longrightarrow> g_and ts n"
| and_more: "g_and ts l \<Longrightarrow> g_prim us r \<Longrightarrow> g_and (ts @ ''&'' # us) (AndNode l r)"
| paren: "g_or ts n \<Longrightarrow> g_prim (''('' # ts @ ['')'']) n"
| leaf: "\<not> is_operator t1 \<Longrightarrow> cmp_op_of t2 = Some oper \<Longrightarrow>
     g_prim [t1, t2, t3] (CmpNode (fst (split_ref t1)) (snd (split_ref t1)) oper (parse_value t3))"

lemma parse_cmp_sound: "parse_cmp ts = Inr (n, rest) \<Longrightarrow> \<exists>us. ts = us @ rest \<and> g_prim us n"
proof -
  assume "parse_cmp ts = Inr (n, rest)"
  then obtain t1 t2 t3 oper where "ts = t1 # t2 # t3 # rest" and "\<not> is_operator t1"
    and "cmp_op_of t2 = Some oper"
    and "n = CmpNode (fst (split_ref t1)) (snd (split_ref t1)) oper (parse_value t3)"
    by (auto simp: parse_cmp_def split: list.splits if_splits option.splits)
  then show ?thesis by (intro exI [of _ "[t1, t2, t3]"]) (auto intro: leaf)
qed

lemma parser_sound:
  "parse_or ts = Inr (n, rest) \<Longrightarrow> \<exists>us. ts = us @ rest \<and> g_or us n"
  "or_loop l ts = Inr (n, rest) \<Longrightarrow> \<exists>us. ts = us @ rest \<and> (\<forall>ps. g_or ps l \<longrightarrow> g_or (ps @ us) n)"
  "parse_and ts = Inr (n, rest) \<Longrightarrow> \<exists>us. ts = us @ rest \<and> g_and us n"
  "and_loop l ts = Inr (n, rest) \<Longrightarrow> \<exists>us. ts = us @ rest \<and> (\<forall>ps. g_and ps l \<longrightarrow> g_and (ps @ us) n)"
  "parse_primary ts = Inr (n, rest) \<Longrightarrow> \<exists>us. ts = us @ rest \<and> g_prim us n"
proof (induction ts and l ts and ts and l ts and ts arbitrary: n rest and n rest and n rest and n rest and n rest
    rule: parse_or_or_loop_parse_and_and_loop_parse_primary.induct)
  case (1 ts)
  then obtain l r1 where "parse_and ts = Inr (l, r1)" and "or_loop l r1 = Inr (n, rest)"
    by (auto split: sum.splits)
  with 1 obtain us vs where "ts = us @ r1" "g_and us l" "r1 = vs @ rest" "\<forall>ps. g_or ps l \<longrightarrow> g_or (ps @ vs) n"
    by blast
  then show ?case by (intro exI [of _ "us @ vs"]) (auto intro: or_one)
next
  case (3 l t ts)
  show ?case
  proof (cases "t = ''|''")
    case True
    with 3 obtain r r1 where "parse_and ts = Inr (r, r1)" and "or_loop (OrNode l r) r1 = Inr (n, rest)"
      by (auto split: sum.splits)
    with 3 True obtain us vs where "ts = us @ r1" "g_and us r" "r1 = vs @ rest"
      "\<forall>ps. g_or ps (OrNode l r) \<longrightarrow> g_or (ps @ vs) n"
      by blast
    then show ?thesis using True
      by (intro exI [of _ "''|'' # us @ vs"]) (auto dest: or_more)
  next
    case False
    with 3 show ?thesis by auto
  qed
next
  case (4 ts)
  then obtain l r1 where "parse_primary ts = Inr (l, r1)" and "and_loop l r1 = Inr (n, rest)"
    by (auto split: sum.splits)
  with 4 obtain us vs where "ts = us @ r1" "g_prim us l" "r1 = vs @ rest" "\<forall>ps. g_and ps l \<longrightarrow> g_and (ps @ vs) n"
    by blast
  then show ?case by (intro exI [of _ "us @ vs"]) (auto intro: and_one)
next
  case (6 l t ts)
  show ?case
  proof (cases "t = ''&''")
    case True
    with 6 obtain r r1 where "parse_primary ts = Inr (r, r1)" and "and_loop (AndNode l r) r1 = Inr (n, rest)"
      by (auto split: sum.splits)
    with 6 True obtain us vs where "ts = us @ r1" "g_prim us r" "r1 = vs @ rest"
      "\<forall>ps. g_and ps (AndNode l r) \<longrightarrow> g_and (ps @ vs) n"
      by blast
    then show ?thesis using True
      by (intro exI [of _ "''&'' # us @ vs"]) (auto dest: and_more)
  next
    case False
    with 6 show ?thesis by auto
  qed
next
  case (8 t ts)
  show ?case
  proof (cases "t = ''(''")
    case True
    with 8 obtain m where "parse_or ts = Inr (n, '')'' # rest)"
      by (auto simp: expect_Inr split: sum.splits)
    with 8 True obtain us where "ts = us @ '')'' # rest" "g_or us n" by blast
    then show ?thesis using True by (intro exI [of _ "''('' # us @ ['')'']"]) (auto intro: paren)
  next
    case False
    with 8 show ?thesis by (auto dest: parse_cmp_sound)
  qed
qed auto

lemma parser_complete:
  "g_or ts n \<Longrightarrow> (\<forall>rest. (rest = [] \<or> hd rest \<noteq> ''&'') \<longrightarrow> parse_or (ts @ rest) = or_loop n rest)"
  "g_and ts n \<Longrightarrow> (\<forall>rest. parse_and (ts @ rest) = and_loop n rest)"
  "g_prim ts n \<Longrightarrow> (\<forall>rest. parse_primary (ts @ rest) = Inr (n, rest))"
proof (induction rule: g_or_g_and_g_prim.inducts)
  case (or_one ts n)
  show ?case
  proof (intro allI impI)
    fix rest :: "string list"
    assume "rest = [] \<or> hd rest \<noteq> ''&''"
    then have "and_loop n rest = Inr (n, rest)" by (cases rest) auto
    then show "parse_or (ts @ rest) = or_loop n rest" using or_one by simp
  qed
next
  case (or_more ts l us r)
  show ?case
  proof (intro allI impI)
    fix rest :: "string list"
    assume "rest = [] \<or> hd rest \<noteq> ''&''"
    then have "and_loop r rest = Inr (r, rest)" by (cases rest) auto
    then show "parse_or ((ts @ ''|'' # us) @ rest) = or_loop (OrNode l r) rest" using or_more by simp
  qed
next
  case (leaf t1 t2 oper t3)
  then show ?case by (auto simp: parse_cmp_def is_operator_def)
qed (simp_all add: expect_def)

text \<open>
  C34: \<open>Parse\<close> accepts exactly the sentences of its documented grammar, and returns the tree the
  grammar gives them: \<open>|\<close> below \<open>&\<close>, both to the left.
\<close>

theorem parse_tokens_iff_grammar: "parse_tokens ts = Inr n \<longleftrightarrow> g_or ts n"
proof
  assume "parse_tokens ts = Inr n"
  then have "parse_or ts = Inr (n, [])"
    by (auto simp: parse_tokens_def split: sum.splits list.splits)
  then show "g_or ts n" using parser_sound(1) by fastforce
next
  assume "g_or ts n"
  then have "parse_or (ts @ []) = or_loop n []" using parser_complete(1) by blast
  then show "parse_tokens ts = Inr n" by (simp add: parse_tokens_def)
qed

subsection \<open>Printing and reading back\<close>

fun op_text :: "cmp_op \<Rightarrow> string" where
  "op_text OpEq = ''==''"
| "op_text OpNeq = ''!=''"
| "op_text OpLt = ''<''"
| "op_text OpGt = ''>''"
| "op_text OpLte = ''<=''"
| "op_text OpGte = ''>=''"

lemma cmp_op_of_op_text [simp]: "cmp_op_of (op_text oper) = Some oper"
  by (cases oper) (simp_all add: cmp_op_of_def)

fun value_text :: "val \<Rightarrow> string" where
  "value_text (VBool b) = (if b then ''true'' else ''false'')"
| "value_text (VInt i) = itoa i"
| "value_text (VFloat64 f) = format_float f"
| "value_text (VStr s) = quote # s @ [quote]"
| "value_text v = []"

definition ref_text :: "string \<Rightarrow> string \<Rightarrow> string" where
  "ref_text cn fct = (if cn = [] then fct else cn @ CHR ''.'' # fct)"

fun node_tokens :: "node \<Rightarrow> string list" where
  "node_tokens (AndNode l r) = ''('' # node_tokens l @ ''&'' # node_tokens r @ ['')'']"
| "node_tokens (OrNode l r) = ''('' # node_tokens l @ ''|'' # node_tokens r @ ['')'']"
| "node_tokens (CmpNode cn fct oper v) = [ref_text cn fct, op_text oper, value_text v]"

definition node_text :: "node \<Rightarrow> string" where
  "node_text n = join '' '' (node_tokens n)"

definition word_token :: "string \<Rightarrow> bool" where
  "word_token t \<longleftrightarrow>
     (case t of [] \<Rightarrow> False | c # cs \<Rightarrow> (is_word_start c \<or> c = CHR ''-'') \<and> list_all is_word_continue cs)"

fun value_ok :: "val \<Rightarrow> bool" where
  "value_ok (VBool b) = True"
| "value_ok (VInt i) = (- (2 ^ 63) \<le> i \<and> i < 2 ^ 63)"
| "value_ok (VFloat64 f) = (word_token (format_float f) \<and> infer_value (format_float f) = VFloat64 f)"
| "value_ok (VStr s) = (quote \<notin> set s)"
| "value_ok v = False"

definition ref_ok :: "string \<Rightarrow> string \<Rightarrow> bool" where
  "ref_ok cn fct \<longleftrightarrow>
     word_token (ref_text cn fct) \<and> CHR ''.'' \<notin> set cn \<and> (cn = [] \<longrightarrow> CHR ''.'' \<notin> set fct)"

fun printable :: "node \<Rightarrow> bool" where
  "printable (AndNode l r) = (printable l \<and> printable r)"
| "printable (OrNode l r) = (printable l \<and> printable r)"
| "printable (CmpNode cn fct oper v) = (ref_ok cn fct \<and> value_ok v)"

lemma word_start_code: "is_word_start c \<or> c = CHR ''-'' \<Longrightarrow> is_word_continue c"
  by (auto simp: is_word_start_def is_word_continue_def)

lemma word_char_not_operator:
  "is_word_continue c \<Longrightarrow>
   c \<notin> {CHR ''='', CHR ''!'', CHR ''<'', CHR ''>'', CHR ''&'', CHR ''|'', CHR ''('', CHR '')'', quote, CHR '' ''}"
  by (auto simp: is_word_continue_def is_letter_def is_digit_def char_code_def Let_def quote_def)

lemma word_token_not_operator: "word_token t \<Longrightarrow> \<not> is_operator t"
  by (cases t)
    (auto simp: word_token_def is_operator_def cmp_op_of_def dest!: word_start_code word_char_not_operator
      split: if_splits)

lemma split_ref_text: "ref_ok cn fct \<Longrightarrow> split_ref (ref_text cn fct) = (cn, fct)"
  by (auto simp: ref_ok_def ref_text_def split_ref_def cut_append cut_None_iff [THEN iffD2])

lemma digit_is_word: "is_digit c \<Longrightarrow> is_word_start c \<and> is_word_continue c"
  by (simp add: is_word_start_def is_word_continue_def)

lemma word_token_itoa: "word_token (itoa i)"
proof (cases "i < 0")
  case True
  then show ?thesis using nat_to_dec_digits [of "nat (- i)"]
    by (auto simp: itoa_def word_token_def list_all_iff dest: digit_is_word)
next
  case False
  obtain c cs where cs: "nat_to_dec (nat i) = c # cs" by (cases "nat_to_dec (nat i)") auto
  then show ?thesis using False nat_to_dec_digits [of "nat i"]
    by (auto simp: itoa_def word_token_def list_all_iff dest: digit_is_word)
qed

lemma word_token_bools: "word_token ''true''" "word_token ''false''"
  by (simp_all add: word_token_def is_word_start_def is_word_continue_def is_letter_def char_code_def)

lemma word_token_not_quoted: "word_token t \<Longrightarrow> parse_value t = infer_value t"
  by (cases t) (auto simp: word_token_def parse_value_def dest!: word_start_code word_char_not_operator)

lemma infer_itoa:
  assumes "- (2 ^ 63) \<le> i" and "i < 2 ^ 63"
  shows "infer_value (itoa i) = VInt i"
proof -
  have "atoi (itoa i) = Some i" using assms by (rule atoi_itoa)
  moreover have "atoi ''true'' = None" "atoi ''false'' = None"
    by (simp_all add: atoi_def atoi_digits_def is_digit_def char_code_def)
  ultimately show ?thesis by (auto simp: infer_value_def)
qed

lemma parse_value_text: "value_ok v \<Longrightarrow> parse_value (value_text v) = v"
proof (cases v)
  case (VInt i)
  assume "value_ok v"
  with VInt show ?thesis using infer_itoa [of i] by (simp add: word_token_not_quoted word_token_itoa)
next
  case (VBool b)
  then show ?thesis by (auto simp: parse_value_def infer_value_def quote_def)
qed (auto simp: word_token_not_quoted, simp add: parse_value_def)

lemma grammar_node_tokens: "printable n \<Longrightarrow> g_prim (node_tokens n) n"
proof (induction n)
  case (AndNode l r)
  then have "g_or (node_tokens l @ ''&'' # node_tokens r) (AndNode l r)"
    by (auto intro: or_one and_one and_more)
  then show ?case using paren by fastforce
next
  case (OrNode l r)
  then have "g_or (node_tokens l @ ''|'' # node_tokens r) (OrNode l r)"
    by (auto intro: or_one and_one or_more)
  then show ?case using paren by fastforce
next
  case (CmpNode cn fct oper v)
  then have ok: "ref_ok cn fct" "value_ok v" by simp_all
  then have "\<not> is_operator (ref_text cn fct)" by (simp add: ref_ok_def word_token_not_operator)
  from leaf [OF this cmp_op_of_op_text [of oper], of "value_text v"] ok show ?case
    by (simp add: split_ref_text parse_value_text)
qed

text \<open>Tokens the tokeniser gives back from a text that separates them by spaces.\<close>

definition lexeme :: "string \<Rightarrow> bool" where
  "lexeme t \<longleftrightarrow>
     word_token t \<or> is_operator t \<or> (\<exists>a. t = quote # a @ [quote] \<and> quote \<notin> set a)"

lemma is_operator_cases:
  "is_operator t \<longleftrightarrow>
   t \<in> {''=='', ''!='', ''<'', ''>'', ''<='', ''>='', ''&'', ''|'', ''('', '')''}"
  by (auto simp: is_operator_def cmp_op_of_def)

lemma space_code: "is_space CHR '' ''" "\<not> is_word_continue CHR '' ''"
  by (simp_all add: is_space_def is_word_continue_def is_letter_def is_digit_def char_code_def)

lemma word_char_not_space: "is_word_continue c \<Longrightarrow> \<not> is_space c"
  by (auto simp: is_space_def is_word_continue_def is_letter_def is_digit_def char_code_def Let_def)

lemma takeWhile_word: "list_all P xs \<Longrightarrow> rest = [] \<or> \<not> P (hd rest) \<Longrightarrow>
   takeWhile P (xs @ rest) = xs \<and> dropWhile P (xs @ rest) = rest"
  by (induction xs) (auto, (cases rest; simp)+)

lemma tokenize_lexeme:
  assumes "lexeme t" and rest: "rest = [] \<or> hd rest = CHR '' ''"
  shows "tokenize (t @ rest) = cons_token t (tokenize rest)"
proof -
  have "\<not> is_word_continue (hd rest) \<or> rest = []" using rest space_code by auto
  consider (word) "word_token t" | (oper) "is_operator t" | (quoted) a where "t = quote # a @ [quote]" "quote \<notin> set a"
    using assms(1) by (auto simp: lexeme_def)
  then show ?thesis
  proof cases
    case word
    then obtain c cs where t: "t = c # cs" and c: "is_word_start c \<or> c = CHR ''-''"
      and cs: "list_all is_word_continue cs"
      by (cases t) (auto simp: word_token_def)
    have "\<not> is_space c" "\<not> is_cmp_start c" "c \<noteq> CHR ''&''" "c \<noteq> CHR ''|''" "c \<noteq> CHR ''(''" "c \<noteq> CHR '')''" "c \<noteq> quote"
      using word_start_code [OF c, THEN word_char_not_space] word_start_code [OF c, THEN word_char_not_operator]
      by (auto simp: is_cmp_start_def)
    moreover have "takeWhile is_word_continue (cs @ rest) = cs" "dropWhile is_word_continue (cs @ rest) = rest"
      using takeWhile_word [OF cs, of rest] \<open>\<not> is_word_continue (hd rest) \<or> rest = []\<close> by blast+
    ultimately show ?thesis
      using c by (simp only: t append_Cons tokenize.simps(2) if_True if_False simp_thms)
  next
    case oper
    then show ?thesis using rest
      by (cases rest)
        (auto simp: is_operator_cases tokenize.simps(2) is_space_def is_cmp_start_def split: list.splits)
  next
    case quoted
    then show ?thesis
      by (simp add: tokenize.simps(2) cut_append is_space_def is_cmp_start_def quote_def)
  qed
qed

lemma tokenize_space: "tokenize (CHR '' '' # s) = tokenize s"
  by (simp add: tokenize.simps(2) space_code)

lemma tokenize_join: "list_all lexeme ts \<Longrightarrow> tokenize (join '' '' ts) = Inr ts"
proof (induction ts)
  case (Cons x xs)
  then show ?case using tokenize_lexeme [of x "[]"]
    by (cases xs) (simp_all add: tokenize_lexeme tokenize_space)
qed simp

lemma lexeme_node_tokens: "printable n \<Longrightarrow> list_all lexeme (node_tokens n)"
proof (induction n)
  case (CmpNode cn fct oper v)
  then have "lexeme (ref_text cn fct)" by (simp add: ref_ok_def lexeme_def)
  moreover have "lexeme (op_text oper)" by (cases oper) (simp_all add: lexeme_def is_operator_cases)
  moreover have "lexeme (value_text v)" using CmpNode
    by (cases v) (auto simp: lexeme_def word_token_itoa word_token_bools)
  ultimately show ?case by simp
qed (auto simp: lexeme_def is_operator_cases)

text \<open>
  Printing an AST and parsing the text gives the AST back, for every AST whose references are
  words and whose literals print as a value of their own type.
\<close>

theorem parse_node_text: "printable n \<Longrightarrow> parse (node_text n) = Inr n"
  using grammar_node_tokens [of n] lexeme_node_tokens [of n]
  by (simp add: parse_def node_text_def tokenize_join parse_tokens_iff_grammar and_one or_one)

theorem parse_node_text_witness:
  "parse (node_text (AndNode (CmpNode ''service/acme'' ''ready'' OpLt (VInt 3))
        (OrNode (CmpNode [] ''phase'' OpEq (VStr ''42'')) (CmpNode [] ''up'' OpEq (VBool True))))) =
     Inr (AndNode (CmpNode ''service/acme'' ''ready'' OpLt (VInt 3))
        (OrNode (CmpNode [] ''phase'' OpEq (VStr ''42'')) (CmpNode [] ''up'' OpEq (VBool True))))"
  by (rule parse_node_text)
    (simp add: ref_ok_def ref_text_def word_token_def is_word_start_def is_word_continue_def
      is_letter_def is_digit_def char_code_def quote_def)

end
