(* ===== verification/Sem_Ver.thy ===== *)
theory Sem_Ver
  imports Go_Num
begin

text \<open>
  Semantic versions and constraints (\<open>internal/model/semver.go\<close>): parsing, comparison, caret ranges
  and comma-separated conditions. Errors are values that keep what the messages name.

  The lemmas show that comparison is the lexicographic order, that a version's text reads back, and
  which versions a caret constraint accepts.
\<close>

record sem_version =
  sv_major :: int
  sv_minor :: int
  sv_patch :: int

datatype semver_error =
    TooManySegments string
  | BadSegment string string
  | BadCaret string semver_error
  | BadConstraint string semver_error

fun parse_segments :: "string \<Rightarrow> string list \<Rightarrow> semver_error + int list" where
  "parse_segments s [] = Inr []"
| "parse_segments s (p # ps) =
     (case atoi p of
        None \<Rightarrow> Inl (BadSegment s p)
      | Some n \<Rightarrow>
          if n < 0 then Inl (BadSegment s p)
          else (case parse_segments s ps of Inl e \<Rightarrow> Inl e | Inr ns \<Rightarrow> Inr (n # ns)))"

text \<open>\<open>nums\<close> starts as three zeros.\<close>

definition nth_or_zero :: "int list \<Rightarrow> nat \<Rightarrow> int" where
  "nth_or_zero ns i = (if i < length ns then ns ! i else 0)"

definition parse_sem_ver :: "string \<Rightarrow> semver_error + sem_version" where
  "parse_sem_ver s0 =
     (let s = takeWhile (\<lambda>c. c \<noteq> CHR ''-'' \<and> c \<noteq> CHR ''+'') (trim_prefix (trim_space s0) ''v'');
          parts = split_on CHR ''.'' s
      in if length parts < 1 \<or> length parts > 3 then Inl (TooManySegments s)
         else (case parse_segments s parts of
                 Inl e \<Rightarrow> Inl e
               | Inr ns \<Rightarrow> Inr \<lparr>sv_major = nth_or_zero ns 0, sv_minor = nth_or_zero ns 1, sv_patch = nth_or_zero ns 2\<rparr>))"

definition compare_versions :: "sem_version \<Rightarrow> sem_version \<Rightarrow> int" where
  "compare_versions a b =
     (if sv_major a \<noteq> sv_major b then (if sv_major a < sv_major b then - 1 else 1)
      else if sv_minor a \<noteq> sv_minor b then (if sv_minor a < sv_minor b then - 1 else 1)
      else if sv_patch a \<noteq> sv_patch b then (if sv_patch a < sv_patch b then - 1 else 1)
      else 0)"

datatype version_op = VEq | VGe | VGt | VLe | VLt

definition split_version_op :: "string \<Rightarrow> version_op \<times> string" where
  "split_version_op c =
     (if has_prefix c ''>='' then (VGe, drop 2 c)
      else if has_prefix c ''<='' then (VLe, drop 2 c)
      else if has_prefix c ''>'' then (VGt, drop 1 c)
      else if has_prefix c ''<'' then (VLt, drop 1 c)
      else (VEq, c))"

fun op_holds :: "version_op \<Rightarrow> int \<Rightarrow> bool" where
  "op_holds VEq k = (k = 0)"
| "op_holds VGe k = (0 \<le> k)"
| "op_holds VGt k = (0 < k)"
| "op_holds VLe k = (k \<le> 0)"
| "op_holds VLt k = (k < 0)"

definition satisfies_single :: "sem_version \<Rightarrow> string \<Rightarrow> semver_error + bool" where
  "satisfies_single v c =
     (case split_version_op c of
        (oper, vstr) \<Rightarrow>
          (case parse_sem_ver vstr of
             Inl e \<Rightarrow> Inl (BadConstraint c e)
           | Inr other \<Rightarrow> Inr (op_holds oper (compare_versions v other))))"

text \<open>\<open>fmt.Sprintf("%d.%d.%d", ...)\<close>; the sum of a 64-bit \<open>int\<close> and one wraps.\<close>

definition dotted :: "int \<Rightarrow> int \<Rightarrow> int \<Rightarrow> string" where
  "dotted a b c = join ''.'' [itoa a, itoa b, itoa c]"

definition next_int :: "int \<Rightarrow> int" where
  "next_int i = (i + 1 + 2 ^ 63) mod 2 ^ 64 - 2 ^ 63"

fun caret_parts :: "string list \<Rightarrow> semver_error + string list" where
  "caret_parts [] = Inr []"
| "caret_parts (p0 # ps) =
     (let p = trim_space p0
      in if \<not> has_prefix p ''^''
         then (case caret_parts ps of Inl e \<Rightarrow> Inl e | Inr out \<Rightarrow> Inr (p # out))
         else (case parse_sem_ver (trim_prefix p ''^'') of
                 Inl e \<Rightarrow> Inl (BadCaret p e)
               | Inr base \<Rightarrow>
                   (let lo = dotted (sv_major base) (sv_minor base) (sv_patch base);
                        hi = (if 1 \<le> sv_major base then dotted (next_int (sv_major base)) 0 0
                              else dotted 0 (next_int (sv_minor base)) 0)
                    in case caret_parts ps of
                         Inl e \<Rightarrow> Inl e
                       | Inr out \<Rightarrow> Inr ((''>='' @ lo) # (''<'' @ hi) # out))))"

definition expand_caret :: "string \<Rightarrow> semver_error + string" where
  "expand_caret constraint =
     (case caret_parts (split_on CHR '','' constraint) of
        Inl e \<Rightarrow> Inl e
      | Inr out \<Rightarrow> Inr (join '','' out))"

fun satisfies_parts :: "sem_version \<Rightarrow> string list \<Rightarrow> semver_error + bool" where
  "satisfies_parts v [] = Inr True"
| "satisfies_parts v (part # parts) =
     (case satisfies_single v (trim_space part) of
        Inl e \<Rightarrow> Inl e
      | Inr ok \<Rightarrow> if \<not> ok then Inr False else satisfies_parts v parts)"

definition satisfies :: "sem_version \<Rightarrow> string \<Rightarrow> semver_error + bool" where
  "satisfies v constraint0 =
     (let constraint = trim_space constraint0
      in if constraint = [] then Inr True
         else (case expand_caret constraint of
                 Inl e \<Rightarrow> Inl e
               | Inr expanded \<Rightarrow> satisfies_parts v (split_on CHR '','' expanded)))"

subsection \<open>Comparison\<close>

definition version_less :: "sem_version \<Rightarrow> sem_version \<Rightarrow> bool" where
  "version_less a b \<longleftrightarrow> compare_versions a b < 0"

lemma strict_weak_version_less: "strict_weak version_less"
proof -
  have "version_less = (\<lambda>a b. if sv_major a \<noteq> sv_major b then sv_major a < sv_major b
      else if sv_minor a \<noteq> sv_minor b then sv_minor a < sv_minor b else sv_patch a < sv_patch b)"
    by (auto simp: fun_eq_iff version_less_def compare_versions_def)
  then show ?thesis by (rule ssubst) (intro strict_weak_lex strict_weak_key)
qed

text \<open>
  Comparison is a total order on versions: the sign changes with the arguments' order, it is zero
  only for equal versions, and it composes.
\<close>

theorem compare_versions_order:
  "compare_versions b a = - compare_versions a b \<and> (compare_versions a b = 0 \<longleftrightarrow> a = b) \<and>
   compare_versions a b \<in> {- 1, 0, 1}"
  by (cases a; cases b) (auto simp: compare_versions_def)

lemma compare_versions_trans:
  "compare_versions a b \<le> 0 \<Longrightarrow> compare_versions b c \<le> 0 \<Longrightarrow> compare_versions a c \<le> 0"
  using strict_weak_neg_trans [OF strict_weak_version_less, of c b a]
  by (auto simp: version_less_def compare_versions_def split: if_splits)

subsection \<open>Texts\<close>

definition version_ok :: "sem_version \<Rightarrow> bool" where
  "version_ok v \<longleftrightarrow>
     0 \<le> sv_major v \<and> sv_major v < 2 ^ 63 \<and> 0 \<le> sv_minor v \<and> sv_minor v < 2 ^ 63 \<and>
     0 \<le> sv_patch v \<and> sv_patch v < 2 ^ 63"

lemma itoa_digits: "0 \<le> i \<Longrightarrow> list_all is_digit (itoa i)"
  by (simp add: itoa_def nat_to_dec_digits)

lemma itoa_nonempty [simp]: "itoa i \<noteq> []"
  by (simp add: itoa_def)

lemma digit_not_special:
  "is_digit c \<Longrightarrow> \<not> is_space c \<and> c \<notin> {CHR ''-'', CHR ''+'', CHR ''.'', CHR '','', CHR ''v'', CHR ''^''}"
  by (auto simp: is_digit_def is_space_def char_code_def)

lemma set_itoa: "0 \<le> i \<Longrightarrow> c \<in> set (itoa i) \<Longrightarrow> is_digit c"
  using itoa_digits [of i] by (simp add: list_all_iff)

lemma dotted_chars:
  "0 \<le> a \<Longrightarrow> 0 \<le> b \<Longrightarrow> 0 \<le> c \<Longrightarrow> x \<in> set (dotted a b c) \<Longrightarrow> is_digit x \<or> x = CHR ''.''"
  by (auto simp: dotted_def dest: set_itoa)

lemma dotted_plain:
  assumes "0 \<le> a" "0 \<le> b" "0 \<le> c" "x \<in> set (dotted a b c)"
  shows "\<not> is_space x \<and> x \<noteq> CHR ''-'' \<and> x \<noteq> CHR ''+'' \<and> x \<noteq> CHR '',''"
  using dotted_chars [OF assms] digit_not_special [of x] by (auto simp: is_space_def)

lemma dotted_hd: "0 \<le> a \<Longrightarrow> \<not> has_prefix (dotted a b c) ''v''"
  using set_itoa [of a "hd (itoa a)"] digit_not_special [of "hd (itoa a)"]
  by (cases "itoa a") (auto simp: dotted_def)

text \<open>
  The text of a version, as the caret expansion prints it, parses back to the version.
\<close>

theorem parse_dotted:
  assumes "version_ok v"
  shows "parse_sem_ver (dotted (sv_major v) (sv_minor v) (sv_patch v)) = Inr v"
proof -
  let ?s = "dotted (sv_major v) (sv_minor v) (sv_patch v)"
  have b: "0 \<le> sv_major v" "0 \<le> sv_minor v" "0 \<le> sv_patch v" using assms by (auto simp: version_ok_def)
  have t1: "trim_space ?s = ?s" using dotted_plain [OF b] by (intro trim_space_no_space) blast
  have t2: "trim_prefix ?s ''v'' = ?s" using dotted_hd [OF b(1)] by (simp add: trim_prefix_def)
  have t3: "takeWhile (\<lambda>c. c \<noteq> CHR ''-'' \<and> c \<noteq> CHR ''+'') ?s = ?s"
    using dotted_plain [OF b] by (simp add: takeWhile_eq_all_conv)
  have t4: "split_on CHR ''.'' ?s = [itoa (sv_major v), itoa (sv_minor v), itoa (sv_patch v)]"
    unfolding dotted_def using b set_itoa digit_not_special by (intro split_on_join) auto
  have "atoi (itoa (sv_major v)) = Some (sv_major v)" "atoi (itoa (sv_minor v)) = Some (sv_minor v)"
      "atoi (itoa (sv_patch v)) = Some (sv_patch v)"
    using assms by (simp_all add: version_ok_def atoi_itoa)
  with b have "parse_segments ?s [itoa (sv_major v), itoa (sv_minor v), itoa (sv_patch v)] =
      Inr [sv_major v, sv_minor v, sv_patch v]" by simp
  then show ?thesis
    by (simp only: parse_sem_ver_def Let_def t1 t2 t3 t4) (simp add: nth_or_zero_def)
qed

definition ex_version :: sem_version where
  "ex_version = \<lparr>sv_major = 0, sv_minor = 2, sv_patch = 9\<rparr>"

theorem parse_dotted_witness: "parse_sem_ver (dotted 0 2 9) = Inr ex_version"
  using parse_dotted [of ex_version] by (simp add: version_ok_def ex_version_def)

subsection \<open>Caret constraints\<close>

lemma parse_segments_range:
  "parse_segments s ps = Inr ns \<Longrightarrow> \<forall>n\<in>set ns. 0 \<le> n \<and> n < 2 ^ 63"
proof (induction s ps arbitrary: ns rule: parse_segments.induct)
  case (1 s)
  then show ?case by simp
next
  case (2 s p ps)
  then obtain n ms where n: "atoi p = Some n" "\<not> n < 0" "parse_segments s ps = Inr ms" "ns = n # ms"
    by (auto split: option.splits if_splits sum.splits)
  have "\<forall>m\<in>set ms. 0 \<le> m \<and> m < 2 ^ 63" using "2.IH" [OF n(1,2,3)] .
  then show ?case using n(2,4) atoi_range [OF n(1)] by simp
qed

lemma nth_or_zero_range:
  "\<forall>n\<in>set ns. 0 \<le> n \<and> n < 2 ^ 63 \<Longrightarrow> 0 \<le> nth_or_zero ns i \<and> nth_or_zero ns i < 2 ^ 63"
  by (simp add: nth_or_zero_def)

lemma parse_sem_ver_ok:
  assumes "parse_sem_ver s = Inr v"
  shows "version_ok v"
proof -
  from assms obtain t ps ns where ns: "parse_segments t ps = Inr ns"
    and v: "v = \<lparr>sv_major = nth_or_zero ns 0, sv_minor = nth_or_zero ns 1, sv_patch = nth_or_zero ns 2\<rparr>"
    unfolding parse_sem_ver_def Let_def by (simp split: if_splits sum.splits)
  note range = nth_or_zero_range [OF parse_segments_range [OF ns]]
  show ?thesis unfolding v version_ok_def
    using range [of 0] range [of 1] range [of 2] by simp
qed

lemma next_int_id: "0 \<le> i \<Longrightarrow> i < 2 ^ 63 - 1 \<Longrightarrow> next_int i = i + 1"
  by (simp add: next_int_def)

lemma parse_sem_ver_trim: "trim_space s = trim_space t \<Longrightarrow> parse_sem_ver s = parse_sem_ver t"
  by (simp add: parse_sem_ver_def)

lemma satisfies_single_text:
  assumes "version_ok w"
  shows "satisfies_single v (''>='' @ dotted (sv_major w) (sv_minor w) (sv_patch w)) = Inr (0 \<le> compare_versions v w)"
    and "satisfies_single v (''<'' @ dotted (sv_major w) (sv_minor w) (sv_patch w)) = Inr (compare_versions v w < 0)"
proof -
  let ?s = "dotted (sv_major w) (sv_minor w) (sv_patch w)"
  obtain c cs where c: "?s = c # cs" "is_digit c"
    using assms set_itoa [of "sv_major w" "hd (itoa (sv_major w))"]
    by (cases "itoa (sv_major w)") (auto simp: dotted_def version_ok_def)
  have "c \<noteq> CHR ''=''" using c(2) by (auto simp: is_digit_def char_code_def)
  then show "satisfies_single v (''>='' @ ?s) = Inr (0 \<le> compare_versions v w)"
    "satisfies_single v (''<'' @ ?s) = Inr (compare_versions v w < 0)"
    using parse_dotted [OF assms] c(1) by (simp_all add: satisfies_single_def split_version_op_def)
qed

text \<open>The first version a caret constraint on \<open>b\<close> excludes.\<close>

definition caret_limit :: "sem_version \<Rightarrow> sem_version" where
  "caret_limit b =
     (if 1 \<le> sv_major b then \<lparr>sv_major = sv_major b + 1, sv_minor = 0, sv_patch = 0\<rparr>
      else \<lparr>sv_major = 0, sv_minor = sv_minor b + 1, sv_patch = 0\<rparr>)"

lemma expand_caret_text:
  assumes b: "parse_sem_ver s = Inr b" and comma: "CHR '','' \<notin> set s"
    and small: "sv_major b < 2 ^ 63 - 1" "sv_minor b < 2 ^ 63 - 1"
  shows "expand_caret (trim_space (CHR ''^'' # s)) =
    Inr ((''>='' @ dotted (sv_major b) (sv_minor b) (sv_patch b)) @ CHR '','' #
         (''<'' @ dotted (sv_major (caret_limit b)) (sv_minor (caret_limit b)) (sv_patch (caret_limit b))))"
proof -
  let ?r = "rev (dropWhile is_space (rev s))"
  have ok: "version_ok b" using b by (rule parse_sem_ver_ok)
  have trim: "trim_space (CHR ''^'' # x) = CHR ''^'' # rev (dropWhile is_space (rev x))" for x
    by (intro trim_space_Cons) (simp add: is_space_def)
  have idem: "trim_space (CHR ''^'' # ?r) = CHR ''^'' # ?r" by (simp add: trim)
  have "CHR '','' \<notin> set ?r" using comma set_dropWhileD by fastforce
  then have parts: "split_on CHR '','' (CHR ''^'' # ?r) = [CHR ''^'' # ?r]" by (intro split_on_clean) auto
  have base: "parse_sem_ver ?r = Inr b" using parse_sem_ver_trim [OF trim_space_right] b by simp
  have hi: "(if 1 \<le> sv_major b then dotted (next_int (sv_major b)) 0 0 else dotted 0 (next_int (sv_minor b)) 0) =
      dotted (sv_major (caret_limit b)) (sv_minor (caret_limit b)) (sv_patch (caret_limit b))"
    using ok small by (simp add: caret_limit_def next_int_id version_ok_def)
  have "caret_parts [CHR ''^'' # ?r] =
      Inr [''>='' @ dotted (sv_major b) (sv_minor b) (sv_patch b),
           ''<'' @ dotted (sv_major (caret_limit b)) (sv_minor (caret_limit b)) (sv_patch (caret_limit b))]"
    by (simp add: Let_def idem trim_prefix_def base hi del: rev.simps)
  then show ?thesis by (simp only: expand_caret_def trim parts sum.case) simp
qed

text \<open>
  A caret constraint accepts exactly the versions from its base up to, but not including, the
  next major version, or, below 1.0.0, the next minor version.
\<close>

theorem satisfies_caret:
  assumes b: "parse_sem_ver s = Inr b" and comma: "CHR '','' \<notin> set s"
    and small: "sv_major b < 2 ^ 63 - 1" "sv_minor b < 2 ^ 63 - 1"
  shows "satisfies v (CHR ''^'' # s) =
    Inr (0 \<le> compare_versions v b \<and>
         compare_versions v
           (if 1 \<le> sv_major b then \<lparr>sv_major = sv_major b + 1, sv_minor = 0, sv_patch = 0\<rparr>
            else \<lparr>sv_major = 0, sv_minor = sv_minor b + 1, sv_patch = 0\<rparr>) < 0)"
  unfolding caret_limit_def [symmetric]
proof -
  let ?lo = "''>='' @ dotted (sv_major b) (sv_minor b) (sv_patch b)"
  let ?hi = "''<'' @ dotted (sv_major (caret_limit b)) (sv_minor (caret_limit b)) (sv_patch (caret_limit b))"
  have ok: "version_ok b" using b by (rule parse_sem_ver_ok)
  then have lim: "version_ok (caret_limit b)"
    using small by (auto simp: version_ok_def caret_limit_def)
  have lo: "x \<noteq> CHR '','' \<and> \<not> is_space x" if "x \<in> set ?lo" for x
    using that dotted_plain ok by (fastforce simp: version_ok_def is_space_def)
  have hi: "x \<noteq> CHR '','' \<and> \<not> is_space x" if "x \<in> set ?hi" for x
    using that dotted_plain lim by (fastforce simp: version_ok_def is_space_def)
  have parts: "split_on CHR '','' (?lo @ CHR '','' # ?hi) = [?lo, ?hi]"
    using lo hi by (subst split_on_append) (blast, subst split_on_clean, blast, rule refl)
  have trims: "trim_space ?lo = ?lo" "trim_space ?hi = ?hi"
    using lo hi by (blast intro!: trim_space_no_space)+
  have ne: "trim_space (CHR ''^'' # s) \<noteq> []"
    by (subst trim_space_Cons) (simp_all add: is_space_def)
  show "satisfies v (CHR ''^'' # s) = Inr (0 \<le> compare_versions v b \<and> compare_versions v (caret_limit b) < 0)"
    unfolding satisfies_def Let_def if_not_P [OF ne] expand_caret_text [OF assms] sum.case parts
      satisfies_parts.simps trims satisfies_single_text [OF ok] satisfies_single_text [OF lim]
    by auto
qed

theorem satisfies_caret_witness:
  "satisfies ex_version ''^0.2'' = Inr True" (is "?l = _")
proof -
  have b: "parse_sem_ver ''0.2'' = Inr \<lparr>sv_major = 0, sv_minor = 2, sv_patch = 0\<rparr>"
    by code_simp
  have "?l = Inr (0 \<le> compare_versions ex_version \<lparr>sv_major = 0, sv_minor = 2, sv_patch = 0\<rparr> \<and>
      compare_versions ex_version \<lparr>sv_major = 0, sv_minor = 3, sv_patch = 0\<rparr> < 0)"
    by (subst satisfies_caret [OF b]) simp_all
  then show ?thesis by (simp add: compare_versions_def ex_version_def)
qed

end
