(* ===== verification/Provider_Resolve.thy ===== *)
theory Provider_Resolve
  imports Sem_Ver
begin

text \<open>
  Provider references and their resolution against the installed providers
  (\<open>internal/model/providerref.go\<close>, \<open>internal/model/resolve.go\<close>). Error messages are kept as the
  texts they print; \<open>%q\<close> is modelled on text with nothing to escape.

  The lemmas show that the printed form of a parsed reference parses back to it, that what a
  reference resolves to is a matching install no other match outranks, and that every unresolved
  reference is reported.
\<close>

definition quoted :: "string \<Rightarrow> string" where
  "quoted s = CHR 0x22 # s @ [CHR 0x22]"

subsection \<open>References\<close>

record provider_ref =
  pr_namespace :: string
  pr_name :: string
  pr_constraint :: string
  pr_bare :: bool

datatype ref_error =
    EmptyRef
  | TooManyPathSegments string
  | NamespaceWhitespace string
  | NamespaceEmpty string
  | NameWhitespace string
  | NameEmpty string

definition split_version_constraint :: "string \<Rightarrow> string \<times> string" where
  "split_version_constraint s = (case cut CHR ''@'' s of Some (a, b) \<Rightarrow> (a, b) | None \<Rightarrow> (s, []))"

definition split_namespace_and_name :: "string \<Rightarrow> string \<Rightarrow> ref_error + string \<times> string" where
  "split_namespace_and_name s name_part =
     (case split_on CHR ''/'' name_part of
        [n] \<Rightarrow> Inr ([], n)
      | [ns, n] \<Rightarrow> Inr (ns, n)
      | _ \<Rightarrow> Inl (TooManyPathSegments s))"

text \<open>\<open>strings.ContainsAny\<close> with space, tab, newline and carriage return.\<close>

definition has_whitespace :: "string \<Rightarrow> bool" where
  "has_whitespace s = list_ex (\<lambda>c. (of_char c :: nat) \<in> {32, 9, 10, 13}) s"

text \<open>The first rule broken, in the order of the code.\<close>

definition validate_ref_identifiers :: "string \<Rightarrow> string \<Rightarrow> string \<Rightarrow> ref_error option" where
  "validate_ref_identifiers s ns n =
     (if has_whitespace ns then Some (NamespaceWhitespace s)
      else if ns = [] \<and> CHR ''/'' \<in> set s then Some (NamespaceEmpty s)
      else if has_whitespace n then Some (NameWhitespace s)
      else if n = [] then Some (NameEmpty s)
      else None)"

definition parse_provider_ref :: "string \<Rightarrow> ref_error + provider_ref" where
  "parse_provider_ref s0 =
     (let s = trim_space s0
      in if s = [] then Inl EmptyRef
         else (case split_version_constraint s of
                 (name_part, constraint) \<Rightarrow>
                   (case split_namespace_and_name s name_part of
                      Inl e \<Rightarrow> Inl e
                    | Inr (ns, n) \<Rightarrow>
                        (case validate_ref_identifiers s ns n of
                           Some e \<Rightarrow> Inl e
                         | None \<Rightarrow> Inr \<lparr>pr_namespace = ns, pr_name = n, pr_constraint = constraint, pr_bare = (ns = [])\<rparr>))))"

definition ref_string :: "provider_ref \<Rightarrow> string" where
  "ref_string ref =
     (if pr_bare ref
      then (if pr_constraint ref \<noteq> [] then pr_name ref @ ''@'' @ pr_constraint ref else pr_name ref)
      else pr_namespace ref @ ''/'' @ pr_name ref @
           (if pr_constraint ref \<noteq> [] then ''@'' @ pr_constraint ref else []))"

definition install_hint :: "provider_ref \<Rightarrow> string" where
  "install_hint ref = ''mgtt provider install '' @ ref_string ref"

subsection \<open>Resolution\<close>

record resolved_provider =
  rp_ref :: provider_ref
  rp_name :: string
  rp_version :: string
  rp_dir :: string

record resolution_warning =
  rw_ref :: provider_ref
  rw_message :: string

record installed_provider =
  ip_name :: string
  ip_namespace :: string
  ip_version :: string
  ip_dir :: string

text \<open>\<open>strings.EqualFold\<close> over ASCII.\<close>

definition equal_fold :: "string \<Rightarrow> string \<Rightarrow> bool" where
  "equal_fold a b \<longleftrightarrow> map lower_code a = map lower_code b"

definition identity_matches :: "provider_ref \<Rightarrow> installed_provider \<Rightarrow> bool" where
  "identity_matches ref ip =
     (if \<not> equal_fold (ip_name ip) (pr_name ref) then False
      else if pr_bare ref then True
      else equal_fold (ip_namespace ip) (pr_namespace ref))"

definition version_constraint_ok :: "string \<Rightarrow> string \<Rightarrow> bool" where
  "version_constraint_ok constraint installed =
     (if constraint = [] then True
      else if installed = [] then False
      else (case parse_sem_ver installed of
              Inl _ \<Rightarrow> False
            | Inr v \<Rightarrow> satisfies v constraint = Inr True))"

definition filter_matching_installs :: "provider_ref \<Rightarrow> installed_provider list \<Rightarrow> installed_provider list" where
  "filter_matching_installs ref installed =
     filter (\<lambda>ip. identity_matches ref ip \<and> version_constraint_ok (pr_constraint ref) (ip_version ip)) installed"

definition higher_version :: "string \<Rightarrow> string \<Rightarrow> bool" where
  "higher_version a b =
     (case parse_sem_ver a of
        Inl _ \<Rightarrow> False
      | Inr va \<Rightarrow> (case parse_sem_ver b of Inl _ \<Rightarrow> True | Inr vb \<Rightarrow> 0 < compare_versions va vb))"

text \<open>\<open>pickHighestVersion\<close>: a non-empty slice is its first element and the rest.\<close>

definition pick_highest_version :: "installed_provider \<Rightarrow> installed_provider list \<Rightarrow> installed_provider" where
  "pick_highest_version c cs =
     foldl (\<lambda>best c. if higher_version (ip_version c) (ip_version best) then c else best) c cs"

definition bare_name_warning :: "provider_ref \<Rightarrow> installed_provider \<Rightarrow> resolution_warning option" where
  "bare_name_warning ref best =
     (if \<not> pr_bare ref then None
      else (let fqn = (if ip_namespace best \<noteq> [] then ip_namespace best @ ''/'' @ ip_name best else ip_name best)
            in Some \<lparr>rw_ref = ref,
                     rw_message = ''provider ref '' @ quoted (pr_name ref) @
                       '' is a legacy bare name; consider using the FQN form '' @ quoted fqn @ '' instead''\<rparr>))"

definition resolve_one ::
    "provider_ref \<Rightarrow> installed_provider list \<Rightarrow> string + resolved_provider \<times> resolution_warning option" where
  "resolve_one ref installed =
     (case filter_matching_installs ref installed of
        [] \<Rightarrow> Inl (''no installed provider satisfies '' @ quoted (ref_string ref) @ '' (constraint: '' @ quoted (pr_constraint ref) @
                ''); install with: '' @ install_hint ref)
      | c # cs \<Rightarrow>
          (let best = pick_highest_version c cs
           in Inr (\<lparr>rp_ref = ref, rp_name = ip_name best, rp_version = ip_version best, rp_dir = ip_dir best\<rparr>,
                   bare_name_warning ref best)))"

text \<open>
  \<open>Resolve\<close> returns what it resolved, its warnings, and the messages of what it could not; the
  error is the non-empty list of messages.
\<close>

fun resolve_loop ::
    "provider_ref list \<Rightarrow> installed_provider list \<Rightarrow>
     resolved_provider list \<times> resolution_warning list \<times> string list" where
  "resolve_loop [] installed = ([], [], [])"
| "resolve_loop (ref # refs) installed =
     (case resolve_loop refs installed of
        (rps, ws, errs) \<Rightarrow>
          (case resolve_one ref installed of
             Inl e \<Rightarrow> (rps, ws, e # errs)
           | Inr (rp, w) \<Rightarrow> (rp # rps, (case w of None \<Rightarrow> ws | Some x \<Rightarrow> x # ws), errs)))"

definition resolve ::
    "provider_ref list \<Rightarrow> installed_provider list \<Rightarrow>
     resolved_provider list \<times> resolution_warning list \<times> string list option" where
  "resolve refs installed =
     (case resolve_loop refs installed of
        (rps, ws, errs) \<Rightarrow> (rps, ws, if errs \<noteq> [] then Some errs else None))"

subsection \<open>Reading a reference back\<close>

lemma join_Cons_Cons: "join sep ((c # a) # fs) = c # join sep (a # fs)"
  by (cases fs) auto

lemma join_split_on: "join [sep] (split_on sep s) = s"
proof (induction s)
  case (Cons c s)
  then show ?case
    by (cases "split_on sep s") (auto simp: split_on_nonempty join_Cons_Cons)
qed simp

lemma split_on_fields: "f \<in> set (split_on sep s) \<Longrightarrow> sep \<notin> set f"
  by (induction s arbitrary: f) (auto split: if_splits list.splits)

lemma split_on_one: "split_on sep s = [n] \<longleftrightarrow> s = n \<and> sep \<notin> set n"
  using join_split_on [of sep s] split_on_fields [of n sep s] by (auto simp: split_on_clean)

lemma split_on_two: "split_on sep s = [a, b] \<longleftrightarrow> s = a @ sep # b \<and> sep \<notin> set a \<and> sep \<notin> set b"
  using join_split_on [of sep s] split_on_fields [of _ sep s] by (auto simp: split_on_append split_on_clean)

text \<open>The name part of a reference, as \<open>refString\<close> prints it.\<close>

definition ref_path :: "provider_ref \<Rightarrow> string" where
  "ref_path ref = (if pr_bare ref then pr_name ref else pr_namespace ref @ ''/'' @ pr_name ref)"

lemma ref_string_path:
  "ref_string ref = ref_path ref @ (if pr_constraint ref \<noteq> [] then CHR ''@'' # pr_constraint ref else [])"
  by (simp add: ref_string_def ref_path_def)

text \<open>What a reference that parses looks like, and what its text was.\<close>

definition ref_ok :: "provider_ref \<Rightarrow> bool" where
  "ref_ok ref \<longleftrightarrow>
     pr_bare ref = (pr_namespace ref = []) \<and> pr_name ref \<noteq> [] \<and>
     \<not> has_whitespace (pr_namespace ref) \<and> \<not> has_whitespace (pr_name ref) \<and>
     CHR ''/'' \<notin> set (pr_namespace ref) \<and> CHR ''/'' \<notin> set (pr_name ref) \<and>
     CHR ''@'' \<notin> set (ref_path ref) \<and> (pr_bare ref \<longrightarrow> CHR ''/'' \<notin> set (pr_constraint ref))"

lemma split_namespace_path:
  "split_namespace_and_name s np = Inr (ns, n) \<longleftrightarrow>
     CHR ''/'' \<notin> set n \<and> CHR ''/'' \<notin> set ns \<and>
     (np = ns @ ''/'' @ n \<or> ns = [] \<and> np = n)"
proof -
  have "split_namespace_and_name s np = Inr (ns, n) \<longleftrightarrow>
      ns = [] \<and> split_on CHR ''/'' np = [n] \<or> split_on CHR ''/'' np = [ns, n]"
    by (auto simp: split_namespace_and_name_def split: list.splits)
  then show ?thesis by (auto simp: split_on_one split_on_two)
qed

lemma parse_ref_iff:
  "parse_provider_ref s = Inr ref \<longleftrightarrow>
     trim_space s \<noteq> [] \<and> ref_ok ref \<and>
     (trim_space s = ref_path ref @ CHR ''@'' # pr_constraint ref \<or>
      trim_space s = ref_path ref \<and> pr_constraint ref = [])" (is "?l \<longleftrightarrow> ?r")
proof
  assume ?l
  then obtain np ns n c where ne: "trim_space s \<noteq> []"
    and v: "split_version_constraint (trim_space s) = (np, c)"
    and sp: "split_namespace_and_name (trim_space s) np = Inr (ns, n)"
    and ok: "validate_ref_identifiers (trim_space s) ns n = None"
    and ref: "ref = \<lparr>pr_namespace = ns, pr_name = n, pr_constraint = c, pr_bare = (ns = [])\<rparr>"
    by (auto simp: parse_provider_ref_def Let_def split: if_splits prod.splits sum.splits option.splits)
  from v have t: "CHR ''@'' \<notin> set np \<and> (trim_space s = np @ CHR ''@'' # c \<or> trim_space s = np \<and> c = [])"
    by (auto simp: split_version_constraint_def cut_Some_iff cut_None_iff split: option.splits)
  from ok have o: "\<not> has_whitespace ns" "ns = [] \<longrightarrow> CHR ''/'' \<notin> set (trim_space s)" "\<not> has_whitespace n" "n \<noteq> []"
    by (auto simp: validate_ref_identifiers_def split: if_splits)
  from sp o(2) t have np: "np = ref_path ref" "CHR ''/'' \<notin> set n" "CHR ''/'' \<notin> set ns"
    unfolding split_namespace_path ref by (auto simp: ref_path_def)
  show ?r using ne t o np unfolding ref_ok_def by (auto simp: ref)
next
  assume r: ?r
  let ?ns = "pr_namespace ref" and ?n = "pr_name ref" and ?c = "pr_constraint ref" and ?np = "ref_path ref"
  have ok: "pr_bare ref = (?ns = [])" "?n \<noteq> []" "\<not> has_whitespace ?ns" "\<not> has_whitespace ?n" "CHR ''/'' \<notin> set ?ns"
      "CHR ''/'' \<notin> set ?n" "CHR ''@'' \<notin> set ?np" "pr_bare ref \<longrightarrow> CHR ''/'' \<notin> set ?c"
    using r by (auto simp: ref_ok_def)
  have t: "trim_space s = ?np @ CHR ''@'' # ?c \<or> trim_space s = ?np \<and> ?c = []" using r by blast
  then have v: "split_version_constraint (trim_space s) = (?np, ?c)"
    unfolding split_version_constraint_def
    using cut_append [OF ok(7), of ?c] cut_None_iff [of "CHR ''@''" ?np] ok(7)
    by (elim disjE conjE) simp_all
  have sp: "split_namespace_and_name (trim_space s) ?np = Inr (?ns, ?n)"
    unfolding split_namespace_path using ok by (auto simp: ref_path_def)
  have "validate_ref_identifiers (trim_space s) ?ns ?n = None"
    using ok t by (auto simp: validate_ref_identifiers_def ref_path_def)
  moreover have "\<lparr>pr_namespace = ?ns, pr_name = ?n, pr_constraint = ?c, pr_bare = (?ns = [])\<rparr> = ref"
    using ok(1) by (cases ref) auto
  ultimately show ?l using r by (simp add: parse_provider_ref_def v sp)
qed

lemma trim_space_ends: "trim_space s = t \<Longrightarrow> t \<noteq> [] \<Longrightarrow> \<not> is_space (hd t) \<and> \<not> is_space (last t)"
proof -
  assume "trim_space s = t" "t \<noteq> []"
  then have t: "t = rev (dropWhile is_space (rev (dropWhile is_space s)))" by (simp add: trim_space_def)
  let ?u = "dropWhile is_space s"
  have "?u \<noteq> []" using t \<open>t \<noteq> []\<close> by (metis dropWhile.simps(1) rev.simps(1))
  then have hd: "\<not> is_space (hd ?u)" by (rule hd_dropWhile)
  have last: "\<not> is_space (last t)"
    using t \<open>t \<noteq> []\<close> hd_dropWhile [of is_space "rev ?u"] by (simp add: last_rev)
  obtain v where "?u = t @ v"
    using t takeWhile_dropWhile_id [of is_space "rev ?u"] by (metis rev_append rev_rev_ident)
  with hd \<open>t \<noteq> []\<close> have "\<not> is_space (hd t)" by simp
  with last show ?thesis by simp
qed

text \<open>
  A reference that parses prints as a text that parses to the same reference, whatever space
  surrounded it (for text free of vertical tabs and form feeds, which the identifier check, unlike
  \<open>TrimSpace\<close>, does not count as white space).
\<close>

theorem ref_string_parses:
  assumes ref: "parse_provider_ref s = Inr ref"
    and odd: "CHR 0x0B \<notin> set s" "CHR 0x0C \<notin> set s"
  shows "parse_provider_ref (ref_string ref) = Inr ref"
proof -
  let ?t = "trim_space s"
  have ne: "?t \<noteq> []" and ok: "ref_ok ref"
    and t: "?t = ref_path ref @ CHR ''@'' # pr_constraint ref \<or> ?t = ref_path ref \<and> pr_constraint ref = []"
    using ref by (auto simp: parse_ref_iff)
  note ends = trim_space_ends [OF refl ne]
  have name: "pr_name ref \<noteq> []" using ok by (simp add: ref_ok_def)
  then have path: "ref_path ref \<noteq> []" "last (ref_path ref) = last (pr_name ref)"
    by (auto simp: ref_path_def)
  have sub: "set ?t \<subseteq> set s" by (auto simp: trim_space_def dest!: set_dropWhileD)
  have "last (pr_name ref) \<in> set ?t" using t path last_in_set [of "ref_path ref"] by auto
  with sub odd have "last (pr_name ref) \<noteq> CHR 0x0B" "last (pr_name ref) \<noteq> CHR 0x0C" by auto
  moreover have "(of_char (last (pr_name ref)) :: nat) \<notin> {32, 9, 10, 13}"
    using ok last_in_set [OF name] by (auto simp: ref_ok_def has_whitespace_def list_ex_iff)
  moreover have "x = CHR 0x0B" if "(of_char x :: nat) = 11" for x
    using that of_char_eq_iff [of x "CHR 0x0B", where ?'a = nat] by simp
  moreover have "x = CHR 0x0C" if "(of_char x :: nat) = 12" for x
    using that of_char_eq_iff [of x "CHR 0x0C", where ?'a = nat] by simp
  ultimately have last: "\<not> is_space (last (pr_name ref))" by (auto simp: is_space_def)
  have "trim_space (ref_string ref) = ref_string ref"
  proof (rule trim_space_id, rule disjI2)
    show "\<not> is_space (hd (ref_string ref)) \<and> \<not> is_space (last (ref_string ref))"
      using t ends path last by (auto simp: ref_string_path)
  qed
  then show ?thesis using ok path by (auto simp: parse_ref_iff ref_string_path)
qed

theorem ref_string_parses_witness:
  "parse_provider_ref (ref_string \<lparr>pr_namespace = ''mgt-tool'', pr_name = ''k8s'', pr_constraint = ''^0.2'', pr_bare = False\<rparr>) =
   Inr \<lparr>pr_namespace = ''mgt-tool'', pr_name = ''k8s'', pr_constraint = ''^0.2'', pr_bare = False\<rparr>"
  by (rule ref_string_parses [of "'' mgt-tool/k8s@^0.2''"]) code_simp+

subsection \<open>The highest matching version\<close>

text \<open>\<open>higherVersion\<close> as an order: unreadable versions below every readable one.\<close>

definition lower_version :: "installed_provider \<Rightarrow> installed_provider \<Rightarrow> bool" where
  "lower_version a b \<longleftrightarrow> higher_version (ip_version b) (ip_version a)"

lemma higher_version_less:
  "higher_version a b \<longleftrightarrow>
     (case parse_sem_ver a of
        Inl _ \<Rightarrow> False
      | Inr va \<Rightarrow> (case parse_sem_ver b of Inl _ \<Rightarrow> True | Inr vb \<Rightarrow> version_less vb va))"
  by (auto simp: higher_version_def version_less_def compare_versions_def split: sum.splits)

lemma strict_weak_lower_version: "strict_weak lower_version"
proof -
  have "lower_version = (\<lambda>a b. case parse_sem_ver (ip_version b) of
        Inl _ \<Rightarrow> False
      | Inr vb \<Rightarrow> (case parse_sem_ver (ip_version a) of Inl _ \<Rightarrow> True | Inr va \<Rightarrow> version_less va vb))"
    by (simp add: fun_eq_iff lower_version_def higher_version_less)
  moreover have "strict_weak (\<lambda>a b. case f b of Inl (_ :: semver_error) \<Rightarrow> False
      | Inr vb \<Rightarrow> (case f a of Inl _ \<Rightarrow> True | Inr va \<Rightarrow> version_less va vb))" for f :: "installed_provider \<Rightarrow> semver_error + sem_version"
    unfolding strict_weak_def
  proof (intro conjI allI, goal_cases)
    case (1 x)
    then show ?case using strict_weak_version_less by (cases "f x") (auto simp: strict_weak_def)
  next
    case (2 x y z)
    then show ?case using strict_weak_trans [OF strict_weak_version_less]
      by (cases "f x"; cases "f y"; cases "f z") auto
  next
    case (3 x y z)
    then show ?case using strict_weak_neg_trans [OF strict_weak_version_less]
      by (cases "f x"; cases "f y"; cases "f z") auto
  qed
  ultimately show ?thesis by presburger
qed

lemma pick_highest_version_cases:
  "pick_highest_version c cs \<in> set (c # cs) \<and> (\<forall>x\<in>set (c # cs). \<not> lower_version (pick_highest_version c cs) x)"
proof (induction cs rule: rev_induct)
  case Nil
  then show ?case
    using strict_weak_lower_version by (simp add: pick_highest_version_def strict_weak_def)
next
  case (snoc x cs)
  let ?best = "pick_highest_version c cs"
  have step: "pick_highest_version c (cs @ [x]) = (if lower_version ?best x then x else ?best)"
    by (simp add: pick_highest_version_def lower_version_def)
  show ?case
  proof (cases "lower_version ?best x")
    case True
    have "\<not> lower_version x y" if "y \<in> set (c # cs)" for y
      using snoc that strict_weak_trans [OF strict_weak_lower_version True] by blast
    moreover have "\<not> lower_version x x"
      using strict_weak_lower_version by (simp add: strict_weak_def)
    ultimately show ?thesis using True by (auto simp: step)
  next
    case False
    then show ?thesis using snoc by (auto simp: step)
  qed
qed

text \<open>An install that satisfies a reference.\<close>

definition satisfying :: "provider_ref \<Rightarrow> installed_provider list \<Rightarrow> installed_provider set" where
  "satisfying ref installed =
     {ip \<in> set installed. equal_fold (ip_name ip) (pr_name ref) \<and>
        (pr_bare ref \<or> equal_fold (ip_namespace ip) (pr_namespace ref)) \<and>
        (pr_constraint ref = [] \<or>
         (\<exists>v. ip_version ip \<noteq> [] \<and> parse_sem_ver (ip_version ip) = Inr v \<and> satisfies v (pr_constraint ref) = Inr True))}"

lemma set_filter_matching: "set (filter_matching_installs ref installed) = satisfying ref installed"
proof -
  have "identity_matches ref ip \<and> version_constraint_ok (pr_constraint ref) (ip_version ip) \<longleftrightarrow>
      equal_fold (ip_name ip) (pr_name ref) \<and>
      (pr_bare ref \<or> equal_fold (ip_namespace ip) (pr_namespace ref)) \<and>
      (pr_constraint ref = [] \<or>
       (\<exists>v. ip_version ip \<noteq> [] \<and> parse_sem_ver (ip_version ip) = Inr v \<and> satisfies v (pr_constraint ref) = Inr True))" for ip
    unfolding identity_matches_def version_constraint_ok_def by (cases "parse_sem_ver (ip_version ip)") simp_all
  then show ?thesis by (simp only: filter_matching_installs_def satisfying_def set_filter)
qed

text \<open>
  A reference resolves exactly when some install satisfies its name, namespace and version
  constraint, and then to a satisfying install whose version no other satisfying install exceeds;
  a warning comes with bare names only.
\<close>

theorem resolve_one_correct:
  "case resolve_one ref installed of
     Inl e \<Rightarrow> satisfying ref installed = {}
   | Inr (rp, w) \<Rightarrow>
       rp_ref rp = ref \<and> (w = None) = (\<not> pr_bare ref) \<and>
       (\<exists>ip\<in>satisfying ref installed. rp_name rp = ip_name ip \<and> rp_version rp = ip_version ip \<and> rp_dir rp = ip_dir ip) \<and>
       (\<forall>ip\<in>satisfying ref installed. \<not> higher_version (ip_version ip) (rp_version rp))"
proof (cases "filter_matching_installs ref installed")
  case Nil
  then show ?thesis using set_filter_matching [of ref installed] by (simp add: resolve_one_def)
next
  case (Cons c cs)
  let ?best = "pick_highest_version c cs"
  have sat: "satisfying ref installed = set (c # cs)" using set_filter_matching [of ref installed] Cons by simp
  have "(bare_name_warning ref ?best = None) = (\<not> pr_bare ref)"
    by (simp add: bare_name_warning_def Let_def)
  moreover have "?best \<in> satisfying ref installed"
    "\<forall>ip\<in>satisfying ref installed. \<not> higher_version (ip_version ip) (ip_version ?best)"
    using pick_highest_version_cases [of c cs] unfolding sat lower_version_def by blast+
  ultimately show ?thesis using Cons by (auto simp: resolve_one_def Let_def)
qed

definition ex_install :: "string \<Rightarrow> string \<Rightarrow> installed_provider" where
  "ex_install ns ver = \<lparr>ip_name = ''k8s'', ip_namespace = ns, ip_version = ver, ip_dir = ver\<rparr>"

theorem resolve_one_correct_witness:
  "satisfying \<lparr>pr_namespace = ''a'', pr_name = ''K8s'', pr_constraint = ''^0.2'', pr_bare = False\<rparr>
     [ex_install ''a'' ''0.3.0'', ex_install ''b'' ''0.2.1''] = {}"
proof -
  let ?ref = "\<lparr>pr_namespace = ''a'', pr_name = ''K8s'', pr_constraint = ''^0.2'', pr_bare = False\<rparr>"
  let ?is = "[ex_install ''a'' ''0.3.0'', ex_install ''b'' ''0.2.1'']"
  have "isl (resolve_one ?ref ?is)" by code_simp
  then show ?thesis using resolve_one_correct [of ?ref ?is] by (auto split: sum.splits)
qed

text \<open>
  Resolution handles every reference: it lists a result for each one that some install
  satisfies, in order, and fails exactly when another is left, with one message for each of those.
\<close>

theorem resolve_reports_all:
  "case resolve refs installed of
     (rps, ws, err) \<Rightarrow>
       map rp_ref rps = filter (\<lambda>ref. satisfying ref installed \<noteq> {}) refs \<and>
       map rw_ref ws = filter pr_bare (map rp_ref rps) \<and>
       err = (let failed = filter (\<lambda>ref. satisfying ref installed = {}) refs
              in if failed = [] then None else Some (map (\<lambda>ref. projl (resolve_one ref installed)) failed))"
proof -
  have "case resolve_loop refs installed of
     (rps, ws, errs) \<Rightarrow>
       map rp_ref rps = filter (\<lambda>ref. satisfying ref installed \<noteq> {}) refs \<and>
       map rw_ref ws = filter pr_bare (map rp_ref rps) \<and>
       errs = map (\<lambda>ref. projl (resolve_one ref installed)) (filter (\<lambda>ref. satisfying ref installed = {}) refs)"
  proof (induction refs)
    case Nil
    then show ?case by simp
  next
    case (Cons ref refs)
    show ?case
    proof (cases "filter_matching_installs ref installed")
      case Nil
      then have "satisfying ref installed = {}" using set_filter_matching [of ref installed] by simp
      then show ?thesis using Cons Nil by (auto simp: resolve_one_def)
    next
      case (Cons c cs)
      then have "satisfying ref installed \<noteq> {}" using set_filter_matching [of ref installed] by auto
      then show ?thesis using Cons.IH Cons by (auto simp: resolve_one_def bare_name_warning_def Let_def)
    qed
  qed
  then show ?thesis by (auto simp: resolve_def Let_def)
qed

end
