(* ===== verification/Facts.thy ===== *)
theory Facts
  imports Expr
begin

text \<open>
  The fact store of \<open>internal/facts\<close>: an append-only log of observations per component
  (types.go, store.go), in which the last record of a key counts.

  The locale \<open>fact_log\<close> states what every reader of the store relies on: a new record is the
  latest of its key, and every other key keeps its own. Its lemmas, proved once, say what any
  sequence of appends leaves and that an expression is blind to the keys it does not name; the
  store interprets it.
\<close>

subsection \<open>Facts and the store\<close>

text \<open>\<open>FactStatus\<close>: \<open>Normal\<close> is the empty string; any other text is \<open>OtherStatus\<close>.\<close>

datatype fact_status = Normal | NotFound | Forbidden | Transient | OtherStatus string

record obs_fact =
  f_key :: string
  f_value :: "val option"
  f_collector :: string
  f_at :: int
  f_note :: string
  f_raw :: string
  f_status :: fact_status

record store_meta =
  sm_model :: string
  sm_version :: string
  sm_incident :: string
  sm_started :: int
  sm_ended :: "int option"
  sm_verdict :: string
  sm_model_ref :: string
  sm_suspects :: "string list"

record store =
  st_meta :: store_meta
  st_facts :: "obs_fact list dict"
  st_path :: string

definition empty_meta :: store_meta where
  "empty_meta = \<lparr>sm_model = [], sm_version = [], sm_incident = [], sm_started = 0, sm_ended = None,
     sm_verdict = [], sm_model_ref = [], sm_suspects = []\<rparr>"

definition new_in_memory :: store where
  "new_in_memory = \<lparr>st_meta = empty_meta, st_facts = [], st_path = []\<rparr>"

definition new_disk_backed :: "string \<Rightarrow> store_meta \<Rightarrow> store" where
  "new_disk_backed path meta = \<lparr>st_meta = meta, st_facts = [], st_path = path\<rparr>"

definition is_disk_backed :: "store \<Rightarrow> bool" where
  "is_disk_backed s \<longleftrightarrow> st_path s \<noteq> []"

text \<open>\<open>s.facts[component]\<close>: the empty list for a component without records.\<close>

definition facts_for :: "store \<Rightarrow> string \<Rightarrow> obs_fact list" where
  "facts_for s c = (case map_of (st_facts s) c of None \<Rightarrow> [] | Some fs \<Rightarrow> fs)"

definition append_fact :: "store \<Rightarrow> string \<Rightarrow> obs_fact \<Rightarrow> store" where
  "append_fact s c f = s\<lparr>st_facts := AList.update c (facts_for s c @ [f]) (st_facts s)\<rparr>"

definition latest :: "store \<Rightarrow> string \<Rightarrow> string \<Rightarrow> obs_fact option" where
  "latest s c k = find_last (\<lambda>f. f_key f = k) (facts_for s c)"

definition lookup_value :: "store \<Rightarrow> string \<Rightarrow> string \<Rightarrow> val option" where
  "lookup_value s c k = (case latest s c k of None \<Rightarrow> None | Some f \<Rightarrow> f_value f)"

definition all_components :: "store \<Rightarrow> string list" where
  "all_components s = keys (st_facts s)"

text \<open>The status of the latest record of every key, in order of first appearance.\<close>

definition latest_status :: "obs_fact list \<Rightarrow> fact_status dict" where
  "latest_status fs = foldl (\<lambda>m f. AList.update (f_key f) (f_status f) m) [] fs"

definition unreadable :: "store \<Rightarrow> string \<Rightarrow> fact_status dict" where
  "unreadable s c = filter (\<lambda>(k, st). st = Forbidden \<or> st = Transient) (latest_status (facts_for s c))"

definition partial_visibility :: "store \<Rightarrow> nat \<times> nat" where
  "partial_visibility s =
     foldl (\<lambda>(fb, tr) (c, fs).
         (fb + length (filter (\<lambda>(k, st). st = Forbidden) (latest_status fs)),
          tr + length (filter (\<lambda>(k, st). st = Transient) (latest_status fs))))
       (0, 0) (st_facts s)"

text \<open>\<open>IsAbsent\<close>: the loop returns false at the first resolved value.\<close>

fun absent_loop :: "obs_fact list \<Rightarrow> bool \<Rightarrow> bool" where
  "absent_loop [] saw = saw"
| "absent_loop (f # fs) saw =
     (if f_value f \<noteq> None then False
      else absent_loop fs (if f_status f = NotFound then True else saw))"

definition is_absent :: "store \<Rightarrow> string \<Rightarrow> bool" where
  "is_absent s c = (case map_of (st_facts s) c of None \<Rightarrow> False | Some fs \<Rightarrow> absent_loop fs False)"

subsection \<open>The contract of a fact log\<close>

locale fact_log =
  fixes add :: "'s \<Rightarrow> string \<Rightarrow> obs_fact \<Rightarrow> 's"
    and newest :: "'s \<Rightarrow> string \<Rightarrow> string \<Rightarrow> obs_fact option"
  assumes newest_added: "newest (add s c f) c (f_key f) = Some f"
    and newest_other: "c' \<noteq> c \<or> k \<noteq> f_key f \<Longrightarrow> newest (add s c f) c' k = newest s c' k"
begin

definition add_all :: "'s \<Rightarrow> (string \<times> obs_fact) list \<Rightarrow> 's" where
  "add_all s log = foldl (\<lambda>t (c, f). add t c f) s log"

lemma newest_add_all:
  "newest (add_all s log) c k =
     (case find_last (\<lambda>(c', f). c' = c \<and> f_key f = k) log of
        Some (_, f) \<Rightarrow> Some f
      | None \<Rightarrow> newest s c k)"
proof (induction log rule: rev_induct)
  case Nil
  then show ?case by (simp add: add_all_def)
next
  case (snoc x log)
  obtain c' f where x: "x = (c', f)" by (cases x)
  have "add_all s (log @ [x]) = add (add_all s log) c' f" by (simp add: add_all_def x)
  with snoc newest_added newest_other [of c c' k f "add_all s log"] show ?case
    by (cases "c' = c \<and> f_key f = k") (auto simp: x)
qed

definition value_of :: "'s \<Rightarrow> string \<Rightarrow> string \<Rightarrow> val option" where
  "value_of s c k = Option.bind (newest s c k) f_value"

lemma value_of_other: "c' \<noteq> c \<or> k \<noteq> f_key f \<Longrightarrow> value_of (add s c f) c' k = value_of s c' k"
  by (simp add: value_of_def newest_other)

lemma eval_blind:
  assumes "(c, f_key f) \<notin> fact_reads (cx_component x) n"
  shows "eval (x\<lparr>cx_facts := value_of (add s c f)\<rparr>) n = eval (x\<lparr>cx_facts := value_of s\<rparr>) n"
proof -
  have "eval ((x\<lparr>cx_facts := value_of s\<rparr>)\<lparr>cx_facts := value_of (add s c f)\<rparr>) n =
      eval (x\<lparr>cx_facts := value_of s\<rparr>) n"
    using assms by (intro eval_reads_only) (auto intro!: value_of_other)
  then show ?thesis by simp
qed

end

subsection \<open>The store keeps the contract\<close>

lemma facts_for_append: "facts_for (append_fact s c f) c' = (if c' = c then facts_for s c @ [f] else facts_for s c')"
  by (simp add: facts_for_def append_fact_def update_conv)

lemma facts_for_append_simps [simp]:
  "facts_for (append_fact s c f) c = facts_for s c @ [f]"
  "c' \<noteq> c \<Longrightarrow> facts_for (append_fact s c f) c' = facts_for s c'"
  by (simp_all add: facts_for_append)

interpretation log: fact_log append_fact latest
  by unfold_locales (auto simp: latest_def facts_for_append)

lemma lookup_value_eq: "lookup_value = log.value_of"
  by (auto simp: fun_eq_iff lookup_value_def log.value_of_def split: option.splits)

text \<open>
  After any sequence of appends, the latest fact of a key is the last one appended for that
  component and key, and keys the sequence does not touch keep what they had.
\<close>

theorem latest_after_appends:
  "latest (foldl (\<lambda>t (c, f). append_fact t c f) s appended) c k =
     (case find_last (\<lambda>(c', f). c' = c \<and> f_key f = k) appended of
        Some (_, f) \<Rightarrow> Some f
      | None \<Rightarrow> latest s c k)"
  using log.newest_add_all unfolding log.add_all_def .

text \<open>Evaluation is blind to facts the expression does not name.\<close>

lemma eval_append_irrelevant:
  "(c, f_key f) \<notin> fact_reads (cx_component x) n \<Longrightarrow>
   eval (x\<lparr>cx_facts := lookup_value (append_fact s c f)\<rparr>) n = eval (x\<lparr>cx_facts := lookup_value s\<rparr>) n"
  unfolding lookup_value_eq by (rule log.eval_blind)

subsection \<open>Statuses\<close>

lemma map_of_latest_status:
  "map_of (latest_status fs) k = map_option f_status (find_last (\<lambda>f. f_key f = k) fs)"
  by (induction fs rule: rev_induct) (auto simp: latest_status_def update_conv)

lemma wf_latest_status: "wf_dict (latest_status fs)"
proof -
  have "distinct (map fst (foldl (\<lambda>m f. AList.update (f_key f) (f_status f) m) m fs))"
    if "distinct (map fst m)" for m :: "fact_status dict"
    using that by (induction fs arbitrary: m) (auto simp: distinct_update)
  then show ?thesis by (simp add: wf_dict_def keys_def latest_status_def)
qed

text \<open>
  A fact is unreadable exactly when the latest record of its key is forbidden or transient:
  a later read clears it, and an earlier one does not.
\<close>

theorem unreadable_iff_latest:
  "(k, st) \<in> set (unreadable s c) \<longleftrightarrow>
     (\<exists>f. latest s c k = Some f \<and> f_status f = st) \<and> (st = Forbidden \<or> st = Transient)"
  using map_of_wf_dict [OF wf_latest_status, of k st "facts_for s c"]
  by (auto simp: unreadable_def latest_def map_of_latest_status)

lemma absent_loop_iff:
  "absent_loop fs saw \<longleftrightarrow> (\<forall>f\<in>set fs. f_value f = None) \<and> (saw \<or> (\<exists>f\<in>set fs. f_status f = NotFound))"
  by (induction fs saw rule: absent_loop.induct) auto

lemma is_absent_iff:
  "is_absent s c \<longleftrightarrow>
     (\<forall>f\<in>set (facts_for s c). f_value f = None) \<and> (\<exists>f\<in>set (facts_for s c). f_status f = NotFound)"
  by (auto simp: is_absent_def facts_for_def absent_loop_iff split: option.splits)

text \<open>An absent component has no readable fact at all, so no rule over its own facts is decided.\<close>

lemma absent_no_values: "is_absent s c \<Longrightarrow> lookup_value s c k = None"
  by (auto simp: is_absent_iff lookup_value_def latest_def split: option.splits dest: find_last_SomeD)

text \<open>One resolved value proves presence, whatever was or will be recorded.\<close>

lemma value_not_absent: "f_value f \<noteq> None \<Longrightarrow> \<not> is_absent (append_fact s c f) c"
  by (auto simp: is_absent_iff)

lemma partial_visibility_loop:
  fixes F T :: "'a \<Rightarrow> nat"
  shows "foldl (\<lambda>(fb, tr) (c, fs). (fb + F fs, tr + T fs)) (a, b) m =
     (a + sum_list (map (F \<circ> snd) m), b + sum_list (map (T \<circ> snd) m))"
  by (induction m arbitrary: a b) auto

lemma length_filter_unreadable:
  "length (filter (\<lambda>(k, st). st = Forbidden) xs) + length (filter (\<lambda>(k, st). st = Transient) xs) =
   length (filter (\<lambda>(k, st). st = Forbidden \<or> st = Transient) xs)"
  by (induction xs) auto

text \<open>
  The two counts are the unreadable facts of all components, so a partial-visibility warning is
  raised exactly when some component has one.
\<close>

lemma partial_visibility_sum:
  assumes "wf_dict (st_facts s)"
  shows "fst (partial_visibility s) + snd (partial_visibility s) =
    sum_list (map (\<lambda>c. length (unreadable s c)) (all_components s))"
proof -
  let ?F = "\<lambda>fs. length (filter (\<lambda>(k, st). st = Forbidden) (latest_status fs))"
  let ?T = "\<lambda>fs. length (filter (\<lambda>(k, st). st = Transient) (latest_status fs))"
  have "length (unreadable s c) = ?F fs + ?T fs" if "(c, fs) \<in> set (st_facts s)" for c fs
    using that assms by (simp add: map_of_wf_dict facts_for_def unreadable_def length_filter_unreadable)
  then have "map (\<lambda>c. length (unreadable s c)) (all_components s) =
      map (\<lambda>p. ?F (snd p) + ?T (snd p)) (st_facts s)"
    by (auto simp: all_components_def keys_def)
  then show ?thesis
    by (simp add: partial_visibility_def partial_visibility_loop [of ?F ?T] sum_list_addf comp_def)
qed

lemma wf_append_fact: "wf_dict (st_facts s) \<Longrightarrow> wf_dict (st_facts (append_fact s c f))"
  by (simp add: wf_dict_def keys_def append_fact_def distinct_update)

end
