(* ===== verification/System_Model.thy ===== *)
theory System_Model
  imports Expr
begin

text \<open>
  The data the engine reasons over: provider types (\<open>internal/providersupport/types.go\<close>), the
  registry that resolves them (registry.go), and the system model's components
  (\<open>internal/model/types.go\<close>) with what a component's effective type, healthy rules, resource and
  variables are (resolve_type.go, healthy.go, resource.go, vars.go).

  A \<open>*Type\<close> or \<open>*Component\<close> that may be nil is a lookup that may fail. Pointer arguments the
  callers never leave nil (model, registry, store) are values.
\<close>

subsection \<open>Provider types\<close>

record probe_def =
  pd_cmd :: string
  pd_parse :: string
  pd_cost :: string
  pd_access :: string
  pd_timeout :: int

record fact_spec =
  fs_type :: string
  fs_ttl :: int
  fs_probe :: probe_def
  fs_window :: int
  fs_derive :: string

text \<open>\<open>VerdictHealthy\<close>, \<open>VerdictBroken\<close>, or none.\<close>

datatype state_verdict = NoVerdict | VerdictHealthy | VerdictBroken

record state_def =
  sd_name :: string
  sd_when_raw :: string
  sd_when :: "node option"
  sd_description :: string
  sd_triggered_by :: "string list"
  sd_verdict :: state_verdict

record ptype =
  ty_name :: string
  ty_description :: string
  ty_facts :: "fact_spec dict"
  ty_healthy_raw :: "string list"
  ty_healthy :: "node list"
  ty_states :: "state_def list"
  ty_default :: string
  ty_failure_modes :: "string list dict"
  ty_source_path :: string

record variable =
  va_description :: string
  va_required :: bool
  va_default :: string

record provider_meta =
  pm_name :: string
  pm_version :: string
  pm_description :: string
  pm_tags :: "string list"
  pm_requires :: "string dict"

record provider_runtime =
  pr_needs :: "string dict"
  pr_backends :: "string dict"
  pr_network_mode :: string
  pr_entrypoint :: string

record install_source =
  is_build :: string
  is_clean :: string

text \<open>\<open>InstallImage\<close> holds only a repository, so an image install is that string.\<close>

record provider_install =
  pi_source :: "install_source option"
  pi_image :: "string option"

record provider =
  pv_meta :: provider_meta
  pv_runtime :: provider_runtime
  pv_install :: provider_install
  pv_types :: "ptype dict"
  pv_variables :: "variable dict"
  pv_read_only :: bool
  pv_writes_note :: string

abbreviation pv_name :: "provider \<Rightarrow> string" where
  "pv_name p \<equiv> pm_name (pv_meta p)"

text \<open>\<open>ResolveEntrypoint\<close>: the declared entrypoint, else the convention of the install method.\<close>

definition resolve_entrypoint :: "provider \<Rightarrow> bool \<Rightarrow> string \<Rightarrow> string" where
  "resolve_entrypoint p image_install dir =
     (if pr_entrypoint (pv_runtime p) \<noteq> [] then pr_entrypoint (pv_runtime p)
      else if image_install then []
      else dir @ ''/bin/mgtt-provider-'' @ pv_name p)"

subsection \<open>The registry\<close>

record registry =
  rg_providers :: "string \<rightharpoonup> provider"
  rg_order :: "string list"

definition new_registry :: registry where
  "new_registry = \<lparr>rg_providers = Map.empty, rg_order = []\<rparr>"

definition register :: "registry \<Rightarrow> provider \<Rightarrow> registry" where
  "register r p =
     (let r1 = (if rg_providers r (pv_name p) = None then r\<lparr>rg_order := rg_order r @ [pv_name p]\<rparr> else r)
      in r1\<lparr>rg_providers := (rg_providers r1)(pv_name p \<mapsto> p)\<rparr>)"

definition registry_all :: "registry \<Rightarrow> provider list" where
  "registry_all r = List.map_filter (rg_providers r) (rg_order r)"

definition generic_name :: string where
  "generic_name = ''generic''"

definition is_generic_name :: "string \<Rightarrow> bool" where
  "is_generic_name s \<longleftrightarrow> s = generic_name"

definition bare_provider_name :: "string \<Rightarrow> string" where
  "bare_provider_name ref =
     (let r1 = (case cut CHR ''@'' ref of None \<Rightarrow> ref | Some (a, _) \<Rightarrow> a)
      in case rcut CHR ''/'' r1 of None \<Rightarrow> r1 | Some (_, b) \<Rightarrow> b)"

datatype resolve_error =
    ProviderNotFound string
  | TypeNotInProvider string string
  | TypeNotFound string "string list"

fun scan_providers :: "registry \<Rightarrow> string \<Rightarrow> string list \<Rightarrow> (ptype \<times> string) option" where
  "scan_providers r ty [] = None"
| "scan_providers r ty (p # ps) =
     (case rg_providers r (bare_provider_name p) of
        None \<Rightarrow> scan_providers r ty ps
      | Some pv \<Rightarrow>
          (case map_of (pv_types pv) ty of
             None \<Rightarrow> scan_providers r ty ps
           | Some t \<Rightarrow> Some (t, bare_provider_name p)))"

definition generic_fallback :: "registry \<Rightarrow> (ptype \<times> string) option" where
  "generic_fallback r =
     (case rg_providers r generic_name of
        None \<Rightarrow> None
      | Some gen \<Rightarrow> map_option (\<lambda>t. (t, generic_name)) (map_of (pv_types gen) ''component''))"

definition registry_resolve :: "registry \<Rightarrow> string list \<Rightarrow> string \<Rightarrow> resolve_error + ptype \<times> string" where
  "registry_resolve r ps ty =
     (case cut CHR ''.'' ty of
        Some (pn, local) \<Rightarrow>
          (case rg_providers r pn of
             None \<Rightarrow> Inl (ProviderNotFound pn)
           | Some pv \<Rightarrow>
               (case map_of (pv_types pv) local of
                  None \<Rightarrow> Inl (TypeNotInProvider local pn)
                | Some t \<Rightarrow> Inr (t, pn)))
      | None \<Rightarrow>
          (case scan_providers r ty ps of
             Some res \<Rightarrow> Inr res
           | None \<Rightarrow>
               (case generic_fallback r of
                  Some res \<Rightarrow> Inr res
                | None \<Rightarrow> Inl (TypeNotFound ty ps))))"

subsection \<open>Components and models\<close>

record dependency =
  dp_on :: "string list"
  dp_need :: int
  dp_while_raw :: string
  dp_while :: "node option"

record component =
  c_name :: string
  c_type :: string
  c_resource :: string
  c_providers :: "string list"
  c_depends :: "dependency list"
  c_source :: string
  c_healthy_raw :: "string list"
  c_healthy :: "node list"
  c_healthy_mode :: string
  c_diverges :: "string list"
  c_failure_modes :: "string list dict"
  c_states :: "state_def list"
  c_healthy_in :: "string list"
  c_vars :: "string dict"

record meta =
  mt_name :: string
  mt_version :: string
  mt_providers :: "string list"
  mt_vars :: "string dict"
  mt_strict :: bool
  mt_scenarios :: string

record model =
  m_meta :: meta
  m_components :: "component dict"
  m_order :: "string list"
  m_source_path :: string

abbreviation component_of :: "model \<Rightarrow> string \<Rightarrow> component option" where
  "component_of m n \<equiv> map_of (m_components m) n"

text \<open>What \<open>Load\<close> builds: the order lists every component once, and a component knows its key.\<close>

definition wf_model :: "model \<Rightarrow> bool" where
  "wf_model m \<longleftrightarrow>
     wf_dict (m_components m) \<and> distinct (m_order m) \<and> set (m_order m) = set (keys (m_components m)) \<and>
     (\<forall>(n, c) \<in> set (m_components m). c_name c = n)"

definition effective_providers :: "component \<Rightarrow> model \<Rightarrow> string list" where
  "effective_providers c m = (if c_providers c \<noteq> [] then c_providers c else mt_providers (m_meta m))"

definition authored :: "component \<Rightarrow> bool" where
  "authored c \<longleftrightarrow> c_source c \<noteq> ''discovered''"

text \<open>\<open>mergeVars\<close>: the second map wins. A nil and an empty result are the same dictionary.\<close>

definition merge_vars :: "string dict \<Rightarrow> string dict \<Rightarrow> string dict" where
  "merge_vars base over = foldl (\<lambda>m (k, v). AList.update k v m) base over"

subsection \<open>The effective type of a component\<close>

definition mark_healthy_in :: "component \<Rightarrow> state_def \<Rightarrow> state_def" where
  "mark_healthy_in c st =
     (if sd_name st \<in> set (c_healthy_in c) \<and> sd_verdict st \<noteq> VerdictBroken
      then st\<lparr>sd_verdict := VerdictHealthy\<rparr> else st)"

definition effective_type :: "component \<Rightarrow> ptype \<Rightarrow> ptype" where
  "effective_type c t =
     (if c_states c = [] \<and> c_healthy_in c = [] \<and> c_failure_modes c = [] then t
      else t\<lparr>ty_states := map (mark_healthy_in c) (c_states c @ ty_states t),
             ty_failure_modes :=
               foldl (\<lambda>m (k, v). AList.update k v m) (ty_failure_modes t) (c_failure_modes c)\<rparr>)"

definition resolve_type :: "component \<Rightarrow> model \<Rightarrow> registry \<Rightarrow> resolve_error + ptype \<times> string" where
  "resolve_type c m r =
     (case registry_resolve r (effective_providers c m) (c_type c) of
        Inl e \<Rightarrow> Inl e
      | Inr (t, owner) \<Rightarrow> Inr (effective_type c t, owner))"

text \<open>\<open>t.FailureModes[state]\<close>: nil for a state without labels.\<close>

definition failure_labels :: "ptype \<Rightarrow> string \<Rightarrow> string list" where
  "failure_labels t st = (case map_of (ty_failure_modes t) st of None \<Rightarrow> [] | Some ls \<Rightarrow> ls)"

subsection \<open>Healthy rules\<close>

text \<open>\<open>effective\<close>: none of its own keeps the type's, \<open>add\<close> appends, anything else replaces.\<close>

definition effective_rules :: "component \<Rightarrow> 'r list \<Rightarrow> 'r list \<Rightarrow> 'r list" where
  "effective_rules c own typ =
     (if own = [] then typ else if c_healthy_mode c = ''add'' then typ @ own else own)"

definition healthy_rules :: "component \<Rightarrow> ptype option \<Rightarrow> node list" where
  "healthy_rules c t = effective_rules c (c_healthy c) (case t of None \<Rightarrow> [] | Some ty \<Rightarrow> ty_healthy ty)"

definition healthy_rules_raw :: "component \<Rightarrow> ptype option \<Rightarrow> string list" where
  "healthy_rules_raw c t =
     effective_rules c (c_healthy_raw c) (case t of None \<Rightarrow> [] | Some ty \<Rightarrow> ty_healthy_raw ty)"

subsection \<open>Resource names\<close>

definition short_type :: "string \<Rightarrow> string" where
  "short_type t = (case rcut CHR ''.'' t of None \<Rightarrow> t | Some (_, b) \<Rightarrow> b)"

definition kind_prefixed :: "string \<Rightarrow> (string \<times> string) option" where
  "kind_prefixed key =
     (case cut CHR ''/'' key of
        None \<Rightarrow> None
      | Some (kind, name) \<Rightarrow>
          if kind = [] \<or> name = [] \<or> CHR ''/'' \<in> set name then None else Some (kind, name))"

definition kind_key :: "string \<Rightarrow> string \<Rightarrow> string" where
  "kind_key typ name = short_type typ @ ''/'' @ name"

definition resource_name :: "component \<Rightarrow> string" where
  "resource_name c =
     (if c_resource c \<noteq> [] then c_resource c
      else (case kind_prefixed (c_name c) of
              Some (kind, name) \<Rightarrow> if kind = short_type (c_type c) then name else c_name c
            | None \<Rightarrow> c_name c))"

subsection \<open>Variables\<close>

definition model_var :: "model \<Rightarrow> registry option \<Rightarrow> string \<Rightarrow> string \<Rightarrow> string option" where
  "model_var m reg cn key =
     (case Option.bind (component_of m cn) (\<lambda>c. map_of (c_vars c) key) of
        Some v \<Rightarrow> Some v
      | None \<Rightarrow>
          (case map_of (mt_vars (m_meta m)) key of
             Some v \<Rightarrow> Some v
           | None \<Rightarrow>
               (case (component_of m cn, reg) of
                  (Some c, Some r) \<Rightarrow>
                    (case resolve_type c m r of
                       Inl _ \<Rightarrow> None
                     | Inr (_, owner) \<Rightarrow>
                         (case rg_providers r owner of
                            None \<Rightarrow> None
                          | Some pv \<Rightarrow>
                              (case map_of (pv_variables pv) key of
                                 None \<Rightarrow> None
                               | Some decl \<Rightarrow> if va_default decl \<noteq> [] then Some (va_default decl) else None)))
                | _ \<Rightarrow> None)))"

subsection \<open>Properties of resolution\<close>

lemma map_of_update_all: "map_of (foldl (\<lambda>m (k, v). AList.update k v m) base over) = map_of base ++ map_of (rev over)"
  by (induction over arbitrary: base) (auto simp: update_conv' map_add_upd_left split: prod.splits)

lemma merge_vars_lookup: "wf_dict over \<Longrightarrow> map_of (merge_vars base over) = map_of base ++ map_of over"
  unfolding merge_vars_def map_of_update_all wf_dict_def keys_def
  by (subst map_of_inject_set [of "rev over" over, THEN iffD2]) (simp_all add: rev_map [symmetric])

text \<open>The states an own \<open>states:\<close> block adds come first, and no \<open>healthy_in\<close> can mark them healthy.\<close>

lemma effective_states_own_first:
  "c_states c \<noteq> [] \<Longrightarrow> ty_states (effective_type c t) =
     map (mark_healthy_in c) (c_states c) @ map (mark_healthy_in c) (ty_states t)"
  by (simp add: effective_type_def)

lemma mark_healthy_in_broken: "sd_verdict st = VerdictBroken \<Longrightarrow> mark_healthy_in c st = st"
  by (simp add: mark_healthy_in_def)

lemma mark_healthy_in_name [simp]:
  "sd_name (mark_healthy_in c st) = sd_name st" "sd_when (mark_healthy_in c st) = sd_when st"
  "sd_triggered_by (mark_healthy_in c st) = sd_triggered_by st"
  by (simp_all add: mark_healthy_in_def)

lemma effective_type_facts [simp]:
  "ty_facts (effective_type c t) = ty_facts t" "ty_name (effective_type c t) = ty_name t"
  "ty_default (effective_type c t) = ty_default t" "ty_healthy (effective_type c t) = ty_healthy t"
  by (simp_all add: effective_type_def)

lemma rcut_append: "sep \<notin> set b \<Longrightarrow> rcut sep (a @ sep # b) = Some (a, b)"
  by (simp add: rcut_Some_iff)

text \<open>
  A component keyed by \<open>KindKey\<close> of its own type reads the resource the key names: \<open>ResourceName\<close>
  takes back exactly the prefix \<open>KindKey\<close> adds.
\<close>

theorem resource_name_kind_key:
  assumes "c_resource c = []" and "c_name c = kind_key (c_type c) name"
    and "short_type (c_type c) \<noteq> []" and "CHR ''/'' \<notin> set (short_type (c_type c))"
    and "name \<noteq> []" and "CHR ''/'' \<notin> set name"
  shows "resource_name c = name"
  using assms by (simp add: resource_name_def kind_prefixed_def kind_key_def cut_append)

definition ex_component :: "string \<Rightarrow> string \<Rightarrow> dependency list \<Rightarrow> component" where
  "ex_component n ty deps =
     \<lparr>c_name = n, c_type = ty, c_resource = [], c_providers = [], c_depends = deps, c_source = [],
      c_healthy_raw = [], c_healthy = [], c_healthy_mode = [], c_diverges = [], c_failure_modes = [],
      c_states = [], c_healthy_in = [], c_vars = []\<rparr>"

theorem resource_name_kind_key_witness:
  "resource_name (ex_component ''deployment/acme'' ''kubernetes.deployment'' []) = ''acme''"
  by (rule resource_name_kind_key)
    (simp_all add: ex_component_def kind_key_def short_type_def rcut_def)

text \<open>Every other key is its own resource: an SSM path or an org/repo name is not a kind.\<close>

lemma resource_name_plain:
  "c_resource c = [] \<Longrightarrow> (\<And>k n. kind_prefixed (c_name c) = Some (k, n) \<Longrightarrow> k \<noteq> short_type (c_type c)) \<Longrightarrow>
   resource_name c = c_name c"
  by (auto simp: resource_name_def split: option.splits)

text \<open>An unqualified type resolves whenever the generic provider is there to fall back to.\<close>

lemma registry_resolve_generic:
  assumes "CHR ''.'' \<notin> set ty" and "generic_fallback r \<noteq> None"
  shows "\<exists>res. registry_resolve r ps ty = Inr res"
  using assms by (auto simp: registry_resolve_def cut_None_iff [THEN iffD2] split: option.splits)

text \<open>What a provider reference offers under a type name.\<close>

definition offers :: "registry \<Rightarrow> string \<Rightarrow> string \<Rightarrow> ptype option" where
  "offers r ty p = Option.bind (rg_providers r (bare_provider_name p)) (\<lambda>pv. map_of (pv_types pv) ty)"

lemma scan_providers_Cons:
  "scan_providers r ty (p # ps) =
     (case offers r ty p of None \<Rightarrow> scan_providers r ty ps | Some t \<Rightarrow> Some (t, bare_provider_name p))"
  by (auto simp: offers_def split: option.splits)

lemma scan_providers_first:
  "scan_providers r ty ps = Some (t, owner) \<longleftrightarrow>
     (\<exists>us p vs. ps = us @ p # vs \<and> owner = bare_provider_name p \<and> offers r ty p = Some t \<and>
        (\<forall>q\<in>set us. offers r ty q = None))"
proof (induction ps)
  case Nil
  then show ?case by simp
next
  case (Cons q ps)
  have split: "(\<exists>us p vs. q # ps = us @ p # vs \<and> P us p) \<longleftrightarrow>
      P [] q \<or> (\<exists>us p vs. ps = us @ p # vs \<and> P (q # us) p)" for P
    by (auto simp: Cons_eq_append_conv)
  show ?case
    by (subst split) (cases "offers r ty q"; auto simp: scan_providers_Cons Cons simp del: scan_providers.simps)
qed

text \<open>
  An unqualified type name resolves to the first provider of the component's list that has the
  type, under the provider's bare name, and to the generic fallback only when none has it.
\<close>

theorem registry_resolve_pecking_order:
  assumes "CHR ''.'' \<notin> set ty" and "registry_resolve r ps ty = Inr (t, owner)"
  shows "(\<exists>us p vs. ps = us @ p # vs \<and> owner = bare_provider_name p \<and> offers r ty p = Some t \<and>
            (\<forall>q\<in>set us. offers r ty q = None))
       \<or> (scan_providers r ty ps = None \<and> generic_fallback r = Some (t, owner))"
  using assms unfolding scan_providers_first [symmetric]
  by (auto simp: registry_resolve_def cut_None_iff [THEN iffD2] split: option.splits)

definition ex_type :: "string \<Rightarrow> node list \<Rightarrow> state_def list \<Rightarrow> ptype" where
  "ex_type n rules states =
     \<lparr>ty_name = n, ty_description = [], ty_facts = [], ty_healthy_raw = [], ty_healthy = rules,
      ty_states = states, ty_default = ''live'', ty_failure_modes = [], ty_source_path = []\<rparr>"

definition ex_provider :: "string \<Rightarrow> ptype dict \<Rightarrow> provider" where
  "ex_provider n tys =
     \<lparr>pv_meta = \<lparr>pm_name = n, pm_version = ''1.0.0'', pm_description = [], pm_tags = [], pm_requires = []\<rparr>,
      pv_runtime = \<lparr>pr_needs = [], pr_backends = [], pr_network_mode = [], pr_entrypoint = []\<rparr>,
      pv_install = \<lparr>pi_source = Some \<lparr>is_build = ''b'', is_clean = ''c''\<rparr>, pi_image = None\<rparr>,
      pv_types = tys, pv_variables = [], pv_read_only = True, pv_writes_note = []\<rparr>"

theorem registry_resolve_pecking_order_witness:
  "let r = register (register new_registry (ex_provider ''aws'' [(''db'', ex_type ''a'' [] [])]))
             (ex_provider ''gcp'' [(''db'', ex_type ''g'' [] [])])
   in \<exists>us p vs. [''x/gcp@^3'', ''aws''] = us @ p # vs \<and> bare_provider_name p = ''gcp''"
proof -
  let ?r = "register (register new_registry (ex_provider ''aws'' [(''db'', ex_type ''a'' [] [])]))
             (ex_provider ''gcp'' [(''db'', ex_type ''g'' [] [])])"
  have "registry_resolve ?r [''x/gcp@^3'', ''aws''] ''db'' = Inr (ex_type ''g'' [] [], ''gcp'')"
    by (simp add: registry_resolve_def bare_provider_name_def rcut_def register_def new_registry_def
        ex_provider_def)
  from registry_resolve_pecking_order [OF _ this]
  have "(\<exists>us p vs. [''x/gcp@^3'', ''aws''] = us @ p # vs \<and> ''gcp'' = bare_provider_name p) \<or>
      generic_fallback ?r = Some (ex_type ''g'' [] [], ''gcp'')"
    by fastforce
  moreover have "generic_fallback ?r = None"
    by (simp add: generic_fallback_def register_def new_registry_def ex_provider_def generic_name_def)
  ultimately show ?thesis by (metis option.distinct(1))
qed

text \<open>
  \<open>Register\<close> replaces a provider registered under the same name, so of two registrations of one
  name the later decides what its types are.
\<close>

lemma register_twice_later_wins:
  "pv_name p = pv_name q \<Longrightarrow> rg_providers (register (register r p) q) (pv_name p) = Some q"
  by (simp add: register_def Let_def)

lemma register_order_distinct:
  "distinct (rg_order r) \<Longrightarrow> set (rg_order r) = dom (rg_providers r) \<Longrightarrow>
   distinct (rg_order (register r p)) \<and> set (rg_order (register r p)) = dom (rg_providers (register r p))"
  by (auto simp: register_def Let_def)

definition ex_model :: "component list \<Rightarrow> model" where
  "ex_model cs =
     \<lparr>m_meta = \<lparr>mt_name = ''m'', mt_version = ''1'', mt_providers = [''p''], mt_vars = [(''zone'', ''eu'')],
                mt_strict = False, mt_scenarios = []\<rparr>,
      m_components = map (\<lambda>c. (c_name c, c)) cs, m_order = map c_name cs, m_source_path = []\<rparr>"

end
