(* ===== verification/Health.thy ===== *)
theory Health
  imports Facts System_Model
begin

text \<open>
  What the facts say about each component: its derived state (\<open>internal/state/derive.go\<close>), its
  health verdict (\<open>internal/engine/strategy/health.go\<close>), and what redundancy groups make of it
  (redundancy.go).

  The lemmas show when a component is Healthy, Unhealthy or Unknown, that nothing is Healthy
  without a readable fact, that a rule's decision survives new facts, and when a group holds.
\<close>

subsection \<open>State derivation\<close>

record derivation =
  dv_states :: "string \<rightharpoonup> string"
  dv_unresolved :: "string \<Rightarrow> eval_error list"

text \<open>
  \<open>tryStateMatch\<close> over the ordered states: the first whose \<open>when:\<close> is true wins, an
  \<open>UnresolvedError\<close> is recorded, any other error only skips the state.
\<close>

fun derive_loop :: "ctx \<Rightarrow> state_def list \<Rightarrow> eval_error list \<Rightarrow> string \<times> eval_error list" where
  "derive_loop c [] acc = (''unknown'', acc)"
| "derive_loop c (sd # sds) acc =
     (case sd_when sd of
        None \<Rightarrow> derive_loop c sds acc
      | Some n \<Rightarrow>
          (case eval c n of
             Inr True \<Rightarrow> (sd_name sd, acc)
           | Inr False \<Rightarrow> derive_loop c sds acc
           | Inl (Unresolved cn k why) \<Rightarrow> derive_loop c sds (acc @ [Unresolved cn k why])
           | Inl _ \<Rightarrow> derive_loop c sds acc))"

definition engine_ctx :: "model \<Rightarrow> registry \<Rightarrow> store \<Rightarrow> (string \<rightharpoonup> string) \<Rightarrow> string \<Rightarrow> ctx" where
  "engine_ctx m r s states cn =
     \<lparr>cx_component = cn, cx_facts = lookup_value s, cx_states = states, cx_vars = model_var m (Some r)\<rparr>"

text \<open>
  \<open>deriveOne\<close>. A name without a component is a nil dereference in the code; \<open>wf_model\<close> excludes it.
\<close>

definition derive_one :: "model \<Rightarrow> registry \<Rightarrow> store \<Rightarrow> derivation \<Rightarrow> string \<Rightarrow> derivation" where
  "derive_one m r s d name =
     (let (st, unres) =
        (case component_of m name of
           None \<Rightarrow> (''unknown'', dv_unresolved d name)
         | Some c \<Rightarrow>
             (case resolve_type c m r of
                Inl _ \<Rightarrow> (''unknown'', dv_unresolved d name)
              | Inr (t, _) \<Rightarrow>
                  derive_loop (engine_ctx m r s (dv_states d) name) (ty_states t) (dv_unresolved d name)))
      in d\<lparr>dv_states := (dv_states d)(name \<mapsto> st), dv_unresolved := (dv_unresolved d)(name := unres)\<rparr>)"

definition derive :: "model \<Rightarrow> registry \<Rightarrow> store \<Rightarrow> derivation" where
  "derive m r s =
     foldl (derive_one m r s) \<lparr>dv_states = Map.empty, dv_unresolved = (\<lambda>_. [])\<rparr> (m_order m)"

lemma derive_loop_first:
  "fst (derive_loop c sds acc) =
     (case List.find (\<lambda>sd. \<exists>n. sd_when sd = Some n \<and> eval c n = Inr True) sds of
        Some sd \<Rightarrow> sd_name sd | None \<Rightarrow> ''unknown'')"
  by (induction c sds acc rule: derive_loop.induct)
    (auto split: option.split sum.split eval_error.split bool.split)

lemma derive_one_dom: "dom (dv_states (derive_one m r s d n)) = insert n (dom (dv_states d))"
  by (auto simp: derive_one_def Let_def split: prod.splits)

lemma derive_one_other: "n' \<noteq> n \<Longrightarrow> dv_states (derive_one m r s d n) n' = dv_states d n'"
  by (auto simp: derive_one_def Let_def split: prod.splits)

lemma derive_fold_dom: "dom (dv_states (foldl (derive_one m r s) d ns)) = set ns \<union> dom (dv_states d)"
  by (induction ns arbitrary: d) (auto simp: derive_one_dom)

lemma derive_fold_other: "n \<notin> set ns \<Longrightarrow> dv_states (foldl (derive_one m r s) d ns) n = dv_states d n"
  by (induction ns arbitrary: d) (auto simp: derive_one_other)

text \<open>Every component of the model gets a state, and nothing else does.\<close>

lemma derive_dom: "dom (dv_states (derive m r s)) = set (m_order m)"
  by (simp add: derive_def derive_fold_dom)

text \<open>
  A component's derived state is the first of its type's states whose \<open>when:\<close> holds given the
  facts and the states of the components declared before it, else \<open>unknown\<close>; a predicate that
  cannot be decided never wins and never blocks a later state.
\<close>

theorem derive_first_match:
  assumes "m_order m = before @ n # after" and "distinct (m_order m)"
    and "component_of m n = Some c" and "resolve_type c m r = Inr (t, owner)"
  shows "dv_states (derive m r s) n =
     Some (case List.find (\<lambda>sd. \<exists>p. sd_when sd = Some p \<and>
               eval (engine_ctx m r s (dv_states (derive m r s) |` set before) n) p = Inr True) (ty_states t) of
             Some sd \<Rightarrow> sd_name sd | None \<Rightarrow> ''unknown'')"
proof -
  let ?init = "\<lparr>dv_states = Map.empty, dv_unresolved = (\<lambda>_. [])\<rparr>"
  let ?d = "foldl (derive_one m r s) ?init before"
  have all: "derive m r s = foldl (derive_one m r s) (derive_one m r s ?d n) after"
    by (simp add: derive_def assms(1))
  have fresh: "n \<notin> set after" "\<And>x. x \<in> set before \<Longrightarrow> x \<notin> set (n # after)"
    using assms(1,2) by auto
  have "dv_states (derive m r s) x = dv_states ?d x" if "x \<in> set before" for x
    using fresh(2) [OF that] by (simp add: all derive_fold_other derive_one_other)
  moreover have "dv_states ?d x = None" if "x \<notin> set before" for x
    using that derive_fold_dom [of m r s ?init before] by (auto simp: dom_def)
  ultimately have "dv_states (derive m r s) |` set before = dv_states ?d"
    by (auto simp: fun_eq_iff restrict_map_def)
  moreover have "dv_states (derive m r s) n = dv_states (derive_one m r s ?d n) n"
    using fresh(1) by (simp add: all derive_fold_other)
  moreover have "dv_states (derive_one m r s ?d n) n =
      Some (fst (derive_loop (engine_ctx m r s (dv_states ?d) n) (ty_states t) (dv_unresolved ?d n)))"
    by (simp add: derive_one_def assms(3,4) split: prod.split)
  ultimately show ?thesis by (simp only: derive_loop_first)
qed

subsection \<open>Health verdicts\<close>

datatype verdict = Unknown | Healthy | Unhealthy

text \<open>\<open>EvalStatePredicate\<close>: the raw facts, without derived states.\<close>

definition eval_predicate :: "model \<Rightarrow> registry \<Rightarrow> store \<Rightarrow> string \<Rightarrow> node \<Rightarrow> eval_result" where
  "eval_predicate m r s cn n = eval (engine_ctx m r s Map.empty cn) n"

fun first_true_state :: "(node \<Rightarrow> eval_result) \<Rightarrow> state_def list \<Rightarrow> state_def option" where
  "first_true_state ev [] = None"
| "first_true_state ev (sd # sds) =
     (case sd_when sd of
        None \<Rightarrow> first_true_state ev sds
      | Some n \<Rightarrow> if ev n = Inr True then Some sd else first_true_state ev sds)"

definition state_verdict_of :: "model \<Rightarrow> registry \<Rightarrow> store \<Rightarrow> component \<Rightarrow> string \<Rightarrow> state_verdict" where
  "state_verdict_of m r s c name =
     (case resolve_type c m r of
        Inl _ \<Rightarrow> NoVerdict
      | Inr (t, _) \<Rightarrow>
          (case first_true_state (eval_predicate m r s name) (ty_states t) of
             None \<Rightarrow> NoVerdict
           | Some sd \<Rightarrow> sd_verdict sd))"

definition effective_healthy_for :: "model \<Rightarrow> registry \<Rightarrow> component \<Rightarrow> node list" where
  "effective_healthy_for m r c =
     healthy_rules c (case resolve_type c m r of Inl _ \<Rightarrow> None | Inr (t, _) \<Rightarrow> Some t)"

definition observed :: "store \<Rightarrow> string \<Rightarrow> bool" where
  "observed s name \<longleftrightarrow> (\<exists>f\<in>set (facts_for s name). f_value f \<noteq> None)"

text \<open>The loop over the rules: an error leaves Unknown, the first false rule returns.\<close>

fun rules_verdict :: "(node \<Rightarrow> eval_result) \<Rightarrow> node list \<Rightarrow> verdict \<Rightarrow> verdict" where
  "rules_verdict ev [] v = v"
| "rules_verdict ev (n # ns) v =
     (case ev n of
        Inl _ \<Rightarrow> rules_verdict ev ns Unknown
      | Inr ok \<Rightarrow> if \<not> ok then Unhealthy else rules_verdict ev ns v)"

definition component_verdict :: "model \<Rightarrow> registry \<Rightarrow> store \<Rightarrow> string \<Rightarrow> verdict" where
  "component_verdict m r s name =
     (case component_of m name of
        None \<Rightarrow> Unknown
      | Some c \<Rightarrow>
          if is_absent s name then Unhealthy
          else (case state_verdict_of m r s c name of
                  VerdictBroken \<Rightarrow> Unhealthy
                | VerdictHealthy \<Rightarrow> Healthy
                | NoVerdict \<Rightarrow>
                    (let rules = effective_healthy_for m r c
                     in if rules = [] then (if observed s name then Healthy else Unknown)
                        else rules_verdict (eval_predicate m r s name) rules Healthy)))"

lemma rules_verdict_Unhealthy:
  "v \<noteq> Unhealthy \<Longrightarrow> rules_verdict ev ns v = Unhealthy \<longleftrightarrow> (\<exists>n\<in>set ns. ev n = Inr False)"
  by (induction ev ns v rule: rules_verdict.induct) (auto split: sum.splits)

lemma rules_verdict_Healthy:
  "rules_verdict ev ns v = Healthy \<longleftrightarrow> v = Healthy \<and> (\<forall>n\<in>set ns. ev n = Inr True)"
  by (induction ev ns v rule: rules_verdict.induct) (auto split: sum.splits)

lemma first_true_state_find:
  "first_true_state ev sds = List.find (\<lambda>sd. \<exists>n. sd_when sd = Some n \<and> ev n = Inr True) sds"
  by (induction sds) (auto split: option.splits)

text \<open>
  C27: Absent from the system, in a broken state, or out of every verdict-carrying state with a
  healthy rule definitively false: these and nothing else make a component Unhealthy.
\<close>

theorem component_verdict_Unhealthy_iff:
  "component_verdict m r s name = Unhealthy \<longleftrightarrow>
     (\<exists>c. component_of m name = Some c \<and>
        (is_absent s name \<or> state_verdict_of m r s c name = VerdictBroken \<or>
         (state_verdict_of m r s c name = NoVerdict \<and>
          (\<exists>n\<in>set (effective_healthy_for m r c). eval_predicate m r s name n = Inr False))))"
  by (auto simp: component_verdict_def Let_def rules_verdict_Unhealthy split: option.splits state_verdict.splits)

lemma component_verdict_Healthy_iff:
  "component_verdict m r s name = Healthy \<longleftrightarrow>
     (\<exists>c. component_of m name = Some c \<and> \<not> is_absent s name \<and>
        (state_verdict_of m r s c name = VerdictHealthy \<or>
         (state_verdict_of m r s c name = NoVerdict \<and>
          (if effective_healthy_for m r c = [] then observed s name
           else \<forall>n\<in>set (effective_healthy_for m r c). eval_predicate m r s name n = Inr True))))"
  by (auto simp: component_verdict_def Let_def rules_verdict_Healthy split: option.splits state_verdict.splits)

subsection \<open>No verdict without evidence\<close>

lemma eval_blank: "(\<And>cn k. cx_facts c cn k = None) \<Longrightarrow> cx_states c = Map.empty \<Longrightarrow> decided (eval c n) = None"
  by (induction n)
    (auto simp: decided_eval_and decided_eval_or kleene_and_def kleene_or_def eval_cmp_def Let_def)

lemma eval_predicate_blank:
  assumes "\<And>cn k. (cn, k) \<in> fact_reads name n \<Longrightarrow> lookup_value s cn k = None"
  shows "eval_predicate m r s name n \<noteq> Inr b"
proof -
  let ?c = "engine_ctx m r s Map.empty name"
  have "eval (?c\<lparr>cx_facts := (\<lambda>_ _. None)\<rparr>) n = eval ?c n"
    using assms by (intro eval_reads_only) (simp add: engine_ctx_def split_def)
  moreover have "decided (eval (?c\<lparr>cx_facts := (\<lambda>_ _. None)\<rparr>) n) = None"
    by (rule eval_blank) (simp_all add: engine_ctx_def)
  ultimately show ?thesis by (auto simp: eval_predicate_def)
qed

text \<open>An expression that came out true on a readable value of some fact it reads.\<close>

definition shown_true :: "model \<Rightarrow> registry \<Rightarrow> store \<Rightarrow> string \<Rightarrow> node \<Rightarrow> bool" where
  "shown_true m r s name n \<longleftrightarrow>
     eval_predicate m r s name n = Inr True \<and> (\<exists>cn k v. (cn, k) \<in> fact_reads name n \<and> lookup_value s cn k = Some v)"

lemma shown_trueI: "eval_predicate m r s name n = Inr True \<Longrightarrow> shown_true m r s name n"
  using eval_predicate_blank [of name n s m r True] unfolding shown_true_def by (metis not_Some_eq)

text \<open>
  C28: Nothing is proven healthy without evidence. A Healthy verdict has one of three grounds: the
  predicate of a state that counts as healthy came out true on a readable value; or the component
  has healthy rules and every one of them came out true, each on a readable value of a fact it
  reads; or it has no rules at all and some fact of its own has a value. An undecided rule, and a
  missing, forbidden or transient fact, never clear a component.
\<close>

theorem healthy_needs_evidence:
  assumes "component_verdict m r s name = Healthy"
  shows "\<exists>c. component_of m name = Some c \<and>
    ((\<exists>t owner sd n. resolve_type c m r = Inr (t, owner) \<and> sd \<in> set (ty_states t) \<and> sd_verdict sd = VerdictHealthy \<and>
        sd_when sd = Some n \<and> eval_predicate m r s name n = Inr True \<and>
        (\<exists>cn k v. (cn, k) \<in> fact_reads name n \<and> lookup_value s cn k = Some v)) \<or>
     (effective_healthy_for m r c \<noteq> [] \<and>
      (\<forall>n\<in>set (effective_healthy_for m r c). eval_predicate m r s name n = Inr True \<and>
        (\<exists>cn k v. (cn, k) \<in> fact_reads name n \<and> lookup_value s cn k = Some v))) \<or>
     (effective_healthy_for m r c = [] \<and> (\<exists>f\<in>set (facts_for s name). f_value f \<noteq> None)))"
proof -
  from assms obtain c where c: "component_of m name = Some c" and
      ways: "state_verdict_of m r s c name = VerdictHealthy \<or>
        (if effective_healthy_for m r c = [] then observed s name
         else \<forall>n\<in>set (effective_healthy_for m r c). eval_predicate m r s name n = Inr True)"
    by (auto simp: component_verdict_Healthy_iff)
  have state: "\<exists>t owner sd n. resolve_type c m r = Inr (t, owner) \<and> sd \<in> set (ty_states t) \<and> sd_verdict sd = VerdictHealthy \<and>
      sd_when sd = Some n \<and> eval_predicate m r s name n = Inr True"
    if "state_verdict_of m r s c name = VerdictHealthy"
  proof -
    from that obtain t owner sd where "resolve_type c m r = Inr (t, owner)" "sd_verdict sd = VerdictHealthy"
        "first_true_state (eval_predicate m r s name) (ty_states t) = Some sd"
      by (auto simp: state_verdict_of_def split: sum.splits option.splits)
    then show ?thesis by (fastforce simp: first_true_state_find dest: find_Some_in)
  qed
  show ?thesis
    using c ways state shown_trueI [of m r s name] unfolding shown_true_def observed_def
    by (metis (no_types, lifting))
qed

definition ex_state :: "string \<Rightarrow> node option \<Rightarrow> state_verdict \<Rightarrow> state_def" where
  "ex_state n w v =
     \<lparr>sd_name = n, sd_when_raw = [], sd_when = w, sd_description = [], sd_triggered_by = [], sd_verdict = v\<rparr>"

definition ex_fact :: "string \<Rightarrow> val option \<Rightarrow> fact_status \<Rightarrow> obs_fact" where
  "ex_fact k v st =
     \<lparr>f_key = k, f_value = v, f_collector = [], f_at = 0, f_note = [], f_raw = [], f_status = st\<rparr>"

text \<open>A service whose \<open>up\<close> fact decides both its state and its health.\<close>

definition ex_registry :: registry where
  "ex_registry = register new_registry (ex_provider ''p''
     [(''svc'', ex_type ''svc'' [CmpNode [] ''up'' OpEq (VBool True)]
        [ex_state ''live'' (Some (CmpNode [] ''up'' OpEq (VBool True))) NoVerdict,
         ex_state ''down'' (Some (CmpNode [] ''up'' OpEq (VBool False))) NoVerdict])])"

definition ex_up :: "(string \<times> bool) list \<Rightarrow> store" where
  "ex_up obs = foldl (\<lambda>s (c, b). append_fact s c (ex_fact ''up'' (Some (VBool b)) Normal)) new_in_memory obs"

lemma ex_resolve_type:
  "resolve_type (ex_component n ''svc'' deps) (ex_model cs) ex_registry =
     Inr (ex_type ''svc'' [CmpNode [] ''up'' OpEq (VBool True)]
        [ex_state ''live'' (Some (CmpNode [] ''up'' OpEq (VBool True))) NoVerdict,
         ex_state ''down'' (Some (CmpNode [] ''up'' OpEq (VBool False))) NoVerdict], ''p'')"
  by (simp add: resolve_type_def registry_resolve_def bare_provider_name_def rcut_def register_def
      new_registry_def ex_provider_def ex_registry_def effective_providers_def ex_component_def
      ex_model_def effective_type_def ex_type_def)

lemmas ex_store_simps = ex_up_def ex_fact_def append_fact_def new_in_memory_def facts_for_def
  lookup_value_def latest_def find_last_def is_absent_def

lemma ex_verdict:
  assumes "component_of (ex_model cs) n = Some (ex_component n ''svc'' deps)" and "n \<noteq> []"
  shows "component_verdict (ex_model cs) ex_registry s n =
     (if is_absent s n then Unhealthy
      else rules_verdict (eval_predicate (ex_model cs) ex_registry s n) [CmpNode [] ''up'' OpEq (VBool True)] Healthy)"
proof -
  have "state_verdict_of (ex_model cs) ex_registry s (ex_component n ''svc'' deps) n = NoVerdict"
    by (simp add: state_verdict_of_def ex_resolve_type ex_type_def ex_state_def)
  moreover have "effective_healthy_for (ex_model cs) ex_registry (ex_component n ''svc'' deps) =
      [CmpNode [] ''up'' OpEq (VBool True)]"
    by (simp only: effective_healthy_for_def ex_resolve_type)
      (simp add: healthy_rules_def effective_rules_def ex_component_def ex_type_def)
  ultimately show ?thesis
    using assms by (simp add: component_verdict_def)
qed

theorem healthy_needs_evidence_witness:
  "let m = ex_model [ex_component ''api'' ''svc'' []]; s = ex_up [(''api'', True)]
   in \<exists>n. eval_predicate m ex_registry s ''api'' n = Inr True \<and>
        (\<exists>cn k v. (cn, k) \<in> fact_reads ''api'' n \<and> lookup_value s cn k = Some v)"
  unfolding Let_def
proof -
  let ?m = "ex_model [ex_component ''api'' ''svc'' []]" and ?c = "ex_component ''api'' ''svc'' []"
  have c: "component_of ?m ''api'' = Some ?c" by (simp add: ex_model_def ex_component_def)
  have rules: "effective_healthy_for ?m ex_registry ?c = [CmpNode [] ''up'' OpEq (VBool True)]"
    by (simp only: effective_healthy_for_def ex_resolve_type)
      (simp add: healthy_rules_def effective_rules_def ex_component_def ex_type_def)
  have "component_verdict ?m ex_registry (ex_up [(''api'', True)]) ''api'' = Healthy"
    by (simp add: ex_verdict [OF c] eval_predicate_def engine_ctx_def eval_cmp_def ex_store_simps
        compare_fact_value_def compare_bool_fact_def)
  from healthy_needs_evidence [OF this]
  show "\<exists>n. eval_predicate ?m ex_registry (ex_up [(''api'', True)]) ''api'' n = Inr True \<and>
      (\<exists>cn k v. (cn, k) \<in> fact_reads ''api'' n \<and> lookup_value (ex_up [(''api'', True)]) cn k = Some v)"
    by (auto simp: c rules)
qed

theorem derive_first_match_witness:
  "let m = ex_model [ex_component ''db'' ''svc'' [], ex_component ''api'' ''svc'' []]
   in dv_states (derive m ex_registry (ex_up [(''db'', False)])) ''db'' = Some ''down''"
proof -
  let ?db = "ex_component ''db'' ''svc'' []"
  let ?m = "ex_model [?db, ex_component ''api'' ''svc'' []]"
  have "m_order ?m = [] @ ''db'' # [''api'']" "distinct (m_order ?m)" "component_of ?m ''db'' = Some ?db"
    by (simp_all add: ex_model_def ex_component_def)
  from derive_first_match [OF this ex_resolve_type, of "ex_up [(''db'', False)]"]
  show ?thesis
    by (simp add: ex_type_def ex_state_def engine_ctx_def eval_cmp_def ex_store_simps
        compare_fact_value_def compare_bool_fact_def)
qed

text \<open>A rule's decision, and so a verdict the rules alone give, survives new facts.\<close>

lemma rules_verdict_stable:
  assumes "\<And>n b. n \<in> set ns \<Longrightarrow> ev n = Inr b \<Longrightarrow> ev' n = Inr b"
    and "rules_verdict ev ns Healthy = v" and "v \<noteq> Unknown"
  shows "rules_verdict ev' ns Healthy = v"
  using assms
  by (cases v) (auto simp: rules_verdict_Healthy rules_verdict_Unhealthy)

subsection \<open>What could not be seen\<close>

record unseen =
  us_component :: string
  us_facts :: "fact_status dict"

definition cannot_rule_out :: "model \<Rightarrow> registry \<Rightarrow> store \<Rightarrow> unseen list" where
  "cannot_rule_out m r s =
     map (\<lambda>n. \<lparr>us_component = n, us_facts = unreadable s n\<rparr>)
       (filter (\<lambda>n. unreadable s n \<noteq> [] \<and> component_verdict m r s n = Unknown) (m_order m))"

fun status_text :: "fact_status \<Rightarrow> string" where
  "status_text Normal = []"
| "status_text NotFound = ''not_found''"
| "status_text Forbidden = ''forbidden''"
| "status_text Transient = ''transient''"
| "status_text (OtherStatus s) = s"

definition unseen_text :: "unseen \<Rightarrow> string" where
  "unseen_text u =
     us_component u @ '' ('' @
     join '', '' (map (\<lambda>k. k @ '': '' @
         (case map_of (us_facts u) k of None \<Rightarrow> [] | Some st \<Rightarrow> status_text st)) (sort (keys (us_facts u)))) @ '')''"

subsection \<open>Redundancy groups\<close>

definition healthy_members :: "model \<Rightarrow> registry \<Rightarrow> store \<Rightarrow> dependency \<Rightarrow> nat" where
  "healthy_members m r s dep = length (filter (\<lambda>x. component_verdict m r s x = Healthy) (dp_on dep))"

definition group_text :: "string \<Rightarrow> nat \<Rightarrow> dependency \<Rightarrow> string" where
  "group_text parent healthy dep =
     parent @ '': '' @ itoa (int healthy) @ '' of '' @ itoa (int (length (dp_on dep))) @
     '' healthy in ['' @ join '', '' (dp_on dep) @ ''], needs '' @ itoa (dp_need dep)"

fun group_loop :: "model \<Rightarrow> registry \<Rightarrow> store \<Rightarrow> string \<Rightarrow> string \<Rightarrow> dependency list \<Rightarrow> string option" where
  "group_loop m r s parent child [] = None"
| "group_loop m r s parent child (dep # deps) =
     (if dp_need dep \<le> 0 \<or> child \<notin> set (dp_on dep) then group_loop m r s parent child deps
      else (let healthy = healthy_members m r s dep
            in if dp_need dep \<le> int healthy then Some (group_text parent healthy dep)
               else group_loop m r s parent child deps))"

text \<open>\<open>SatisfiedGroup\<close>: \<open>Some\<close> of the description is \<open>(true, desc)\<close>.\<close>

definition satisfied_group :: "model \<Rightarrow> registry \<Rightarrow> store \<Rightarrow> string \<Rightarrow> string \<Rightarrow> string option" where
  "satisfied_group m r s parent child =
     (case component_of m parent of
        None \<Rightarrow> None
      | Some c \<Rightarrow> group_loop m r s parent child (c_depends c))"

abbreviation group_holds :: "model \<Rightarrow> registry \<Rightarrow> store \<Rightarrow> string \<Rightarrow> string \<Rightarrow> bool" where
  "group_holds m r s parent child \<equiv> satisfied_group m r s parent child \<noteq> None"

definition depends_on :: "component \<Rightarrow> string \<Rightarrow> bool" where
  "depends_on c name \<longleftrightarrow> (\<exists>dep\<in>set (c_depends c). name \<in> set (dp_on dep))"

fun covered_loop :: "model \<Rightarrow> registry \<Rightarrow> store \<Rightarrow> string \<Rightarrow> string list \<Rightarrow> nat \<Rightarrow> bool" where
  "covered_loop m r s name [] dependents = (0 < dependents)"
| "covered_loop m r s name (parent # ps) dependents =
     (case component_of m parent of
        None \<Rightarrow> covered_loop m r s name ps dependents
      | Some c \<Rightarrow>
          if \<not> depends_on c name then covered_loop m r s name ps dependents
          else if \<not> group_holds m r s parent name then False
          else covered_loop m r s name ps (Suc dependents))"

definition redundancy_covered :: "model \<Rightarrow> registry \<Rightarrow> store \<Rightarrow> string \<Rightarrow> bool" where
  "redundancy_covered m r s name = covered_loop m r s name (m_order m) 0"

record degraded =
  dg_component :: string
  dg_groups :: "string list"

definition covering_groups :: "model \<Rightarrow> registry \<Rightarrow> store \<Rightarrow> string \<Rightarrow> string list" where
  "covering_groups m r s name =
     List.map_filter (\<lambda>parent.
        case component_of m parent of
          None \<Rightarrow> None
        | Some c \<Rightarrow>
            if depends_on c name
            then Some (case satisfied_group m r s parent name of None \<Rightarrow> [] | Some d \<Rightarrow> d) else None)
       (m_order m)"

definition redundancy_degraded :: "model \<Rightarrow> registry \<Rightarrow> store \<Rightarrow> degraded list" where
  "redundancy_degraded m r s =
     map (\<lambda>n. \<lparr>dg_component = n, dg_groups = sort (covering_groups m r s n)\<rparr>)
       (filter (\<lambda>n. component_verdict m r s n = Unhealthy \<and> redundancy_covered m r s n) (m_order m))"

definition degraded_text :: "degraded \<Rightarrow> string" where
  "degraded_text d = dg_component d @ '' ('' @ join ''; '' (dg_groups d) @ '')''"

lemma group_loop_holds:
  "group_loop m r s parent child deps \<noteq> None \<longleftrightarrow>
     (\<exists>dep\<in>set deps. 0 < dp_need dep \<and> child \<in> set (dp_on dep) \<and> dp_need dep \<le> int (healthy_members m r s dep))"
  by (induction deps) (auto simp: Let_def)

text \<open>
  A dependency shields its parent exactly when it is a redundancy group of which at least
  \<open>need\<close> members are proven healthy; an Unknown member never counts.
\<close>

theorem satisfied_group_iff:
  "group_holds m r s parent child \<longleftrightarrow>
     (\<exists>c dep. component_of m parent = Some c \<and> dep \<in> set (c_depends c) \<and> 0 < dp_need dep \<and>
        child \<in> set (dp_on dep) \<and>
        dp_need dep \<le> int (length (filter (\<lambda>x. component_verdict m r s x = Healthy) (dp_on dep))))"
proof (cases "component_of m parent")
  case None
  then show ?thesis by (simp add: satisfied_group_def)
next
  case (Some c)
  then show ?thesis
    using group_loop_holds [of m r s parent child "c_depends c"]
    by (auto simp: satisfied_group_def healthy_members_def)
qed

lemma covered_loop_iff:
  "covered_loop m r s name ps k \<longleftrightarrow>
     (\<forall>p\<in>set ps. \<forall>c. component_of m p = Some c \<longrightarrow> depends_on c name \<longrightarrow> group_holds m r s p name) \<and>
     (0 < k \<or> (\<exists>p\<in>set ps. \<exists>c. component_of m p = Some c \<and> depends_on c name))"
  by (induction m r s name ps k rule: covered_loop.induct) (auto split: option.splits)

lemma redundancy_covered_iff:
  "redundancy_covered m r s name \<longleftrightarrow>
     (\<forall>p\<in>set (m_order m). \<forall>c. component_of m p = Some c \<longrightarrow> depends_on c name \<longrightarrow> group_holds m r s p name) \<and>
     (\<exists>p\<in>set (m_order m). \<exists>c. component_of m p = Some c \<and> depends_on c name)"
  by (simp add: redundancy_covered_def covered_loop_iff)

text \<open>A degraded component and one that cannot be ruled out are never the same one.\<close>

lemma degraded_seen:
  "d \<in> set (redundancy_degraded m r s) \<Longrightarrow> u \<in> set (cannot_rule_out m r s) \<Longrightarrow>
   dg_component d \<noteq> us_component u"
  by (auto simp: redundancy_degraded_def cannot_rule_out_def)

end
