(* ===== verification/Walks.thy ===== *)
theory Walks
  imports Health
begin

text \<open>
  Walking the dependency graph over active edges: the strategies' \<open>bfsWalk\<close>
  (\<open>internal/engine/strategy/bfs.go\<close>) and the engine's path enumeration \<open>bfsEnumerate\<close>
  (\<open>internal/engine/plan.go\<close>), which mark a component visited at different moments.

  The locale \<open>search\<close> says what a graph search promises of what it found, and that this pins the
  set found; both walks interpret it, so they agree on which components are in play. Paths are
  shortest walks.
\<close>

subsection \<open>Active edges\<close>

text \<open>\<open>whileGuardActive\<close>: only a definitively false guard skips the edge.\<close>

definition while_guard_active ::
    "model \<Rightarrow> registry \<Rightarrow> store \<Rightarrow> (string \<rightharpoonup> string) \<Rightarrow> string \<Rightarrow> dependency \<Rightarrow> bool" where
  "while_guard_active m r s states cn dep =
     (case dp_while dep of
        None \<Rightarrow> True
      | Some n \<Rightarrow> eval (engine_ctx m r s states cn) n \<noteq> Inr False)"

text \<open>The targets of a component's active dependencies, in declaration order.\<close>

definition next_of :: "model \<Rightarrow> (string \<Rightarrow> dependency \<Rightarrow> bool) \<Rightarrow> string \<Rightarrow> string list" where
  "next_of m act cn =
     (case component_of m cn of
        None \<Rightarrow> []
      | Some c \<Rightarrow> concat (map dp_on (filter (act cn) (c_depends c))))"

definition all_targets :: "model \<Rightarrow> string set" where
  "all_targets m = (\<Union>(n, c)\<in>set (m_components m). \<Union>dep\<in>set (c_depends c). set (dp_on dep))"

lemma finite_all_targets [simp]: "finite (all_targets m)"
  by (simp add: all_targets_def split_def)

lemma next_of_targets: "x \<in> set (next_of m act cn) \<Longrightarrow> x \<in> all_targets m"
proof -
  assume "x \<in> set (next_of m act cn)"
  then obtain c dep where "component_of m cn = Some c" "dep \<in> set (c_depends c)" "x \<in> set (dp_on dep)"
    by (cases "component_of m cn") (auto simp: next_of_def)
  then show ?thesis by (auto simp: all_targets_def intro!: bexI [of _ "(cn, c)"] dest: map_of_SomeD)
qed

lemma next_of_subset: "set (next_of m act cn) \<subseteq> all_targets m"
  using next_of_targets by blast

definition edges :: "(string \<Rightarrow> string list) \<Rightarrow> (string \<times> string) set" where
  "edges nx = {(a, b). b \<in> set (nx a)}"

lemma in_edges [simp]: "(a, b) \<in> edges nx \<longleftrightarrow> b \<in> set (nx a)"
  by (simp add: edges_def)

subsection \<open>What a search promises\<close>

locale search =
  fixes nx :: "string \<Rightarrow> string list" and start :: string and found :: "string set"
  assumes found_start: "start \<in> found"
    and found_closed: "a \<in> found \<Longrightarrow> b \<in> set (nx a) \<Longrightarrow> b \<in> found"
    and found_reached: "b \<in> found \<Longrightarrow> (start, b) \<in> (edges nx)\<^sup>*"
begin

lemma reached_found: "(start, b) \<in> (edges nx)\<^sup>* \<Longrightarrow> b \<in> found"
  by (induction rule: rtrancl_induct) (auto intro: found_start found_closed)

lemma found_iff: "b \<in> found \<longleftrightarrow> (start, b) \<in> (edges nx)\<^sup>*"
  using reached_found found_reached by blast

end

subsection \<open>\<open>bfsWalk\<close>\<close>

function bfs_loop :: "model \<Rightarrow> (string \<Rightarrow> dependency \<Rightarrow> bool) \<Rightarrow> string list \<Rightarrow> string set \<Rightarrow> string list" where
  "bfs_loop m act [] visited = []"
| "bfs_loop m act (c # queue) visited =
     (if c \<in> visited then bfs_loop m act queue visited
      else c # bfs_loop m act
             (queue @ filter (\<lambda>t. t \<notin> insert c visited) (next_of m act c)) (insert c visited))"
  by pat_completeness auto

lemma search_shrinks:
  assumes "finite T" and "c \<in> Q" and "c \<notin> V" and "Q' \<subseteq> Q \<union> T" and "finite Q"
  shows "card ((T \<union> Q') - insert c V) < card ((T \<union> Q) - V)"
proof (rule psubset_card_mono)
  show "finite (T \<union> Q - V)" using assms by simp
  show "T \<union> Q' - insert c V \<subset> T \<union> Q - V" using assms by auto
qed

lemma search_shrinks_weak:
  "finite T \<Longrightarrow> finite Q \<Longrightarrow> Q' \<subseteq> Q \<Longrightarrow> card ((T \<union> Q') - V) \<le> card ((T \<union> Q) - V)"
  by (intro card_mono) auto

termination bfs_loop
proof (relation "measures [\<lambda>(m, act, queue, visited). card ((all_targets m \<union> set queue) - visited),
                           \<lambda>(m, act, queue, visited). length queue]", goal_cases)
  case (2 m act c queue visited)
  have "card ((all_targets m \<union> set queue) - visited) \<le> card ((all_targets m \<union> set (c # queue)) - visited)"
    by (intro search_shrinks_weak) auto
  then show ?case by auto
next
  case (3 m act c queue visited)
  have "card ((all_targets m \<union> set (queue @ filter (\<lambda>t. t \<notin> insert c visited) (next_of m act c))) - insert c visited)
      < card ((all_targets m \<union> set (c # queue)) - visited)"
    using 3 next_of_subset [of m act c] by (intro search_shrinks) auto
  then show ?case by simp
qed simp

definition bfs_walk :: "model \<Rightarrow> registry \<Rightarrow> store \<Rightarrow> string \<Rightarrow> string list" where
  "bfs_walk m r s entry =
     bfs_loop m (while_guard_active m r s (dv_states (derive m r s))) [entry] {}"

lemma bfs_loop_distinct: "distinct (bfs_loop m act queue visited) \<and> set (bfs_loop m act queue visited) \<inter> visited = {}"
  by (induction m act queue visited rule: bfs_loop.induct) auto

lemma bfs_loop_queue: "set queue \<subseteq> visited \<union> set (bfs_loop m act queue visited)"
  by (induction m act queue visited rule: bfs_loop.induct) auto

lemma bfs_loop_closed:
  assumes "\<And>a b. a \<in> visited \<Longrightarrow> b \<in> set (next_of m act a) \<Longrightarrow> b \<in> visited \<union> set queue"
    and "a \<in> visited \<union> set (bfs_loop m act queue visited)" and "b \<in> set (next_of m act a)"
  shows "b \<in> visited \<union> set (bfs_loop m act queue visited)"
  using assms
proof (induction m act queue visited rule: bfs_loop.induct)
  case (1 m act visited)
  then show ?case by auto
next
  case (2 m act c queue visited)
  show ?case
  proof (cases "c \<in> visited")
    case True
    have "\<And>a b. a \<in> visited \<Longrightarrow> b \<in> set (next_of m act a) \<Longrightarrow> b \<in> visited \<union> set queue"
      using 2(3) True by fastforce
    with True 2 show ?thesis by simp
  next
    case False
    let ?q = "queue @ filter (\<lambda>t. t \<notin> insert c visited) (next_of m act c)"
    have "b \<in> insert c visited \<union> set (bfs_loop m act ?q (insert c visited))"
    proof (rule 2(2) [OF False _ _ 2(5)])
      show "a \<in> insert c visited \<union> set (bfs_loop m act ?q (insert c visited))"
        using 2(4) False by auto
      show "b' \<in> insert c visited \<union> set ?q" if "a' \<in> insert c visited" "b' \<in> set (next_of m act a')" for a' b'
        using that 2(3) [of a' b'] by (cases "a' = c") auto
    qed
    with False show ?thesis by auto
  qed
qed

lemma bfs_loop_reached:
  "b \<in> set (bfs_loop m act queue visited) \<Longrightarrow> \<exists>a\<in>set queue. (a, b) \<in> (edges (next_of m act))\<^sup>*"
proof (induction m act queue visited rule: bfs_loop.induct)
  case (1 m act visited)
  then show ?case by simp
next
  case (2 m act c queue visited)
  show ?case
  proof (cases "c \<in> visited \<or> b = c")
    case True
    with 2 show ?thesis by (auto split: if_splits)
  next
    case False
    with 2 obtain a where a: "a \<in> set queue \<or> a \<in> set (next_of m act c)" "(a, b) \<in> (edges (next_of m act))\<^sup>*"
      by auto
    then show ?thesis by (auto intro: converse_rtrancl_into_rtrancl)
  qed
qed

interpretation walk: search "next_of m act" entry "set (bfs_loop m act [entry] {})" for m act entry
proof (unfold_locales, goal_cases)
  case 1
  show ?case using bfs_loop_queue [of "[entry]" "{}" m act] by simp
next
  case (2 a b)
  then show ?case using bfs_loop_closed [of "{}" m act "[entry]" a b] by simp
next
  case (3 b)
  then show ?case using bfs_loop_reached [of b m act "[entry]" "{}"] by auto
qed

text \<open>
  C32: The components in play are exactly those the entry reaches over edges whose guard is not
  definitively false, each listed once; an undecided guard never drops a component.
\<close>

theorem bfs_walk_reachable:
  "distinct (bfs_walk m r s entry) \<and>
   set (bfs_walk m r s entry) =
     {b. (entry, b) \<in> {(a, b). \<exists>c dep. component_of m a = Some c \<and> dep \<in> set (c_depends c) \<and> b \<in> set (dp_on dep) \<and>
            \<not> (\<exists>g. dp_while dep = Some g \<and> eval (engine_ctx m r s (dv_states (derive m r s)) a) g = Inr False)}\<^sup>*}"
proof -
  let ?act = "while_guard_active m r s (dv_states (derive m r s))"
  have "edges (next_of m ?act) = {(a, b). \<exists>c dep. component_of m a = Some c \<and> dep \<in> set (c_depends c) \<and> b \<in> set (dp_on dep) \<and>
            \<not> (\<exists>g. dp_while dep = Some g \<and> eval (engine_ctx m r s (dv_states (derive m r s)) a) g = Inr False)}"
    (is "_ = ?E")
  proof (rule set_eqI, clarify)
    fix a b
    show "(a, b) \<in> edges (next_of m ?act) \<longleftrightarrow> (a, b) \<in> ?E"
      by (cases "component_of m a") (auto simp: next_of_def while_guard_active_def split: option.splits)
  qed
  then show ?thesis
    using walk.found_iff [of _ m ?act entry] bfs_loop_distinct [of m ?act "[entry]" "{}"]
    by (auto simp: bfs_walk_def)
qed

subsection \<open>\<open>bfsEnumerate\<close>\<close>

text \<open>
  The engine's enumeration marks a target visited when it is queued. A queue item is a component
  with the path to it; every newly found target gives one path.
\<close>

function enum_loop ::
    "model \<Rightarrow> (string \<Rightarrow> dependency \<Rightarrow> bool) \<Rightarrow> (string \<times> string list) list \<Rightarrow> string set \<Rightarrow> string list list" where
  "enum_loop m act [] visited = []"
| "enum_loop m act ((n, path) # queue) visited =
     (let new = dedup_by (\<lambda>t. t) visited (next_of m act n);
          items = map (\<lambda>t. (t, path @ [t])) new
      in map snd items @ enum_loop m act (queue @ items) (visited \<union> set new))"
  by pat_completeness auto

lemma set_dedup: "set (dedup_by (\<lambda>t. t) visited xs) = set xs - visited"
  using dedup_by_keys [of "\<lambda>t. t" visited xs] by simp

termination enum_loop
proof (relation "measures [\<lambda>(m, act, queue, visited). card (all_targets m - visited),
                           \<lambda>(m, act, queue, visited). length queue]", goal_cases)
  case (2 m act n path queue visited new items)
  have "set new = set (next_of m act n) - visited" using 2(1) by (simp add: set_dedup)
  then have sub: "set new \<subseteq> all_targets m - visited" using next_of_subset [of m act n] by auto
  show ?case
  proof (cases "new = []")
    case True
    then show ?thesis using 2 by simp
  next
    case False
    then obtain x where "x \<in> set new" by (cases new) auto
    with sub have "all_targets m - (visited \<union> set new) \<subset> all_targets m - visited" by blast
    then have "card (all_targets m - (visited \<union> set new)) < card (all_targets m - visited)"
      by (intro psubset_card_mono) simp_all
    then show ?thesis by simp
  qed
qed simp

definition bfs_enumerate :: "model \<Rightarrow> (string \<Rightarrow> dependency \<Rightarrow> bool) \<Rightarrow> string \<Rightarrow> string list list" where
  "bfs_enumerate m act entry = enum_loop m act [(entry, [entry])] {entry}"

text \<open>The components the enumeration covers: the entry and the ends of its paths.\<close>

lemma enum_loop_nonempty:
  "(\<And>n p. (n, p) \<in> set queue \<Longrightarrow> p \<noteq> [] \<and> last p = n) \<Longrightarrow> p \<in> set (enum_loop m act queue visited) \<Longrightarrow> p \<noteq> []"
proof (induction m act queue visited rule: enum_loop.induct)
  case (2 m act n path queue visited)
  let ?new = "dedup_by (\<lambda>t. t) visited (next_of m act n)"
  let ?items = "map (\<lambda>t. (t, path @ [t])) ?new"
  have "p \<noteq> []" if "p \<in> set (enum_loop m act (queue @ ?items) (visited \<union> set ?new))"
    using that 2(2) by (intro 2(1) [OF refl refl]) auto
  with 2(3) show ?case by (auto simp: Let_def)
qed simp

lemma enum_loop_ends:
  "(\<And>n p. (n, p) \<in> set queue \<Longrightarrow> p \<noteq> [] \<and> last p = n) \<Longrightarrow>
   distinct (map last (enum_loop m act queue visited)) \<and>
   set (map last (enum_loop m act queue visited)) \<inter> visited = {}"
proof (induction m act queue visited rule: enum_loop.induct)
  case (2 m act n path queue visited)
  let ?new = "dedup_by (\<lambda>t. t) visited (next_of m act n)"
  let ?items = "map (\<lambda>t. (t, path @ [t])) ?new"
  have "distinct (map last (enum_loop m act (queue @ ?items) (visited \<union> set ?new))) \<and>
      set (map last (enum_loop m act (queue @ ?items) (visited \<union> set ?new))) \<inter> (visited \<union> set ?new) = {}"
    using 2(2) by (intro 2(1) [OF refl refl]) auto
  moreover have "map last (map snd ?items) = ?new" by (simp add: o_def)
  moreover have "distinct ?new" using distinct_dedup_by [of "\<lambda>t. t"] by simp
  ultimately show ?case by (auto simp: Let_def set_dedup)
qed simp

lemma enum_loop_closed:
  assumes "\<And>a b. a \<in> visited \<Longrightarrow> a \<notin> fst ` set queue \<Longrightarrow> b \<in> set (next_of m act a) \<Longrightarrow> b \<in> visited"
    and "fst ` set queue \<subseteq> visited"
    and "a \<in> visited \<union> last ` set (enum_loop m act queue visited)" and "b \<in> set (next_of m act a)"
  shows "b \<in> visited \<union> last ` set (enum_loop m act queue visited)"
  using assms
proof (induction m act queue visited rule: enum_loop.induct)
  case (2 m act n path queue visited)
  let ?new = "dedup_by (\<lambda>t. t) visited (next_of m act n)"
  let ?items = "map (\<lambda>t. (t, path @ [t])) ?new"
  let ?rest = "enum_loop m act (queue @ ?items) (visited \<union> set ?new)"
  have ends: "last ` set (enum_loop m act ((n, path) # queue) visited) = set ?new \<union> last ` set ?rest"
    by (auto simp: Let_def image_image image_Un)
  have "b \<in> (visited \<union> set ?new) \<union> last ` set ?rest"
  proof (rule 2(1) [OF refl refl])
    show "b' \<in> visited \<union> set ?new"
      if "a' \<in> visited \<union> set ?new" "a' \<notin> fst ` set (queue @ ?items)" "b' \<in> set (next_of m act a')" for a' b'
    proof -
      have "fst ` set ?items = set ?new" by (simp add: image_image)
      with that(1,2) have "a' \<in> visited" "a' \<notin> fst ` set queue" by auto
      with that(3) 2(2) [of a' b'] show ?thesis by (cases "a' = n") (auto simp: set_dedup)
    qed
    show "fst ` set (queue @ ?items) \<subseteq> visited \<union> set ?new"
      using 2(3) by auto
    show "a \<in> (visited \<union> set ?new) \<union> last ` set ?rest" using 2(4) ends by auto
    show "b \<in> set (next_of m act a)" by (rule 2(5))
  qed
  with ends show ?case by auto
qed auto

text \<open>A walk: consecutive components joined by active edges.\<close>

fun is_walk :: "(string \<Rightarrow> string list) \<Rightarrow> string list \<Rightarrow> bool" where
  "is_walk nx [] = False"
| "is_walk nx [x] = True"
| "is_walk nx (x # y # zs) = (y \<in> set (nx x) \<and> is_walk nx (y # zs))"

lemma is_walk_snoc: "p \<noteq> [] \<Longrightarrow> is_walk nx (p @ [x]) \<longleftrightarrow> is_walk nx p \<and> x \<in> set (nx (last p))"
  by (induction nx p rule: is_walk.induct) auto

lemma is_walk_rtrancl: "is_walk nx p \<Longrightarrow> (hd p, last p) \<in> (edges nx)\<^sup>*"
  by (induction nx p rule: is_walk.induct) (auto intro: converse_rtrancl_into_rtrancl)

lemma enum_loop_walks:
  "(\<And>n p. (n, p) \<in> set queue \<Longrightarrow> is_walk (next_of m act) p \<and> hd p = entry \<and> last p = n) \<Longrightarrow>
   p \<in> set (enum_loop m act queue visited) \<Longrightarrow> is_walk (next_of m act) p \<and> hd p = entry"
proof (induction m act queue visited rule: enum_loop.induct)
  case (2 m act n path queue visited)
  let ?new = "dedup_by (\<lambda>t. t) visited (next_of m act n)"
  let ?items = "map (\<lambda>t. (t, path @ [t])) ?new"
  have path: "is_walk (next_of m act) path" "hd path = entry" "last path = n"
    using 2(2) [of n path] by auto
  then have ne: "path \<noteq> []" by auto
  have step: "is_walk (next_of m act) (path @ [t]) \<and> hd (path @ [t]) = entry \<and> last (path @ [t]) = t"
    if "t \<in> set ?new" for t
    using that path ne by (auto simp: is_walk_snoc set_dedup)
  have "p \<in> set (map snd ?items) \<or> p \<in> set (enum_loop m act (queue @ ?items) (visited \<union> set ?new))"
    using 2(3) by (auto simp: Let_def)
  then show ?case
  proof
    assume "p \<in> set (map snd ?items)"
    then show ?thesis using step by auto
  next
    assume "p \<in> set (enum_loop m act (queue @ ?items) (visited \<union> set ?new))"
    then show ?thesis using 2(2) step by (intro 2(1) [OF refl refl]) auto
  qed
qed simp

interpretation enum: search "next_of m act" entry "insert entry (last ` set (bfs_enumerate m act entry))"
  for m act entry
proof (unfold_locales, goal_cases)
  case 1
  show ?case by simp
next
  case (2 a b)
  then show ?case
    using enum_loop_closed [of "{entry}" "[(entry, [entry])]" m act a b]
    by (auto simp: bfs_enumerate_def)
next
  case (3 b)
  then show ?case
    using enum_loop_walks [of "[(entry, [entry])]" m act entry _ "{entry}"] is_walk_rtrancl
    by (fastforce simp: bfs_enumerate_def)
qed

text \<open>
  The engine's path enumeration and the strategies' walk agree on which components are in
  play, though one marks a component visited when it is queued and the other when it is popped.
\<close>

theorem enumerate_agrees_with_walk:
  "insert entry (last ` set (bfs_enumerate m act entry)) = set (bfs_loop m act [entry] {})"
  using walk.found_iff [of _ m act entry] enum.found_iff [of _ entry m act] by blast

subsection \<open>Paths are shortest walks\<close>

definition shortest_walk :: "(string \<Rightarrow> string list) \<Rightarrow> string \<Rightarrow> string list \<Rightarrow> bool" where
  "shortest_walk nx entry p \<longleftrightarrow>
     is_walk nx p \<and> hd p = entry \<and>
     (\<forall>w. is_walk nx w \<longrightarrow> hd w = entry \<longrightarrow> last w = last p \<longrightarrow> length p \<le> length w)"

text \<open>
  What the queue keeps true: shortest walks, in order of length and at most one longer than the
  first, with every component nearer than that already visited.
\<close>

definition queue_inv :: "(string \<Rightarrow> string list) \<Rightarrow> string \<Rightarrow> (string \<times> string list) list \<Rightarrow> string set \<Rightarrow> bool" where
  "queue_inv nx entry queue visited \<longleftrightarrow>
     (\<forall>(n, p)\<in>set queue. shortest_walk nx entry p \<and> last p = n) \<and>
     sorted (map (length \<circ> snd) queue) \<and>
     (\<forall>q\<in>set queue. length (snd q) \<le> Suc (length (snd (hd queue)))) \<and>
     fst ` set queue \<subseteq> visited \<and>
     (\<forall>a\<in>visited. a \<notin> fst ` set queue \<longrightarrow> set (nx a) \<subseteq> visited) \<and>
     (queue \<noteq> [] \<longrightarrow>
       (\<forall>w. is_walk nx w \<longrightarrow> hd w = entry \<longrightarrow> length w \<le> length (snd (hd queue)) \<longrightarrow> last w \<in> visited))"

lemma walk_butlast:
  assumes "is_walk nx w" and "length w = Suc k" and "0 < k"
  shows "\<exists>w' x. w = w' @ [x] \<and> is_walk nx w' \<and> length w' = k \<and> hd w' = hd w \<and> x \<in> set (nx (last w'))"
proof -
  obtain w' x where w: "w = w' @ [x]" using assms(2) by (cases w rule: rev_cases) auto
  with assms have ne: "w' \<noteq> []" by auto
  with w assms show ?thesis by (auto simp: is_walk_snoc)
qed

lemma queue_inv_new_shortest:
  assumes inv: "queue_inv nx entry ((n, path) # queue) visited" and x: "x \<in> set (nx n)" "x \<notin> visited"
  shows "shortest_walk nx entry (path @ [x])"
proof -
  have p: "is_walk nx path" "hd path = entry" "last path = n" "path \<noteq> []"
    using inv by (auto simp: queue_inv_def shortest_walk_def)
  have "length path < length w" if "is_walk nx w" "hd w = entry" "last w = x" for w
    using inv that x(2) by (fastforce simp: queue_inv_def not_le)
  with p x(1) show ?thesis by (auto simp: shortest_walk_def is_walk_snoc Suc_le_eq)
qed

lemma queue_inv_near:
  assumes inv: "queue_inv nx entry ((n, path) # queue) visited"
    and new: "set new = set (nx n) - visited"
    and far: "\<forall>q\<in>set queue. length path < length (snd q)"
    and w: "is_walk nx w" "hd w = entry" "length w \<le> Suc (length path)"
  shows "last w \<in> visited \<union> set new"
proof (cases "length w \<le> length path")
  case True
  then show ?thesis using inv w by (auto simp: queue_inv_def)
next
  case False
  have "path \<noteq> []" using inv by (auto simp: queue_inv_def shortest_walk_def)
  with False w obtain w' x where w': "w = w' @ [x]" "is_walk nx w'" "length w' = length path"
      "hd w' = hd w" "x \<in> set (nx (last w'))"
    using walk_butlast [of nx w "length path"] by auto
  then have vis: "last w' \<in> visited" using inv w by (auto simp: queue_inv_def)
  have "last w' \<notin> fst ` set queue"
  proof
    assume "last w' \<in> fst ` set queue"
    then obtain p where p: "(last w', p) \<in> set queue" by auto
    then have "shortest_walk nx entry p" "last p = last w'" using inv by (auto simp: queue_inv_def)
    then have "length p \<le> length w'"
      using w(2) w'(2,4) by (auto simp: shortest_walk_def)
    with far p w'(3) show False by auto
  qed
  with vis inv w' new show ?thesis by (cases "last w' = n") (auto simp: queue_inv_def)
qed

lemma queue_inv_step:
  assumes inv: "queue_inv nx entry ((n, path) # queue) visited"
    and new: "set new = set (nx n) - visited"
  shows "queue_inv nx entry (queue @ map (\<lambda>t. (t, path @ [t])) new) (visited \<union> set new)"
proof -
  let ?items = "map (\<lambda>t. (t, path @ [t])) new"
  let ?q = "queue @ ?items"
  have len: "length path \<le> length (snd x)" "length (snd x) \<le> Suc (length path)" if "x \<in> set queue" for x
    using inv that by (auto simp: queue_inv_def)
  have lens: "length path \<le> length (snd x)" "length (snd x) \<le> Suc (length path)" if "x \<in> set ?q" for x
    using that len [of x] by auto
  have hd_in: "?q \<noteq> [] \<Longrightarrow> hd ?q \<in> set ?q" by (rule hd_in_set)
  have fst_items: "fst ` set ?items = set new" by (simp add: image_image)
  have "shortest_walk nx entry p \<and> last p = t" if "(t, p) \<in> set ?q" for t p
    using that inv new queue_inv_new_shortest [OF inv] by (auto simp: queue_inv_def)
  moreover have "sorted (map (length \<circ> snd) ?q)"
  proof -
    have "map (length \<circ> snd) ?items = replicate (length new) (Suc (length path))"
      by (simp add: comp_def map_replicate_const)
    moreover have "sorted (map (length \<circ> snd) queue)" using inv by (simp add: queue_inv_def)
    ultimately show ?thesis using len(2) by (auto simp: sorted_append simp del: map_map)
  qed
  moreover have "length (snd x) \<le> Suc (length (snd (hd ?q)))" if "x \<in> set ?q" for x
    using lens [OF that] lens [of "hd ?q"] hd_in that by fastforce
  moreover have "fst ` set ?q \<subseteq> visited \<union> set new"
    using inv fst_items by (auto simp: queue_inv_def)
  moreover have "set (nx a) \<subseteq> visited \<union> set new" if "a \<in> visited \<union> set new" "a \<notin> fst ` set ?q" for a
  proof (cases "a = n")
    case True
    with new show ?thesis by auto
  next
    case False
    with that fst_items have "a \<in> visited" "a \<notin> fst ` set ((n, path) # queue)" by auto
    with inv show ?thesis by (auto simp: queue_inv_def)
  qed
  moreover have "last w \<in> visited \<union> set new"
    if "?q \<noteq> []" "is_walk nx w" "hd w = entry" "length w \<le> length (snd (hd ?q))" for w
  proof (cases "length w \<le> length path")
    case True
    then show ?thesis using inv that by (auto simp: queue_inv_def)
  next
    case False
    have far: "\<forall>q\<in>set queue. length path < length (snd q)"
    proof
      fix q assume q: "q \<in> set queue"
      have "sorted (map (length \<circ> snd) queue)" using inv by (simp add: queue_inv_def)
      then have "length (snd (hd queue)) \<le> length (snd q)" using q by (cases queue) auto
      moreover have "hd ?q = hd queue" using q by (cases queue) auto
      ultimately show "length path < length (snd q)" using that(4) False by simp
    qed
    show ?thesis
      using that(2-4) lens(2) [OF hd_in [OF that(1)]] by (intro queue_inv_near [OF inv new far]) auto
  qed
  ultimately show ?thesis unfolding queue_inv_def by auto
qed

lemma enum_loop_shortest:
  "queue_inv (next_of m act) entry queue visited \<Longrightarrow> p \<in> set (enum_loop m act queue visited) \<Longrightarrow>
   shortest_walk (next_of m act) entry p"
proof (induction m act queue visited rule: enum_loop.induct)
  case (2 m act n path queue visited)
  let ?new = "dedup_by (\<lambda>t. t) visited (next_of m act n)"
  let ?items = "map (\<lambda>t. (t, path @ [t])) ?new"
  have inv: "queue_inv (next_of m act) entry (queue @ ?items) (visited \<union> set ?new)"
    by (rule queue_inv_step [OF 2(2) set_dedup])
  have "p \<in> set (map snd ?items) \<or> p \<in> set (enum_loop m act (queue @ ?items) (visited \<union> set ?new))"
    using 2(3) by (auto simp: Let_def)
  then show ?case
  proof
    assume "p \<in> set (map snd ?items)"
    then have "\<exists>t. (t, p) \<in> set (queue @ ?items)" by auto
    with inv show ?thesis by (auto simp: queue_inv_def)
  qed (rule 2(1) [OF refl refl inv])
qed simp

text \<open>
  Every path the engine enumerates is a shortest walk over active edges from the entry to the
  component it ends at, and no two paths end at the same component.
\<close>

theorem enumerate_shortest:
  "distinct (map last (bfs_enumerate m act entry)) \<and>
   (\<forall>p. p \<in> set (bfs_enumerate m act entry) \<longrightarrow>
      is_walk (next_of m act) p \<and> hd p = entry \<and> last p \<noteq> entry \<and>
      (\<forall>w. is_walk (next_of m act) w \<and> hd w = entry \<and> last w = last p \<longrightarrow> length p \<le> length w))"
proof -
  have "\<not> (\<exists>w. is_walk (next_of m act) w \<and> length w < 1)"
    by (auto simp: less_Suc0)
  then have "queue_inv (next_of m act) entry [(entry, [entry])] {entry}"
    by (auto simp: queue_inv_def shortest_walk_def Suc_le_eq length_Suc_conv le_Suc_eq)
  then have "shortest_walk (next_of m act) entry p" if "p \<in> set (bfs_enumerate m act entry)" for p
    using that unfolding bfs_enumerate_def by (rule enum_loop_shortest)
  moreover have "distinct (map last (bfs_enumerate m act entry)) \<and>
      set (map last (bfs_enumerate m act entry)) \<inter> {entry} = {}"
    unfolding bfs_enumerate_def by (rule enum_loop_ends) auto
  ultimately show ?thesis by (auto simp: shortest_walk_def)
qed

definition ex_dep :: "string list \<Rightarrow> dependency" where
  "ex_dep xs = \<lparr>dp_on = xs, dp_need = 0, dp_while_raw = [], dp_while = None\<rparr>"

definition ex_group :: "string list \<Rightarrow> int \<Rightarrow> dependency" where
  "ex_group xs k = \<lparr>dp_on = xs, dp_need = k, dp_while_raw = [], dp_while = None\<rparr>"

theorem enumerate_shortest_witness:
  "let m = ex_model [ex_component ''web'' ''svc'' [ex_dep [''api'', ''db'']],
                     ex_component ''api'' ''svc'' [ex_dep [''db'']], ex_component ''db'' ''svc'' []]
   in [''web'', ''db''] \<in> set (bfs_enumerate m (\<lambda>_ _. True) ''web'') \<and>
      is_walk (next_of m (\<lambda>_ _. True)) [''web'', ''db'']"
proof -
  let ?m = "ex_model [ex_component ''web'' ''svc'' [ex_dep [''api'', ''db'']],
                     ex_component ''api'' ''svc'' [ex_dep [''db'']], ex_component ''db'' ''svc'' []]"
  have "[''web'', ''db''] \<in> set (bfs_enumerate ?m (\<lambda>_ _. True) ''web'')"
    by (simp add: bfs_enumerate_def next_of_def ex_model_def ex_component_def ex_dep_def)
  with enumerate_shortest [of ?m "\<lambda>_ _. True" "''web''"] show ?thesis unfolding Let_def by blast
qed

end
