(* ===== verification/Dep_Graph.thy ===== *)
theory Dep_Graph
  imports Walks
begin

text \<open>
  The dependency graph of \<open>internal/model/graph.go\<close>: its construction, the entry point, and the
  depth-first cycle detection with white (0), gray (1) and black (2) nodes.

  The lemmas show that the search ends, that it reports a cycle exactly when one can be reached
  from the listed nodes, that what it reports is one, and that an acyclic model has an entry.
\<close>

subsection \<open>The graph\<close>

record dep_graph =
  gr_adj :: "string list dict"
  gr_in :: "string \<Rightarrow> nat"
  gr_order :: "string list"

text \<open>Every dependency target of a component, whatever its guard says.\<close>

definition targets_of :: "component \<Rightarrow> string list" where
  "targets_of c = concat (map dp_on (c_depends c))"

definition new_dep_graph :: "component dict \<Rightarrow> string list \<Rightarrow> dep_graph" where
  "new_dep_graph comps order =
     \<lparr>gr_adj = map (\<lambda>(n, c). (n, targets_of c)) comps,
      gr_in = foldl (\<lambda>f t. f(t := Suc (f t))) (\<lambda>_. 0) (concat (map (\<lambda>(n, c). targets_of c) comps)),
      gr_order = order\<rparr>"

definition graph_dependencies :: "dep_graph \<Rightarrow> string \<Rightarrow> string list" where
  "graph_dependencies g n = (case map_of (gr_adj g) n of None \<Rightarrow> [] | Some ts \<Rightarrow> ts)"

definition graph_entry :: "dep_graph \<Rightarrow> string" where
  "graph_entry g = (case List.find (\<lambda>n. gr_in g n = 0) (gr_order g) of None \<Rightarrow> [] | Some n \<Rightarrow> n)"

text \<open>\<open>BuildGraph\<close>, and the model's own \<open>EntryPoint\<close> and \<open>DependenciesOf\<close>, which build the graph on demand.\<close>

definition build_graph :: "model \<Rightarrow> dep_graph" where
  "build_graph m = new_dep_graph (m_components m) (m_order m)"

definition entry_point :: "model \<Rightarrow> string" where
  "entry_point m = graph_entry (build_graph m)"

definition dependencies_of :: "model \<Rightarrow> string \<Rightarrow> string list" where
  "dependencies_of m n = graph_dependencies (build_graph m) n"

subsection \<open>Cycle detection\<close>

record dfs_state =
  df_color :: "string \<Rightarrow> nat"
  df_parent :: "string \<rightharpoonup> string"

text \<open>The parent chain from the end of the back edge; \<open>None\<close> when it never ends.\<close>

partial_function (option) climb :: "(string \<rightharpoonup> string) \<Rightarrow> string \<Rightarrow> string \<Rightarrow> string list \<Rightarrow> string list option" where
  "climb parent start cur path =
     (if cur = start then Some path
      else (case parent cur of
              None \<Rightarrow> Some (path @ [cur])
            | Some p \<Rightarrow> climb parent start p (path @ [cur])))"

declare climb.simps [simp del]

definition reconstruct_cycle :: "(string \<rightharpoonup> string) \<Rightarrow> string \<Rightarrow> string \<Rightarrow> string list option" where
  "reconstruct_cycle parent from start =
     map_option (\<lambda>path. rev (path @ [start])) (climb parent start from [start])"

text \<open>
  The closure \<open>dfs\<close> and its loop over the neighbours. The second component is the cycle found:
  \<open>None\<close> for \<open>false\<close>, \<open>Some\<close> of what \<open>reconstructCycle\<close> returned for \<open>true\<close>.
\<close>

function dfs :: "dep_graph \<Rightarrow> dfs_state \<Rightarrow> string \<Rightarrow> dfs_state \<times> string list option option"
  and dfs_edges :: "dep_graph \<Rightarrow> dfs_state \<Rightarrow> string \<Rightarrow> string list \<Rightarrow> dfs_state \<times> string list option option" where
  "dfs g st node =
     (case dfs_edges g (st\<lparr>df_color := (df_color st)(node := 1)\<rparr>) node (graph_dependencies g node) of
        (st', Some c) \<Rightarrow> (st', Some c)
      | (st', None) \<Rightarrow> (st'\<lparr>df_color := (df_color st')(node := 2)\<rparr>, None))"
| "dfs_edges g st node [] = (st, None)"
| "dfs_edges g st node (x # xs) =
     (if df_color st x = 1 then (st, Some (reconstruct_cycle (df_parent st) node x))
      else if df_color st x = 0 then
        (case dfs g (st\<lparr>df_parent := (df_parent st)(x \<mapsto> node)\<rparr>) x of
           (st', Some c) \<Rightarrow> (st', Some c)
         | (st', None) \<Rightarrow> dfs_edges g st' node xs)
      else dfs_edges g st node xs)"
  by pat_completeness auto

definition graph_nodes :: "dep_graph \<Rightarrow> string set" where
  "graph_nodes g = (\<Union>(n, ts)\<in>set (gr_adj g). set ts)"

definition white :: "dfs_state \<Rightarrow> string set" where
  "white st = {n. df_color st n = 0}"

lemma finite_graph_nodes [simp]: "finite (graph_nodes g)"
  by (simp add: graph_nodes_def split_def)

lemma dependencies_nodes: "set (graph_dependencies g n) \<subseteq> graph_nodes g"
  by (cases "map_of (gr_adj g) n") (auto simp: graph_dependencies_def graph_nodes_def dest: map_of_SomeD)

lemma dfs_shrinks:
  "dfs_dfs_edges_dom (Inl (g, st, node)) \<Longrightarrow> white (fst (dfs g st node)) \<subseteq> white st - {node}"
  "dfs_dfs_edges_dom (Inr (g, st, node, xs)) \<Longrightarrow> white (fst (dfs_edges g st node xs)) \<subseteq> white st"
proof (induction g st node and g st node xs rule: dfs_dfs_edges.pinduct)
  case (1 g st node)
  then show ?case
    by (auto simp: dfs.psimps white_def split: prod.splits option.splits if_splits)
next
  case (2 g st node)
  then show ?case by (simp add: dfs_edges.psimps)
next
  case (3 g st node x xs)
  let ?st = "st\<lparr>df_parent := (df_parent st)(x \<mapsto> node)\<rparr>"
  show ?case
  proof (cases "df_color st x = 0")
    case True
    have one: "white (fst (dfs g ?st x)) \<subseteq> white st"
      using 3(2) True by (auto simp: white_def)
    obtain st' r where r: "dfs g ?st x = (st', r)" by fastforce
    show ?thesis
    proof (cases r)
      case None
      with 3(3) True r have "white (fst (dfs_edges g st' node xs)) \<subseteq> white st'" by auto
      with one r True None 3(1) show ?thesis by (simp add: dfs_edges.psimps)
    qed (use one r True 3(1) in \<open>simp add: dfs_edges.psimps\<close>)
  next
    case False
    then show ?thesis using 3(1,4) by (auto simp: dfs_edges.psimps)
  qed
qed

termination dfs
proof (relation "measures
    [\<lambda>s. case s of Inl (g, st, node) \<Rightarrow> card (graph_nodes g \<inter> white st - {node})
       | Inr (g, st, node, xs) \<Rightarrow> card ((graph_nodes g \<union> set xs) \<inter> white st),
     \<lambda>s. case s of Inl (g, st, node) \<Rightarrow> Suc (length (graph_dependencies g node))
       | Inr (g, st, node, xs) \<Rightarrow> length xs]", goal_cases)
  case 1
  then show ?case by simp
next
  case (2 g st node)
  have "(graph_nodes g \<union> set (graph_dependencies g node)) \<inter> white (st\<lparr>df_color := (df_color st)(node := 1)\<rparr>)
      = graph_nodes g \<inter> white st - {node}"
    using dependencies_nodes [of g node] by (auto simp: white_def)
  then show ?case by simp
next
  case (3 g st node x xs)
  have "graph_nodes g \<inter> white (st\<lparr>df_parent := (df_parent st)(x \<mapsto> node)\<rparr>) - {x}
      \<subset> (graph_nodes g \<union> set (x # xs)) \<inter> white st"
    using 3 by (auto simp: white_def)
  then show ?case by (auto intro!: psubset_card_mono)
next
  case (4 g st node x xs st' r)
  have "white st' \<subseteq> white st - {x}"
    using dfs_shrinks(1) [OF 4(5)] 4(3) [symmetric] by (simp add: white_def)
  moreover have "x \<in> white st" using 4(2) by (simp add: white_def)
  ultimately have "(graph_nodes g \<union> set xs) \<inter> white st' \<subset> (graph_nodes g \<union> set (x # xs)) \<inter> white st"
    by auto
  then show ?case by (auto intro!: psubset_card_mono)
next
  case (5 g st node x xs)
  have "card ((graph_nodes g \<union> set xs) \<inter> white st) \<le> card ((graph_nodes g \<union> set (x # xs)) \<inter> white st)"
    by (intro card_mono) auto
  then show ?case by auto
qed

declare dfs.simps [simp del]

text \<open>\<open>DetectCycle\<close>: the outer loop over the declaration order.\<close>

fun detect_loop :: "dep_graph \<Rightarrow> dfs_state \<Rightarrow> string list \<Rightarrow> string list option option" where
  "detect_loop g st [] = None"
| "detect_loop g st (name # ns) =
     (if df_color st name = 0 then
        (case dfs g st name of (_, Some c) \<Rightarrow> Some c | (st', None) \<Rightarrow> detect_loop g st' ns)
      else detect_loop g st ns)"

definition detect_cycle :: "dep_graph \<Rightarrow> string list option option" where
  "detect_cycle g = detect_loop g \<lparr>df_color = (\<lambda>_. 0), df_parent = Map.empty\<rparr> (gr_order g)"

subsection \<open>The invariant of the search\<close>

text \<open>The gray nodes, the current one first: each the parent of the one before it.\<close>

fun linked :: "dep_graph \<Rightarrow> (string \<rightharpoonup> string) \<Rightarrow> string list \<Rightarrow> bool" where
  "linked g par [] = True"
| "linked g par [x] = True"
| "linked g par (x # y # zs) = (par x = Some y \<and> x \<in> set (graph_dependencies g y) \<and> linked g par (y # zs))"

definition dfs_inv :: "dep_graph \<Rightarrow> dfs_state \<Rightarrow> string list \<Rightarrow> bool" where
  "dfs_inv g st stk \<longleftrightarrow>
     {n. df_color st n = 1} = set stk \<and> distinct stk \<and> linked g (df_parent st) stk \<and>
     (\<forall>n. df_color st n \<le> 2) \<and>
     (\<forall>a. df_color st a = 2 \<longrightarrow> (\<forall>b\<in>set (graph_dependencies g a). df_color st b = 2)) \<and>
     acyclic {(a, b) \<in> edges (graph_dependencies g). df_color st a = 2}"

definition closed_walk :: "dep_graph \<Rightarrow> string list \<Rightarrow> bool" where
  "closed_walk g p \<longleftrightarrow> 2 \<le> length p \<and> hd p = last p \<and> is_walk (graph_dependencies g) p"

lemma linked_upd: "x \<notin> set stk \<Longrightarrow> linked g (par(x \<mapsto> y)) stk = linked g par stk"
  by (induction g par stk rule: linked.induct) auto

lemma linked_walk: "linked g par stk \<Longrightarrow> stk \<noteq> [] \<Longrightarrow> is_walk (graph_dependencies g) (rev stk)"
proof (induction g par stk rule: linked.induct)
  case (3 g par x y zs)
  then have "is_walk (graph_dependencies g) (rev (y # zs))" by simp
  with 3(2) is_walk_snoc [of "rev (y # zs)" "graph_dependencies g" x] show ?case by simp
qed simp_all

lemma linked_append: "linked g par (us @ vs) \<Longrightarrow> linked g par us"
  by (induction g par us rule: linked.induct) (auto simp: neq_Nil_conv)

lemma climb_linked:
  "linked g par (cur # stk) \<Longrightarrow> start \<in> set (cur # stk) \<Longrightarrow>
   climb par start cur path = Some (path @ takeWhile (\<lambda>z. z \<noteq> start) (cur # stk))"
proof (induction stk arbitrary: cur path)
  case Nil
  then show ?case using climb.simps [of par start cur path] by simp
next
  case (Cons y zs)
  show ?case
  proof (cases "cur = start")
    case False
    then have "climb par start cur path = climb par start y (path @ [cur])"
      using Cons.prems climb.simps [of par start cur path] by simp
    with Cons False show ?thesis by simp
  qed (use climb.simps [of par start cur path] in simp)
qed

lemma reconstruct_closed_walk:
  assumes link: "linked g par (node # rest)" and x: "x \<in> set (node # rest)"
    and edge: "x \<in> set (graph_dependencies g node)"
  shows "\<exists>p. reconstruct_cycle par node x = Some p \<and> closed_walk g p"
proof -
  obtain us vs where us: "node # rest = us @ x # vs" "x \<notin> set us" using x by (meson split_list_first)
  then have "takeWhile (\<lambda>z. z \<noteq> x) (us @ x # vs) = us" by (subst takeWhile_append2) auto
  then have "takeWhile (\<lambda>z. z \<noteq> x) (node # rest) = us" by (simp only: us(1))
  with climb_linked [OF link x, of "[x]"]
  have cycle: "reconstruct_cycle par node x = Some ((x # rev us) @ [x])"
    by (simp add: reconstruct_cycle_def)
  have "linked g par ((us @ [x]) @ vs)" using link us(1) by simp
  then have "linked g par (us @ [x])" by (rule linked_append)
  then have w: "is_walk (graph_dependencies g) (x # rev us)" using linked_walk by fastforce
  have "last (x # rev us) = node" using us(1) by (cases us) auto
  with w edge have "is_walk (graph_dependencies g) ((x # rev us) @ [x])"
    by (subst is_walk_snoc) auto
  with cycle show ?thesis by (auto simp: closed_walk_def)
qed

lemma trancl_stays:
  assumes A: "A \<subseteq> B \<times> B" and x: "x \<notin> B" and "(z, w) \<in> (A \<union> {x} \<times> S)\<^sup>+" and "z \<in> B"
  shows "(z, w) \<in> A\<^sup>+ \<and> w \<in> B"
  using assms(3,4)
  by (induction rule: trancl_induct) (use A x in \<open>auto intro: trancl_into_trancl\<close>)

lemma acyclic_add_source:
  assumes ac: "acyclic A" and A: "A \<subseteq> B \<times> B" and x: "x \<notin> B" and S: "S \<subseteq> B"
  shows "acyclic (A \<union> {x} \<times> S)"
proof (rule acyclicI, rule allI, rule notI)
  fix z assume z: "(z, z) \<in> (A \<union> {x} \<times> S)\<^sup>+"
  then obtain y where zy: "(z, y) \<in> A \<union> {x} \<times> S" and yz: "(y, z) \<in> (A \<union> {x} \<times> S)\<^sup>*"
    by (meson tranclD)
  have "y \<in> B" using zy A S by auto
  then have "z \<in> B" using trancl_stays [OF A x, of y z S] yz by (auto simp: rtrancl_eq_or_trancl)
  with trancl_stays [OF A x z] ac show False by (auto simp: acyclic_def)
qed

lemma dfs_inv_gray:
  assumes inv: "dfs_inv g st stk" and x: "df_color st x = 0"
    and stk: "stk = [] \<or> (\<exists>y zs. stk = y # zs \<and> df_parent st x = Some y \<and> x \<in> set (graph_dependencies g y))"
  shows "dfs_inv g (st\<lparr>df_color := (df_color st)(x := 1)\<rparr>) (x # stk)"
proof -
  have "{(a, b) \<in> edges (graph_dependencies g). ((df_color st)(x := 1)) a = 2} \<subseteq>
      {(a, b) \<in> edges (graph_dependencies g). df_color st a = 2}" by (auto split: if_splits)
  then have "acyclic {(a, b) \<in> edges (graph_dependencies g). ((df_color st)(x := 1)) a = 2}"
    using inv unfolding dfs_inv_def by (meson acyclic_subset)
  moreover have gray: "{n. df_color st n = 1} = set stk" using inv by (simp add: dfs_inv_def)
  moreover have "{n. ((df_color st)(x := 1)) n = 1} = set (x # stk)" using gray by auto
  moreover have "x \<notin> set stk" by (metis (mono_tags, lifting) gray mem_Collect_eq x zero_neq_one)
  moreover have "linked g (df_parent st) (x # stk)" using inv stk by (auto simp: dfs_inv_def)
  moreover have "\<forall>a. ((df_color st)(x := 1)) a = 2 \<longrightarrow>
      (\<forall>b\<in>set (graph_dependencies g a). ((df_color st)(x := 1)) b = 2)"
  proof (intro allI impI ballI)
    fix a b assume a: "((df_color st)(x := 1)) a = 2" and b: "b \<in> set (graph_dependencies g a)"
    then have "df_color st b = 2" using inv by (auto simp: dfs_inv_def split: if_splits)
    then show "((df_color st)(x := 1)) b = 2" using x by auto
  qed
  ultimately show ?thesis using inv by (auto simp: dfs_inv_def)
qed

lemma dfs_inv_black:
  assumes inv: "dfs_inv g st (x # stk)" and fin: "\<forall>y\<in>set (graph_dependencies g x). df_color st y = 2"
  shows "dfs_inv g (st\<lparr>df_color := (df_color st)(x := 2)\<rparr>) stk"
proof -
  let ?A = "{(a, b) \<in> edges (graph_dependencies g). df_color st a = 2}"
  let ?B = "{n. df_color st n = 2}"
  have gray: "df_color st x = 1" "x \<notin> set stk" "{n. df_color st n = 1} = set (x # stk)"
    using inv by (auto simp: dfs_inv_def)
  have "acyclic (?A \<union> {x} \<times> set (graph_dependencies g x))"
  proof (rule acyclic_add_source [where B = ?B])
    show "acyclic ?A" "?A \<subseteq> ?B \<times> ?B" using inv by (auto simp: dfs_inv_def)
    show "x \<notin> ?B" "set (graph_dependencies g x) \<subseteq> ?B" using gray fin by auto
  qed
  moreover have "{(a, b) \<in> edges (graph_dependencies g). ((df_color st)(x := 2)) a = 2} =
      ?A \<union> {x} \<times> set (graph_dependencies g x)" by (auto split: if_splits)
  moreover have "linked g (df_parent st) stk" using inv by (cases stk) (auto simp: dfs_inv_def)
  moreover have "{n. ((df_color st)(x := 2)) n = 1} = set stk" using gray by auto
  moreover have "\<forall>a. ((df_color st)(x := 2)) a = 2 \<longrightarrow>
      (\<forall>b\<in>set (graph_dependencies g a). ((df_color st)(x := 2)) b = 2)"
    using inv fin by (auto simp: dfs_inv_def)
  ultimately show ?thesis using inv by (simp add: dfs_inv_def)
qed

text \<open>What a call of the search promises about its result.\<close>

definition dfs_post :: "dep_graph \<Rightarrow> dfs_state \<Rightarrow> string list \<Rightarrow> string set \<Rightarrow>
    dfs_state \<times> string list option option \<Rightarrow> bool" where
  "dfs_post g st stk S res \<longleftrightarrow>
     (case res of
        (st', None) \<Rightarrow> dfs_inv g st' stk \<and> (\<forall>x\<in>S. df_color st' x = 2) \<and>
                       (\<forall>n. df_color st n = 2 \<longrightarrow> df_color st' n = 2)
      | (_, Some c) \<Rightarrow> \<exists>p. c = Some p \<and> closed_walk g p)"

lemma dfs_correct:
  "dfs_inv g st stk \<Longrightarrow> df_color st node = 0 \<Longrightarrow>
   stk = [] \<or> (\<exists>y zs. stk = y # zs \<and> df_parent st node = Some y \<and> node \<in> set (graph_dependencies g y)) \<Longrightarrow>
   dfs_post g st stk {node} (dfs g st node)"
  "dfs_inv g st (node # rest) \<Longrightarrow> set xs \<subseteq> set (graph_dependencies g node) \<Longrightarrow>
   dfs_post g st (node # rest) (set xs) (dfs_edges g st node xs)"
proof (induction g st node and g st node xs arbitrary: stk and rest rule: dfs_dfs_edges.induct)
  case (1 g st node)
  let ?st = "st\<lparr>df_color := (df_color st)(node := 1)\<rparr>"
  have inv: "dfs_inv g ?st (node # stk)" using 1(2-4) by (rule dfs_inv_gray)
  have post: "dfs_post g ?st (node # stk) (set (graph_dependencies g node)) (dfs_edges g ?st node (graph_dependencies g node))"
    by (rule 1(1) [OF inv subset_refl])
  obtain st' r where r: "dfs_edges g ?st node (graph_dependencies g node) = (st', r)" by fastforce
  show ?case
  proof (cases r)
    case None
    have "dfs_inv g (st'\<lparr>df_color := (df_color st')(node := 2)\<rparr>) stk"
      using post r None by (intro dfs_inv_black) (auto simp: dfs_post_def)
    moreover have "\<forall>n. df_color st n = 2 \<longrightarrow> df_color st' n = 2 \<or> n = node"
      using post r None by (auto simp: dfs_post_def)
    ultimately show ?thesis using r None by (auto simp: dfs.simps dfs_post_def)
  next
    case (Some c)
    with post r show ?thesis by (auto simp: dfs.simps dfs_post_def)
  qed
next
  case (2 g st node)
  then show ?case by (simp add: dfs_post_def)
next
  case (3 g st node x xs)
  note step = 3(1-3) and inv = 3(4) and sub = 3(5)
  have x: "x \<in> set (graph_dependencies g node)" and xs: "set xs \<subseteq> set (graph_dependencies g node)"
    using sub by auto
  have gray: "df_color st x = 1 \<longleftrightarrow> x \<in> set (node # rest)" and le: "df_color st x \<le> 2"
    using inv by (auto simp: dfs_inv_def)
  consider "df_color st x = 0" | "df_color st x = 1" | "df_color st x = 2" using le by linarith
  then show ?case
  proof cases
    case 1
    let ?st = "st\<lparr>df_parent := (df_parent st)(x \<mapsto> node)\<rparr>"
    have "dfs_inv g ?st (node # rest)"
      using inv 1 gray by (auto simp: dfs_inv_def linked_upd)
    then have post: "dfs_post g ?st (node # rest) {x} (dfs g ?st x)"
      using 1 x step(1) [of "node # rest"] by simp
    obtain st' r where r: "dfs g ?st x = (st', r)" by fastforce
    show ?thesis
    proof (cases r)
      case None
      with post r have st': "dfs_inv g st' (node # rest)" "df_color st' x = 2"
          "\<forall>n. df_color st n = 2 \<longrightarrow> df_color st' n = 2"
        by (auto simp: dfs_post_def)
      have "dfs_post g st' (node # rest) (set xs) (dfs_edges g st' node xs)"
        using step(2) [of st' r rest] 1 r None st'(1) xs by auto
      with 1 r None st' show ?thesis by (auto simp: dfs_post_def split: prod.splits option.splits)
    next
      case (Some c)
      with post r 1 show ?thesis by (auto simp: dfs_post_def)
    qed
  next
    case 2
    have "linked g (df_parent st) (node # rest)" using inv by (simp add: dfs_inv_def)
    from reconstruct_closed_walk [OF this _ x] gray 2 show ?thesis by (auto simp: dfs_post_def)
  next
    case 3
    have "dfs_post g st (node # rest) (set xs) (dfs_edges g st node xs)"
      using step(3) 3 inv xs by auto
    with 3 show ?thesis by (auto simp: dfs_post_def split: prod.splits option.splits)
  qed
qed

lemma detect_loop_correct:
  "dfs_inv g st [] \<Longrightarrow>
   (case detect_loop g st ns of
      None \<Rightarrow> \<exists>st'. dfs_inv g st' [] \<and> (\<forall>n\<in>set ns. df_color st' n = 2) \<and>
                    (\<forall>n. df_color st n = 2 \<longrightarrow> df_color st' n = 2)
    | Some c \<Rightarrow> \<exists>p. c = Some p \<and> closed_walk g p)"
proof (induction g st ns rule: detect_loop.induct)
  case (1 g st)
  then show ?case by auto
next
  case (2 g st name ns)
  show ?case
  proof (cases "df_color st name = 0")
    case True
    have post: "dfs_post g st [] {name} (dfs g st name)" using 2(3) True by (intro dfs_correct(1)) auto
    obtain st' r where r: "dfs g st name = (st', r)" by fastforce
    show ?thesis
    proof (cases r)
      case None
      with post r have st': "dfs_inv g st' []" "df_color st' name = 2"
          "\<forall>n. df_color st n = 2 \<longrightarrow> df_color st' n = 2"
        by (auto simp: dfs_post_def)
      from 2(1) [OF True r [symmetric] None st'(1)] show ?thesis
        using True r None st'(2,3) by (auto split: option.splits)
    next
      case (Some c)
      with post r True show ?thesis by (auto simp: dfs_post_def)
    qed
  next
    case False
    have "{n. df_color st n = 1} = {}" "df_color st name \<le> 2" using 2(3) by (simp_all add: dfs_inv_def)
    then have "df_color st name \<noteq> 1" "df_color st name \<le> 2" by blast+
    with False have "df_color st name = 2" by linarith
    with 2(2) [OF False 2(3)] False show ?thesis by (auto split: option.splits)
  qed
qed

lemma detect_cycle_cases:
  "case detect_cycle g of
     None \<Rightarrow> \<exists>st. dfs_inv g st [] \<and> (\<forall>n\<in>set (gr_order g). df_color st n = 2)
   | Some c \<Rightarrow> \<exists>p. c = Some p \<and> closed_walk g p"
proof -
  have "dfs_inv g \<lparr>df_color = (\<lambda>_. 0), df_parent = Map.empty\<rparr> []"
    by (simp add: dfs_inv_def acyclic_def)
  from detect_loop_correct [OF this, of "gr_order g"] show ?thesis
    by (auto simp: detect_cycle_def split: option.splits)
qed

lemma black_reaches:
  assumes inv: "dfs_inv g st []" and ab: "(a, b) \<in> (edges (graph_dependencies g))\<^sup>+" and a: "df_color st a = 2"
  shows "df_color st b = 2 \<and> (a, b) \<in> {(a, b) \<in> edges (graph_dependencies g). df_color st a = 2}\<^sup>+"
  using ab
proof (induction rule: trancl_induct)
  case (base y)
  then show ?case using inv a by (auto simp: dfs_inv_def)
next
  case (step y z)
  then have "df_color st z = 2" using inv by (auto simp: dfs_inv_def)
  moreover have "(y, z) \<in> {(a, b) \<in> edges (graph_dependencies g). df_color st a = 2}" using step by auto
  ultimately show ?case using step by (meson trancl_into_trancl)
qed

lemma closed_walk_trancl:
  assumes "closed_walk g p"
  shows "(hd p, hd p) \<in> (edges (graph_dependencies g))\<^sup>+"
proof -
  obtain x y zs where p: "p = x # y # zs"
    using assms by (auto simp: closed_walk_def Suc_le_length_iff numeral_2_eq_2)
  with assms have "y \<in> set (graph_dependencies g x)" "is_walk (graph_dependencies g) (y # zs)" "last (y # zs) = x"
    by (auto simp: closed_walk_def split: if_splits)
  with is_walk_rtrancl [of "graph_dependencies g" "y # zs"] p show ?thesis
    by (auto intro: rtrancl_into_trancl2)
qed

lemma dependencies_of_eq: "dependencies_of m n = next_of m (\<lambda>_ _. True) n"
  by (simp add: dependencies_of_def build_graph_def new_dep_graph_def graph_dependencies_def next_of_def
      map_of_map targets_of_def split: option.split)

lemma dependencies_wf:
  assumes "wf_model m" and "dependencies_of m n \<noteq> []"
  shows "n \<in> set (m_order m)"
proof -
  have "component_of m n \<noteq> None"
    using assms(2) by (cases "component_of m n") (simp_all add: dependencies_of_eq next_of_def)
  then show ?thesis using assms(1) by (auto simp: wf_model_def set_keys)
qed

text \<open>
  What \<open>DetectCycle\<close> reports is a cycle: a walk along dependency edges that ends where it
  starts. Rebuilding it from the parent links always ends.
\<close>

theorem detect_cycle_sound:
  assumes "detect_cycle g = Some r"
  shows "\<exists>p. r = Some p \<and> 2 \<le> length p \<and> hd p = last p \<and> is_walk (graph_dependencies g) p"
  using detect_cycle_cases [of g] assms by (auto simp: closed_walk_def)

text \<open>
  C19: \<open>DetectCycle\<close> returns nil exactly when the dependencies are acyclic.
\<close>

theorem detect_cycle_None_iff:
  assumes wf: "wf_model m"
  shows "detect_cycle (build_graph m) = None \<longleftrightarrow> acyclic (edges (dependencies_of m))"
proof
  let ?g = "build_graph m"
  assume "detect_cycle ?g = None"
  with detect_cycle_cases [of ?g] obtain st where st: "dfs_inv ?g st []" "\<forall>n\<in>set (m_order m). df_color st n = 2"
    by (auto simp: build_graph_def new_dep_graph_def)
  have deps: "graph_dependencies ?g = dependencies_of m" by (simp add: fun_eq_iff dependencies_of_def)
  show "acyclic (edges (dependencies_of m))"
  proof (rule acyclicI, rule allI, rule notI)
    fix a assume a: "(a, a) \<in> (edges (dependencies_of m))\<^sup>+"
    then obtain b where "b \<in> set (dependencies_of m a)" by (auto dest!: tranclD)
    then have "dependencies_of m a \<noteq> []" by auto
    then have "df_color st a = 2" using dependencies_wf [OF wf] st(2) by auto
    with black_reaches [OF st(1) a [folded deps]] st(1) show False by (auto simp: dfs_inv_def acyclic_def)
  qed
next
  assume acyclic: "acyclic (edges (dependencies_of m))"
  show "detect_cycle (build_graph m) = None"
  proof (rule ccontr)
    assume "detect_cycle (build_graph m) \<noteq> None"
    with detect_cycle_cases [of "build_graph m"] obtain p where "closed_walk (build_graph m) p" by auto
    from closed_walk_trancl [OF this] acyclic show False by (auto simp: acyclic_def dependencies_of_def [abs_def])
  qed
qed

text \<open>Three components whose dependencies form a cycle.\<close>

definition ex_cyclic :: model where
  "ex_cyclic = ex_model [ex_component ''a'' ''svc'' [ex_dep [''b'']],
     ex_component ''b'' ''svc'' [ex_dep [''c'']], ex_component ''c'' ''svc'' [ex_dep [''b'']]]"

lemma ex_cyclic_graph:
  "gr_order (build_graph ex_cyclic) = [''a'', ''b'', ''c'']"
  "graph_dependencies (build_graph ex_cyclic) =
     (\<lambda>n. if n = ''a'' then [''b''] else if n = ''b'' then [''c''] else if n = ''c'' then [''b''] else [])"
  by (auto simp: fun_eq_iff ex_cyclic_def ex_model_def ex_component_def ex_dep_def build_graph_def
      new_dep_graph_def graph_dependencies_def targets_of_def)

lemma ex_cyclic_detected: "detect_cycle (build_graph ex_cyclic) = Some (Some [''b'', ''c'', ''b''])"
  by (simp add: detect_cycle_def ex_cyclic_graph dfs.simps reconstruct_cycle_def climb.simps)

theorem detect_cycle_sound_witness:
  "\<exists>p. Some [''b'', ''c'', ''b''] = Some p \<and> 2 \<le> length p \<and> hd p = last p \<and>
     is_walk (graph_dependencies (build_graph ex_cyclic)) p"
  by (rule detect_cycle_sound [OF ex_cyclic_detected])

theorem detect_cycle_None_iff_witness: "\<not> acyclic (edges (dependencies_of ex_cyclic))"
proof -
  have "wf_model ex_cyclic"
    by (simp add: ex_cyclic_def ex_model_def ex_component_def wf_model_def wf_dict_def keys_def)
  from detect_cycle_None_iff [OF this] show ?thesis by (simp add: ex_cyclic_detected)
qed

subsection \<open>The entry point\<close>

lemma fold_in_degree: "foldl (\<lambda>f t. f(t := Suc (f t))) f ts x = f x + count_list ts x"
  by (induction ts arbitrary: f) auto

lemma in_degree_zero:
  "gr_in (build_graph m) n = 0 \<longleftrightarrow> (\<forall>(k, c)\<in>set (m_components m). n \<notin> set (targets_of c))"
  by (auto simp: build_graph_def new_dep_graph_def fold_in_degree count_list_0_iff)

text \<open>
  The entry point is the first component in declaration order that no component depends on, and
  the empty name when every one is depended on.
\<close>

theorem entry_point_first:
  "entry_point m =
     (case List.find (\<lambda>n. \<not> (\<exists>(k, c)\<in>set (m_components m). \<exists>dep\<in>set (c_depends c). n \<in> set (dp_on dep))) (m_order m) of
        None \<Rightarrow> [] | Some n \<Rightarrow> n)"
proof -
  have "gr_in (build_graph m) n = 0 \<longleftrightarrow>
      \<not> (\<exists>(k, c)\<in>set (m_components m). \<exists>dep\<in>set (c_depends c). n \<in> set (dp_on dep))" for n
    by (auto simp: in_degree_zero targets_of_def split_def)
  moreover have "gr_order (build_graph m) = m_order m" by (simp add: build_graph_def new_dep_graph_def)
  ultimately show ?thesis by (simp add: entry_point_def graph_entry_def)
qed

lemma finite_dependency_edges: "finite (edges (dependencies_of m))"
proof (rule finite_subset)
  have "component_of m a \<noteq> None" if "b \<in> set (dependencies_of m a)" for a b
    using that by (cases "component_of m a") (simp_all add: dependencies_of_eq next_of_def)
  then show "edges (dependencies_of m) \<subseteq> dom (\<lambda>a. component_of m a) \<times> all_targets m"
    using next_of_targets by (fastforce simp: dependencies_of_eq)
  show "finite (dom (\<lambda>a. component_of m a) \<times> all_targets m)"
    by (simp add: finite_dom_map_of)
qed

text \<open>
  C35: A model that passes the cycle check has an entry point, and it is one of its components.
\<close>

theorem acyclic_has_entry:
  assumes wf: "wf_model m" and some: "m_order m \<noteq> []" and ok: "detect_cycle (build_graph m) = None"
  shows "entry_point m \<in> set (m_order m)"
proof -
  have "wf (edges (dependencies_of m))"
    using detect_cycle_None_iff [OF wf] ok finite_dependency_edges by (auto intro: finite_acyclic_wf)
  then obtain z where z: "z \<in> set (m_order m)" "\<And>y. (y, z) \<in> edges (dependencies_of m) \<Longrightarrow> y \<notin> set (m_order m)"
    using some by (metis last_in_set wfE_min)
  have "n \<notin> set (targets_of c)" if "(k, c) \<in> set (m_components m)" "n = z" for k c n
  proof
    assume "n \<in> set (targets_of c)"
    then have "z \<in> set (dependencies_of m k)"
      using that wf by (simp add: wf_model_def map_of_wf_dict dependencies_of_eq next_of_def targets_of_def)
    moreover from this have "dependencies_of m k \<noteq> []" by auto
    ultimately show False using z(2) [of k] dependencies_wf [OF wf, of k] by simp
  qed
  then have "gr_in (build_graph m) z = 0" by (auto simp: in_degree_zero)
  then obtain n where "List.find (\<lambda>n. gr_in (build_graph m) n = 0) (m_order m) = Some n"
    using z(1) by (cases "List.find (\<lambda>n. gr_in (build_graph m) n = 0) (m_order m)") (auto simp: find_None_iff)
  then show ?thesis
    by (auto simp: entry_point_def graph_entry_def build_graph_def new_dep_graph_def dest: find_Some_in)
qed

text \<open>A chain of three services.\<close>

definition ex_chain :: model where
  "ex_chain = ex_model [ex_component ''db'' ''svc'' [], ex_component ''api'' ''svc'' [ex_dep [''db'']],
     ex_component ''web'' ''svc'' [ex_dep [''api'']]]"

lemma wf_ex_chain: "wf_model ex_chain"
  by (simp add: ex_chain_def ex_model_def ex_component_def wf_model_def wf_dict_def keys_def)

lemma ex_chain_acyclic: "detect_cycle (build_graph ex_chain) = None"
  by (simp add: detect_cycle_def build_graph_def new_dep_graph_def ex_chain_def ex_model_def ex_component_def
      ex_dep_def dfs.simps graph_dependencies_def targets_of_def)

theorem acyclic_has_entry_witness: "entry_point ex_chain \<in> set (m_order ex_chain)"
  by (rule acyclic_has_entry [OF wf_ex_chain _ ex_chain_acyclic]) (simp add: ex_chain_def ex_model_def)

end
