(* ===== verification/Root_Cause.thy ===== *)
theory Root_Cause
  imports Dep_Graph
begin

text \<open>
  The rule that names a root cause (\<open>internal/engine/strategy/rootcause.go\<close>): of the components in
  play that facts show broken and no redundancy group covers, one that no other of them could have
  broken, the most upstream first.

  The lemmas show that every loop ends, what each computes, and that the component named is seen
  broken, is no casualty of another in an acyclic model, and is the furthest from the entry.
\<close>

subsection \<open>Candidates and active dependencies\<close>

definition candidate :: "model \<Rightarrow> registry \<Rightarrow> store \<Rightarrow> string \<Rightarrow> string \<Rightarrow> bool" where
  "candidate m r s entry n \<longleftrightarrow>
     n \<in> set (bfs_walk m r s entry) \<and> component_verdict m r s n = Unhealthy \<and> \<not> redundancy_covered m r s n"

text \<open>The closure \<open>activeDeps\<close>, with \<open>inPlay\<close> as a set.\<close>

definition active_deps :: "model \<Rightarrow> registry \<Rightarrow> store \<Rightarrow> string set \<Rightarrow> string \<Rightarrow> string list" where
  "active_deps m r s play n =
     filter (\<lambda>t. \<not> group_holds m r s n t \<and> t \<in> play)
       (next_of m (while_guard_active m r s (dv_states (derive m r s))) n)"

lemma active_deps_targets: "set (active_deps m r s play n) \<subseteq> all_targets m"
  using next_of_subset by (fastforce simp: active_deps_def)

lemma active_deps_dependencies: "set (active_deps m r s play n) \<subseteq> set (dependencies_of m n)"
  by (auto simp: active_deps_def dependencies_of_eq next_of_def split: option.splits)

subsection \<open>Casualties\<close>

text \<open>The stack search of \<open>casualty\<close>: the top of the stack is its last element.\<close>

function casualty_loop ::
    "model \<Rightarrow> registry \<Rightarrow> store \<Rightarrow> string set \<Rightarrow> string \<Rightarrow> string list \<Rightarrow> string set \<Rightarrow> bool" where
  "casualty_loop m r s play entry stack seen =
     (if stack = [] then False
      else
        (let y = last stack; rest = butlast stack
         in if y \<in> seen then casualty_loop m r s play entry rest seen
            else if candidate m r s entry y then True
            else if component_verdict m r s y = Healthy then casualty_loop m r s play entry rest (insert y seen)
            else casualty_loop m r s play entry (rest @ active_deps m r s play y) (insert y seen)))"
  by pat_completeness auto

lemma stack_split: "stack \<noteq> [] \<Longrightarrow> set stack = insert (last stack) (set (butlast stack))"
  by (metis append_butlast_last_id list.set(1,2) set_append Un_insert_right sup_bot.right_neutral)

termination casualty_loop
proof (relation "measures [\<lambda>(m, r, s, play, entry, stack, seen). card ((all_targets m \<union> set stack) - seen),
                           \<lambda>(m, r, s, play, entry, stack, seen). length stack]", goal_cases)
  case (2 m r s play entry stack seen y rest)
  then have "card ((all_targets m \<union> set rest) - seen) \<le> card ((all_targets m \<union> set stack) - seen)"
    by (intro search_shrinks_weak) (auto simp: stack_split)
  with 2 show ?case by auto
next
  case (3 m r s play entry stack seen y rest)
  then have "card ((all_targets m \<union> set rest) - insert y seen) < card ((all_targets m \<union> set stack) - seen)"
    by (intro search_shrinks) (auto simp: stack_split)
  then show ?case by simp
next
  case (4 m r s play entry stack seen y rest)
  then have "card ((all_targets m \<union> set (rest @ active_deps m r s play y)) - insert y seen)
      < card ((all_targets m \<union> set stack) - seen)"
    using active_deps_targets [of m r s play y] by (intro search_shrinks) (auto simp: stack_split)
  then show ?case by simp
qed simp

declare casualty_loop.simps [simp del]

definition casualty :: "model \<Rightarrow> registry \<Rightarrow> store \<Rightarrow> string set \<Rightarrow> string \<Rightarrow> string \<Rightarrow> bool" where
  "casualty m r s play entry x = casualty_loop m r s play entry (active_deps m r s play x) {x}"

subsection \<open>Chain depths\<close>

text \<open>One component's dependencies, with its depth \<open>d\<close>; \<open>limit\<close> is the number of components in play.\<close>

fun depth_targets :: "nat \<Rightarrow> nat \<Rightarrow> string list \<Rightarrow> (string \<rightharpoonup> nat) \<times> bool \<Rightarrow> (string \<rightharpoonup> nat) \<times> bool" where
  "depth_targets limit d [] st = st"
| "depth_targets limit d (t # ts) (depth, changed) =
     (if (case depth t of None \<Rightarrow> True | Some cur \<Rightarrow> cur < d + 1) \<and> \<not> limit < d + 1
      then depth_targets limit d ts (depth(t \<mapsto> d + 1), True)
      else depth_targets limit d ts (depth, changed))"

fun depth_pass :: "(string \<Rightarrow> string list) \<Rightarrow> nat \<Rightarrow> string list \<Rightarrow> (string \<rightharpoonup> nat) \<times> bool \<Rightarrow> (string \<rightharpoonup> nat) \<times> bool" where
  "depth_pass deps limit [] st = st"
| "depth_pass deps limit (n # ns) (depth, changed) =
     (case depth n of
        None \<Rightarrow> depth_pass deps limit ns (depth, changed)
      | Some d \<Rightarrow> depth_pass deps limit ns (depth_targets limit d (deps n) (depth, changed)))"

definition slack :: "nat \<Rightarrow> nat option \<Rightarrow> nat" where
  "slack limit d = (case d of None \<Rightarrow> limit + 1 | Some k \<Rightarrow> limit - k)"

definition total_slack :: "string set \<Rightarrow> nat \<Rightarrow> (string \<rightharpoonup> nat) \<Rightarrow> nat" where
  "total_slack T limit depth = (\<Sum>t\<in>T. slack limit (depth t))"

lemma total_slack_upd:
  assumes "finite T" and "t \<in> T" and "case depth t of None \<Rightarrow> True | Some cur \<Rightarrow> cur < d + 1" and "d + 1 \<le> limit"
  shows "total_slack T limit (depth(t \<mapsto> d + 1)) < total_slack T limit depth"
  unfolding total_slack_def
proof (rule sum_strict_mono_ex1)
  show "\<forall>x\<in>T. slack limit ((depth(t \<mapsto> d + 1)) x) \<le> slack limit (depth x)"
    using assms by (auto simp: slack_def split: option.splits)
  show "\<exists>x\<in>T. slack limit ((depth(t \<mapsto> d + 1)) x) < slack limit (depth x)"
    using assms by (intro bexI [of _ t]) (auto simp: slack_def split: option.splits)
qed (rule assms(1))

text \<open>A pass changes nothing, or it changes something and uses up slack.\<close>

definition progress :: "string set \<Rightarrow> nat \<Rightarrow> (string \<rightharpoonup> nat) \<times> bool \<Rightarrow> (string \<rightharpoonup> nat) \<times> bool \<Rightarrow> bool" where
  "progress T limit st st' \<longleftrightarrow>
     st' = st \<or> (snd st' \<and> total_slack T limit (fst st') < total_slack T limit (fst st))"

lemma progress_trans: "progress T limit a b \<Longrightarrow> progress T limit b c \<Longrightarrow> progress T limit a c"
  by (auto simp: progress_def)

lemma progress_targets:
  "finite T \<Longrightarrow> set ts \<subseteq> T \<Longrightarrow> progress T limit st (depth_targets limit d ts st)"
proof (induction limit d ts st rule: depth_targets.induct)
  case (2 limit d t ts depth changed)
  let ?upd = "(case depth t of None \<Rightarrow> True | Some cur \<Rightarrow> cur < d + 1) \<and> \<not> limit < d + 1"
  show ?case
  proof (cases ?upd)
    case True
    then have "progress T limit (depth, changed) (depth(t \<mapsto> d + 1), True)"
      using 2(3,4) total_slack_upd [where T = T and t = t and depth = depth and d = d and limit = limit] by (simp add: progress_def)
    with 2(1) [OF True] 2(3,4) True show ?thesis by (auto intro: progress_trans)
  next
    case False
    with 2(2) 2(3,4) show ?thesis by auto
  qed
qed (simp add: progress_def)

lemma progress_pass:
  "finite T \<Longrightarrow> (\<And>n. set (deps n) \<subseteq> T) \<Longrightarrow> progress T limit st (depth_pass deps limit ns st)"
proof (induction deps limit ns st rule: depth_pass.induct)
  case (2 deps limit n ns depth changed)
  show ?case
  proof (cases "depth n")
    case (Some d)
    with 2(2) [OF Some 2(3,4)] progress_targets [of T "deps n" limit "(depth, changed)" d] 2(3,4) show ?thesis
      by (auto intro: progress_trans)
  qed (use 2 in auto)
qed (simp add: progress_def)

function depth_loop :: "model \<Rightarrow> registry \<Rightarrow> store \<Rightarrow> string list \<Rightarrow> (string \<rightharpoonup> nat) \<Rightarrow> (string \<rightharpoonup> nat)" where
  "depth_loop m r s reach depth =
     (case depth_pass (active_deps m r s (set reach)) (length reach) reach (depth, False) of
        (depth', changed) \<Rightarrow> if changed then depth_loop m r s reach depth' else depth')"
  by pat_completeness auto

termination depth_loop
proof (relation "measure (\<lambda>(m, r, s, reach, depth). total_slack (all_targets m) (length reach) depth)", goal_cases)
  case (2 m r s reach depth depth' changed)
  then show ?case
    using progress_pass [where T = "all_targets m" and deps = "active_deps m r s (set reach)" and
        limit = "length reach" and st = "(depth, False)" and ns = reach] active_deps_targets [of m r s "set reach"]
    by (auto simp: progress_def simp flip: 2(1))
qed simp

declare depth_loop.simps [simp del]

definition chain_depth :: "model \<Rightarrow> registry \<Rightarrow> store \<Rightarrow> string \<Rightarrow> string \<Rightarrow> nat option" where
  "chain_depth m r s entry = depth_loop m r s (bfs_walk m r s entry) [entry \<mapsto> 0]"

subsection \<open>\<open>RootCause\<close>\<close>

text \<open>\<open>deepest\<close>: a missing depth reads as 0, and \<open>""\<close> stands for none yet.\<close>

fun deepest_loop :: "(string \<Rightarrow> nat) \<Rightarrow> (string \<Rightarrow> bool) \<Rightarrow> string list \<Rightarrow> string \<Rightarrow> string" where
  "deepest_loop depth keep [] best = best"
| "deepest_loop depth keep (n # ns) best =
     (if keep n \<and> (best = [] \<or> depth best < depth n) then deepest_loop depth keep ns n
      else deepest_loop depth keep ns best)"

definition depth_at :: "model \<Rightarrow> registry \<Rightarrow> store \<Rightarrow> string \<Rightarrow> string \<Rightarrow> nat" where
  "depth_at m r s entry n = (case chain_depth m r s entry n of None \<Rightarrow> 0 | Some d \<Rightarrow> d)"

definition deepest :: "model \<Rightarrow> registry \<Rightarrow> store \<Rightarrow> string \<Rightarrow> (string \<Rightarrow> bool) \<Rightarrow> string" where
  "deepest m r s entry keep =
     deepest_loop (depth_at m r s entry) (\<lambda>n. candidate m r s entry n \<and> keep n) (m_order m) []"

definition root_cause :: "model \<Rightarrow> registry \<Rightarrow> store \<Rightarrow> string \<Rightarrow> string" where
  "root_cause m r s entry =
     (if entry = [] then []
      else
        (let reach = bfs_walk m r s entry
         in if \<not> (\<exists>n\<in>set reach. candidate m r s entry n) then []
            else
              (let best = deepest m r s entry (\<lambda>n. \<not> casualty m r s (set reach) entry n)
               in if best \<noteq> [] then best else deepest m r s entry (\<lambda>_. True))))"

subsection \<open>What a casualty is\<close>

text \<open>\<open>b\<close> could have broken \<open>a\<close>: an active dependency of the component blamed or of one not proven healthy.\<close>

definition blame :: "model \<Rightarrow> registry \<Rightarrow> store \<Rightarrow> string set \<Rightarrow> string \<Rightarrow> (string \<times> string) set" where
  "blame m r s play x =
     {(a, b). b \<in> set (active_deps m r s play a) \<and> (a = x \<or> component_verdict m r s a \<noteq> Healthy)}"

lemma casualty_loop_sound:
  "casualty_loop m r s play entry stack seen \<Longrightarrow> \<forall>y\<in>set stack. (x, y) \<in> (blame m r s play x)\<^sup>+ \<Longrightarrow>
   \<exists>y. candidate m r s entry y \<and> y \<notin> seen \<and> (x, y) \<in> (blame m r s play x)\<^sup>+"
proof (induction m r s play entry stack seen rule: casualty_loop.induct)
  case (1 m r s play entry stack seen)
  let ?y = "last stack"
  have ne: "stack \<noteq> []" using 1(4) by (auto simp: casualty_loop.simps)
  have y: "(x, ?y) \<in> (blame m r s play x)\<^sup>+" and rest: "\<forall>z\<in>set (butlast stack). (x, z) \<in> (blame m r s play x)\<^sup>+"
    using 1(5) ne stack_split by auto
  show ?case
  proof (cases "?y \<in> seen \<or> candidate m r s entry ?y")
    case True
    with 1(1) [OF ne refl refl _ _ rest] 1(4) ne y show ?thesis
      by (auto simp: casualty_loop.simps [of m r s play entry stack seen] Let_def)
  next
    case False
    then have *: "?y \<notin> seen" "\<not> candidate m r s entry ?y" by auto
    show ?thesis
    proof (cases "component_verdict m r s ?y = Healthy")
      case True
      with 1(2) [OF ne refl refl * True _ rest] 1(4) ne * show ?thesis
        by (auto simp: casualty_loop.simps [of m r s play entry stack seen] Let_def)
    next
      case False
      have "\<forall>z\<in>set (active_deps m r s play ?y). (?y, z) \<in> blame m r s play x"
        using False by (auto simp: blame_def)
      then have "\<forall>z\<in>set (butlast stack @ active_deps m r s play ?y). (x, z) \<in> (blame m r s play x)\<^sup>+"
        using rest y by (auto intro: trancl_into_trancl)
      with 1(3) [OF ne refl refl * False] 1(4) ne * False show ?thesis
        by (auto simp: casualty_loop.simps [of m r s play entry stack seen] Let_def)
    qed
  qed
qed

text \<open>A set no failure leaves, with no candidate but the component blamed.\<close>

definition sealed :: "model \<Rightarrow> registry \<Rightarrow> store \<Rightarrow> string set \<Rightarrow> string \<Rightarrow> string \<Rightarrow> string set \<Rightarrow> string set \<Rightarrow> bool" where
  "sealed m r s play entry x S Q \<longleftrightarrow>
     x \<in> S \<and> (\<forall>(a, b)\<in>blame m r s play x. a \<in> S \<longrightarrow> b \<in> S \<union> Q) \<and> (\<forall>y\<in>S. candidate m r s entry y \<longrightarrow> y = x)"

lemma casualty_loop_complete:
  "\<not> casualty_loop m r s play entry stack seen \<Longrightarrow> sealed m r s play entry x seen (set stack) \<Longrightarrow>
   \<exists>S. seen \<subseteq> S \<and> sealed m r s play entry x S {}"
proof (induction m r s play entry stack seen rule: casualty_loop.induct)
  case (1 m r s play entry stack seen)
  let ?y = "last stack"
  show ?case
  proof (cases "stack = []")
    case True
    with 1(5) show ?thesis by auto
  next
    case ne: False
    note stack = stack_split [OF ne]
    show ?thesis
    proof (cases "?y \<in> seen")
      case True
      have "sealed m r s play entry x seen (set (butlast stack))"
        using 1(5) True by (auto simp: sealed_def stack)
      with 1(1) [OF ne refl refl True] 1(4) ne True show ?thesis
        by (simp add: casualty_loop.simps [of m r s play entry stack seen])
    next
      case new: False
      then have nc: "\<not> candidate m r s entry ?y"
        using 1(4) ne by (auto simp: casualty_loop.simps [of m r s play entry stack seen] Let_def)
      have yx: "?y \<noteq> x" using new 1(5) by (auto simp: sealed_def)
      show ?thesis
      proof (cases "component_verdict m r s ?y = Healthy")
        case True
        have "sealed m r s play entry x (insert ?y seen) (set (butlast stack))"
          using 1(5) True nc yx by (auto simp: sealed_def stack blame_def)
        with 1(2) [OF ne refl refl new nc True] 1(4) ne new nc True show ?thesis
          by (auto simp: casualty_loop.simps [of m r s play entry stack seen] Let_def)
      next
        case False
        have "sealed m r s play entry x (insert ?y seen) (set (butlast stack @ active_deps m r s play ?y))"
          using 1(5) nc by (auto simp: sealed_def stack blame_def)
        with 1(3) [OF ne refl refl new nc False] 1(4) ne new nc False show ?thesis
          by (auto simp: casualty_loop.simps [of m r s play entry stack seen] Let_def)
      qed
    qed
  qed
qed

text \<open>
  C20: A component is a casualty exactly when another candidate lies among its dependencies, reached
  over active edges no satisfied group guards and only through components not proven healthy.
\<close>

theorem casualty_iff:
  "casualty m r s play entry x \<longleftrightarrow>
     (\<exists>y. y \<noteq> x \<and> candidate m r s entry y \<and>
        (x, y) \<in> {(a, b). b \<in> set (active_deps m r s play a) \<and>
                    (a = x \<or> component_verdict m r s a \<noteq> Healthy)}\<^sup>+)"
  unfolding blame_def [symmetric]
proof
  assume "casualty m r s play entry x"
  then have "casualty_loop m r s play entry (active_deps m r s play x) {x}" by (simp add: casualty_def)
  from casualty_loop_sound [OF this, of x] show "\<exists>y. y \<noteq> x \<and> candidate m r s entry y \<and> (x, y) \<in> (blame m r s play x)\<^sup>+"
    by (auto simp: blame_def)
next
  assume "\<exists>y. y \<noteq> x \<and> candidate m r s entry y \<and> (x, y) \<in> (blame m r s play x)\<^sup>+"
  then obtain y where y: "y \<noteq> x" "candidate m r s entry y" "(x, y) \<in> (blame m r s play x)\<^sup>+" by auto
  show "casualty m r s play entry x"
  proof (rule ccontr)
    assume "\<not> casualty m r s play entry x"
    then have no: "\<not> casualty_loop m r s play entry (active_deps m r s play x) {x}" by (simp add: casualty_def)
    have "sealed m r s play entry x {x} (set (active_deps m r s play x))" by (auto simp: sealed_def blame_def)
    from casualty_loop_complete [OF no this]
    obtain S where S: "sealed m r s play entry x S {}" by auto
    have "y \<in> S" using y(3) by (induction rule: trancl_induct) (use S in \<open>auto simp: sealed_def\<close>)
    with S y show False by (auto simp: sealed_def)
  qed
qed

subsection \<open>What the depths are\<close>

lemma is_walk_reaches: "is_walk nx w \<Longrightarrow> z \<in> set w \<Longrightarrow> (hd w, z) \<in> (edges nx)\<^sup>*"
  by (induction nx w rule: is_walk.induct) (auto intro: converse_rtrancl_into_rtrancl)

lemma acyclic_walk_distinct: "acyclic (edges nx) \<Longrightarrow> is_walk nx w \<Longrightarrow> distinct w"
proof (induction nx w rule: is_walk.induct)
  case (3 nx x y zs)
  have "x \<notin> set (y # zs)"
  proof
    assume "x \<in> set (y # zs)"
    with 3(3) is_walk_reaches [of nx "y # zs" x] have "(x, x) \<in> (edges nx)\<^sup>+"
      by (auto intro: rtrancl_into_trancl2)
    with 3(2) show False by (simp add: acyclic_def)
  qed
  with 3 show ?case by simp
qed simp_all

text \<open>Every depth is the length of some chain from the entry.\<close>

definition realised :: "(string \<Rightarrow> string list) \<Rightarrow> string \<Rightarrow> (string \<rightharpoonup> nat) \<Rightarrow> bool" where
  "realised nx entry depth \<longleftrightarrow>
     depth entry \<noteq> None \<and>
     (\<forall>t d. depth t = Some d \<longrightarrow> (\<exists>w. is_walk nx w \<and> hd w = entry \<and> last w = t \<and> length w = Suc d))"

lemma realised_upd:
  assumes "realised nx entry depth" and "depth n = Some d \<or> (\<exists>w. is_walk nx w \<and> hd w = entry \<and> last w = n \<and> length w = Suc d)"
    and "t \<in> set (nx n)"
  shows "realised nx entry (depth(t \<mapsto> d + 1))"
proof -
  obtain w where w: "is_walk nx w" "hd w = entry" "last w = n" "length w = Suc d"
    using assms(1,2) by (auto simp: realised_def)
  then have "is_walk nx (w @ [t]) \<and> hd (w @ [t]) = entry \<and> last (w @ [t]) = t \<and> length (w @ [t]) = Suc (d + 1)"
    using assms(3) is_walk_snoc [of w nx t] by (cases "w = []") simp_all
  then have new: "\<exists>w. is_walk nx w \<and> hd w = entry \<and> last w = t \<and> length w = Suc (d + 1)" by blast
  show ?thesis
    unfolding realised_def
  proof (intro conjI allI impI)
    show "(depth(t \<mapsto> d + 1)) entry \<noteq> None" using assms(1) by (simp add: realised_def)
  next
    fix t' d' assume "(depth(t \<mapsto> d + 1)) t' = Some d'"
    then show "\<exists>w. is_walk nx w \<and> hd w = entry \<and> last w = t' \<and> length w = Suc d'"
      using assms(1) new by (cases "t' = t") (auto simp: realised_def)
  qed
qed

lemma realised_targets:
  "realised nx entry (fst st) \<Longrightarrow> \<exists>w. is_walk nx w \<and> hd w = entry \<and> last w = n \<and> length w = Suc d \<Longrightarrow>
   set ts \<subseteq> set (nx n) \<Longrightarrow> realised nx entry (fst (depth_targets limit d ts st))"
proof (induction limit d ts st rule: depth_targets.induct)
  case (2 limit d t ts depth changed)
  let ?upd = "(case depth t of None \<Rightarrow> True | Some cur \<Rightarrow> cur < d + 1) \<and> \<not> limit < d + 1"
  have upd: "realised nx entry (fst (depth(t \<mapsto> d + 1), True))"
    using 2(3-5) realised_upd [of nx entry depth n d t] by auto
  have ts: "set ts \<subseteq> set (nx n)" using 2(5) by simp
  show ?case
  proof (cases ?upd)
    case True
    show ?thesis unfolding depth_targets.simps if_P [OF True] by (rule 2(1) [OF True upd 2(4) ts])
  next
    case False
    show ?thesis unfolding depth_targets.simps if_not_P [OF False] by (rule 2(2) [OF False 2(3,4) ts])
  qed
qed simp

lemma realised_pass:
  "realised nx entry (fst st) \<Longrightarrow> realised nx entry (fst (depth_pass nx limit ns st))"
proof (induction nx limit ns st rule: depth_pass.induct)
  case (2 nx limit n ns depth changed)
  show ?case
  proof (cases "depth n")
    case (Some d)
    then have "\<exists>w. is_walk nx w \<and> hd w = entry \<and> last w = n \<and> length w = Suc d"
      using 2(3) by (simp add: realised_def)
    from realised_targets [OF 2(3) this, of "nx n" limit] 2(2) [OF Some] Some show ?thesis by simp
  qed (use 2 in simp)
qed simp

text \<open>A pass that changes nothing leaves no edge to raise a depth over.\<close>

lemma targets_unchanged:
  "\<not> snd (depth_targets limit d ts st) \<Longrightarrow>
   depth_targets limit d ts st = st \<and> \<not> snd st \<and>
   (\<forall>t\<in>set ts. (\<exists>cur. fst st t = Some cur \<and> d + 1 \<le> cur) \<or> limit < d + 1)"
  by (induction limit d ts st rule: depth_targets.induct) (auto split: if_splits option.splits)

lemma pass_unchanged:
  "\<not> snd (depth_pass deps limit ns st) \<Longrightarrow>
   depth_pass deps limit ns st = st \<and>
   (\<forall>n\<in>set ns. \<forall>d. fst st n = Some d \<longrightarrow>
      (\<forall>t\<in>set (deps n). (\<exists>cur. fst st t = Some cur \<and> d + 1 \<le> cur) \<or> limit < d + 1))"
proof (induction deps limit ns st rule: depth_pass.induct)
  case (2 deps limit n ns depth changed)
  show ?case
  proof (cases "depth n")
    case (Some d)
    let ?st = "depth_targets limit d (deps n) (depth, changed)"
    have "\<not> snd (depth_pass deps limit ns ?st)" using 2(3) Some by simp
    from 2(2) [OF Some this] have IH: "depth_pass deps limit ns ?st = ?st" by blast
    with 2(3) Some have "\<not> snd ?st" by simp
    from targets_unchanged [OF this] 2(2) [OF Some] 2(3) Some IH show ?thesis by auto
  qed (use 2 in auto)
qed simp

definition saturated :: "(string \<Rightarrow> string list) \<Rightarrow> string list \<Rightarrow> (string \<rightharpoonup> nat) \<Rightarrow> bool" where
  "saturated nx reach depth \<longleftrightarrow>
     (\<forall>n\<in>set reach. \<forall>d. depth n = Some d \<longrightarrow>
        (\<forall>t\<in>set (nx n). (\<exists>cur. depth t = Some cur \<and> d + 1 \<le> cur) \<or> length reach < d + 1))"

lemma depth_loop_result:
  "realised (active_deps m r s (set reach)) entry depth \<Longrightarrow>
   realised (active_deps m r s (set reach)) entry (depth_loop m r s reach depth) \<and>
   saturated (active_deps m r s (set reach)) reach (depth_loop m r s reach depth)"
proof (induction m r s reach depth rule: depth_loop.induct)
  case (1 m r s reach depth)
  let ?deps = "active_deps m r s (set reach)"
  obtain depth' changed where pass: "depth_pass ?deps (length reach) reach (depth, False) = (depth', changed)"
    by fastforce
  have real: "realised ?deps entry depth'"
    using realised_pass [of ?deps entry "(depth, False)" "length reach" reach] 1(2) pass by simp
  show ?case
  proof (cases changed)
    case True
    with 1(1) [OF pass [symmetric] True real] pass show ?thesis
      by (simp add: depth_loop.simps [of m r s reach depth])
  next
    case False
    with pass pass_unchanged [of ?deps "length reach" reach "(depth, False)"] have "saturated ?deps reach depth'"
      by (auto simp: saturated_def)
    with False pass real show ?thesis by (simp add: depth_loop.simps [of m r s reach depth])
  qed
qed

text \<open>In play: the entry, and every active dependency of a component in play.\<close>

lemma walk_in_play:
  assumes "is_walk (active_deps m r s (set (bfs_walk m r s entry))) w" and "hd w = entry"
  shows "set w \<subseteq> set (bfs_walk m r s entry)"
  using assms
proof (induction w rule: rev_induct)
  case (snoc x w)
  have entry: "entry \<in> set (bfs_walk m r s entry)"
    using bfs_loop_queue [of "[entry]" "{}"] by (simp add: bfs_walk_def)
  show ?case
  proof (cases "w = []")
    case False
    then have "x \<in> set (bfs_walk m r s entry)" using snoc(2) by (auto simp: is_walk_snoc active_deps_def)
    moreover have "is_walk (active_deps m r s (set (bfs_walk m r s entry))) w"
      using snoc(2) False by (simp add: is_walk_snoc)
    ultimately show ?thesis using snoc(1,3) False by simp
  qed (use entry snoc in simp)
qed simp

lemma acyclic_active_deps:
  "acyclic (edges (dependencies_of m)) \<Longrightarrow> acyclic (edges (active_deps m r s play))"
  using active_deps_dependencies [of m r s play] by (elim acyclic_subset) (auto simp: edges_def)

lemma chain_depth_realised: "realised (active_deps m r s (set (bfs_walk m r s entry))) entry (chain_depth m r s entry)"
  and chain_depth_saturated: "saturated (active_deps m r s (set (bfs_walk m r s entry))) (bfs_walk m r s entry) (chain_depth m r s entry)"
proof -
  have "is_walk nx [entry] \<and> hd [entry] = entry \<and> last [entry] = entry \<and> length [entry] = Suc 0" for nx
    by simp
  then have "realised nx entry [entry \<mapsto> 0]" for nx
    unfolding realised_def by (metis fun_upd_apply option.distinct(1) option.inject)
  then show "realised (active_deps m r s (set (bfs_walk m r s entry))) entry (chain_depth m r s entry)"
    "saturated (active_deps m r s (set (bfs_walk m r s entry))) (bfs_walk m r s entry) (chain_depth m r s entry)"
    unfolding chain_depth_def using depth_loop_result by blast+
qed

lemma chain_depth_at_least:
  assumes ac: "acyclic (edges (dependencies_of m))"
    and "is_walk (active_deps m r s (set (bfs_walk m r s entry))) w" and "hd w = entry"
  shows "\<exists>d. chain_depth m r s entry (last w) = Some d \<and> length w \<le> Suc d"
  using assms(2,3)
proof (induction w rule: rev_induct)
  case (snoc t w)
  let ?reach = "bfs_walk m r s entry"
  let ?nx = "active_deps m r s (set ?reach)"
  show ?case
  proof (cases "w = []")
    case True
    then show ?thesis using snoc chain_depth_realised [of m r s entry] by (auto simp: realised_def)
  next
    case False
    then have w: "is_walk ?nx w" "hd w = entry" "t \<in> set (?nx (last w))"
      using snoc(2,3) by (auto simp: is_walk_snoc)
    then obtain d where d: "chain_depth m r s entry (last w) = Some d" "length w \<le> Suc d"
      using snoc(1) by blast
    have "last w \<in> set ?reach" using walk_in_play [OF w(1,2)] False last_in_set by blast
    then have "(\<exists>cur. chain_depth m r s entry t = Some cur \<and> d + 1 \<le> cur) \<or> length ?reach < d + 1"
      using chain_depth_saturated [of m r s entry] d(1) w(3) by (auto simp: saturated_def)
    moreover have "\<not> length ?reach < d + 1"
    proof -
      obtain v where v: "is_walk ?nx v" "hd v = entry" "length v = Suc d"
        using chain_depth_realised [of m r s entry] d(1) by (auto simp: realised_def)
      have "length v = card (set v)"
        using acyclic_walk_distinct [OF acyclic_active_deps [OF ac] v(1)] by (simp add: distinct_card)
      also have "\<dots> \<le> card (set ?reach)" using walk_in_play [OF v(1,2)] by (intro card_mono) auto
      also have "\<dots> \<le> length ?reach" by (rule card_length)
      finally show ?thesis using v(3) by simp
    qed
    ultimately show ?thesis using d(2) by auto
  qed
qed simp

text \<open>
  C24: In an acyclic model the depth loop ends with the length of the longest chain from the entry to
  each component: some walk over active edges has it, and none is longer.
\<close>

theorem chain_depth_longest:
  assumes "wf_model m" and "detect_cycle (build_graph m) = None"
  shows "chain_depth m r s entry t = Some d \<longleftrightarrow>
     (\<exists>w. is_walk (active_deps m r s (set (bfs_walk m r s entry))) w \<and> hd w = entry \<and> last w = t \<and> length w = Suc d) \<and>
     (\<forall>w. is_walk (active_deps m r s (set (bfs_walk m r s entry))) w \<and> hd w = entry \<and> last w = t \<longrightarrow> length w \<le> Suc d)"
proof -
  have ac: "acyclic (edges (dependencies_of m))" using assms detect_cycle_None_iff by blast
  note real = chain_depth_realised [of m r s entry] and most = chain_depth_at_least [OF ac, of r s entry]
  show ?thesis (is "?L \<longleftrightarrow> ?R")
  proof
    assume ?L
    then show ?R using real most by (fastforce simp: realised_def)
  next
    assume R: ?R
    then obtain d' where d': "chain_depth m r s entry t = Some d'" "Suc d \<le> Suc d'" using most by metis
    then have "Suc d' \<le> Suc d" using R real unfolding realised_def by metis
    with d' show ?L by simp
  qed
qed

subsection \<open>What the root cause is\<close>

lemma deepest_loop_in: "deepest_loop depth keep ns best = best \<or>
    (deepest_loop depth keep ns best \<in> set ns \<and> keep (deepest_loop depth keep ns best))"
  by (induction depth keep ns best rule: deepest_loop.induct) auto

lemma deepest_loop_max:
  "[] \<notin> set ns \<Longrightarrow>
   (best \<noteq> [] \<longrightarrow> deepest_loop depth keep ns best \<noteq> [] \<and> depth best \<le> depth (deepest_loop depth keep ns best)) \<and>
   (\<forall>n\<in>set ns. keep n \<longrightarrow> deepest_loop depth keep ns best \<noteq> [] \<and> depth n \<le> depth (deepest_loop depth keep ns best))"
proof (induction depth keep ns best rule: deepest_loop.induct)
  case (2 depth keep n ns best)
  have ns: "[] \<notin> set ns" "n \<noteq> []" using 2(3) by auto
  show ?case
  proof (cases "keep n \<and> (best = [] \<or> depth best < depth n)")
    case True
    with 2(1) [OF True ns(1)] ns(2) show ?thesis by auto
  next
    case False
    with 2(2) [OF False ns(1)] show ?thesis by auto
  qed
qed simp

lemma candidate_component: "wf_model m \<Longrightarrow> candidate m r s entry n \<Longrightarrow> n \<in> set (m_order m)"
  by (auto simp: candidate_def component_verdict_def wf_model_def set_keys split: option.splits)

text \<open>The conditions under which a model can be reasoned about: well formed, named, acyclic.\<close>

definition sound_model :: "model \<Rightarrow> bool" where
  "sound_model m \<longleftrightarrow> wf_model m \<and> [] \<notin> set (m_order m) \<and> detect_cycle (build_graph m) = None"

lemma deepest_nonempty:
  assumes "wf_model m" and "[] \<notin> set (m_order m)" and "candidate m r s entry n" and "keep n"
  shows "deepest m r s entry keep \<noteq> [] \<and> depth_at m r s entry n \<le> depth_at m r s entry (deepest m r s entry keep)"
  using deepest_loop_max [OF assms(2), of "[]" "depth_at m r s entry" "\<lambda>n. candidate m r s entry n \<and> keep n"]
    candidate_component [OF assms(1,3)] assms(3,4)
  by (auto simp: deepest_def)

lemma deepest_kept:
  "deepest m r s entry keep \<noteq> [] \<Longrightarrow>
   deepest m r s entry keep \<in> set (m_order m) \<and> candidate m r s entry (deepest m r s entry keep) \<and>
   keep (deepest m r s entry keep)"
  unfolding deepest_def
  using deepest_loop_in [of "depth_at m r s entry" "\<lambda>n. candidate m r s entry n \<and> keep n" "m_order m" "[]"]
  by auto

text \<open>
  C3: The root cause named is a component of the model in play that the facts show broken and that no
  redundancy group still covers.
\<close>

theorem root_cause_sound:
  assumes "root_cause m r s entry = x" and "x \<noteq> []"
  shows "x \<in> set (m_order m) \<and> x \<in> set (bfs_walk m r s entry) \<and> component_verdict m r s x = Unhealthy \<and>
    \<not> redundancy_covered m r s x"
  using assms deepest_kept [of m r s entry]
  by (auto simp: root_cause_def Let_def candidate_def split: if_splits)

text \<open>
  C5: No root cause is named exactly when nothing in play is seen broken, apart from what redundancy
  covers.
\<close>

theorem root_cause_none_iff:
  assumes "wf_model m" and "[] \<notin> set (m_order m)" and "entry \<noteq> []"
  shows "root_cause m r s entry = [] \<longleftrightarrow>
    \<not> (\<exists>n\<in>set (bfs_walk m r s entry). component_verdict m r s n = Unhealthy \<and> \<not> redundancy_covered m r s n)"
proof
  assume none: "root_cause m r s entry = []"
  show "\<not> (\<exists>n\<in>set (bfs_walk m r s entry). component_verdict m r s n = Unhealthy \<and> \<not> redundancy_covered m r s n)"
  proof
    assume "\<exists>n\<in>set (bfs_walk m r s entry). component_verdict m r s n = Unhealthy \<and> \<not> redundancy_covered m r s n"
    then obtain n where n: "n \<in> set (bfs_walk m r s entry)" "candidate m r s entry n" by (auto simp: candidate_def)
    with deepest_nonempty [OF assms(1,2) n(2), of "\<lambda>_. True"] none assms(3) show False
      by (auto simp: root_cause_def Let_def split: if_splits)
  qed
qed (auto simp: root_cause_def candidate_def)

lemma non_casualty_exists:
  assumes wf: "sound_model m" and n: "candidate m r s entry n"
  shows "\<exists>z. candidate m r s entry z \<and> \<not> casualty m r s play entry z"
proof -
  let ?E = "edges (dependencies_of m)"
  have "acyclic ?E" using wf detect_cycle_None_iff by (auto simp: sound_model_def)
  then have "wf ((?E\<inverse>)\<^sup>+)" using finite_dependency_edges by (intro wf_trancl finite_acyclic_wf_converse)
  then obtain z where z: "candidate m r s entry z" "\<And>y. (y, z) \<in> (?E\<inverse>)\<^sup>+ \<Longrightarrow> \<not> candidate m r s entry y"
    using n by (elim wfE_min [where Q = "Collect (candidate m r s entry)"]) auto
  have "blame m r s play z \<subseteq> ?E" by (auto simp: blame_def dest: subsetD [OF active_deps_dependencies])
  then have "(y, z) \<in> (?E\<inverse>)\<^sup>+" if "(z, y) \<in> (blame m r s play z)\<^sup>+" for y
    using that trancl_mono by (auto simp: trancl_converse)
  with z have "\<not> casualty m r s play entry z" unfolding casualty_iff blame_def [symmetric] by blast
  with z(1) show ?thesis by blast
qed

lemma root_cause_chosen:
  assumes wf: "sound_model m" and x: "root_cause m r s entry = x" "x \<noteq> []"
  shows "x = deepest m r s entry (\<lambda>n. \<not> casualty m r s (set (bfs_walk m r s entry)) entry n)"
proof -
  let ?keep = "\<lambda>n. \<not> casualty m r s (set (bfs_walk m r s entry)) entry n"
  from x obtain n where n: "candidate m r s entry n" by (auto simp: root_cause_def Let_def split: if_splits)
  from non_casualty_exists [OF wf this] obtain z where "candidate m r s entry z" "?keep z" by blast
  with deepest_nonempty [of m r s entry z ?keep] wf have "deepest m r s entry ?keep \<noteq> []"
    by (simp add: sound_model_def)
  with x show ?thesis by (auto simp: root_cause_def Let_def split: if_splits)
qed

text \<open>
  C1: In an acyclic model the root cause is never a casualty: no other broken component in play that
  redundancy does not cover lies among its dependencies, over active edges no satisfied group guards
  and through components not proven healthy.
\<close>

theorem root_cause_not_casualty:
  assumes "sound_model m" and "root_cause m r s entry = x" and "x \<noteq> []"
  shows "\<not> (\<exists>y. y \<noteq> x \<and> candidate m r s entry y \<and>
    (x, y) \<in> {(a, b). b \<in> set (active_deps m r s (set (bfs_walk m r s entry)) a) \<and>
                (a = x \<or> component_verdict m r s a \<noteq> Healthy)}\<^sup>+)"
  using root_cause_chosen [OF assms] deepest_kept [of m r s entry] assms(3)
  unfolding casualty_iff [of m r s "set (bfs_walk m r s entry)" entry x, symmetric] by metis

text \<open>
  Of the broken components that are no casualties, the root cause has the longest dependency
  chain from the entry: no other is further away.
\<close>

theorem root_cause_furthest:
  assumes "sound_model m" and "root_cause m r s entry = x" and "x \<noteq> []"
    and y: "candidate m r s entry y" "\<not> casualty m r s (set (bfs_walk m r s entry)) entry y"
    and w: "is_walk (active_deps m r s (set (bfs_walk m r s entry))) w" "hd w = entry" "last w = y" "2 \<le> length w"
  shows "\<exists>v. is_walk (active_deps m r s (set (bfs_walk m r s entry))) v \<and> hd v = entry \<and> last v = x \<and>
    length w \<le> length v"
proof -
  have ac: "acyclic (edges (dependencies_of m))"
    using assms(1) detect_cycle_None_iff by (auto simp: sound_model_def)
  from chain_depth_at_least [OF ac w(1,2)] w(3) obtain d where d: "chain_depth m r s entry y = Some d" "length w \<le> Suc d"
    by blast
  have "depth_at m r s entry y \<le> depth_at m r s entry x"
    using deepest_nonempty [of m r s entry y "\<lambda>n. \<not> casualty m r s (set (bfs_walk m r s entry)) entry n"]
      root_cause_chosen [OF assms(1-3)] assms(1) y by (simp add: sound_model_def)
  with d w(4) obtain d' where d': "chain_depth m r s entry x = Some d'" "d \<le> d'"
    by (auto simp: depth_at_def split: option.splits)
  with chain_depth_realised [of m r s entry] d(2) show ?thesis unfolding realised_def by fastforce
qed

subsection \<open>Examples\<close>

text \<open>
  A web service over an API with a database, and over a cache, everything down: the database is
  further from the entry than the cache, and the API its casualty.
\<close>

definition ex_site :: model where
  "ex_site = ex_model [ex_component ''web'' ''svc'' [ex_dep [''api'', ''cache'']],
     ex_component ''api'' ''svc'' [ex_dep [''db'']], ex_component ''cache'' ''svc'' [],
     ex_component ''db'' ''svc'' []]"

definition ex_down :: store where
  "ex_down = ex_up [(''web'', False), (''api'', False), (''db'', False), (''cache'', False)]"

definition ex_fine :: store where
  "ex_fine = ex_up [(''web'', True), (''api'', True), (''db'', True), (''cache'', True)]"

lemma ex_site_sound: "sound_model ex_site"
  by (simp add: sound_model_def wf_model_def wf_dict_def ex_site_def ex_model_def ex_component_def ex_dep_def
      detect_cycle_def build_graph_def new_dep_graph_def dfs.simps graph_dependencies_def targets_of_def)

lemma ex_down_root_cause: "root_cause ex_site ex_registry ex_down ''web'' = ''db''"
  by code_simp

lemma ex_fine_root_cause: "root_cause ex_site ex_registry ex_fine ''web'' = []"
  by code_simp

lemma ex_down_walk: "bfs_walk ex_site ex_registry ex_down ''web'' = [''web'', ''api'', ''cache'', ''db'']"
  by code_simp

lemma ex_down_cache:
  "candidate ex_site ex_registry ex_down ''web'' ''cache''"
  "\<not> casualty ex_site ex_registry ex_down {''web'', ''api'', ''cache'', ''db''} ''web'' ''cache''"
  by code_simp+

lemma ex_down_chain: "is_walk (active_deps ex_site ex_registry ex_down {''web'', ''api'', ''cache'', ''db''}) [''web'', ''cache'']"
  by code_simp

theorem casualty_iff_witness:
  "\<not> (\<exists>y. y \<noteq> ''cache'' \<and> candidate ex_site ex_registry ex_down ''web'' y \<and>
     (''cache'', y) \<in> {(a, b). b \<in> set (active_deps ex_site ex_registry ex_down {''web'', ''api'', ''cache'', ''db''} a) \<and>
        (a = ''cache'' \<or> component_verdict ex_site ex_registry ex_down a \<noteq> Healthy)}\<^sup>+)"
  using casualty_iff ex_down_cache(2) by blast

theorem root_cause_sound_witness:
  "''db'' \<in> set (m_order ex_site) \<and> ''db'' \<in> set (bfs_walk ex_site ex_registry ex_down ''web'') \<and>
   component_verdict ex_site ex_registry ex_down ''db'' = Unhealthy \<and>
   \<not> redundancy_covered ex_site ex_registry ex_down ''db''"
  by (rule root_cause_sound [OF ex_down_root_cause]) simp

theorem root_cause_none_iff_witness:
  "\<not> (\<exists>n\<in>set (bfs_walk ex_site ex_registry ex_fine ''web'').
     component_verdict ex_site ex_registry ex_fine n = Unhealthy \<and> \<not> redundancy_covered ex_site ex_registry ex_fine n)"
  using ex_site_sound
  by (intro root_cause_none_iff [THEN iffD1] ex_fine_root_cause) (simp_all add: sound_model_def)

theorem root_cause_not_casualty_witness:
  "\<not> (\<exists>y. y \<noteq> ''db'' \<and> candidate ex_site ex_registry ex_down ''web'' y \<and>
    (''db'', y) \<in> {(a, b). b \<in> set (active_deps ex_site ex_registry ex_down (set (bfs_walk ex_site ex_registry ex_down ''web'')) a) \<and>
                (a = ''db'' \<or> component_verdict ex_site ex_registry ex_down a \<noteq> Healthy)}\<^sup>+)"
  by (rule root_cause_not_casualty [OF ex_site_sound ex_down_root_cause]) simp

theorem root_cause_furthest_witness:
  "\<exists>v. is_walk (active_deps ex_site ex_registry ex_down (set (bfs_walk ex_site ex_registry ex_down ''web''))) v \<and>
     hd v = ''web'' \<and> last v = ''db'' \<and> length [''web'', ''cache''] \<le> length v"
  using ex_down_cache ex_down_chain
  by (intro root_cause_furthest [OF ex_site_sound ex_down_root_cause, where y = "''cache''"])
    (simp_all add: ex_down_walk)

theorem chain_depth_longest_witness:
  "\<exists>w. is_walk (active_deps ex_site ex_registry ex_down (set (bfs_walk ex_site ex_registry ex_down ''web''))) w \<and>
     hd w = ''web'' \<and> last w = ''db'' \<and> length w = Suc 2"
proof -
  have "chain_depth ex_site ex_registry ex_down ''web'' ''db'' = Some 2" by code_simp
  with ex_site_sound chain_depth_longest [of ex_site ex_registry ex_down "''web''" "''db''" 2] show ?thesis
    by (simp add: sound_model_def)
qed

end
