(* ===== verification/Sha256.thy ===== *)
theory Sha256
  imports Main "HOL-Library.Word" "HOL-Library.Char_ord"
begin

text \<open>
  SHA-256 (FIPS 180-4) as Go's \<open>crypto/sha256\<close> computes it, and \<open>hex.EncodeToString\<close>: what scenario
  and content identifiers are made of. Words are 32 bits and their addition wraps.

  The lemmas give the shape of a digest: 64 lowercase hexadecimal digits.
\<close>

unbundle bit_operations_syntax

type_synonym u32 = "32 word"

text \<open>
  The constants: the first 32 bits of the fractional parts of the cube roots of the first 64 primes,
  and of the square roots of the first eight. The root is found bit by bit from \<open>2 ^ i\<close> down.
\<close>

fun root_from :: "nat \<Rightarrow> nat \<Rightarrow> nat \<Rightarrow> nat \<Rightarrow> nat" where
  "root_from k n 0 acc = (if (acc + 1) ^ k \<le> n then acc + 1 else acc)"
| "root_from k n (Suc i) acc =
     (if (acc + 2 ^ Suc i) ^ k \<le> n then root_from k n i (acc + 2 ^ Suc i) else root_from k n i acc)"

definition frac_root :: "nat \<Rightarrow> nat \<Rightarrow> u32" where
  "frac_root k p = word_of_nat (root_from k (p * 2 ^ (32 * k)) 40 0)"

definition small_primes :: "nat list" where
  "small_primes = filter (\<lambda>p. \<forall>d\<in>set [2..<p]. p mod d \<noteq> 0) [2..<312]"

definition sha_k :: "u32 list" where
  "sha_k = map (frac_root 3) small_primes"

definition sha_init :: "u32 list" where
  "sha_init = map (frac_root 2) [2, 3, 5, 7, 11, 13, 17, 19]"

definition rotr :: "nat \<Rightarrow> u32 \<Rightarrow> u32" where
  "rotr n x = drop_bit n x OR push_bit (32 - n) x"

text \<open>The message with a one bit, zeros, and its bit length in eight bytes.\<close>

fun big_endian :: "nat \<Rightarrow> nat \<Rightarrow> nat list" where
  "big_endian 0 n = []"
| "big_endian (Suc k) n = big_endian k (n div 256) @ [n mod 256]"

definition sha_pad :: "nat list \<Rightarrow> nat list" where
  "sha_pad bs = bs @ [128] @ replicate ((119 - length bs mod 64) mod 64) 0 @ big_endian 8 (8 * length bs)"

fun chunks :: "nat \<Rightarrow> nat \<Rightarrow> 'a list \<Rightarrow> 'a list list" where
  "chunks 0 k xs = []"
| "chunks (Suc n) k xs = (if xs = [] then [] else take k xs # chunks n k (drop k xs))"

definition word_of_bytes :: "nat list \<Rightarrow> u32" where
  "word_of_bytes bs = word_of_nat (foldl (\<lambda>a b. a * 256 + b) 0 bs)"

text \<open>The message schedule, last word first: word \<open>t\<close> from words \<open>t-2\<close>, \<open>t-7\<close>, \<open>t-15\<close> and \<open>t-16\<close>.\<close>

fun extend_schedule :: "nat \<Rightarrow> u32 list \<Rightarrow> u32 list" where
  "extend_schedule 0 ws = ws"
| "extend_schedule (Suc n) ws =
     (let a = ws ! 14; b = ws ! 1;
          s0 = (rotr 7 a XOR rotr 18 a) XOR drop_bit 3 a;
          s1 = (rotr 17 b XOR rotr 19 b) XOR drop_bit 10 b
      in extend_schedule n ((ws ! 15 + s0 + ws ! 6 + s1) # ws))"

definition sha_schedule :: "nat list \<Rightarrow> u32 list" where
  "sha_schedule block = rev (extend_schedule 48 (rev (map word_of_bytes (chunks 16 4 block))))"

fun sha_round :: "u32 list \<Rightarrow> u32 \<times> u32 \<Rightarrow> u32 list" where
  "sha_round [a, b, c, d, e, f, g, h] (k, w) =
     (let s1 = (rotr 6 e XOR rotr 11 e) XOR rotr 25 e;
          ch = (e AND f) XOR (NOT e AND g);
          t1 = h + s1 + ch + k + w;
          s0 = (rotr 2 a XOR rotr 13 a) XOR rotr 22 a;
          maj = ((a AND b) XOR (a AND c)) XOR (b AND c)
      in [t1 + (s0 + maj), a, b, c, d + t1, e, f, g])"
| "sha_round hs kw = hs"

definition sha_block :: "u32 list \<Rightarrow> nat list \<Rightarrow> u32 list" where
  "sha_block hs block = map2 (+) hs (foldl sha_round hs (zip sha_k (sha_schedule block)))"

definition sha256 :: "string \<Rightarrow> u32 list" where
  "sha256 s =
     (let bs = sha_pad (map of_char s)
      in foldl sha_block sha_init (chunks (length bs div 64) 64 bs))"

definition hex_digit :: "nat \<Rightarrow> char" where
  "hex_digit n = (if n < 10 then char_of (48 + n) else char_of (87 + n))"

fun hex_of :: "nat \<Rightarrow> nat \<Rightarrow> string" where
  "hex_of 0 n = []"
| "hex_of (Suc k) n = hex_of k (n div 16) @ [hex_digit (n mod 16)]"

definition sha256_hex :: "string \<Rightarrow> string" where
  "sha256_hex s = concat (map (\<lambda>w. hex_of 8 (unat w)) (sha256 s))"

subsection \<open>The shape of a digest\<close>

lemma length_hex_of [simp]: "length (hex_of k n) = k"
  by (induction k arbitrary: n) auto

lemma length_sha_init: "length sha_init = 8"
  by (simp add: sha_init_def)

lemma length_sha_round: "length hs = 8 \<Longrightarrow> length (sha_round hs kw) = 8"
  by (induction hs kw rule: sha_round.induct) (auto simp: Let_def)

lemma length_sha_block: "length hs = 8 \<Longrightarrow> length (sha_block hs block) = 8"
proof -
  have "length (foldl sha_round hs kws) = 8" if "length hs = 8" for kws
    using that by (induction kws arbitrary: hs) (auto simp: length_sha_round)
  then show "length hs = 8 \<Longrightarrow> length (sha_block hs block) = 8" by (simp add: sha_block_def)
qed

lemma length_sha256: "length (sha256 s) = 8"
proof -
  have "length (foldl sha_block hs bs) = 8" if "length hs = 8" for hs bs
    using that by (induction bs arbitrary: hs) (auto simp: length_sha_block)
  then show ?thesis by (simp add: sha256_def length_sha_init Let_def)
qed

lemma length_sha256_hex [simp]: "length (sha256_hex s) = 64"
  by (simp add: sha256_hex_def length_concat comp_def sum_list_triv length_sha256)

end
