(* ===== verification/Scenarios.thy ===== *)
theory Scenarios
  imports Dep_Graph Sha256
begin

text \<open>
  Failure scenarios (\<open>internal/scenarios\<close>: scenario.go, enumerate.go, graph.go, representative.go): the
  failure graph a model and its types give, the chains that walk it, their order and identifiers.

  The lemmas show which chains the expansion lists, that it lists none twice, in scenario order and
  under distinct identifiers, and what the dependency closure and the representatives hold.
\<close>

subsection \<open>Scenarios\<close>

record root_ref =
  rr_component :: string
  rr_state :: string

record step =
  sp_component :: string
  sp_state :: string
  sp_emits :: string
  sp_observes :: "string list"

record scenario =
  sc_id :: string
  sc_root :: root_ref
  sc_chain :: "step list"

definition is_terminal :: "step \<Rightarrow> bool" where
  "is_terminal s \<longleftrightarrow> sp_observes s \<noteq> []"

definition scenario_length :: "scenario \<Rightarrow> nat" where
  "scenario_length s = length (sc_chain s)"

definition touches_component :: "scenario \<Rightarrow> string \<Rightarrow> bool" where
  "touches_component s name \<longleftrightarrow> (\<exists>st\<in>set (sc_chain s). sp_component st = name)"

definition chain_key :: "step list \<Rightarrow> string" where
  "chain_key chain = concat (map (\<lambda>s. sp_component s @ '':'' @ sp_state s @ ''>'') chain)"

text \<open>\<open>Less\<close>: shorter chains first, then root, root state and steps.\<close>

definition scenario_less :: "scenario \<Rightarrow> scenario \<Rightarrow> bool" where
  "scenario_less a b =
     (if scenario_length a \<noteq> scenario_length b then scenario_length a < scenario_length b
      else if rr_component (sc_root a) \<noteq> rr_component (sc_root b) then rr_component (sc_root a) < rr_component (sc_root b)
      else if rr_state (sc_root a) \<noteq> rr_state (sc_root b) then rr_state (sc_root a) < rr_state (sc_root b)
      else chain_key (sc_chain a) < chain_key (sc_chain b))"

definition sort_scenarios :: "scenario list \<Rightarrow> scenario list" where
  "sort_scenarios = sort_by scenario_less"

text \<open>\<open>IDOf\<close>: the first twelve digits of the key's digest.\<close>

definition id_of :: "step list \<Rightarrow> string" where
  "id_of chain = ''s-'' @ take 12 (sha256_hex (chain_key chain))"

fun assign_ids :: "(string \<rightharpoonup> nat) \<Rightarrow> scenario list \<Rightarrow> scenario list" where
  "assign_ids seen [] = []"
| "assign_ids seen (s # ss) =
     (let i = id_of (sc_chain s); n = (case seen i of None \<Rightarrow> 0 | Some k \<Rightarrow> k)
      in (if 0 < n
          then s\<lparr>sc_id := i @ ''-'' @ itoa (int (n + 1))\<rparr> # assign_ids (seen(i \<mapsto> n + 1)) ss
          else s\<lparr>sc_id := i\<rparr> # assign_ids (seen(i \<mapsto> 1)) ss))"

definition drop_duplicate_chains :: "scenario list \<Rightarrow> scenario list" where
  "drop_duplicate_chains = dedup_by (\<lambda>s. chain_key (sc_chain s)) {}"

subsection \<open>The failure graph\<close>

record graph_state =
  gs_name :: string
  gs_emits :: "string list"
  gs_triggered_by :: "string list"

record graph_link =
  gl_to :: string
  gl_group :: bool
  gl_roots :: "string list"

record graph_component =
  gc_unresolved :: bool
  gc_observes :: "string list"
  gc_states :: "graph_state list"
  gc_dependents :: "graph_link list"

type_synonym failure_graph = "graph_component dict"

definition sorted_component_names :: "model \<Rightarrow> string list" where
  "sorted_component_names m = sort (keys (m_components m))"

text \<open>\<open>inverseDeps\<close>: the sorted names of the components that depend on one.\<close>

definition inverse_deps :: "model \<Rightarrow> string \<Rightarrow> string list" where
  "inverse_deps m on = sort (remdups (map fst (filter (\<lambda>(name, c). on \<in> set (targets_of c)) (m_components m))))"

definition set_of :: "(string \<rightharpoonup> string set) \<Rightarrow> string \<Rightarrow> string set" where
  "set_of out name = (case out name of None \<Rightarrow> {} | Some S \<Rightarrow> S)"

definition component_targets :: "model \<Rightarrow> string \<Rightarrow> string list" where
  "component_targets m name = (case component_of m name of None \<Rightarrow> [] | Some c \<Rightarrow> targets_of c)"

text \<open>
  The closure \<open>visit\<close> of \<open>dependencyClosure\<close>. Its \<open>set\<close> is the map's own entry for the name, which
  a visit that comes back to the name reads half filled.
\<close>

function closure_visit :: "model \<Rightarrow> (string \<rightharpoonup> string set) \<Rightarrow> string \<Rightarrow> (string \<rightharpoonup> string set)"
  and closure_targets :: "model \<Rightarrow> (string \<rightharpoonup> string set) \<Rightarrow> string \<Rightarrow> string list \<Rightarrow> (string \<rightharpoonup> string set)" where
  "closure_visit m out name =
     (if out name \<noteq> None then out
      else closure_targets m (out(name \<mapsto> {})) name (component_targets m name))"
| "closure_targets m out name [] = out"
| "closure_targets m out name (on # ons) =
     (let out2 = closure_visit m (out(name \<mapsto> insert on (set_of out name))) on
      in closure_targets m (out2(name \<mapsto> set_of out2 name \<union> set_of out2 on)) name ons)"
  by pat_completeness auto

lemma component_targets_subset: "set (component_targets m name) \<subseteq> all_targets m"
  using next_of_subset [of m "\<lambda>_ _. True" name]
  by (auto simp: component_targets_def next_of_def targets_of_def split: option.splits)

lemma closure_dom:
  "closure_visit_closure_targets_dom (Inl (m, out, name)) \<Longrightarrow> insert name (dom out) \<subseteq> dom (closure_visit m out name)"
  "closure_visit_closure_targets_dom (Inr (m, out, name, ons)) \<Longrightarrow> dom out \<subseteq> dom (closure_targets m out name ons)"
proof (induction m out name and m out name ons rule: closure_visit_closure_targets.pinduct)
  case (1 m out name)
  show ?case
  proof (cases "out name")
    case None
    have "insert name (dom out) = dom (out(name \<mapsto> {}))" by simp
    also have "\<dots> \<subseteq> dom (closure_targets m (out(name \<mapsto> {})) name (component_targets m name))"
      by (rule 1(2)) (simp add: None)
    finally show ?thesis using None 1(1) by (simp only: closure_visit.psimps simp_thms if_False)
  next
    case (Some S)
    with 1(1) show ?thesis by (auto simp: closure_visit.psimps)
  qed
next
  case (2 m out name)
  then show ?case by (simp add: closure_targets.psimps)
next
  case (3 m out name on ons)
  let ?out1 = "out(name \<mapsto> insert on (set_of out name))"
  let ?out2 = "closure_visit m ?out1 on"
  have "dom out \<subseteq> dom ?out1" by auto
  also have "\<dots> \<subseteq> dom ?out2" using 3(2) by blast
  also have "\<dots> \<subseteq> dom (?out2(name \<mapsto> set_of ?out2 name \<union> set_of ?out2 on))" by auto
  also have "\<dots> \<subseteq> dom (closure_targets m (?out2(name \<mapsto> set_of ?out2 name \<union> set_of ?out2 on)) name ons)"
    by (rule 3(3) [OF refl])
  finally show ?case using 3(1) by (simp only: closure_targets.psimps Let_def)
qed

termination closure_visit
proof (relation "measures
    [\<lambda>s. case s of Inl (m, out, name) \<Rightarrow> card (all_targets m - insert name (dom out))
       | Inr (m, out, name, ons) \<Rightarrow> card ((all_targets m \<union> set ons) - insert name (dom out)),
     \<lambda>s. case s of Inl (m, out, name) \<Rightarrow> if out name \<noteq> None then 0 else Suc (length (component_targets m name))
       | Inr (m, out, name, ons) \<Rightarrow> length ons]", goal_cases)
  case 1
  then show ?case by simp
next
  case (2 m out name)
  have "all_targets m \<union> set (component_targets m name) = all_targets m"
    using component_targets_subset by blast
  with 2 show ?case by simp
next
  case (3 m out name on ons)
  let ?T = "(all_targets m \<union> set (on # ons)) - insert name (dom out)"
  have sub: "all_targets m - insert on (dom (out(name \<mapsto> insert on (set_of out name)))) \<subseteq> ?T" by auto
  show ?case
  proof (cases "on = name \<or> out on \<noteq> None")
    case True
    have "card (all_targets m - insert on (dom (out(name \<mapsto> insert on (set_of out name))))) \<le> card ?T"
      using sub by (intro card_mono) auto
    with True show ?thesis by auto
  next
    case False
    then have "on \<in> ?T" by auto
    with sub have "all_targets m - insert on (dom (out(name \<mapsto> insert on (set_of out name)))) \<subset> ?T" by blast
    then have "card (all_targets m - insert on (dom (out(name \<mapsto> insert on (set_of out name))))) < card ?T"
      by (intro psubset_card_mono) auto
    then show ?thesis by simp
  qed
next
  case (4 m out name on ons out2)
  have "insert on (dom (out(name \<mapsto> insert on (set_of out name)))) \<subseteq> dom out2"
    unfolding 4(1) by (rule closure_dom(1) [OF 4(2)])
  then have "dom out \<subseteq> dom out2" by auto
  then have "card ((all_targets m \<union> set ons) - insert name (dom (out2(name \<mapsto> set_of out2 name \<union> set_of out2 on))))
      \<le> card ((all_targets m \<union> set (on # ons)) - insert name (dom out))"
    by (intro card_mono) auto
  then show ?case by (simp add: le_eq_less_or_eq)
qed

declare closure_visit.simps [simp del]

definition dependency_closure :: "model \<Rightarrow> (string \<rightharpoonup> string set)" where
  "dependency_closure m = foldl (closure_visit m) Map.empty (keys (m_components m))"

text \<open>\<open>propagates\<close>: the loop over the parent's dependencies on the child.\<close>

fun propagates_loop :: "(string \<rightharpoonup> string set) \<Rightarrow> string \<Rightarrow> string \<Rightarrow> dependency list \<Rightarrow> bool" where
  "propagates_loop reach root child [] = False"
| "propagates_loop reach root child (dep # deps) =
     (if child \<notin> set (dp_on dep) then propagates_loop reach root child deps
      else if dp_need dep \<le> 0 then True
      else if int (length (filter (\<lambda>member. member = root \<or> root \<in> set_of reach member) (dp_on dep)))
                > int (length (dp_on dep)) - dp_need dep then True
      else propagates_loop reach root child deps)"

definition propagates :: "model \<Rightarrow> (string \<rightharpoonup> string set) \<Rightarrow> string \<Rightarrow> string \<Rightarrow> string \<Rightarrow> bool" where
  "propagates m reach root parent child =
     (case component_of m parent of None \<Rightarrow> True | Some c \<Rightarrow> propagates_loop reach root child (c_depends c))"

definition build_link :: "model \<Rightarrow> (string \<rightharpoonup> string set) \<Rightarrow> string list \<Rightarrow> string \<Rightarrow> string \<Rightarrow> graph_link" where
  "build_link m reach roots parent child =
     (let carried = filter (\<lambda>root. propagates m reach root parent child) roots
      in if \<forall>root\<in>set roots. propagates m reach root parent child
         then \<lparr>gl_to = parent, gl_group = False, gl_roots = []\<rparr>
         else \<lparr>gl_to = parent, gl_group = True, gl_roots = carried\<rparr>)"

definition fact_names :: "ptype \<Rightarrow> string list" where
  "fact_names t = sort (keys (ty_facts t))"

definition failure_states :: "ptype \<Rightarrow> graph_state list" where
  "failure_states t =
     map (\<lambda>st. \<lparr>gs_name = sd_name st, gs_emits = failure_labels t (sd_name st), gs_triggered_by = sd_triggered_by st\<rparr>)
       (filter (\<lambda>st. \<not> (sd_name st = ty_default t \<or> sd_verdict st = VerdictHealthy)) (ty_states t))"

definition graph_entry_of ::
    "model \<Rightarrow> registry \<Rightarrow> (string \<rightharpoonup> string set) \<Rightarrow> string list \<Rightarrow> string \<Rightarrow> component \<Rightarrow> graph_component" where
  "graph_entry_of m r reach roots name c =
     (let links = map (\<lambda>parent. build_link m reach roots parent name) (inverse_deps m name)
      in case resolve_type c m r of
           Inl _ \<Rightarrow> \<lparr>gc_unresolved = True, gc_observes = [], gc_states = [], gc_dependents = links\<rparr>
         | Inr (t, _) \<Rightarrow> \<lparr>gc_unresolved = False, gc_observes = fact_names t, gc_states = failure_states t,
                          gc_dependents = links\<rparr>)"

text \<open>\<open>BuildGraph\<close> of scenarios; every sorted name has a component.\<close>

definition build_failure_graph :: "model \<Rightarrow> registry \<Rightarrow> failure_graph" where
  "build_failure_graph m r =
     (let reach = dependency_closure m; roots = sorted_component_names m
      in List.map_filter (\<lambda>name. map_option (\<lambda>c. (name, graph_entry_of m r reach roots name c)) (component_of m name)) roots)"

subsection \<open>Expansion\<close>

text \<open>\<open>matchEdgeLabel\<close>: the first emitted label the state accepts; no \<open>triggered_by\<close> accepts any.\<close>

definition match_edge_label :: "string list \<Rightarrow> string list \<Rightarrow> string" where
  "match_edge_label emits triggered =
     (if triggered = [] then (case emits of [] \<Rightarrow> [] | e # _ \<Rightarrow> e)
      else (case List.find (\<lambda>e. e \<in> set triggered) emits of None \<Rightarrow> [] | Some e \<Rightarrow> e))"

definition carried_to :: "string \<Rightarrow> graph_component \<Rightarrow> string list" where
  "carried_to root gc =
     map gl_to (filter (\<lambda>l. \<not> gl_group l \<or> root \<in> set (gl_roots l)) (gc_dependents gc))"

definition head_step :: "string \<Rightarrow> graph_state \<Rightarrow> string \<Rightarrow> step" where
  "head_step name st label = \<lparr>sp_component = name, sp_state = gs_name st, sp_emits = label, sp_observes = []\<rparr>"

definition last_step :: "string \<Rightarrow> graph_state \<Rightarrow> string list \<Rightarrow> step" where
  "last_step name st obs = \<lparr>sp_component = name, sp_state = gs_name st, sp_emits = [], sp_observes = obs\<rparr>"

text \<open>
  The body of \<open>chainsThrough\<close> for one failure state of the dependent \<open>d\<close>: the longer chains, then
  the chain that stops at \<open>d\<close>.
\<close>

definition through_state ::
    "string \<Rightarrow> graph_state \<Rightarrow> string \<Rightarrow> graph_component \<Rightarrow> graph_state \<Rightarrow> step list list \<Rightarrow> step list list" where
  "through_state name st d gd ds suffixes =
     (let label = match_edge_label (gs_emits st) (gs_triggered_by ds)
      in if label = [] then []
         else map (\<lambda>suffix. head_step name st label # suffix) suffixes @
              (if gc_observes gd = [] then []
               else [[head_step name st label, last_step d ds (gc_observes gd)]]))"

text \<open>
  \<open>extendChain\<close>. \<open>visited\<close> is restored on return, so it is passed down by value.
\<close>

function extend_chain :: "failure_graph \<Rightarrow> string \<Rightarrow> string \<Rightarrow> graph_state \<Rightarrow> string set \<Rightarrow> step list list" where
  "extend_chain g root name st visited =
     (if name \<in> visited then []
      else (case map_of g name of
              None \<Rightarrow> []
            | Some gc \<Rightarrow>
                if gc_unresolved gc then []
                else if carried_to root gc = [] then
                  (if gc_observes gc = [] then [] else [[last_step name st (gc_observes gc)]])
                else concat (map (\<lambda>d.
                  case map_of g d of
                    None \<Rightarrow> []
                  | Some gd \<Rightarrow>
                      if gc_unresolved gd then []
                      else concat (map (\<lambda>ds.
                        through_state name st d gd ds (extend_chain g root d ds (insert name visited)))
                        (gc_states gd)))
                  (carried_to root gc))))"
  by pat_completeness auto

termination extend_chain
proof (relation "measure (\<lambda>(g, root, name, st, visited). card (dom (map_of g) - visited))", goal_cases)
  case (2 g root name st visited gc d gd ds)
  then have "dom (map_of g) - insert name visited \<subset> dom (map_of g) - visited" by auto
  then have "card (dom (map_of g) - insert name visited) < card (dom (map_of g) - visited)"
    by (intro psubset_card_mono) (auto simp: finite_dom_map_of)
  then show ?case by simp
qed simp

declare extend_chain.simps [simp del]

definition root_chains :: "failure_graph \<Rightarrow> string \<Rightarrow> graph_component \<Rightarrow> graph_state \<Rightarrow> step list list" where
  "root_chains g name gc st =
     (let chains = extend_chain g name name st {}
      in if chains = [] \<and> gc_observes gc \<noteq> [] then [[last_step name st (gc_observes gc)]] else chains)"

definition component_chains :: "failure_graph \<Rightarrow> string \<Rightarrow> scenario list" where
  "component_chains g name =
     (case map_of g name of
        None \<Rightarrow> []
      | Some gc \<Rightarrow>
          if gc_unresolved gc then []
          else concat (map (\<lambda>st.
            map (\<lambda>chain. \<lparr>sc_id = [], sc_root = \<lparr>rr_component = name, rr_state = gs_name st\<rparr>, sc_chain = chain\<rparr>)
              (root_chains g name gc st)) (gc_states gc)))"

definition all_chains :: "failure_graph \<Rightarrow> scenario list" where
  "all_chains g = concat (map (component_chains g) (sort (keys g)))"

definition expand :: "failure_graph \<Rightarrow> scenario list" where
  "expand g = assign_ids Map.empty (sort_scenarios (drop_duplicate_chains (all_chains g)))"

definition enumerate_scenarios :: "model \<Rightarrow> registry \<Rightarrow> scenario list" where
  "enumerate_scenarios m r = expand (build_failure_graph m r)"

subsection \<open>Representatives\<close>

definition terminal :: "scenario \<Rightarrow> string" where
  "terminal s = (if sc_chain s = [] then rr_component (sc_root s) else sp_component (last (sc_chain s)))"

record representative =
  rp_scenario :: scenario
  rp_count :: nat

definition class_of :: "scenario \<Rightarrow> string \<times> string \<times> string" where
  "class_of s = (rr_component (sc_root s), rr_state (sc_root s), terminal s)"

text \<open>One scenario joins its class, or opens a new one at the end.\<close>

fun add_to_class :: "representative list \<Rightarrow> scenario \<Rightarrow> representative list" where
  "add_to_class [] s = [\<lparr>rp_scenario = s, rp_count = 1\<rparr>]"
| "add_to_class (rp # rps) s =
     (if class_of (rp_scenario rp) = class_of s
      then \<lparr>rp_scenario = (if length (sc_chain s) < length (sc_chain (rp_scenario rp)) then s else rp_scenario rp),
            rp_count = rp_count rp + 1\<rparr> # rps
      else rp # add_to_class rps s)"

definition representatives :: "scenario list \<Rightarrow> representative list" where
  "representatives scs = foldl add_to_class [] scs"

subsection \<open>Which chains are listed\<close>

text \<open>The failure of \<open>name\<close> in \<open>st\<close> goes on to a state of a dependent that a label of it triggers.\<close>

definition passes_to :: "failure_graph \<Rightarrow> string \<Rightarrow> string \<Rightarrow> graph_state \<Rightarrow> string \<Rightarrow> graph_state \<Rightarrow> string \<Rightarrow> bool" where
  "passes_to g root name st d ds label \<longleftrightarrow>
     (\<exists>gc gd. map_of g name = Some gc \<and> \<not> gc_unresolved gc \<and> d \<in> set (carried_to root gc) \<and>
        map_of g d = Some gd \<and> \<not> gc_unresolved gd \<and> ds \<in> set (gc_states gd) \<and>
        label = match_edge_label (gs_emits st) (gs_triggered_by ds) \<and> label \<noteq> [])"

definition observed_facts :: "failure_graph \<Rightarrow> string \<Rightarrow> string list" where
  "observed_facts g name = (case map_of g name of None \<Rightarrow> [] | Some gc \<Rightarrow> gc_observes gc)"

definition carried_nowhere :: "failure_graph \<Rightarrow> string \<Rightarrow> string \<Rightarrow> bool" where
  "carried_nowhere g root name \<longleftrightarrow>
     (\<exists>gc. map_of g name = Some gc \<and> \<not> gc_unresolved gc \<and> carried_to root gc = [])"

text \<open>
  A failure chain from a component in a state: it stops where nothing depends on the component, or
  at a dependent it breaks, or goes on through the dependent; where it ends there is something to
  observe, and it never passes through a component twice.
\<close>

inductive failure_chain ::
    "failure_graph \<Rightarrow> string \<Rightarrow> string set \<Rightarrow> string \<Rightarrow> graph_state \<Rightarrow> step list \<Rightarrow> bool"
  for g :: failure_graph and root :: string where
  alone: "name \<notin> visited \<Longrightarrow> carried_nowhere g root name \<Longrightarrow> observed_facts g name \<noteq> [] \<Longrightarrow>
    failure_chain g root visited name st [last_step name st (observed_facts g name)]"
| stops: "name \<notin> visited \<Longrightarrow> passes_to g root name st d ds label \<Longrightarrow> observed_facts g d \<noteq> [] \<Longrightarrow>
    failure_chain g root visited name st [head_step name st label, last_step d ds (observed_facts g d)]"
| goes_on: "name \<notin> visited \<Longrightarrow> passes_to g root name st d ds label \<Longrightarrow>
    failure_chain g root (insert name visited) d ds suffix \<Longrightarrow>
    failure_chain g root visited name st (head_step name st label # suffix)"

inductive_cases failure_chain_ConsE: "failure_chain g root visited name st (s # ss)"

inductive_simps failure_chain_Nil [simp]: "failure_chain g root visited name st []"

lemma extend_chain_sound:
  "chain \<in> set (extend_chain g root name st visited) \<Longrightarrow> failure_chain g root visited name st chain"
proof (induction g root name st visited arbitrary: chain rule: extend_chain.induct)
  case (1 g root name st visited)
  from 1(2) obtain gc where fresh: "name \<notin> visited" and gc: "map_of g name = Some gc" "\<not> gc_unresolved gc"
    by (cases "map_of g name") (auto simp: extend_chain.simps [of g root name] split: if_splits)
  show ?case
  proof (cases "carried_to root gc = []")
    case True
    with 1(2) fresh gc failure_chain.alone [of name visited g root st] show ?thesis
      by (simp add: extend_chain.simps [of g root name] carried_nowhere_def observed_facts_def split: if_splits)
  next
    case False
    from 1(2) fresh gc False obtain d where d: "d \<in> set (carried_to root gc)" and in_d: "chain \<in> set
        (case map_of g d of None \<Rightarrow> [] | Some gd \<Rightarrow> if gc_unresolved gd then [] else concat (map (\<lambda>ds.
           through_state name st d gd ds (extend_chain g root d ds (insert name visited))) (gc_states gd)))"
      by (auto simp: extend_chain.simps [of g root name])
    then obtain gd where gd: "map_of g d = Some gd" "\<not> gc_unresolved gd"
      by (cases "map_of g d") (auto split: if_splits)
    with in_d obtain ds where ds: "ds \<in> set (gc_states gd)"
        "chain \<in> set (through_state name st d gd ds (extend_chain g root d ds (insert name visited)))" by auto
    let ?label = "match_edge_label (gs_emits st) (gs_triggered_by ds)"
    have label: "?label \<noteq> []" and
      chain: "(\<exists>suffix\<in>set (extend_chain g root d ds (insert name visited)). chain = head_step name st ?label # suffix) \<or>
        (gc_observes gd \<noteq> [] \<and> chain = [head_step name st ?label, last_step d ds (gc_observes gd)])"
      using ds(2) by (auto simp: through_state_def Let_def split: if_splits)
    have pass: "passes_to g root name st d ds ?label" using gc gd d ds(1) label by (auto simp: passes_to_def)
    from chain show ?thesis
    proof
      assume "\<exists>suffix\<in>set (extend_chain g root d ds (insert name visited)). chain = head_step name st ?label # suffix"
      then obtain suffix where suffix: "suffix \<in> set (extend_chain g root d ds (insert name visited))"
          "chain = head_step name st ?label # suffix" by auto
      from 1(1) [OF fresh gc False d gd ds(1) suffix(1)] fresh pass suffix(2) show ?thesis
        by (auto intro: failure_chain.goes_on)
    next
      assume "gc_observes gd \<noteq> [] \<and> chain = [head_step name st ?label, last_step d ds (gc_observes gd)]"
      with fresh pass gd failure_chain.stops [of name visited g root st d ds ?label] show ?thesis
        by (simp add: observed_facts_def)
    qed
  qed
qed

lemma passes_toE:
  assumes "passes_to g root name st d ds label"
  obtains gc gd where "map_of g name = Some gc" "\<not> gc_unresolved gc" "d \<in> set (carried_to root gc)"
    "map_of g d = Some gd" "\<not> gc_unresolved gd" "ds \<in> set (gc_states gd)"
    "label = match_edge_label (gs_emits st) (gs_triggered_by ds)" "label \<noteq> []"
  using assms unfolding passes_to_def by blast

text \<open>One dependent state's contribution to the chains of a state.\<close>

lemma extend_chain_through:
  assumes "name \<notin> visited" and pass: "passes_to g root name st d ds label"
    and chain: "(\<exists>suffix\<in>set (extend_chain g root d ds (insert name visited)). chain = head_step name st label # suffix) \<or>
       (observed_facts g d \<noteq> [] \<and> chain = [head_step name st label, last_step d ds (observed_facts g d)])"
  shows "chain \<in> set (extend_chain g root name st visited)"
proof -
  from pass obtain gc gd where gc: "map_of g name = Some gc" "\<not> gc_unresolved gc" "d \<in> set (carried_to root gc)"
      and gd: "map_of g d = Some gd" "\<not> gc_unresolved gd" "ds \<in> set (gc_states gd)"
      and l: "label = match_edge_label (gs_emits st) (gs_triggered_by ds)" "label \<noteq> []"
    by (elim passes_toE)
  have ne: "carried_to root gc \<noteq> []" using gc(3) by auto
  have "chain \<in> set (through_state name st d gd ds (extend_chain g root d ds (insert name visited)))"
    using chain gd(1) l by (auto simp: through_state_def Let_def observed_facts_def)
  then have "chain \<in> set (concat (map (\<lambda>ds.
      through_state name st d gd ds (extend_chain g root d ds (insert name visited))) (gc_states gd)))"
    using gd(3) by auto
  then have "chain \<in> set (case map_of g d of None \<Rightarrow> [] | Some gd \<Rightarrow> if gc_unresolved gd then [] else concat (map (\<lambda>ds.
      through_state name st d gd ds (extend_chain g root d ds (insert name visited))) (gc_states gd)))"
    by (simp add: gd(1,2))
  then show ?thesis
    unfolding extend_chain.simps [of g root name st visited] using gc(3)
    by (simp only: assms(1) gc(1,2) ne option.case if_False set_concat set_map) blast
qed

lemma extend_chain_complete:
  "failure_chain g root visited name st chain \<Longrightarrow> chain \<in> set (extend_chain g root name st visited)"
proof (induction rule: failure_chain.induct)
  case (alone name visited st)
  then show ?case by (auto simp: extend_chain.simps [of g root name] carried_nowhere_def observed_facts_def)
qed (auto intro: extend_chain_through)

text \<open>
  The walk lists exactly the failure chains of the graph.
\<close>

theorem extend_chain_iff:
  "chain \<in> set (extend_chain g root name st visited) \<longleftrightarrow> failure_chain g root visited name st chain"
  using extend_chain_sound extend_chain_complete by blast

lemma root_chains_iff:
  "map_of g name = Some gc \<Longrightarrow>
   chain \<in> set (root_chains g name gc st) \<longleftrightarrow>
     failure_chain g name {} name st chain \<or>
     ((\<forall>c. \<not> failure_chain g name {} name st c) \<and> gc_observes gc \<noteq> [] \<and> chain = [last_step name st (gc_observes gc)])"
proof -
  have "extend_chain g name name st {} = [] \<longleftrightarrow> (\<forall>c. \<not> failure_chain g name {} name st c)"
    by (auto simp flip: extend_chain_iff)
  then show ?thesis by (auto simp: root_chains_def Let_def extend_chain_iff)
qed

text \<open>
  The chains the scenario set stands for: from each failure state of a resolved component, every
  failure chain, and the component alone when it starts none.
\<close>

definition listed :: "failure_graph \<Rightarrow> root_ref \<Rightarrow> step list \<Rightarrow> bool" where
  "listed g R chain \<longleftrightarrow>
     (\<exists>gc st. map_of g (rr_component R) = Some gc \<and> \<not> gc_unresolved gc \<and> st \<in> set (gc_states gc) \<and>
        gs_name st = rr_state R \<and>
        (failure_chain g (rr_component R) {} (rr_component R) st chain \<or>
         ((\<forall>c. \<not> failure_chain g (rr_component R) {} (rr_component R) st c) \<and> gc_observes gc \<noteq> [] \<and>
          chain = [last_step (rr_component R) st (gc_observes gc)])))"

lemma all_chains_listed:
  "(\<lambda>s. (sc_root s, sc_chain s)) ` set (all_chains g) = {(R, c). listed g R c}"
proof (intro set_eqI iffI)
  fix p assume "p \<in> (\<lambda>s. (sc_root s, sc_chain s)) ` set (all_chains g)"
  then obtain s where s: "s \<in> set (all_chains g)" "p = (sc_root s, sc_chain s)" by auto
  then obtain name where "s \<in> set (component_chains g name)" by (auto simp: all_chains_def)
  then obtain gc st chain where gc: "map_of g name = Some gc" "\<not> gc_unresolved gc" "st \<in> set (gc_states gc)"
      "chain \<in> set (root_chains g name gc st)"
      "s = \<lparr>sc_id = [], sc_root = \<lparr>rr_component = name, rr_state = gs_name st\<rparr>, sc_chain = chain\<rparr>"
    by (cases "map_of g name") (auto simp: component_chains_def split: if_splits)
  from gc(4) have "listed g (sc_root s) chain"
    unfolding root_chains_iff [OF gc(1)] listed_def using gc(1-3,5) by auto
  with s(2) gc(5) show "p \<in> {(R, c). listed g R c}" by auto
next
  fix p assume "p \<in> {(R, c). listed g R c}"
  then obtain R c where p: "p = (R, c)" "listed g R c" by auto
  then obtain gc st where gc: "map_of g (rr_component R) = Some gc" "\<not> gc_unresolved gc" "st \<in> set (gc_states gc)"
      "gs_name st = rr_state R" "c \<in> set (root_chains g (rr_component R) gc st)"
    unfolding listed_def by (auto simp: root_chains_iff)
  have "\<lparr>sc_id = [], sc_root = \<lparr>rr_component = rr_component R, rr_state = gs_name st\<rparr>, sc_chain = c\<rparr>
      \<in> set (component_chains g (rr_component R))"
    unfolding component_chains_def using gc(3,5) by (simp only: gc(1,2) option.case if_False) auto
  then have "\<lparr>sc_id = [], sc_root = \<lparr>rr_component = rr_component R, rr_state = gs_name st\<rparr>, sc_chain = c\<rparr> \<in> set (all_chains g)"
    using map_of_in_keys [OF gc(1)] by (auto simp: all_chains_def)
  moreover have "\<lparr>rr_component = rr_component R, rr_state = gs_name st\<rparr> = R" using gc(4) by (cases R) simp
  ultimately have "\<lparr>sc_id = [], sc_root = R, sc_chain = c\<rparr> \<in> set (all_chains g)" by simp
  then show "p \<in> (\<lambda>s. (sc_root s, sc_chain s)) ` set (all_chains g)"
    using p(1) by (intro image_eqI [where x = "\<lparr>sc_id = [], sc_root = R, sc_chain = c\<rparr>"]) simp_all
qed

subsection \<open>The listing's order and identifiers\<close>

text \<open>The \<open>n\<close>th use of a base identifier.\<close>

definition tagged :: "string \<Rightarrow> nat \<Rightarrow> string" where
  "tagged i n = (if n \<le> 1 then i else i @ ''-'' @ itoa (int n))"

lemma length_id_of: "length (id_of chain) = 14"
  by (simp add: id_of_def)

lemma itoa_nat_inject: "itoa (int m) = itoa (int n) \<longleftrightarrow> m = n"
  by (metis dec_value_nat_to_dec itoa_def nat_int of_nat_less_0_iff)

lemma tagged_inject:
  assumes "length i = length j" and "tagged i m = tagged j n" and "0 < m" and "0 < n"
  shows "i = j \<and> m = n"
proof -
  have "take (length i) (tagged i m) = i" "take (length j) (tagged j n) = j" by (simp_all add: tagged_def)
  with assms(1,2) have ij: "i = j" by metis
  with assms show ?thesis by (auto simp: tagged_def itoa_nat_inject split: if_splits)
qed

definition used :: "(string \<rightharpoonup> nat) \<Rightarrow> string \<Rightarrow> nat" where
  "used seen i = (case seen i of None \<Rightarrow> 0 | Some n \<Rightarrow> n)"

lemma used_upd [simp]: "used (seen(i \<mapsto> n)) j = (if j = i then n else used seen j)"
  by (simp add: used_def)

lemma assign_ids_Cons:
  "assign_ids seen (s # ss) =
     s\<lparr>sc_id := tagged (id_of (sc_chain s)) (Suc (used seen (id_of (sc_chain s))))\<rparr> #
     assign_ids (seen(id_of (sc_chain s) \<mapsto> Suc (used seen (id_of (sc_chain s))))) ss"
  by (auto simp: Let_def tagged_def used_def split: option.splits)

declare assign_ids.simps(2) [simp del]

lemma assign_ids_pairs:
  "map (\<lambda>s. (sc_root s, sc_chain s)) (assign_ids seen ss) = map (\<lambda>s. (sc_root s, sc_chain s)) ss"
  by (induction ss arbitrary: seen) (simp_all add: assign_ids_Cons)

lemma assign_ids_fresh:
  "x \<in> set (assign_ids seen ss) \<Longrightarrow>
   \<exists>i n. length i = 14 \<and> used seen i < n \<and> sc_id x = tagged i n"
proof (induction ss arbitrary: seen)
  case (Cons s ss)
  let ?i = "id_of (sc_chain s)"
  from Cons(2) consider "x = s\<lparr>sc_id := tagged ?i (Suc (used seen ?i))\<rparr>"
    | "x \<in> set (assign_ids (seen(?i \<mapsto> Suc (used seen ?i))) ss)"
    unfolding assign_ids_Cons by auto
  then show ?case
  proof cases
    case 1
    then show ?thesis by (intro exI [of _ ?i] exI [of _ "Suc (used seen ?i)"]) (simp add: length_id_of)
  next
    case 2
    from Cons(1) [OF 2] obtain j n where "length j = 14" "used (seen(?i \<mapsto> Suc (used seen ?i))) j < n"
        "sc_id x = tagged j n" by blast
    then show ?thesis by (intro exI [of _ j] exI [of _ n]) (auto split: if_splits)
  qed
qed simp

lemma assign_ids_distinct: "distinct (map sc_id (assign_ids seen ss))"
proof (induction ss arbitrary: seen)
  case (Cons s ss)
  let ?i = "id_of (sc_chain s)"
  let ?rest = "assign_ids (seen(?i \<mapsto> Suc (used seen ?i))) ss"
  have "tagged ?i (Suc (used seen ?i)) \<noteq> sc_id x" if "x \<in> set ?rest" for x
  proof
    assume eq: "tagged ?i (Suc (used seen ?i)) = sc_id x"
    from assign_ids_fresh [OF that] obtain j n where j: "length j = 14"
        "used (seen(?i \<mapsto> Suc (used seen ?i))) j < n" "sc_id x = tagged j n" by auto
    have "?i = j \<and> Suc (used seen ?i) = n"
      by (rule tagged_inject) (use eq j in \<open>simp_all add: length_id_of\<close>)
    with j(2) show False by auto
  qed
  then show ?case using Cons unfolding assign_ids_Cons by auto
qed simp

lemma strict_weak_scenario_less: "strict_weak scenario_less"
proof -
  have "scenario_less = (\<lambda>a b. if scenario_length a \<noteq> scenario_length b then scenario_length a < scenario_length b
      else if rr_component (sc_root a) \<noteq> rr_component (sc_root b) then rr_component (sc_root a) < rr_component (sc_root b)
      else if rr_state (sc_root a) \<noteq> rr_state (sc_root b) then rr_state (sc_root a) < rr_state (sc_root b)
      else chain_key (sc_chain a) < chain_key (sc_chain b))"
    by (auto simp: fun_eq_iff scenario_less_def)
  then show ?thesis by (rule ssubst) (intro strict_weak_lex strict_weak_key)
qed

lemma scenario_less_total:
  "\<not> scenario_less b a \<Longrightarrow> chain_key (sc_chain a) \<noteq> chain_key (sc_chain b) \<Longrightarrow> scenario_less a b"
  by (auto simp: scenario_less_def split: if_splits)

lemma scenario_less_cong:
  "sc_root a = sc_root a' \<Longrightarrow> sc_chain a = sc_chain a' \<Longrightarrow> sc_root b = sc_root b' \<Longrightarrow> sc_chain b = sc_chain b' \<Longrightarrow>
   scenario_less a b = scenario_less a' b'"
  by (simp add: scenario_less_def scenario_length_def)

text \<open>
  C4: Expansion lists only failure chains of the graph, and every failure chain up to the steps that
  identify it.
\<close>

theorem expand_listed:
  "(\<lambda>s. (sc_root s, sc_chain s)) ` set (expand g) \<subseteq> {(R, c). listed g R c} \<and>
   (\<lambda>s. chain_key (sc_chain s)) ` set (expand g) = chain_key ` {c. \<exists>R. listed g R c}"
proof -
  let ?pair = "\<lambda>s. (sc_root s, sc_chain s)" and ?key = "\<lambda>p. chain_key (snd p)"
  let ?kept = "drop_duplicate_chains (all_chains g)"
  have "set (map ?pair (expand g)) = set (map ?pair (sort_scenarios ?kept))"
    by (simp only: expand_def assign_ids_pairs)
  then have pairs: "?pair ` set (expand g) = ?pair ` set ?kept" by (simp add: sort_scenarios_def)
  have "(\<lambda>s. chain_key (sc_chain s)) ` set ?kept = (\<lambda>s. chain_key (sc_chain s)) ` set (all_chains g)"
    by (simp add: drop_duplicate_chains_def dedup_by_keys)
  also have "\<dots> = ?key ` ?pair ` set (all_chains g)" by (simp add: image_image)
  also have "\<dots> = chain_key ` {c. \<exists>R. listed g R c}" unfolding all_chains_listed by (fastforce simp: image_iff)
  finally have "?key ` ?pair ` set ?kept = chain_key ` {c. \<exists>R. listed g R c}" by (simp add: image_image)
  then have "(\<lambda>s. chain_key (sc_chain s)) ` set (expand g) = chain_key ` {c. \<exists>R. listed g R c}"
    unfolding pairs [symmetric] by (simp add: image_image)
  moreover have "?pair ` set ?kept \<subseteq> ?pair ` set (all_chains g)"
    using set_dedup_by_subset unfolding drop_duplicate_chains_def by (intro image_mono)
  ultimately show ?thesis unfolding pairs all_chains_listed by blast
qed

lemma expand_ordered_lemma:
  "sorted_wrt scenario_less (expand g) \<and> distinct (map (\<lambda>s. chain_key (sc_chain s)) (expand g)) \<and>
   distinct (map sc_id (expand g))"
proof (intro conjI)
  let ?ss = "sort_scenarios (drop_duplicate_chains (all_chains g))"
  have len: "length (expand g) = length ?ss"
  proof -
    have "length (map (\<lambda>s. (sc_root s, sc_chain s)) (expand g)) = length (map (\<lambda>s. (sc_root s, sc_chain s)) ?ss)"
      by (simp only: expand_def assign_ids_pairs)
    then show ?thesis by simp
  qed
  have same: "sc_root (expand g ! i) = sc_root (?ss ! i) \<and> sc_chain (expand g ! i) = sc_chain (?ss ! i)"
    if "i < length ?ss" for i
  proof -
    have "map (\<lambda>s. (sc_root s, sc_chain s)) (expand g) ! i = map (\<lambda>s. (sc_root s, sc_chain s)) ?ss ! i"
      by (simp only: expand_def assign_ids_pairs)
    with that len show ?thesis by (simp only: nth_map prod.inject)
  qed
  have keys: "distinct (map (\<lambda>s. chain_key (sc_chain s)) ?ss)"
    using distinct_dedup_by [of "\<lambda>s. chain_key (sc_chain s)" "{}" "all_chains g"]
    by (simp add: sort_scenarios_def drop_duplicate_chains_def)
  have weak: "sorted_wrt (\<lambda>a b. \<not> scenario_less b a) ?ss"
    unfolding sort_scenarios_def by (rule sorted_sort_by [OF strict_weak_scenario_less])
  show "sorted_wrt scenario_less (expand g)"
    unfolding sorted_wrt_iff_nth_less
  proof (intro allI impI)
    fix i j assume ij: "i < j" "j < length (expand g)"
    have "\<not> scenario_less (?ss ! j) (?ss ! i)" using weak ij len by (auto simp: sorted_wrt_iff_nth_less)
    moreover have "chain_key (sc_chain (?ss ! i)) \<noteq> chain_key (sc_chain (?ss ! j))"
      using keys ij len by (auto simp: distinct_conv_nth)
    ultimately have "scenario_less (?ss ! i) (?ss ! j)" by (rule scenario_less_total)
    with same [of i] same [of j] ij len show "scenario_less (expand g ! i) (expand g ! j)"
      by (simp cong: scenario_less_cong)
  qed
  have "map (\<lambda>s. chain_key (sc_chain s)) (expand g) = map (\<lambda>s. chain_key (sc_chain s)) ?ss"
    using len same by (auto intro!: nth_equalityI)
  with keys show "distinct (map (\<lambda>s. chain_key (sc_chain s)) (expand g))" by simp
  show "distinct (map sc_id (expand g))" unfolding expand_def by (rule assign_ids_distinct)
qed

text \<open>
  C25: The scenario set comes out strictly in scenario order, so no two scenarios have the same
  steps, and under identifiers that are all different, even where digests collide.
\<close>

theorem expand_ordered:
  "sorted_wrt scenario_less (expand g) \<and> distinct (map (\<lambda>s. chain_key (sc_chain s)) (expand g)) \<and>
   distinct (map sc_id (expand g))"
  by (rule expand_ordered_lemma)

subsection \<open>Classes\<close>

definition rep_class :: "representative \<Rightarrow> string \<times> string \<times> string" where
  "rep_class rp = class_of (rp_scenario rp)"

lemma rep_class_simps [simp]: "rep_class \<lparr>rp_scenario = s, rp_count = n\<rparr> = class_of s"
  by (simp add: rep_class_def)

definition join_class :: "scenario \<Rightarrow> representative \<Rightarrow> representative" where
  "join_class s rp =
     \<lparr>rp_scenario = (if length (sc_chain s) < length (sc_chain (rp_scenario rp)) then s else rp_scenario rp),
      rp_count = rp_count rp + 1\<rparr>"

lemma add_to_class_eq:
  "distinct (map rep_class rps) \<Longrightarrow>
   add_to_class rps s =
     (if class_of s \<in> rep_class ` set rps
      then map (\<lambda>rp. if rep_class rp = class_of s then join_class s rp else rp) rps
      else rps @ [\<lparr>rp_scenario = s, rp_count = 1\<rparr>])"
proof (induction rps s rule: add_to_class.induct)
  case (2 rp rps s)
  have cons: "add_to_class (rp # rps) s = (if rep_class rp = class_of s then join_class s rp # rps else rp # add_to_class rps s)"
    by (simp add: rep_class_def join_class_def)
  show ?case
  proof (cases "rep_class rp = class_of s")
    case True
    then have "rep_class x \<noteq> class_of s" if "x \<in> set rps" for x using 2(2) that by force
    with True show ?thesis unfolding cons by (auto intro!: map_idI [symmetric])
  next
    case False
    with 2 show ?thesis unfolding cons by (auto simp: rep_class_def)
  qed
qed simp

definition represents :: "scenario list \<Rightarrow> representative \<Rightarrow> bool" where
  "represents scs rp \<longleftrightarrow>
     rp_scenario rp \<in> set scs \<and> rp_count rp = length (filter (\<lambda>s. class_of s = rep_class rp) scs) \<and>
     (\<forall>s\<in>set scs. class_of s = rep_class rp \<longrightarrow> length (sc_chain (rp_scenario rp)) \<le> length (sc_chain s))"

lemma rep_class_join [simp]: "rep_class rp = class_of s \<Longrightarrow> rep_class (join_class s rp) = class_of s"
  by (simp add: join_class_def rep_class_def)

lemma represents_step:
  assumes "represents scs rp"
  shows "represents (scs @ [s]) (if rep_class rp = class_of s then join_class s rp else rp)"
proof (cases "rep_class rp = class_of s")
  case True
  have "represents (scs @ [s]) (join_class s rp)"
    using assms True rep_class_join [OF True] unfolding represents_def
    by (auto simp: join_class_def)
  with True show ?thesis by simp
next
  case False
  with assms show ?thesis by (auto simp: represents_def)
qed

lemma representatives_inv:
  "distinct (map rep_class (representatives scs)) \<and> rep_class ` set (representatives scs) = class_of ` set scs \<and>
   (\<forall>rp\<in>set (representatives scs). represents scs rp)"
proof (induction scs rule: rev_induct)
  case Nil
  then show ?case by (simp add: representatives_def)
next
  case (snoc s scs)
  let ?rps = "representatives scs"
  have eq: "representatives (scs @ [s]) = add_to_class ?rps s" by (simp add: representatives_def)
  show ?case
  proof (cases "class_of s \<in> rep_class ` set ?rps")
    case True
    let ?f = "\<lambda>rp. if rep_class rp = class_of s then join_class s rp else rp"
    have f: "rep_class (?f rp) = rep_class rp" for rp by simp
    have reps: "representatives (scs @ [s]) = map ?f ?rps"
      using snoc True by (simp add: eq add_to_class_eq)
    have "map rep_class (map ?f ?rps) = map rep_class ?rps" by (simp add: f)
    moreover have "rep_class ` set (map ?f ?rps) = rep_class ` set ?rps"
      by (simp only: set_map image_image f)
    moreover have "\<forall>rp\<in>set (map ?f ?rps). represents (scs @ [s]) rp"
    proof
      fix x assume "x \<in> set (map ?f ?rps)"
      then obtain rp where "rp \<in> set ?rps" "x = ?f rp" by (auto simp only: set_map)
      with snoc represents_step [of scs rp s] show "represents (scs @ [s]) x" by (simp only:)
    qed
    moreover have "insert (class_of s) (class_of ` set scs) = class_of ` set scs"
      using snoc True by (intro insert_absorb) blast
    ultimately show ?thesis using snoc unfolding reps by (simp only: set_append set_simps image_Un image_insert
        image_empty Un_insert_right sup_bot_right)
  next
    case False
    have new: "represents (scs @ [s]) \<lparr>rp_scenario = s, rp_count = 1\<rparr>"
    proof -
      have "filter (\<lambda>x. class_of x = class_of s) scs = []"
        using False snoc by (auto simp: filter_empty_conv) (metis imageI)
      with False snoc show ?thesis by (auto simp: represents_def image_iff)
    qed
    have old: "represents (scs @ [s]) rp" if "rp \<in> set ?rps" for rp
    proof -
      have "rep_class rp \<noteq> class_of s" using that False by (metis imageI)
      with represents_step [of scs rp s] snoc that show ?thesis by simp
    qed
    show ?thesis using snoc False new old by (auto simp: eq add_to_class_eq)
  qed
qed

text \<open>
  A representative is a shortest chain of its class among the scenarios given, its count is the
  number of them in the class, and every class has exactly one representative.
\<close>

theorem representatives_correct:
  assumes "s \<in> set scs"
  shows "\<exists>!rp. rp \<in> set (representatives scs) \<and> rep_class rp = class_of s \<and> rp_scenario rp \<in> set scs \<and>
    rp_count rp = length (filter (\<lambda>x. class_of x = class_of s) scs) \<and>
    length (sc_chain (rp_scenario rp)) = Min ((\<lambda>x. length (sc_chain x)) ` {x \<in> set scs. class_of x = class_of s})"
proof -
  have "class_of s \<in> rep_class ` set (representatives scs)" using representatives_inv [of scs] assms by auto
  then obtain rp where rp: "rp \<in> set (representatives scs)" "rep_class rp = class_of s" by auto
  have "represents scs rp" using rp representatives_inv by blast
  then have r: "rp_scenario rp \<in> set scs" "rp_count rp = length (filter (\<lambda>x. class_of x = class_of s) scs)"
      "\<And>x. x \<in> set scs \<Longrightarrow> class_of x = class_of s \<Longrightarrow> length (sc_chain (rp_scenario rp)) \<le> length (sc_chain x)"
    by (simp_all add: represents_def rp(2))
  have "length (sc_chain (rp_scenario rp)) = Min ((\<lambda>x. length (sc_chain x)) ` {x \<in> set scs. class_of x = class_of s})"
    using r rp(2) by (intro Min_eqI [symmetric]) (auto simp: rep_class_def)
  note min = this
  have unique: "rp' = rp" if "rp' \<in> set (representatives scs)" "rep_class rp' = class_of s" for rp'
  proof -
    have "inj_on rep_class (set (representatives scs))"
      using representatives_inv [of scs] by (simp add: distinct_map)
    from inj_onD [OF this _ that(1) rp(1)] rp(2) that(2) show ?thesis by simp
  qed
  show ?thesis
    by (rule ex1I [of _ rp]) (simp add: rp r(1,2) min, blast intro: unique)
qed

definition ex_step :: "string \<Rightarrow> string list \<Rightarrow> step" where
  "ex_step name obs = \<lparr>sp_component = name, sp_state = ''down'', sp_emits = [], sp_observes = obs\<rparr>"

definition ex_scenario :: "string list \<Rightarrow> scenario" where
  "ex_scenario names =
     \<lparr>sc_id = [], sc_root = \<lparr>rr_component = hd names, rr_state = ''down''\<rparr>,
      sc_chain = map (\<lambda>n. ex_step n (if n = last names then [''up''] else [])) names\<rparr>"

theorem representatives_correct_witness:
  "\<exists>rp. rp \<in> set (representatives [ex_scenario [''db'', ''api'', ''web''], ex_scenario [''db'', ''web'']]) \<and>
     rp_count rp = 2 \<and> length (sc_chain (rp_scenario rp)) = 2"
proof -
  let ?scs = "[ex_scenario [''db'', ''api'', ''web''], ex_scenario [''db'', ''web'']]"
  have cls: "class_of (ex_scenario [''db'', ''api'', ''web'']) = class_of (ex_scenario [''db'', ''web''])"
    by (simp add: class_of_def ex_scenario_def terminal_def ex_step_def)
  have all: "{x \<in> set ?scs. class_of x = class_of (ex_scenario [''db'', ''web''])} = set ?scs"
    "filter (\<lambda>x. class_of x = class_of (ex_scenario [''db'', ''web''])) ?scs = ?scs"
    using cls by auto
  have "ex_scenario [''db'', ''web''] \<in> set ?scs" by simp
  from ex1_implies_ex [OF representatives_correct [OF this, unfolded all]] obtain rp where
    "rp \<in> set (representatives ?scs)" "rp_count rp = length ?scs"
    "length (sc_chain (rp_scenario rp)) = Min ((\<lambda>x. length (sc_chain x)) ` set ?scs)" by blast
  moreover have "Min ((\<lambda>x. length (sc_chain x)) ` set ?scs) = 2" by (simp add: ex_scenario_def)
  ultimately show ?thesis by (intro exI [of _ rp]) (simp del: set_simps)
qed

subsection \<open>What a failure reaches\<close>

lemma component_targets_eq: "component_targets m name = dependencies_of m name"
  by (simp add: component_targets_def dependencies_of_eq next_of_def targets_of_def split: option.split)

text \<open>All defined names but those in progress hold everything they depend on.\<close>

definition complete_but :: "model \<Rightarrow> (string \<rightharpoonup> string set) \<Rightarrow> string set \<Rightarrow> bool" where
  "complete_but m out B \<longleftrightarrow>
     (\<forall>n S. out n = Some S \<longrightarrow> n \<notin> B \<longrightarrow> S = (edges (dependencies_of m))\<^sup>+ `` {n})"

lemma trancl_targets:
  "(edges nx)\<^sup>+ `` {n} = (\<Union>a\<in>set (nx n). insert a ((edges nx)\<^sup>+ `` {a}))"
proof (intro subset_antisym subsetI)
  fix x assume "x \<in> (edges nx)\<^sup>+ `` {n}"
  then obtain a where "(n, a) \<in> edges nx" "(a, x) \<in> (edges nx)\<^sup>*" by (auto dest: tranclD)
  then show "x \<in> (\<Union>a\<in>set (nx n). insert a ((edges nx)\<^sup>+ `` {a}))" by (auto simp: rtrancl_eq_or_trancl)
qed (auto intro: trancl_into_trancl2)

lemma complete_but_finish:
  assumes "complete_but m out (insert name B)" and "out name = Some ((edges (dependencies_of m))\<^sup>+ `` {name})"
  shows "complete_but m out B"
  unfolding complete_but_def
proof (intro allI impI)
  fix n S assume "out n = Some S" "n \<notin> B"
  then show "S = (edges (dependencies_of m))\<^sup>+ `` {n}"
    using assms by (cases "n = name") (simp_all add: complete_but_def)
qed

lemma closure_correct:
  assumes ac: "acyclic (edges (dependencies_of m))"
  shows "complete_but m out B \<Longrightarrow> (\<forall>b\<in>B. (b, name) \<in> (edges (dependencies_of m))\<^sup>+) \<Longrightarrow>
     complete_but m (closure_visit m out name) B \<and>
     closure_visit m out name name = Some ((edges (dependencies_of m))\<^sup>+ `` {name}) \<and>
     (\<forall>b\<in>B. closure_visit m out name b = out b)"
    and "complete_but m out (insert name B) \<Longrightarrow> out name = Some S0 \<Longrightarrow> name \<notin> B \<Longrightarrow>
     (\<forall>b\<in>B. (b, name) \<in> (edges (dependencies_of m))\<^sup>+) \<Longrightarrow> set ons \<subseteq> set (dependencies_of m name) \<Longrightarrow>
     complete_but m (closure_targets m out name ons) (insert name B) \<and>
     closure_targets m out name ons name =
       Some (S0 \<union> (\<Union>a\<in>set ons. insert a ((edges (dependencies_of m))\<^sup>+ `` {a}))) \<and>
     (\<forall>b\<in>B. closure_targets m out name ons b = out b)"
  using ac
proof (induction m out name and m out name ons arbitrary: B and S0 B rule: closure_visit_closure_targets.induct)
  case (1 m out name)
  have fresh: "name \<notin> B" using 1(3,4) by (auto simp: acyclic_def)
  show ?case
  proof (cases "out name")
    case (Some S)
    with 1(2) fresh show ?thesis by (auto simp: complete_but_def closure_visit.simps)
  next
    case None
    have "complete_but m (out(name \<mapsto> {})) (insert name B)" using 1(2) by (auto simp: complete_but_def)
    note start = this
    have undef: "\<not> out name \<noteq> None" and deps: "set (component_targets m name) \<subseteq> set (dependencies_of m name)"
      using None by (simp_all add: component_targets_eq)
    have eq: "closure_visit m out name = closure_targets m (out(name \<mapsto> {})) name (dependencies_of m name)"
      using None by (simp only: closure_visit.simps component_targets_eq simp_thms if_False)
    have "complete_but m (closure_visit m out name) (insert name B) \<and>
        closure_visit m out name name =
          Some ({} \<union> (\<Union>a\<in>set (dependencies_of m name). insert a ((edges (dependencies_of m))\<^sup>+ `` {a}))) \<and>
        (\<forall>b\<in>B. closure_visit m out name b = (out(name \<mapsto> {})) b)"
      unfolding eq by (rule 1(1) [OF undef start fun_upd_same fresh 1(3) deps 1(4), unfolded component_targets_eq])
    then have t: "complete_but m (closure_visit m out name) (insert name B)"
        "closure_visit m out name name = Some (\<Union>a\<in>set (dependencies_of m name). insert a ((edges (dependencies_of m))\<^sup>+ `` {a}))"
        "\<forall>b\<in>B. closure_visit m out name b = (out(name \<mapsto> {})) b"
      unfolding Un_empty_left by blast+
    have all: "closure_visit m out name name = Some ((edges (dependencies_of m))\<^sup>+ `` {name})"
      unfolding t(2) trancl_targets [of _ name] ..
    with t(1) have "complete_but m (closure_visit m out name) B" by (rule complete_but_finish)
    moreover have "\<forall>b\<in>B. closure_visit m out name b = out b" using t(3) fresh by auto
    ultimately show ?thesis using all by blast
  qed
next
  case (2 m out name)
  then show ?case by simp
next
  case (3 m out name on ons)
  let ?E = "(edges (dependencies_of m))\<^sup>+"
  let ?out1 = "out(name \<mapsto> insert on (set_of out name))"
  let ?out2 = "closure_visit m ?out1 on"
  let ?out3 = "?out2(name \<mapsto> set_of ?out2 name \<union> set_of ?out2 on)"
  have edge: "(name, on) \<in> edges (dependencies_of m)" and ons: "set ons \<subseteq> set (dependencies_of m name)"
    using 3(7) by auto
  have c1: "complete_but m ?out1 (insert name B)" using 3(3) by (auto simp: complete_but_def)
  have "\<forall>b\<in>insert name B. (b, on) \<in> ?E" using 3(6) edge by (auto intro: trancl_into_trancl)
  from 3(1) [OF c1 this 3(8)]
  have v: "complete_but m ?out2 (insert name B)" "?out2 on = Some (?E `` {on})"
      "\<forall>b\<in>insert name B. ?out2 b = ?out1 b" by blast+
  have s3: "?out3 name = Some (insert on S0 \<union> ?E `` {on})"
    using v(2,3) 3(4) by (simp add: set_of_def)
  have c3: "complete_but m ?out3 (insert name B)" using v(1) by (auto simp: complete_but_def)
  from 3(2) [OF refl c3 s3 3(5,6) ons 3(8)]
  have r: "complete_but m (closure_targets m ?out3 name ons) (insert name B)"
      "closure_targets m ?out3 name ons name =
         Some (insert on S0 \<union> ?E `` {on} \<union> (\<Union>a\<in>set ons. insert a (?E `` {a})))"
      "\<forall>b\<in>B. closure_targets m ?out3 name ons b = ?out3 b" by blast+
  have "closure_targets m ?out3 name ons b = out b" if "b \<in> B" for b
    using r(3) v(3) that 3(5) by auto
  with r(1,2) show ?case by (auto simp: Let_def)
qed

lemma closure_visit_keeps:
  "dom out \<subseteq> dom (closure_visit m out name)"
  "dom out \<subseteq> dom (closure_targets m out name ons)"
proof (induction m out name and m out name ons rule: closure_visit_closure_targets.induct)
  case (1 m out name)
  show ?case
  proof (cases "out name")
    case None
    then have "closure_visit m out name = closure_targets m (out(name \<mapsto> {})) name (component_targets m name)"
      by (simp only: closure_visit.simps simp_thms if_False)
    with 1 None show ?thesis by (metis dom_fun_upd insert_subset option.distinct(1))
  qed (simp add: closure_visit.simps)
next
  case (3 m out name on ons)
  have "dom out \<subseteq> dom (out(name \<mapsto> insert on (set_of out name)))" by auto
  with 3(1) have "dom out \<subseteq> dom (closure_visit m (out(name \<mapsto> insert on (set_of out name))) on)" by blast
  with 3(2) [OF refl] show ?case by (simp only: closure_targets.simps Let_def dom_fun_upd option.simps if_False) blast
qed simp

text \<open>
  In an acyclic model the closure of a component is everything it depends on, directly or
  through others.
\<close>

theorem dependency_closure_reaches:
  assumes "wf_model m" and "detect_cycle (build_graph m) = None"
  shows "set_of (dependency_closure m) n = (edges (dependencies_of m))\<^sup>+ `` {n}"
proof -
  let ?E = "(edges (dependencies_of m))\<^sup>+"
  have ac: "acyclic (edges (dependencies_of m))" using assms detect_cycle_None_iff by blast
  have visit: "complete_but m (closure_visit m out k) {} \<and> closure_visit m out k k = Some (?E `` {k})"
    if "complete_but m out {}" for out k
    using closure_correct(1) [OF ac that, of k] by blast
  have fold: "complete_but m (foldl (closure_visit m) out ks) {} \<and>
      insert_dom \<subseteq> dom (foldl (closure_visit m) out ks) \<and> set ks \<subseteq> dom (foldl (closure_visit m) out ks)"
    if "complete_but m out {}" "insert_dom \<subseteq> dom out" for out ks insert_dom
    using that
  proof (induction ks arbitrary: out insert_dom)
    case (Cons k ks)
    have "insert k insert_dom \<subseteq> dom (closure_visit m out k)"
      using Cons(3) closure_visit_keeps(1) [of out m k] visit [OF Cons(2), of k] by blast
    from Cons(1) [OF _ this] visit [OF Cons(2)] show ?case by auto
  qed simp
  have closure: "complete_but m (dependency_closure m) {}" "set (keys (m_components m)) \<subseteq> dom (dependency_closure m)"
    using fold [of Map.empty "{}" "keys (m_components m)"] by (simp_all add: dependency_closure_def complete_but_def)
  show ?thesis
  proof (cases "dependency_closure m n")
    case (Some S)
    with closure(1) show ?thesis by (auto simp: complete_but_def set_of_def)
  next
    case None
    with closure(2) have "n \<notin> set (keys (m_components m))" by auto
    then have "dependencies_of m n = []"
      by (auto simp: set_keys dependencies_of_eq next_of_def split: option.splits)
    with None show ?thesis unfolding trancl_targets [of _ n] by (simp add: set_of_def)
  qed
qed

theorem dependency_closure_reaches_witness:
  "set_of (dependency_closure ex_chain) ''web'' = (edges (dependencies_of ex_chain))\<^sup>+ `` {''web''}"
  by (rule dependency_closure_reaches [OF wf_ex_chain ex_chain_acyclic])

text \<open>
  A failure passes from a component to one that depends on it exactly when the edge is a plain
  dependency, or a redundancy group of which the root leaves fewer than \<open>need\<close> members untouched.
\<close>

theorem propagates_iff:
  assumes "component_of m parent = Some c"
  shows "propagates m reach root parent child \<longleftrightarrow>
    (\<exists>dep\<in>set (c_depends c). child \<in> set (dp_on dep) \<and>
       (dp_need dep \<le> 0 \<or>
        int (length (filter (\<lambda>x. x \<noteq> root \<and> root \<notin> set_of reach x) (dp_on dep))) < dp_need dep))"
proof -
  have split: "length (filter (\<lambda>x. x = root \<or> root \<in> set_of reach x) xs) +
      length (filter (\<lambda>x. x \<noteq> root \<and> root \<notin> set_of reach x) xs) = length xs" for xs
    by (induction xs) auto
  have "propagates_loop reach root child deps \<longleftrightarrow>
      (\<exists>dep\<in>set deps. child \<in> set (dp_on dep) \<and> (dp_need dep \<le> 0 \<or>
         int (length (filter (\<lambda>x. x \<noteq> root \<and> root \<notin> set_of reach x) (dp_on dep))) < dp_need dep))" for deps
  proof (induction deps)
    case (Cons dep deps)
    have "int (length (filter (\<lambda>x. x = root \<or> root \<in> set_of reach x) (dp_on dep))) > int (length (dp_on dep)) - dp_need dep
        \<longleftrightarrow> int (length (filter (\<lambda>x. x \<noteq> root \<and> root \<notin> set_of reach x) (dp_on dep))) < dp_need dep"
      using split [of "dp_on dep"] by linarith
    with Cons show ?case by auto
  qed simp
  with assms show ?thesis by (simp add: propagates_def)
qed

theorem propagates_iff_witness:
  "propagates (ex_model [ex_component ''web'' ''svc'' [ex_group [''a'', ''b''] 1]]) Map.empty ''a'' ''web'' ''a'' \<longleftrightarrow>
   (\<exists>dep\<in>set [ex_group [''a'', ''b''] 1]. ''a'' \<in> set (dp_on dep) \<and>
      (dp_need dep \<le> 0 \<or>
       int (length (filter (\<lambda>x. x \<noteq> ''a'' \<and> ''a'' \<notin> set_of Map.empty x) (dp_on dep))) < dp_need dep))"
proof -
  have "component_of (ex_model [ex_component ''web'' ''svc'' [ex_group [''a'', ''b''] 1]]) ''web'' =
      Some (ex_component ''web'' ''svc'' [ex_group [''a'', ''b''] 1])"
    by (simp add: ex_model_def ex_component_def)
  from propagates_iff [OF this, of Map.empty "''a''" "''a''"] show ?thesis by (simp add: ex_component_def)
qed

end
