(* ===== verification/Graph_Count.thy ===== *)
theory Graph_Count
  imports Scenarios
begin

text \<open>
  Counting live chains over the failure graph without listing them
  (\<open>internal/scenarios/graphdp.go\<close>): the memoised count of live suffixes, the chains through each
  component, and the live chains layer by layer.

  Go's \<open>int\<close> is a 64-bit word, so a count wraps. The memo of \<open>dp\<close> is threaded through the calls;
  its \<open>busy\<close> set, which every call restores before it returns, is passed by value.
\<close>

subsection \<open>The live graph\<close>

text \<open>A nil func allows everything.\<close>

record liveness =
  lv_node :: "(string \<Rightarrow> string \<Rightarrow> bool) option"
  lv_edge :: "(string \<Rightarrow> string \<Rightarrow> bool) option"

definition live_node :: "liveness \<Rightarrow> string \<Rightarrow> string \<Rightarrow> bool" where
  "live_node l c s = (case lv_node l of None \<Rightarrow> True | Some f \<Rightarrow> f c s)"

definition live_edge :: "liveness \<Rightarrow> string \<Rightarrow> string \<Rightarrow> bool" where
  "live_edge l a b = (case lv_edge l of None \<Rightarrow> True | Some f \<Rightarrow> f a b)"

definition all_live :: liveness where
  "all_live = \<lparr>lv_node = None, lv_edge = None\<rparr>"

record dp_edge =
  de_to :: string
  de_state :: graph_state
  de_label :: string

type_synonym dp_key = "string \<times> string"

definition edge_key :: "dp_edge \<Rightarrow> dp_key" where
  "edge_key e = (de_to e, gs_name (de_state e))"

definition next_edges :: "failure_graph \<Rightarrow> string \<Rightarrow> string \<Rightarrow> graph_state \<Rightarrow> dp_edge list" where
  "next_edges g root cn st =
     (case map_of g cn of
        None \<Rightarrow> []
      | Some gc \<Rightarrow>
          concat (map (\<lambda>d.
            case map_of g d of
              None \<Rightarrow> []
            | Some gd \<Rightarrow>
                if gc_unresolved gd then []
                else concat (map (\<lambda>ds.
                  let m = match_edge_label (gs_emits st) (gs_triggered_by ds)
                  in if m \<noteq> [] then [\<lparr>de_to = d, de_state = ds, de_label = m\<rparr>] else []) (gc_states gd)))
            (carried_to root gc)))"

definition edge_live :: "liveness \<Rightarrow> string \<Rightarrow> dp_edge \<Rightarrow> bool" where
  "edge_live live cn e \<longleftrightarrow> live_edge live cn (de_to e) \<and> live_node live (de_to e) (gs_name (de_state e))"

definition failure_nodes :: "failure_graph \<Rightarrow> dp_key set" where
  "failure_nodes g = (\<Union>(n, gc)\<in>set g. (\<lambda>s. (n, gs_name s)) ` set (gc_states gc))"

lemma finite_failure_nodes [simp]: "finite (failure_nodes g)"
  by (simp add: failure_nodes_def split_def)

lemma next_edges_iff:
  "e \<in> set (next_edges g root cn st) \<longleftrightarrow>
     (\<exists>gc gd. map_of g cn = Some gc \<and> de_to e \<in> set (carried_to root gc) \<and> map_of g (de_to e) = Some gd \<and>
        \<not> gc_unresolved gd \<and> de_state e \<in> set (gc_states gd) \<and>
        de_label e = match_edge_label (gs_emits st) (gs_triggered_by (de_state e)) \<and> de_label e \<noteq> [])"
proof -
  let ?to = "\<lambda>d. case map_of g d of None \<Rightarrow> [] | Some gd \<Rightarrow> if gc_unresolved gd then []
      else concat (map (\<lambda>ds. let m = match_edge_label (gs_emits st) (gs_triggered_by ds)
        in if m \<noteq> [] then [\<lparr>de_to = d, de_state = ds, de_label = m\<rparr>] else []) (gc_states gd))"
  have "e \<in> set (?to d) \<longleftrightarrow> (\<exists>gd. de_to e = d \<and> map_of g d = Some gd \<and> \<not> gc_unresolved gd \<and>
      de_state e \<in> set (gc_states gd) \<and>
      de_label e = match_edge_label (gs_emits st) (gs_triggered_by (de_state e)) \<and> de_label e \<noteq> [])" for d
    by (cases "map_of g d"; cases e) (auto simp: Let_def split: if_splits)
  then show ?thesis by (cases "map_of g cn") (auto simp: next_edges_def)
qed

lemma next_edges_nodes: "e \<in> set (next_edges g root cn st) \<Longrightarrow> edge_key e \<in> failure_nodes g"
  by (auto simp: next_edges_iff failure_nodes_def edge_key_def dest!: map_of_SomeD)

subsection \<open>Suffixes\<close>

type_synonym dp_memo = "(dp_key \<rightharpoonup> 64 word) \<times> bool"

text \<open>
  \<open>suffixes\<close> of a node with the loop over its edges. The memo is \<open>suf\<close> and whether \<open>err\<close> is set;
  a component outside the graph, which the code never asks about, observes nothing.
\<close>

function suffixes ::
    "failure_graph \<Rightarrow> liveness \<Rightarrow> string \<Rightarrow> dp_key set \<Rightarrow> string \<Rightarrow> graph_state \<Rightarrow> dp_memo \<Rightarrow> 64 word \<times> dp_memo"
  and suffix_sum ::
    "failure_graph \<Rightarrow> liveness \<Rightarrow> string \<Rightarrow> dp_key set \<Rightarrow> string \<Rightarrow> dp_edge list \<Rightarrow> dp_memo \<Rightarrow> 64 word \<times> dp_memo" where
  "suffixes g live root busy cn st (suf, err) =
     (case suf (cn, gs_name st) of
        Some n \<Rightarrow> (n, (suf, err))
      | None \<Rightarrow>
          if (cn, gs_name st) \<in> busy then (0, (suf, True))
          else (let (s, (suf1, err1)) =
                      suffix_sum g live root (insert (cn, gs_name st) busy) cn (next_edges g root cn st) (suf, err);
                    n = (if observed_facts g cn \<noteq> [] then 1 else 0) + s
                in (n, (suf1((cn, gs_name st) \<mapsto> n), err1))))"
| "suffix_sum g live root busy cn [] memo = (0, memo)"
| "suffix_sum g live root busy cn (e # es) memo =
     (if edge_live live cn e
      then (let (a, memo1) = suffixes g live root busy (de_to e) (de_state e) memo;
                (b, memo2) = suffix_sum g live root busy cn es memo1
            in (a + b, memo2))
      else suffix_sum g live root busy cn es memo)"
  by pat_completeness auto

termination suffixes
proof (relation "measures
    [\<lambda>x. case x of Inl (g, live, root, busy, cn, st, memo) \<Rightarrow> card (insert (cn, gs_name st) (failure_nodes g) - busy)
       | Inr (g, live, root, busy, cn, es, memo) \<Rightarrow> card ((failure_nodes g \<union> edge_key ` set es) - busy),
     \<lambda>x. case x of Inl _ \<Rightarrow> 0 | Inr (g, live, root, busy, cn, es, memo) \<Rightarrow> Suc (length es)]", goal_cases)
  case (2 g live root busy cn st suf err)
  have "edge_key ` set (next_edges g root cn st) \<subseteq> failure_nodes g" using next_edges_nodes by auto
  then have "(failure_nodes g \<union> edge_key ` set (next_edges g root cn st)) - insert (cn, gs_name st) busy
      \<subset> insert (cn, gs_name st) (failure_nodes g) - busy" using 2(2) by auto
  then have "card ((failure_nodes g \<union> edge_key ` set (next_edges g root cn st)) - insert (cn, gs_name st) busy)
      < card (insert (cn, gs_name st) (failure_nodes g) - busy)"
    by (intro psubset_card_mono) auto
  then show ?case by simp
next
  case (3 g live root busy cn e es memo)
  have "card (insert (edge_key e) (failure_nodes g) - busy) \<le> card ((failure_nodes g \<union> edge_key ` set (e # es)) - busy)"
    by (intro card_mono) auto
  then show ?case by (auto simp: edge_key_def le_less)
next
  case (4 g live root busy cn e es memo)
  have "card ((failure_nodes g \<union> edge_key ` set es) - busy) \<le> card ((failure_nodes g \<union> edge_key ` set (e # es)) - busy)"
    by (intro card_mono) auto
  then show ?case by (auto simp: le_less)
next
  case (5 g live root busy cn e es memo)
  have "card ((failure_nodes g \<union> edge_key ` set es) - busy) \<le> card ((failure_nodes g \<union> edge_key ` set (e # es)) - busy)"
    by (intro card_mono) auto
  then show ?case by (auto simp: le_less)
qed simp

declare suffixes.simps [simp del]

subsection \<open>Chains through each component\<close>

text \<open>
  The closure \<open>visit\<close> of \<open>fromRoot\<close>: what has been seen, and the post-order so far, each key with the
  state kept for it in \<open>states\<close>.
\<close>

type_synonym topo_state = "dp_key set \<times> (string \<times> graph_state) list"

function topo_visit ::
    "failure_graph \<Rightarrow> liveness \<Rightarrow> string \<Rightarrow> string \<Rightarrow> graph_state \<Rightarrow> topo_state \<Rightarrow> topo_state"
  and topo_edges ::
    "failure_graph \<Rightarrow> liveness \<Rightarrow> string \<Rightarrow> string \<Rightarrow> dp_edge list \<Rightarrow> topo_state \<Rightarrow> topo_state" where
  "topo_visit g live root cn st (seen, order) =
     (if (cn, gs_name st) \<in> seen then (seen, order)
      else (let (seen1, order1) =
                  topo_edges g live root cn (next_edges g root cn st) (insert (cn, gs_name st) seen, order)
            in (seen1, order1 @ [(cn, st)])))"
| "topo_edges g live root cn [] ts = ts"
| "topo_edges g live root cn (e # es) ts =
     (if edge_live live cn e
      then (let ts1 = topo_visit g live root (de_to e) (de_state e) ts in topo_edges g live root cn es ts1)
      else topo_edges g live root cn es ts)"
  by pat_completeness auto

lemma topo_seen:
  "topo_visit_topo_edges_dom (Inl (g, live, root, cn, st, ts)) \<Longrightarrow> fst ts \<subseteq> fst (topo_visit g live root cn st ts)"
  "topo_visit_topo_edges_dom (Inr (g, live, root, cn, es, ts)) \<Longrightarrow> fst ts \<subseteq> fst (topo_edges g live root cn es ts)"
proof (induction g live root cn st ts and g live root cn es ts rule: topo_visit_topo_edges.pinduct)
  case (1 g live root cn st seen order)
  show ?case
  proof (cases "(cn, gs_name st) \<in> seen")
    case True
    with 1(1) show ?thesis by (simp add: topo_visit.psimps)
  next
    case False
    from 1(2) [OF False] have "seen \<subseteq> fst (topo_edges g live root cn (next_edges g root cn st)
        (insert (cn, gs_name st) seen, order))" by simp
    with 1(1) False show ?thesis by (simp add: topo_visit.psimps split_def Let_def)
  qed
next
  case (2 g live root cn ts)
  then show ?case by (simp add: topo_edges.psimps)
next
  case (3 g live root cn e es ts)
  show ?case
  proof (cases "edge_live live cn e")
    case True
    from 3(2,3) [OF True] have "fst ts \<subseteq> fst (topo_edges g live root cn es
        (topo_visit g live root (de_to e) (de_state e) ts))" by blast
    with 3(1) True show ?thesis by (simp add: topo_edges.psimps Let_def)
  next
    case False
    from 3(4) [OF False] 3(1) False show ?thesis by (simp add: topo_edges.psimps)
  qed
qed

termination topo_visit
proof (relation "measures
    [\<lambda>x. case x of Inl (g, live, root, cn, st, ts) \<Rightarrow> card (insert (cn, gs_name st) (failure_nodes g) - fst ts)
       | Inr (g, live, root, cn, es, ts) \<Rightarrow> card ((failure_nodes g \<union> edge_key ` set es) - fst ts),
     \<lambda>x. case x of Inl _ \<Rightarrow> 0 | Inr (g, live, root, cn, es, ts) \<Rightarrow> Suc (length es)]", goal_cases)
  case (2 g live root cn st seen order)
  have "edge_key ` set (next_edges g root cn st) \<subseteq> failure_nodes g" using next_edges_nodes by auto
  then have "(failure_nodes g \<union> edge_key ` set (next_edges g root cn st)) - insert (cn, gs_name st) seen
      \<subset> insert (cn, gs_name st) (failure_nodes g) - seen" using 2 by auto
  then have "card ((failure_nodes g \<union> edge_key ` set (next_edges g root cn st)) - insert (cn, gs_name st) seen)
      < card (insert (cn, gs_name st) (failure_nodes g) - seen)"
    by (intro psubset_card_mono) auto
  then show ?case by simp
next
  case (3 g live root cn e es ts)
  have "card (insert (edge_key e) (failure_nodes g) - fst ts) \<le> card ((failure_nodes g \<union> edge_key ` set (e # es)) - fst ts)"
    by (intro card_mono) auto
  then show ?case by (auto simp: edge_key_def le_less)
next
  case (4 g live root cn e es ts ts1)
  have "fst ts \<subseteq> fst ts1" unfolding 4(2) by (rule topo_seen(1) [OF 4(3)])
  then have "card ((failure_nodes g \<union> edge_key ` set es) - fst ts1) \<le> card ((failure_nodes g \<union> edge_key ` set (e # es)) - fst ts)"
    by (intro card_mono) auto
  then show ?case by (auto simp: le_less)
next
  case (5 g live root cn e es ts)
  have "card ((failure_nodes g \<union> edge_key ` set es) - fst ts) \<le> card ((failure_nodes g \<union> edge_key ` set (e # es)) - fst ts)"
    by (intro card_mono) auto
  then show ?case by (auto simp: le_less)
qed simp

declare topo_visit.simps [simp del]

text \<open>How many live prefixes from the root reach each node: its edges, then the nodes in order.\<close>

definition add_prefix :: "liveness \<Rightarrow> string \<Rightarrow> 64 word \<Rightarrow> (dp_key \<Rightarrow> 64 word) \<Rightarrow> dp_edge \<Rightarrow> (dp_key \<Rightarrow> 64 word)" where
  "add_prefix live cn n pre e =
     (if edge_live live cn e then pre(edge_key e := pre (edge_key e) + n) else pre)"

fun prefix_pass ::
    "failure_graph \<Rightarrow> liveness \<Rightarrow> string \<Rightarrow> (string \<times> graph_state) list \<Rightarrow> (dp_key \<Rightarrow> 64 word) \<Rightarrow> (dp_key \<Rightarrow> 64 word)" where
  "prefix_pass g live root [] pre = pre"
| "prefix_pass g live root ((cn, st) # ks) pre =
     prefix_pass g live root ks
       (foldl (add_prefix live cn (pre (cn, gs_name st))) pre (next_edges g root cn st))"

fun touch_pass ::
    "failure_graph \<Rightarrow> liveness \<Rightarrow> string \<Rightarrow> dp_key \<Rightarrow> (dp_key \<Rightarrow> 64 word) \<Rightarrow> (string \<times> graph_state) list \<Rightarrow>
     dp_memo \<Rightarrow> (string \<Rightarrow> 64 word) \<Rightarrow> (string \<Rightarrow> 64 word)" where
  "touch_pass g live root rk pre [] memo touch = touch"
| "touch_pass g live root rk pre ((cn, st) # ks) memo touch =
     (if (cn, gs_name st) = rk then touch_pass g live root rk pre ks memo touch
      else (let (n, memo1) = suffixes g live root {} cn st memo
            in touch_pass g live root rk pre ks memo1 (touch(cn := touch cn + pre (cn, gs_name st) * n))))"

fun stands_alone_loop :: "failure_graph \<Rightarrow> string \<Rightarrow> dp_edge list \<Rightarrow> dp_memo \<Rightarrow> bool" where
  "stands_alone_loop g cn [] memo = True"
| "stands_alone_loop g cn (e # es) memo =
     (case suffixes g all_live cn {} (de_to e) (de_state e) memo of
        (n, memo1) \<Rightarrow> if 0 <s n then False else stands_alone_loop g cn es memo1)"

definition root_stands_alone :: "failure_graph \<Rightarrow> string \<Rightarrow> graph_state \<Rightarrow> bool" where
  "root_stands_alone g cn st =
     (if observed_facts g cn = [] then False
      else stands_alone_loop g cn (next_edges g cn cn st) (Map.empty, False))"

text \<open>\<open>fromRoot\<close>: \<open>None\<close> is \<open>ErrCycle\<close>.\<close>

definition from_root ::
    "failure_graph \<Rightarrow> string \<Rightarrow> graph_state \<Rightarrow> liveness \<Rightarrow> (string \<Rightarrow> 64 word) \<Rightarrow> (64 word \<times> (string \<Rightarrow> 64 word)) option" where
  "from_root g cn st live touch =
     (let (sum, (suf, err)) =
            (if live_node live cn (gs_name st)
             then suffix_sum g live cn {} cn (next_edges g cn cn st) (Map.empty, False) else (0, (Map.empty, False)));
          total = (if live_node live cn (gs_name st) \<and> sum = 0 \<and> root_stands_alone g cn st then 1 else sum)
      in if err then None
         else if total = 0 then Some (0, touch)
         else (let touch1 = touch(cn := touch cn + total);
                   (_, order) = topo_visit g live cn cn st ({}, []);
                   rk = (cn, gs_name st);
                   pre = prefix_pass g live cn (rev order) (\<lambda>k. if k = rk then 1 else 0)
               in Some (total, touch_pass g live cn rk pre order (suf, err) touch1)))"

definition graph_roots :: "failure_graph \<Rightarrow> dp_key list" where
  "graph_roots g =
     concat (map (\<lambda>n. case map_of g n of
         None \<Rightarrow> []
       | Some gc \<Rightarrow> if gc_unresolved gc then [] else map (\<lambda>st. (n, gs_name st)) (gc_states gc))
       (sort (keys g)))"

definition state_named :: "failure_graph \<Rightarrow> string \<Rightarrow> string \<Rightarrow> graph_state" where
  "state_named g cn name =
     (case map_of g cn of
        None \<Rightarrow> \<lparr>gs_name = [], gs_emits = [], gs_triggered_by = []\<rparr>
      | Some gc \<Rightarrow>
          (case List.find (\<lambda>st. gs_name st = name) (gc_states gc) of
             Some st \<Rightarrow> st
           | None \<Rightarrow> \<lparr>gs_name = [], gs_emits = [], gs_triggered_by = []\<rparr>))"

record counts =
  ct_live :: "64 word"
  ct_touch :: "string \<Rightarrow> 64 word"

fun count_roots :: "failure_graph \<Rightarrow> liveness \<Rightarrow> dp_key list \<Rightarrow> counts \<Rightarrow> counts option" where
  "count_roots g live [] c = Some c"
| "count_roots g live ((cn, name) # rs) c =
     (case from_root g cn (state_named g cn name) live (ct_touch c) of
        None \<Rightarrow> None
      | Some (n, touch) \<Rightarrow> count_roots g live rs \<lparr>ct_live = ct_live c + n, ct_touch = touch\<rparr>)"

definition count_live :: "failure_graph \<Rightarrow> liveness \<Rightarrow> counts option" where
  "count_live g live = count_roots g live (graph_roots g) \<lparr>ct_live = 0, ct_touch = (\<lambda>_. 0)\<rparr>"

text \<open>\<open>CountChains\<close>: a cyclic graph is counted by listing.\<close>

definition count_chains :: "failure_graph \<Rightarrow> 64 word" where
  "count_chains g =
     (case count_live g all_live of None \<Rightarrow> of_nat (length (expand g)) | Some c \<Rightarrow> ct_live c)"

subsection \<open>Live chains by length\<close>

record partial_chain =
  pc_root :: dp_key
  pc_steps :: "step list"
  pc_at :: graph_state

definition plain_step :: "string \<Rightarrow> string \<Rightarrow> step" where
  "plain_step cn name = \<lparr>sp_component = cn, sp_state = name, sp_emits = [], sp_observes = []\<rparr>"

text \<open>The first frontier and layer: the live roots, and those of them that stand alone.\<close>

fun first_layer :: "failure_graph \<Rightarrow> liveness \<Rightarrow> dp_key list \<Rightarrow> partial_chain list \<times> scenario list" where
  "first_layer g live [] = ([], [])"
| "first_layer g live ((cn, name) # rs) =
     (case first_layer g live rs of
        (frontier, layer) \<Rightarrow>
          let st = state_named g cn name
          in if \<not> live_node live cn name then (frontier, layer)
             else (\<lparr>pc_root = (cn, name), pc_steps = [plain_step cn name], pc_at = st\<rparr> # frontier,
                   (if root_stands_alone g cn st
                    then [\<lparr>sc_id = [], sc_root = \<lparr>rr_component = cn, rr_state = name\<rparr>,
                           sc_chain = [(plain_step cn name)\<lparr>sp_observes := observed_facts g cn\<rparr>]\<rparr>]
                    else []) @ layer))"

text \<open>One edge from a partial chain: the steps so far, the last with the label of the edge.\<close>

definition extend_steps :: "step list \<Rightarrow> dp_edge \<Rightarrow> step list" where
  "extend_steps steps e =
     butlast steps @ [(last steps)\<lparr>sp_emits := de_label e\<rparr>, plain_step (de_to e) (gs_name (de_state e))]"

definition set_observes :: "step list \<Rightarrow> string list \<Rightarrow> step list" where
  "set_observes steps obs = butlast steps @ [(last steps)\<lparr>sp_observes := obs\<rparr>]"

definition grow_chain :: "failure_graph \<Rightarrow> liveness \<Rightarrow> partial_chain \<Rightarrow> partial_chain list \<times> scenario list" where
  "grow_chain g live p =
     (let es = filter (edge_live live (sp_component (last (pc_steps p))))
            (next_edges g (fst (pc_root p)) (sp_component (last (pc_steps p))) (pc_at p))
      in (map (\<lambda>e. \<lparr>pc_root = pc_root p, pc_steps = extend_steps (pc_steps p) e, pc_at = de_state e\<rparr>) es,
          map (\<lambda>e. \<lparr>sc_id = [], sc_root = \<lparr>rr_component = fst (pc_root p), rr_state = snd (pc_root p)\<rparr>,
                    sc_chain = set_observes (extend_steps (pc_steps p) e) (observed_facts g (de_to e))\<rparr>)
            (filter (\<lambda>e. observed_facts g (de_to e) \<noteq> []) es)))"

definition next_layer :: "failure_graph \<Rightarrow> liveness \<Rightarrow> partial_chain list \<Rightarrow> partial_chain list \<times> scenario list" where
  "next_layer g live frontier =
     (concat (map (\<lambda>p. fst (grow_chain g live p)) frontier), concat (map (\<lambda>p. snd (grow_chain g live p)) frontier))"

definition named_layer :: "scenario list \<Rightarrow> scenario list" where
  "named_layer layer = map (\<lambda>s. s\<lparr>sc_id := id_of (sc_chain s)\<rparr>) (sort_scenarios layer)"

text \<open>
  The loop of \<open>LiveByLength\<close>. Its callback is a function from its state and a layer to whether it
  wants more and its new state; a loop that does not end is \<open>None\<close>.
\<close>

partial_function (option) layers_loop ::
    "failure_graph \<Rightarrow> liveness \<Rightarrow> ('s \<Rightarrow> scenario list \<Rightarrow> bool \<times> 's) \<Rightarrow> 's \<Rightarrow> partial_chain list \<Rightarrow> scenario list \<Rightarrow> 's option" where
  "layers_loop g live f s frontier layer =
     (if frontier = [] \<and> layer = [] then Some s
      else (case (if layer = [] then (True, s) else f s (named_layer layer)) of
              (go, s1) \<Rightarrow>
                if go then (case next_layer g live frontier of (fr, ly) \<Rightarrow> layers_loop g live f s1 fr ly)
                else Some s1))"

declare layers_loop.simps [code]

definition live_by_length ::
    "failure_graph \<Rightarrow> liveness \<Rightarrow> ('s \<Rightarrow> scenario list \<Rightarrow> bool \<times> 's) \<Rightarrow> 's \<Rightarrow> 's option" where
  "live_by_length g live f s =
     (case first_layer g live (graph_roots g) of (frontier, layer) \<Rightarrow> layers_loop g live f s frontier layer)"

subsection \<open>What is counted\<close>

text \<open>A failure spreads from a component to one that depends on it.\<close>

definition spread :: "failure_graph \<Rightarrow> (string \<times> string) set" where
  "spread g = {(a, b). \<exists>gc. map_of g a = Some gc \<and> b \<in> gl_to ` set (gc_dependents gc)}"

text \<open>What \<open>BuildGraph\<close> gives for an acyclic model whose types name each state once.\<close>

definition simple_graph :: "failure_graph \<Rightarrow> bool" where
  "simple_graph g \<longleftrightarrow>
     wf_dict g \<and> acyclic (spread g) \<and>
     (\<forall>n gc. map_of g n = Some gc \<longrightarrow> distinct (map gl_to (gc_dependents gc)) \<and> distinct (map gs_name (gc_states gc)))"

definition failing :: "failure_graph \<Rightarrow> string \<Rightarrow> graph_state \<Rightarrow> bool" where
  "failing g cn st \<longleftrightarrow> (\<exists>gc. map_of g cn = Some gc \<and> \<not> gc_unresolved gc \<and> st \<in> set (gc_states gc))"

fun chain_live :: "liveness \<Rightarrow> step list \<Rightarrow> bool" where
  "chain_live live [] = True"
| "chain_live live [s] = live_node live (sp_component s) (sp_state s)"
| "chain_live live (s # t # ss) =
     (live_node live (sp_component s) (sp_state s) \<and> live_edge live (sp_component s) (sp_component t) \<and>
      chain_live live (t # ss))"

text \<open>The ways a failure goes on from a component in a state, the component included.\<close>

definition tails :: "failure_graph \<Rightarrow> string \<Rightarrow> string \<Rightarrow> graph_state \<Rightarrow> step list set" where
  "tails g root cn st =
     {t. failure_chain g root {} cn st t \<or> observed_facts g cn \<noteq> [] \<and> t = [last_step cn st (observed_facts g cn)]}"

lemma carried_spread: "map_of g a = Some gc \<Longrightarrow> b \<in> set (carried_to root gc) \<Longrightarrow> (a, b) \<in> spread g"
  by (auto simp: spread_def carried_to_def)

lemma next_edges_spread: "e \<in> set (next_edges g root cn st) \<Longrightarrow> (cn, de_to e) \<in> spread g"
  by (auto simp: next_edges_iff intro: carried_spread)

lemma next_edges_failing: "e \<in> set (next_edges g root cn st) \<Longrightarrow> failing g (de_to e) (de_state e)"
  by (auto simp: next_edges_iff failing_def)

lemma passes_to_iff:
  "failing g cn st \<Longrightarrow> passes_to g root cn st d ds label \<longleftrightarrow>
     \<lparr>de_to = d, de_state = ds, de_label = label\<rparr> \<in> set (next_edges g root cn st)"
  by (auto simp: failing_def passes_to_def next_edges_iff)

lemma finite_spread: "finite (spread g)"
proof -
  have "spread g \<subseteq> set (keys g) \<times> (\<Union>(n, gc)\<in>set g. gl_to ` set (gc_dependents gc))"
    by (force simp: spread_def dest: map_of_SomeD map_of_in_keys)
  then show ?thesis by (rule finite_subset) (auto simp: split_def)
qed

lemma spread_induct [consumes 1, case_names node]:
  assumes "simple_graph g" and "\<And>a. (\<And>b. (a, b) \<in> spread g \<Longrightarrow> P b) \<Longrightarrow> P a"
  shows "P a"
proof -
  have "wf ((spread g)\<inverse>)"
    using assms(1) finite_spread [of g] by (auto simp: simple_graph_def intro: finite_acyclic_wf_converse)
  then show ?thesis by (induction a rule: wf_induct_rule) (auto intro: assms(2))
qed

lemma acyclic_spread: "simple_graph g \<Longrightarrow> (a, b) \<in> spread g \<Longrightarrow> (b, a) \<notin> (spread g)\<^sup>*"
  unfolding simple_graph_def acyclic_def by (blast dest: rtrancl_into_trancl2)

text \<open>Without cycles the components passed are no restriction.\<close>

lemma failure_chain_visited:
  assumes simple: "simple_graph g"
  shows "failure_chain g root V cn st t \<Longrightarrow> \<forall>x\<in>V'. (cn, x) \<notin> (spread g)\<^sup>* \<Longrightarrow> failure_chain g root V' cn st t"
proof (induction arbitrary: V' rule: failure_chain.induct)
  case (alone name visited st)
  then show ?case by (intro failure_chain.alone) auto
next
  case (stops name visited st d ds label)
  then show ?case by (intro failure_chain.stops) auto
next
  case (goes_on name visited st d ds label suffix)
  from goes_on(2) have sp: "(name, d) \<in> spread g" by (elim passes_toE) (rule carried_spread)
  have "\<forall>x\<in>insert name V'. (d, x) \<notin> (spread g)\<^sup>*"
    using goes_on(5) acyclic_spread [OF simple sp] sp by (auto intro: converse_rtrancl_into_rtrancl)
  with goes_on show ?case by (intro failure_chain.goes_on) auto
qed

lemma failure_chain_insert:
  assumes "simple_graph g" and "(cn, d) \<in> spread g"
  shows "failure_chain g root (insert cn {}) d ds t \<longleftrightarrow> failure_chain g root {} d ds t"
  using acyclic_spread [OF assms] by (auto intro: failure_chain_visited [OF assms(1)])

text \<open>The failure chains of a state, one edge at a time.\<close>

lemma failure_chain_edges:
  assumes simple: "simple_graph g" and ok: "failing g cn st"
  shows "failure_chain g root {} cn st t \<longleftrightarrow>
     (\<exists>e\<in>set (next_edges g root cn st). \<exists>u\<in>tails g root (de_to e) (de_state e). t = head_step cn st (de_label e) # u) \<or>
     carried_nowhere g root cn \<and> observed_facts g cn \<noteq> [] \<and> t = [last_step cn st (observed_facts g cn)]"
    (is "_ \<longleftrightarrow> ?edge \<or> ?alone")
proof
  assume "failure_chain g root {} cn st t"
  then show "?edge \<or> ?alone"
  proof (cases rule: failure_chain.cases)
    case (stops d ds label)
    then show ?thesis using passes_to_iff [OF ok]
      by (intro disjI1 bexI [of _ "\<lparr>de_to = d, de_state = ds, de_label = label\<rparr>"]) (auto simp: tails_def)
  next
    case (goes_on d ds label suffix)
    have e: "\<lparr>de_to = d, de_state = ds, de_label = label\<rparr> \<in> set (next_edges g root cn st)"
      using goes_on passes_to_iff [OF ok] by blast
    then have "failure_chain g root {} d ds suffix"
      using goes_on failure_chain_insert [OF simple] next_edges_spread [OF e] by simp
    with e goes_on show ?thesis
      by (intro disjI1 bexI [OF _ e]) (auto simp: tails_def)
  qed auto
next
  assume "?edge \<or> ?alone"
  then show "failure_chain g root {} cn st t"
  proof
    assume ?edge
    then obtain e u where e: "e \<in> set (next_edges g root cn st)" "u \<in> tails g root (de_to e) (de_state e)"
      "t = head_step cn st (de_label e) # u" by blast
    have eta: "\<lparr>de_to = de_to e, de_state = de_state e, de_label = de_label e\<rparr> = e" by (cases e) simp
    have pass: "passes_to g root cn st (de_to e) (de_state e) (de_label e)"
      by (simp only: passes_to_iff [OF ok] eta e(1))
    from e(2) show ?thesis unfolding tails_def
    proof (elim CollectE disjE conjE)
      assume "failure_chain g root {} (de_to e) (de_state e) u"
      then show ?thesis unfolding e(3)
        using pass failure_chain_insert [OF simple next_edges_spread [OF e(1)]] by (intro failure_chain.goes_on) auto
    next
      assume "observed_facts g (de_to e) \<noteq> []" "u = [last_step (de_to e) (de_state e) (observed_facts g (de_to e))]"
      then show ?thesis using pass by (auto simp: e(3) intro: failure_chain.stops)
    qed
  qed (auto intro: failure_chain.alone)
qed

lemma tails_unfold:
  assumes "simple_graph g" and "failing g cn st"
  shows "tails g root cn st =
     (if observed_facts g cn \<noteq> [] then {[last_step cn st (observed_facts g cn)]} else {}) \<union>
     (\<Union>e\<in>set (next_edges g root cn st). (#) (head_step cn st (de_label e)) ` tails g root (de_to e) (de_state e))"
  by (subst tails_def) (auto simp: failure_chain_edges [OF assms])

lemma tails_hd: "t \<in> tails g root cn st \<Longrightarrow> \<exists>s ss. t = s # ss \<and> sp_component s = cn \<and> sp_state s = gs_name st"
  by (auto simp: tails_def last_step_def head_step_def elim: failure_chain.cases)

definition live_tails :: "liveness \<Rightarrow> failure_graph \<Rightarrow> string \<Rightarrow> string \<Rightarrow> graph_state \<Rightarrow> step list set" where
  "live_tails live g root cn st = {t \<in> tails g root cn st. chain_live live t}"

lemma chain_live_head:
  assumes "u \<in> tails g root d ds"
  shows "chain_live live (head_step cn st label # u) \<longleftrightarrow>
     live_node live cn (gs_name st) \<and> live_edge live cn d \<and> chain_live live u"
  using tails_hd [OF assms] by (auto simp: head_step_def)

lemma chain_live_node: "u \<in> tails g root d ds \<Longrightarrow> chain_live live u \<Longrightarrow> live_node live d (gs_name ds)"
  using tails_hd [of u g root d ds] by (cases "tl u") auto

lemma live_tails_unfold:
  assumes simple: "simple_graph g" and ok: "failing g cn st" and live: "live_node live cn (gs_name st)"
  shows "live_tails live g root cn st =
     (if observed_facts g cn \<noteq> [] then {[last_step cn st (observed_facts g cn)]} else {}) \<union>
     (\<Union>e\<in>set (filter (edge_live live cn) (next_edges g root cn st)).
        (#) (head_step cn st (de_label e)) ` live_tails live g root (de_to e) (de_state e))"
proof -
  let ?last = "[last_step cn st (observed_facts g cn)]"
  have last: "chain_live live ?last" using live by (simp add: last_step_def)
  have edge: "chain_live live (head_step cn st (de_label e) # u) \<longleftrightarrow> edge_live live cn e \<and> chain_live live u"
    if "u \<in> tails g root (de_to e) (de_state e)" for e u
    using chain_live_head [OF that] chain_live_node [OF that] live by (auto simp: edge_live_def)
  have "t \<in> live_tails live g root cn st \<longleftrightarrow> observed_facts g cn \<noteq> [] \<and> t = ?last \<or>
      (\<exists>e\<in>set (next_edges g root cn st). \<exists>u\<in>tails g root (de_to e) (de_state e).
         t = head_step cn st (de_label e) # u \<and> chain_live live t)" for t
    unfolding live_tails_def tails_unfold [OF simple ok] using last by auto
  also have "\<dots> t \<longleftrightarrow> observed_facts g cn \<noteq> [] \<and> t = ?last \<or>
      (\<exists>e\<in>set (next_edges g root cn st). \<exists>u\<in>tails g root (de_to e) (de_state e).
         t = head_step cn st (de_label e) # u \<and> edge_live live cn e \<and> chain_live live u)" for t
    using edge by blast
  finally show ?thesis by (auto simp: live_tails_def)
qed

lemma finite_tails:
  assumes "simple_graph g"
  shows "failing g cn st \<Longrightarrow> finite (tails g root cn st)"
  using assms
proof (induction cn arbitrary: st rule: spread_induct)
  case (node a)
  have "finite (tails g root (de_to e) (de_state e))" if "e \<in> set (next_edges g root a st)" for e
    using node(1) [OF next_edges_spread [OF that] next_edges_failing [OF that]] .
  then show ?case unfolding tails_unfold [OF assms node(2)] by auto
qed

lemma finite_live_tails: "simple_graph g \<Longrightarrow> failing g cn st \<Longrightarrow> finite (live_tails live g root cn st)"
  by (simp add: live_tails_def finite_tails)

text \<open>The edges from a node lead to different nodes, so their chains are different.\<close>

lemma distinct_concat_keys:
  assumes "distinct ds" and "\<And>d. d \<in> set ds \<Longrightarrow> distinct (map f (F d))"
    and "\<And>d e. d \<in> set ds \<Longrightarrow> e \<in> set (F d) \<Longrightarrow> fst (f e) = d"
  shows "distinct (map f (concat (map F ds)))"
  using assms
proof (induction ds)
  case (Cons d ds)
  have "distinct (map f (concat (map F ds)))" using Cons by simp
  moreover have "f ` set (F d) \<inter> f ` set (concat (map F ds)) = {}"
  proof (intro equals0I, elim IntE imageE)
    fix k e e' assume e: "k = f e" "e \<in> set (F d)" and e': "k = f e'" "e' \<in> set (concat (map F ds))"
    from e' obtain d' where d': "d' \<in> set ds" "e' \<in> set (F d')" by auto
    have "d = fst (f e)" using Cons.prems(3) [of d e] e by simp
    also have "\<dots> = fst (f e')" using e(1) e'(1) by simp
    also have "\<dots> = d'" using Cons.prems(3) [of d' e'] d' by simp
    finally show False using Cons.prems(1) d'(1) by simp
  qed
  ultimately show ?case using Cons.prems(2) [of d] by simp
qed simp

lemma distinct_next_edges:
  assumes "simple_graph g"
  shows "distinct (map edge_key (next_edges g root cn st))"
proof (cases "map_of g cn")
  case None
  then show ?thesis by (simp add: next_edges_def)
next
  case (Some gc)
  have "distinct (map gl_to (gc_dependents gc))" using assms Some by (auto simp: simple_graph_def)
  then have d: "distinct (carried_to root gc)" unfolding carried_to_def by (rule distinct_map_filter)
  have inner: "distinct (map edge_key (concat (map (\<lambda>ds. let m = match_edge_label (gs_emits st) (gs_triggered_by ds)
        in if m \<noteq> [] then [\<lparr>de_to = dn, de_state = ds, de_label = m\<rparr>] else []) sts)))"
    if "distinct (map gs_name sts)" for dn sts
    using that by (induction sts) (auto simp: edge_key_def Let_def split: if_splits)
  show ?thesis unfolding next_edges_def Some option.case
  proof (rule distinct_concat_keys [OF d], goal_cases)
    case (1 dn)
    show ?case using inner assms by (cases "map_of g dn") (auto simp: simple_graph_def)
  next
    case (2 dn e)
    then show ?case by (cases "map_of g dn") (auto simp: edge_key_def Let_def split: if_splits)
  qed
qed

definition edge_chains :: "liveness \<Rightarrow> failure_graph \<Rightarrow> string \<Rightarrow> string \<Rightarrow> graph_state \<Rightarrow> step list set" where
  "edge_chains live g root cn st =
     (\<Union>e\<in>set (filter (edge_live live cn) (next_edges g root cn st)).
        (#) (head_step cn st (de_label e)) ` live_tails live g root (de_to e) (de_state e))"

lemma finite_edge_chains: "simple_graph g \<Longrightarrow> finite (edge_chains live g root cn st)"
  by (auto simp: edge_chains_def intro: finite_live_tails next_edges_failing)

lemma card_edge_chains:
  assumes simple: "simple_graph g"
  shows "card (edge_chains live g root cn st) =
     (\<Sum>e\<leftarrow>filter (edge_live live cn) (next_edges g root cn st). card (live_tails live g root (de_to e) (de_state e)))"
proof -
  let ?es = "filter (edge_live live cn) (next_edges g root cn st)"
  let ?C = "\<lambda>e. (#) (head_step cn st (de_label e)) ` live_tails live g root (de_to e) (de_state e)"
  have keys: "distinct (map edge_key ?es)" using distinct_next_edges [OF simple] by (rule distinct_map_filter)
  have fin: "finite (live_tails live g root (de_to e) (de_state e))" if "e \<in> set ?es" for e
    using that finite_live_tails [OF simple] next_edges_failing by auto
  have disj: "?C e \<inter> ?C e' = {}" if "e \<in> set ?es" "e' \<in> set ?es" "e \<noteq> e'" for e e'
  proof -
    have "edge_key e \<noteq> edge_key e'" using that keys by (auto simp: distinct_map inj_on_def)
    then show ?thesis by (fastforce simp: live_tails_def edge_key_def dest: tails_hd)
  qed
  have img: "card (?C e) = card (live_tails live g root (de_to e) (de_state e))" for e
    by (intro card_image) (auto simp: inj_on_def)
  have "card (\<Union>e\<in>set ?es. ?C e) = (\<Sum>e\<in>set ?es. card (?C e))"
    using fin disj by (intro card_UN_disjoint) auto
  also have "\<dots> = (\<Sum>e\<leftarrow>?es. card (?C e))"
    using keys by (simp add: sum_list_distinct_conv_sum_set distinct_map)
  finally show ?thesis by (simp only: img edge_chains_def)
qed

lemma card_live_tails:
  assumes simple: "simple_graph g" and ok: "failing g cn st" and live: "live_node live cn (gs_name st)"
  shows "card (live_tails live g root cn st) =
     (if observed_facts g cn \<noteq> [] then 1 else 0) +
     (\<Sum>e\<leftarrow>filter (edge_live live cn) (next_edges g root cn st). card (live_tails live g root (de_to e) (de_state e)))"
proof -
  let ?O = "if observed_facts g cn \<noteq> [] then {[last_step cn st (observed_facts g cn)]} else {}"
  have "?O \<inter> edge_chains live g root cn st = {}" by (auto simp: edge_chains_def live_tails_def dest: tails_hd)
  then have "card (?O \<union> edge_chains live g root cn st) = card ?O + card (edge_chains live g root cn st)"
    using finite_edge_chains [OF simple] by (intro card_Un_disjoint) auto
  moreover have "card ?O = (if observed_facts g cn \<noteq> [] then 1 else 0)" by simp
  ultimately show ?thesis
    by (simp only: live_tails_unfold [OF simple ok live] card_edge_chains [OF simple, symmetric] edge_chains_def)
qed

subsection \<open>The memoised count is the number of live chains\<close>

definition memo_ok :: "liveness \<Rightarrow> failure_graph \<Rightarrow> string \<Rightarrow> dp_memo \<Rightarrow> bool" where
  "memo_ok live g root memo \<longleftrightarrow>
     (\<forall>cn st n. failing g cn st \<longrightarrow> live_node live cn (gs_name st) \<longrightarrow> fst memo (cn, gs_name st) = Some n \<longrightarrow>
        n = of_nat (card (live_tails live g root cn st)))"

lemma memo_ok_empty [simp]: "memo_ok live g root (Map.empty, err)"
  by (simp add: memo_ok_def)

lemma failing_unique:
  "simple_graph g \<Longrightarrow> failing g cn st \<Longrightarrow> failing g cn st' \<Longrightarrow> gs_name st = gs_name st' \<Longrightarrow> st = st'"
  by (auto simp: simple_graph_def failing_def distinct_map inj_on_def)

lemma memo_ok_upd:
  assumes "simple_graph g" and "failing g cn st" and "memo_ok live g root (suf, err)"
  shows "memo_ok live g root (suf((cn, gs_name st) \<mapsto> of_nat (card (live_tails live g root cn st))), err')"
proof -
  have "sta = st" if "failing g cn sta" "gs_name sta = gs_name st" for sta
    using failing_unique [OF assms(1) that(1) assms(2) that(2)] .
  then show ?thesis using assms(3) by (auto simp: memo_ok_def)
qed

definition counted :: "liveness \<Rightarrow> failure_graph \<Rightarrow> string \<Rightarrow> bool \<Rightarrow> nat \<Rightarrow> 64 word \<times> dp_memo \<Rightarrow> bool" where
  "counted live g root err n res \<longleftrightarrow> fst res = of_nat n \<and> memo_ok live g root (snd res) \<and> snd (snd res) = err"

lemma suffixes_counted:
  "simple_graph g \<Longrightarrow> failing g cn st \<Longrightarrow> live_node live cn (gs_name st) \<Longrightarrow> memo_ok live g root memo \<Longrightarrow>
   \<forall>b\<in>busy. (fst b, cn) \<in> (spread g)\<^sup>+ \<Longrightarrow>
   counted live g root (snd memo) (card (live_tails live g root cn st)) (suffixes g live root busy cn st memo)"
  "simple_graph g \<Longrightarrow> \<forall>e\<in>set es. failing g (de_to e) (de_state e) \<and> (cn, de_to e) \<in> spread g \<Longrightarrow>
   memo_ok live g root memo \<Longrightarrow> \<forall>b\<in>busy. (fst b, cn) \<in> (spread g)\<^sup>* \<Longrightarrow>
   counted live g root (snd memo) (\<Sum>e\<leftarrow>filter (edge_live live cn) es. card (live_tails live g root (de_to e) (de_state e)))
     (suffix_sum g live root busy cn es memo)"
proof (induction g live root busy cn st memo and g live root busy cn es memo rule: suffixes_suffix_sum.induct)
  case (1 g live root busy cn st suf err)
  note simple = 1(2) and ok = 1(3) and live = 1(4) and memo = 1(5)
  have idle: "(cn, gs_name st) \<notin> busy"
    using 1(6) simple by (auto simp: simple_graph_def acyclic_def)
  show ?case
  proof (cases "suf (cn, gs_name st)")
    case (Some n)
    then show ?thesis using ok live memo by (auto simp: suffixes.simps memo_ok_def counted_def)
  next
    case None
    let ?es = "next_edges g root cn st" and ?busy = "insert (cn, gs_name st) busy"
    obtain s suf1 err1 where sum: "suffix_sum g live root ?busy cn ?es (suf, err) = (s, (suf1, err1))"
      by (metis prod.exhaust)
    have "\<forall>b\<in>?busy. (fst b, cn) \<in> (spread g)\<^sup>*" using 1(6) by (auto dest: trancl_into_rtrancl)
    then have "counted live g root err (\<Sum>e\<leftarrow>filter (edge_live live cn) ?es. card (live_tails live g root (de_to e) (de_state e)))
        (suffix_sum g live root ?busy cn ?es (suf, err))"
      using 1(1) [OF None idle simple _ memo] next_edges_failing next_edges_spread by auto
    then have s: "s = of_nat (\<Sum>e\<leftarrow>filter (edge_live live cn) ?es. card (live_tails live g root (de_to e) (de_state e)))"
      "memo_ok live g root (suf1, err1)" "err1 = err" by (auto simp: sum counted_def)
    have n: "(if observed_facts g cn \<noteq> [] then 1 else 0) + s = of_nat (card (live_tails live g root cn st))"
      by (simp add: s(1) card_live_tails [OF simple ok live])
    have "suffixes g live root busy cn st (suf, err) = (of_nat (card (live_tails live g root cn st)),
        (suf1((cn, gs_name st) \<mapsto> of_nat (card (live_tails live g root cn st))), err1))"
      unfolding suffixes.simps None option.case if_not_P [OF idle] sum Let_def prod.case n ..
    then show ?thesis using memo_ok_upd [OF simple ok s(2)] s(3) by (simp add: counted_def)
  qed
next
  case (2 g live root busy cn memo)
  then show ?case by (simp add: counted_def)
next
  case (3 g live root busy cn e es memo)
  show ?case
  proof (cases "edge_live live cn e")
    case True
    obtain a memo1 where a: "suffixes g live root busy (de_to e) (de_state e) memo = (a, memo1)" by (metis prod.exhaust)
    have "live_node live (de_to e) (gs_name (de_state e))" using True by (simp add: edge_live_def)
    moreover have "\<forall>b\<in>busy. (fst b, de_to e) \<in> (spread g)\<^sup>+" using 3(5,7) by (auto intro: rtrancl_into_trancl1)
    ultimately have "counted live g root (snd memo) (card (live_tails live g root (de_to e) (de_state e))) (a, memo1)"
      using 3(1) [OF True] 3(4-6) a by auto
    moreover from this have "counted live g root (snd memo1)
        (\<Sum>e\<leftarrow>filter (edge_live live cn) es. card (live_tails live g root (de_to e) (de_state e)))
        (suffix_sum g live root busy cn es memo1)"
      using 3(2) [OF True a [symmetric]] 3(4,5,7) by (auto simp: counted_def)
    ultimately show ?thesis using True a by (auto simp: counted_def split_def)
  next
    case False
    then show ?thesis using 3 by simp
  qed
qed

subsection \<open>The chains of a root\<close>

definition root_set :: "failure_graph \<Rightarrow> string \<Rightarrow> graph_state \<Rightarrow> step list set" where
  "root_set g cn st =
     {t. failure_chain g cn {} cn st t \<or>
         (\<forall>c. \<not> failure_chain g cn {} cn st c) \<and> observed_facts g cn \<noteq> [] \<and> t = [last_step cn st (observed_facts g cn)]}"

lemma chain_live_all: "chain_live all_live t"
  by (induction all_live t rule: chain_live.induct) (simp_all add: live_node_def live_edge_def all_live_def)

lemma live_tails_all [simp]: "live_tails all_live g root cn st = tails g root cn st"
  by (simp add: live_tails_def chain_live_all)

lemma edge_live_all [simp]: "edge_live all_live cn e"
  by (simp add: edge_live_def live_node_def live_edge_def all_live_def)

lemma live_node_all [simp]: "live_node all_live cn n"
  by (simp add: live_node_def all_live_def)

lemma nowhere_no_edges: "carried_nowhere g root cn \<Longrightarrow> next_edges g root cn st = []"
  by (auto simp: carried_nowhere_def next_edges_def)

lemma root_set_eq:
  assumes simple: "simple_graph g" and ok: "failing g cn st"
  shows "root_set g cn st =
     (if edge_chains all_live g cn cn st \<noteq> {} then edge_chains all_live g cn cn st
      else if observed_facts g cn \<noteq> [] then {[last_step cn st (observed_facts g cn)]} else {})"
proof -
  have fc: "failure_chain g cn {} cn st t \<longleftrightarrow> t \<in> edge_chains all_live g cn cn st \<or>
      carried_nowhere g cn cn \<and> observed_facts g cn \<noteq> [] \<and> t = [last_step cn st (observed_facts g cn)]" for t
    unfolding failure_chain_edges [OF simple ok] by (auto simp: edge_chains_def)
  have "edge_chains all_live g cn cn st = {}" if "carried_nowhere g cn cn"
    using nowhere_no_edges [OF that] by (simp add: edge_chains_def)
  then show ?thesis unfolding root_set_def fc by auto
qed

lemma edge_chains_live:
  assumes "live_node live cn (gs_name st)"
  shows "edge_chains live g root cn st = {t \<in> edge_chains all_live g root cn st. chain_live live t}"
proof -
  have "chain_live live (head_step cn st (de_label e) # u) \<longleftrightarrow> edge_live live cn e \<and> chain_live live u"
    if "u \<in> tails g root (de_to e) (de_state e)" for e u
    using chain_live_head [OF that] chain_live_node [OF that] assms by (auto simp: edge_live_def)
  then show ?thesis
    unfolding edge_chains_def live_tails_all unfolding live_tails_def by auto
qed

lemma edge_chains_start: "t \<in> edge_chains live g root cn st \<Longrightarrow> \<exists>s ss. t = s # ss \<and> sp_component s = cn \<and> sp_state s = gs_name st"
  by (auto simp: edge_chains_def head_step_def)

lemma chain_live_start: "chain_live live (s # ss) \<Longrightarrow> live_node live (sp_component s) (sp_state s)"
  by (cases ss) auto

lemma root_set_start:
  assumes "simple_graph g" and "failing g cn st" and "t \<in> root_set g cn st"
  shows "\<exists>s ss. t = s # ss \<and> sp_component s = cn \<and> sp_state s = gs_name st"
  using assms(3) edge_chains_start
  by (auto simp: root_set_eq [OF assms(1,2)] last_step_def split: if_splits)

lemma stands_alone_loop_iff:
  assumes simple: "simple_graph g"
  shows "\<forall>e\<in>set es. failing g (de_to e) (de_state e) \<and> card (tails g cn (de_to e) (de_state e)) < 2 ^ 63 \<Longrightarrow>
    memo_ok all_live g cn memo \<Longrightarrow>
    stands_alone_loop g cn es memo \<longleftrightarrow> (\<forall>e\<in>set es. tails g cn (de_to e) (de_state e) = {})"
proof (induction es arbitrary: memo)
  case (Cons e es)
  obtain n memo1 where n: "suffixes g all_live cn {} (de_to e) (de_state e) memo = (n, memo1)" by (metis prod.exhaust)
  let ?k = "card (tails g cn (de_to e) (de_state e))"
  have ok: "failing g (de_to e) (de_state e)" and small: "?k < 2 ^ 63" using Cons.prems(1) by auto
  have c: "n = of_nat ?k" "memo_ok all_live g cn memo1"
    using suffixes_counted(1) [OF simple ok _ Cons.prems(2), of "{}"] by (auto simp: n counted_def)
  have "sint (of_nat ?k :: 64 word) = int ?k" using small by (simp add: signed_of_nat signed_take_bit_int_eq_self)
  then have "0 <s n \<longleftrightarrow> ?k \<noteq> 0" by (simp add: c(1) word_sless_alt)
  also have "\<dots> \<longleftrightarrow> tails g cn (de_to e) (de_state e) \<noteq> {}" using finite_tails [OF simple ok] by simp
  finally show ?case using Cons.IH [OF _ c(2)] Cons.prems(1) by (auto simp: n)
qed simp

lemma card_tails_root:
  assumes simple: "simple_graph g" and ok: "failing g cn st" and e: "e \<in> set (next_edges g cn cn st)"
  shows "card (tails g cn (de_to e) (de_state e)) \<le> card (root_set g cn st)"
proof (cases "tails g cn (de_to e) (de_state e) = {}")
  case False
  have sub: "(#) (head_step cn st (de_label e)) ` tails g cn (de_to e) (de_state e) \<subseteq> edge_chains all_live g cn cn st"
    using e by (auto simp: edge_chains_def)
  with False have "edge_chains all_live g cn cn st = root_set g cn st" by (auto simp: root_set_eq [OF simple ok])
  moreover have "card ((#) (head_step cn st (de_label e)) ` tails g cn (de_to e) (de_state e)) =
      card (tails g cn (de_to e) (de_state e))" by (intro card_image) (auto simp: inj_on_def)
  ultimately show ?thesis using card_mono [OF finite_edge_chains [OF simple] sub] by simp
qed simp

lemma root_stands_alone_iff:
  assumes simple: "simple_graph g" and ok: "failing g cn st" and small: "card (root_set g cn st) < 2 ^ 63"
  shows "root_stands_alone g cn st \<longleftrightarrow> observed_facts g cn \<noteq> [] \<and> edge_chains all_live g cn cn st = {}"
proof -
  have "stands_alone_loop g cn (next_edges g cn cn st) (Map.empty, False) \<longleftrightarrow>
      (\<forall>e\<in>set (next_edges g cn cn st). tails g cn (de_to e) (de_state e) = {})"
    using card_tails_root [OF simple ok] small next_edges_failing
    by (intro stands_alone_loop_iff [OF simple]) (auto intro: le_less_trans)
  also have "\<dots> \<longleftrightarrow> edge_chains all_live g cn cn st = {}" by (auto simp: edge_chains_def)
  finally show ?thesis by (simp add: root_stands_alone_def)
qed

lemma word_count_zero: "k < 2 ^ 63 \<Longrightarrow> (of_nat k :: 64 word) = 0 \<longleftrightarrow> k = 0"
proof
  assume "k < 2 ^ 63" and "(of_nat k :: 64 word) = 0"
  then show "k = 0" using dvd_imp_le [of "2 ^ 64" k] by (cases "k = 0") (auto simp: word_of_nat_eq_0_iff)
qed simp

lemma word_count_unat: "k < 2 ^ 63 \<Longrightarrow> unat (of_nat k :: 64 word) = k"
  by (simp add: unat_of_nat take_bit_nat_eq_self)

text \<open>What \<open>fromRoot\<close> counts.\<close>

lemma from_root_total:
  assumes simple: "simple_graph g" and ok: "failing g cn st" and small: "card (root_set g cn st) < 2 ^ 63"
  shows "\<exists>touch'. from_root g cn st live touch = Some (of_nat (card {t \<in> root_set g cn st. chain_live live t}), touch')"
proof -
  have fin: "finite (root_set g cn st)"
    using finite_edge_chains [OF simple] by (auto simp: root_set_eq [OF simple ok])
  show ?thesis
  proof (cases "live_node live cn (gs_name st)")
    case False
    have none: "{t \<in> root_set g cn st. chain_live live t} = {}"
      using False root_set_start [OF simple ok] chain_live_start by force
    show ?thesis unfolding none using False by (simp add: from_root_def)
  next
    case True
    let ?X = "edge_chains live g cn cn st" and ?all = "edge_chains all_live g cn cn st"
    obtain sum suf err where s: "suffix_sum g live cn {} cn (next_edges g cn cn st) (Map.empty, False) = (sum, (suf, err))"
      by (metis prod.exhaust)
    have "counted live g cn False (card ?X) (sum, (suf, err))"
      using suffixes_counted(2) [OF simple, of "next_edges g cn cn st" cn live cn "(Map.empty, False)" "{}"]
        next_edges_failing next_edges_spread
      by (auto simp: s card_edge_chains [OF simple])
    then have sum: "sum = of_nat (card ?X)" "err = False" by (auto simp: counted_def)
    have live_X: "?X = {t \<in> ?all. chain_live live t}" by (rule edge_chains_live [OF True])
    have "card ?X \<le> card (root_set g cn st)"
      by (intro card_mono [OF fin]) (auto simp: live_X root_set_eq [OF simple ok])
    then have "card ?X < 2 ^ 63" using small by simp
    then have zero: "sum = 0 \<longleftrightarrow> ?X = {}"
      using finite_edge_chains [OF simple, of live cn cn st] by (simp add: sum(1) word_count_zero)
    have last: "live_node live (sp_component (last_step cn st obs)) (sp_state (last_step cn st obs))" for obs
      using True by (simp add: last_step_def)
    have total: "(if sum = 0 \<and> root_stands_alone g cn st then 1 else sum) =
        of_nat (card {t \<in> root_set g cn st. chain_live live t})"
    proof (cases "?all = {}")
      case True
      then have "?X = {}" using live_X by simp
      with True show ?thesis
        by (auto simp: sum(1) root_stands_alone_iff [OF simple ok small] root_set_eq [OF simple ok] last Collect_conv_if)
    next
      case False
      then show ?thesis
        by (simp add: sum(1) root_stands_alone_iff [OF simple ok small] root_set_eq [OF simple ok] live_X)
    qed
    show ?thesis
      using True total by (auto simp: from_root_def s sum(2) Let_def split_def)
  qed
qed

subsection \<open>All roots\<close>

lemma state_named_failing: "simple_graph g \<Longrightarrow> failing g cn st \<Longrightarrow> state_named g cn (gs_name st) = st"
proof -
  assume simple: "simple_graph g" and ok: "failing g cn st"
  then obtain gc where gc: "map_of g cn = Some gc" "st \<in> set (gc_states gc)" "\<not> gc_unresolved gc"
    by (auto simp: failing_def)
  then obtain st' where st': "List.find (\<lambda>s. gs_name s = gs_name st) (gc_states gc) = Some st'"
    using find_None_all [of "\<lambda>s. gs_name s = gs_name st" "gc_states gc" st] by fastforce
  from find_Some_in [OF this] have "st' = st"
    using failing_unique [OF simple _ ok, of st'] gc by (auto simp: failing_def)
  then show ?thesis by (simp add: state_named_def gc(1) st')
qed

lemma graph_roots_set: "(n, name) \<in> set (graph_roots g) \<longleftrightarrow> (\<exists>st. failing g n st \<and> name = gs_name st)"
proof -
  have "(n, name) \<in> set (graph_roots g) \<longleftrightarrow> (\<exists>m\<in>set (keys g). (n, name) \<in> set
      (case map_of g m of None \<Rightarrow> [] | Some gc \<Rightarrow> if gc_unresolved gc then [] else map (\<lambda>st. (m, gs_name st)) (gc_states gc)))"
    by (simp add: graph_roots_def)
  moreover have "(n, name) \<in> set
      (case map_of g m of None \<Rightarrow> [] | Some gc \<Rightarrow> if gc_unresolved gc then [] else map (\<lambda>st. (m, gs_name st)) (gc_states gc)) \<longleftrightarrow>
      m = n \<and> (\<exists>gc. map_of g n = Some gc \<and> \<not> gc_unresolved gc \<and> name \<in> gs_name ` set (gc_states gc))" for m
    by (cases "map_of g m") auto
  ultimately have "(n, name) \<in> set (graph_roots g) \<longleftrightarrow>
      (\<exists>gc. map_of g n = Some gc \<and> \<not> gc_unresolved gc \<and> name \<in> gs_name ` set (gc_states gc))"
    using map_of_in_keys [of g n] by blast
  then show ?thesis by (auto simp: failing_def)
qed

lemma distinct_graph_roots: "simple_graph g \<Longrightarrow> distinct (graph_roots g)"
proof -
  assume simple: "simple_graph g"
  have "distinct (map id (graph_roots g))"
    unfolding graph_roots_def
  proof (rule distinct_concat_keys, goal_cases)
    case 1
    show ?case using simple by (simp add: simple_graph_def wf_dict_def)
  next
    case (2 n)
    show ?case using simple
      by (cases "map_of g n") (auto simp: simple_graph_def distinct_map inj_on_def)
  next
    case (3 n e)
    then show ?case by (cases "map_of g n") (auto split: if_splits)
  qed
  then show ?thesis by simp
qed

definition root_live :: "failure_graph \<Rightarrow> liveness \<Rightarrow> dp_key \<Rightarrow> step list set" where
  "root_live g live k = {t \<in> root_set g (fst k) (state_named g (fst k) (snd k)). chain_live live t}"

definition ref_of :: "dp_key \<Rightarrow> root_ref" where
  "ref_of k = \<lparr>rr_component = fst k, rr_state = snd k\<rparr>"

definition live_listed :: "failure_graph \<Rightarrow> liveness \<Rightarrow> (root_ref \<times> step list) set" where
  "live_listed g live = {(R, t). listed g R t \<and> chain_live live t}"

lemma listed_root:
  assumes simple: "simple_graph g"
  shows "listed g R t \<longleftrightarrow> (rr_component R, rr_state R) \<in> set (graph_roots g) \<and>
     t \<in> root_set g (rr_component R) (state_named g (rr_component R) (rr_state R))"
proof -
  have "listed g R t \<longleftrightarrow> (\<exists>st. failing g (rr_component R) st \<and> gs_name st = rr_state R \<and> t \<in> root_set g (rr_component R) st)"
    by (auto simp: listed_def failing_def root_set_def observed_facts_def)
  then show ?thesis unfolding graph_roots_set using state_named_failing [OF simple] by metis
qed

lemma live_listed_roots:
  assumes "simple_graph g"
  shows "live_listed g live = (\<Union>k\<in>set (graph_roots g). Pair (ref_of k) ` root_live g live k)"
proof -
  have "(R, t) \<in> live_listed g live \<longleftrightarrow> (R, t) \<in> (\<Union>k\<in>set (graph_roots g). Pair (ref_of k) ` root_live g live k)" for R t
    by (cases R) (force simp: live_listed_def listed_root [OF assms] root_live_def ref_of_def)
  then show ?thesis by auto
qed

lemma finite_root_live: "simple_graph g \<Longrightarrow> k \<in> set (graph_roots g) \<Longrightarrow> finite (root_live g live k)"
proof -
  assume simple: "simple_graph g" and "k \<in> set (graph_roots g)"
  then obtain st where st: "failing g (fst k) st" "snd k = gs_name st"
    using graph_roots_set [of "fst k" "snd k" g] by auto
  then show ?thesis
    using finite_edge_chains [OF simple]
    by (auto simp: root_live_def state_named_failing [OF simple] root_set_eq [OF simple])
qed

lemma card_live_listed:
  assumes simple: "simple_graph g"
  shows "card (live_listed g live) = (\<Sum>k\<leftarrow>graph_roots g. card (root_live g live k))"
proof -
  have "card (live_listed g live) = (\<Sum>k\<in>set (graph_roots g). card (Pair (ref_of k) ` root_live g live k))"
    unfolding live_listed_roots [OF simple] using finite_root_live [OF simple]
    by (intro card_UN_disjoint) (auto simp: ref_of_def)
  also have "\<dots> = (\<Sum>k\<in>set (graph_roots g). card (root_live g live k))"
    by (intro sum.cong card_image) (auto simp: inj_on_def)
  also have "\<dots> = (\<Sum>k\<leftarrow>graph_roots g. card (root_live g live k))"
    using distinct_graph_roots [OF simple] by (simp add: sum_list_distinct_conv_sum_set)
  finally show ?thesis .
qed

lemma count_roots_total:
  assumes simple: "simple_graph g"
  shows "\<forall>k\<in>set rs. k \<in> set (graph_roots g) \<and> card (root_live g all_live k) < 2 ^ 63 \<Longrightarrow>
    \<exists>c'. count_roots g live rs c = Some c' \<and> ct_live c' = ct_live c + of_nat (\<Sum>k\<leftarrow>rs. card (root_live g live k))"
proof (induction rs arbitrary: c)
  case (Cons k rs)
  obtain n name where k: "k = (n, name)" by (cases k)
  then obtain st where st: "failing g n st" "name = gs_name st"
    using Cons.prems graph_roots_set [of n name g] by auto
  have small: "card (root_set g n st) < 2 ^ 63"
    using Cons.prems st by (auto simp: k root_live_def state_named_failing [OF simple] chain_live_all)
  obtain touch where touch: "from_root g n (state_named g n name) live (ct_touch c) = Some (of_nat (card (root_live g live k)), touch)"
    using from_root_total [OF simple st(1) small, of live "ct_touch c"] st
    by (auto simp: k root_live_def state_named_failing [OF simple])
  show ?case
    using Cons.IH [of "\<lparr>ct_live = ct_live c + of_nat (card (root_live g live k)), ct_touch = touch\<rparr>"] Cons.prems touch
    by (simp add: k add.assoc)
qed simp

lemma count_live_correct:
  assumes simple: "simple_graph g" and small: "card (live_listed g all_live) < 2 ^ 63"
  shows "\<exists>c. count_live g live = Some c \<and> unat (ct_live c) = card (live_listed g live)"
proof -
  have "card (root_live g all_live k) < 2 ^ 63" if "k \<in> set (graph_roots g)" for k
    using member_le_sum_list [of "card (root_live g all_live k)" "map (\<lambda>k. card (root_live g all_live k)) (graph_roots g)"]
      that small by (simp add: card_live_listed [OF simple])
  then obtain c where c: "count_live g live = Some c"
      "ct_live c = of_nat (\<Sum>k\<leftarrow>graph_roots g. card (root_live g live k))"
    using count_roots_total [OF simple, of "graph_roots g" live "\<lparr>ct_live = 0, ct_touch = (\<lambda>_. 0)\<rparr>"]
    by (auto simp: count_live_def)
  have "finite (live_listed g all_live)"
    unfolding live_listed_roots [OF simple] using finite_root_live [OF simple] by auto
  then have "card (live_listed g live) \<le> card (live_listed g all_live)"
    by (intro card_mono) (auto simp: live_listed_def chain_live_all)
  then have "unat (of_nat (card (live_listed g live)) :: 64 word) = card (live_listed g live)"
    using small by (intro word_count_unat) auto
  then show ?thesis using c by (simp add: card_live_listed [OF simple])
qed

subsection \<open>The count and the listing\<close>

definition step_key :: "step \<Rightarrow> string \<times> string" where
  "step_key s = (sp_component s, sp_state s)"

text \<open>No name holds the separator that ends it in a chain's key.\<close>

definition clean_names :: "failure_graph \<Rightarrow> bool" where
  "clean_names g \<longleftrightarrow> (\<forall>cn st. failing g cn st \<longrightarrow> CHR '':'' \<notin> set cn \<and> CHR ''>'' \<notin> set (gs_name st))"

lemma cut_same: "(sep :: char) \<notin> set a \<Longrightarrow> sep \<notin> set b \<Longrightarrow> a @ sep # x = b @ sep # y \<Longrightarrow> a = b \<and> x = y"
proof -
  assume "sep \<notin> set a" "sep \<notin> set b" and eq: "a @ sep # x = b @ sep # y"
  have "Some (a, x) = cut sep (a @ sep # x)" by (rule cut_append [symmetric]) fact
  also have "\<dots> = cut sep (b @ sep # y)" by (simp only: eq)
  also have "\<dots> = Some (b, y)" by (rule cut_append) fact
  finally show ?thesis by simp
qed

lemma chain_key_decodes:
  assumes "chain_key xs = chain_key ys"
    and "\<forall>s\<in>set xs \<union> set ys. CHR '':'' \<notin> set (sp_component s) \<and> CHR ''>'' \<notin> set (sp_state s)"
  shows "map step_key xs = map step_key ys"
  using assms
proof (induction xs arbitrary: ys)
  case Nil
  then show ?case by (cases ys) (simp_all add: chain_key_def)
next
  case (Cons x xs)
  from Cons.prems(1) obtain y ys' where ys: "ys = y # ys'" by (cases ys) (simp_all add: chain_key_def)
  let ?rest = "\<lambda>s ss. sp_state s @ CHR ''>'' # chain_key ss"
  from Cons.prems(1) have eq: "sp_component x @ CHR '':'' # ?rest x xs = sp_component y @ CHR '':'' # ?rest y ys'"
    by (simp add: chain_key_def ys)
  have clean: "CHR '':'' \<notin> set (sp_component x)" "CHR '':'' \<notin> set (sp_component y)"
      "CHR ''>'' \<notin> set (sp_state x)" "CHR ''>'' \<notin> set (sp_state y)"
    using Cons.prems(2) by (auto simp: ys)
  have 1: "sp_component x = sp_component y \<and> ?rest x xs = ?rest y ys'"
    by (rule cut_same [OF clean(1,2) eq])
  then have "sp_state x = sp_state y \<and> chain_key xs = chain_key ys'"
    using cut_same [OF clean(3,4)] by blast
  with 1 Cons.IH [of ys'] Cons.prems(2) show ?case by (simp add: ys step_key_def)
qed

lemma tails_determined:
  assumes simple: "simple_graph g"
  shows "failing g cn st \<Longrightarrow> t \<in> tails g root cn st \<Longrightarrow> t' \<in> tails g root cn st \<Longrightarrow>
    map step_key t = map step_key t' \<Longrightarrow> t = t'"
proof (induction t arbitrary: cn st t')
  case Nil
  then show ?case by simp
next
  case (Cons s u)
  note split = tails_unfold [OF simple Cons.prems(1), of root]
  show ?case
  proof (cases u)
    case Nil
    have last: "x = last_step cn st (observed_facts g cn)" if "[x] \<in> tails g root cn st" for x
    proof -
      have "[] \<notin> tails g root (de_to e) (de_state e)" for e
        using tails_hd by blast
      then show ?thesis using that unfolding split by (auto split: if_splits)
    qed
    obtain x where "t' = [x]" using Cons.prems(4) Nil by (cases t') auto
    then show ?thesis using last [of s] last [of x] Cons.prems(2,3) Nil by simp
  next
    case (Cons v vs)
    obtain s' v' vs' where t': "t' = s' # v' # vs'"
      using Cons.prems(4) Cons by (auto simp: Cons_eq_map_conv)
    from Cons.prems(2) Cons obtain e where e: "e \<in> set (next_edges g root cn st)" "s = head_step cn st (de_label e)"
        "u \<in> tails g root (de_to e) (de_state e)"
      unfolding split by (auto split: if_splits)
    from Cons.prems(3) t' obtain e' where e': "e' \<in> set (next_edges g root cn st)" "s' = head_step cn st (de_label e')"
        "v' # vs' \<in> tails g root (de_to e') (de_state e')"
      unfolding split by (auto split: if_splits)
    have "step_key v = step_key v'" using Cons.prems(4) Cons t' by simp
    then have "edge_key e = edge_key e'"
      using tails_hd [OF e(3)] tails_hd [OF e'(3)] Cons by (auto simp: step_key_def edge_key_def)
    then have "e = e'"
      using distinct_next_edges [OF simple, of root cn st] e(1) e'(1) by (auto simp: distinct_map inj_on_def)
    moreover from this have "u = v' # vs'"
      using Cons.IH [OF next_edges_failing [OF e(1)] e(3)] e'(3) Cons.prems(4) t' by simp
    ultimately show ?thesis using e(2) e'(2) t' by simp
  qed
qed

lemma failure_chain_failing:
  "failure_chain g root V cn st t \<Longrightarrow> failing g cn st \<Longrightarrow> s \<in> set t \<Longrightarrow>
   \<exists>st'. failing g (sp_component s) st' \<and> sp_state s = gs_name st'"
proof (induction arbitrary: s rule: failure_chain.induct)
  case (alone name visited st)
  then show ?case by (auto simp: last_step_def)
next
  case (stops name visited st d ds label)
  from stops(2) have "failing g d ds" by (auto elim!: passes_toE simp: failing_def)
  with stops show ?case by (auto simp: last_step_def head_step_def)
next
  case (goes_on name visited st d ds label suffix)
  from goes_on(2) have "failing g d ds" by (auto elim!: passes_toE simp: failing_def)
  with goes_on show ?case by (auto simp: head_step_def)
qed

lemma root_set_tails: "root_set g cn st \<subseteq> tails g cn cn st"
  by (auto simp: root_set_def tails_def)

lemma root_set_failing:
  "failing g cn st \<Longrightarrow> t \<in> root_set g cn st \<Longrightarrow> s \<in> set t \<Longrightarrow> \<exists>st'. failing g (sp_component s) st' \<and> sp_state s = gs_name st'"
  by (auto simp: root_set_def last_step_def dest: failure_chain_failing)

lemma listed_inj:
  assumes simple: "simple_graph g" and clean: "clean_names g"
    and "listed g R t" "listed g R' t'" and key: "chain_key t = chain_key t'"
  shows "R = R' \<and> t = t'"
proof -
  from assms(3) obtain st where st: "failing g (rr_component R) st" "gs_name st = rr_state R" "t \<in> root_set g (rr_component R) st"
    by (auto simp: listed_def failing_def root_set_def observed_facts_def)
  from assms(4) obtain st' where st': "failing g (rr_component R') st'" "gs_name st' = rr_state R'" "t' \<in> root_set g (rr_component R') st'"
    by (auto simp: listed_def failing_def root_set_def observed_facts_def)
  have "\<forall>s\<in>set t \<union> set t'. CHR '':'' \<notin> set (sp_component s) \<and> CHR ''>'' \<notin> set (sp_state s)"
  proof
    fix s assume "s \<in> set t \<union> set t'"
    then have "\<exists>st''. failing g (sp_component s) st'' \<and> sp_state s = gs_name st''"
      using root_set_failing [OF st(1,3)] root_set_failing [OF st'(1,3)] by (elim UnE)
    then obtain st'' where "failing g (sp_component s) st''" "sp_state s = gs_name st''" by (elim exE conjE)
    then show "CHR '':'' \<notin> set (sp_component s) \<and> CHR ''>'' \<notin> set (sp_state s)"
      using clean unfolding clean_names_def by metis
  qed
  then have keys: "map step_key t = map step_key t'" by (rule chain_key_decodes [OF key])
  then have R: "rr_component R = rr_component R' \<and> rr_state R = rr_state R'"
    using root_set_start [OF simple st(1,3)] root_set_start [OF simple st'(1,3)] st(2) st'(2) by (auto simp: step_key_def)
  then have "st = st'" using failing_unique [OF simple st(1)] st(2) st'(1,2) by simp
  then have "t' \<in> tails g (rr_component R) (rr_component R) st"
    using subsetD [OF root_set_tails st'(3)] R by simp
  from tails_determined [OF simple st(1) subsetD [OF root_set_tails st(3)] this keys] have "t = t'" .
  with R show ?thesis by (cases R; cases R') simp
qed

lemma expand_pairs:
  assumes simple: "simple_graph g" and clean: "clean_names g"
  shows "(\<lambda>s. (sc_root s, sc_chain s)) ` set (expand g) = {(R, t). listed g R t}"
    and "distinct (map (\<lambda>s. (sc_root s, sc_chain s)) (expand g))"
proof -
  let ?pair = "\<lambda>s. (sc_root s, sc_chain s)"
  let ?kept = "drop_duplicate_chains (all_chains g)"
  have same: "map ?pair (expand g) = map ?pair (sort_scenarios ?kept)" by (simp only: expand_def assign_ids_pairs)
  have all: "set (map ?pair (expand g)) = set (map ?pair (sort_scenarios ?kept))" unfolding same ..
  have keys: "distinct (map (chain_key \<circ> snd) (map ?pair (sort_scenarios ?kept)))"
    using distinct_dedup_by [of "\<lambda>s. chain_key (sc_chain s)" "{}" "all_chains g"]
    by (simp add: sort_scenarios_def drop_duplicate_chains_def o_def)
  then show "distinct (map ?pair (expand g))" unfolding same by (simp only: distinct_map)
  have "?pair ` set ?kept = {(R, t). listed g R t}"
  proof (intro equalityI subsetI)
    fix p assume "p \<in> ?pair ` set ?kept"
    then have "p \<in> ?pair ` set (all_chains g)"
      by (rule rev_subsetD) (intro image_mono, unfold drop_duplicate_chains_def, rule set_dedup_by_subset)
    then show "p \<in> {(R, t). listed g R t}" by (simp only: all_chains_listed)
  next
    fix p assume "p \<in> {(R, t). listed g R t}"
    then obtain R t where p: "p = (R, t)" "listed g R t" by auto
    then have "(R, t) \<in> ?pair ` set (all_chains g)" by (simp only: all_chains_listed mem_Collect_eq prod.case)
    then obtain s where s: "s \<in> set (all_chains g)" "?pair s = (R, t)" by (elim imageE) simp
    have "chain_key (sc_chain s) \<in> (\<lambda>s. chain_key (sc_chain s)) ` set ?kept"
      using s(1) by (simp add: drop_duplicate_chains_def dedup_by_keys)
    then obtain s' where s': "s' \<in> set ?kept" "chain_key (sc_chain s') = chain_key t" using s(2) by auto
    have "?pair s' \<in> ?pair ` set (all_chains g)"
      using s'(1) set_dedup_by_subset unfolding drop_duplicate_chains_def by (intro imageI) (rule subsetD)
    then have "listed g (sc_root s') (sc_chain s')" by (simp only: all_chains_listed mem_Collect_eq prod.case)
    from listed_inj [OF simple clean this p(2) s'(2)] have "p = ?pair s'" by (simp add: p(1))
    then show "p \<in> ?pair ` set ?kept" using s'(1) by (rule image_eqI)
  qed
  moreover have "?pair ` set (expand g) = ?pair ` set ?kept"
    using all unfolding set_map sort_scenarios_def set_sort_by .
  ultimately show "?pair ` set (expand g) = {(R, t). listed g R t}" by simp
qed

lemma expand_live_card:
  assumes simple: "simple_graph g" and clean: "clean_names g"
  shows "length (filter (\<lambda>s. chain_live live (sc_chain s)) (expand g)) = card (live_listed g live)"
proof -
  let ?pair = "\<lambda>s. (sc_root s, sc_chain s)" and ?live = "\<lambda>s. chain_live live (sc_chain s)"
  have "length (filter ?live (expand g)) = length (filter (\<lambda>p. chain_live live (snd p)) (map ?pair (expand g)))"
    by (simp add: filter_map o_def)
  also have "\<dots> = card (set (filter (\<lambda>p. chain_live live (snd p)) (map ?pair (expand g))))"
    by (rule distinct_card [symmetric]) (rule distinct_filter [OF expand_pairs(2) [OF simple clean]])
  also have "set (filter (\<lambda>p. chain_live live (snd p)) (map ?pair (expand g))) = live_listed g live"
    unfolding set_filter set_map expand_pairs(1) [OF simple clean] by (auto simp: live_listed_def)
  finally show ?thesis .
qed

text \<open>
  C2: Counting agrees with listing: on an acyclic failure graph whose states are named once (with
  fewer than 2 to the 63 scenarios, none of whose names holds a separator of the chain key), the
  count meets no cycle and is exactly how many scenarios of the expansion are live.
\<close>

theorem count_agrees_with_expand:
  assumes "simple_graph g" and "clean_names g" and "length (expand g) < 2 ^ 63"
  shows "\<exists>c. count_live g live = Some c \<and>
    unat (ct_live c) = length (filter (\<lambda>s. chain_live live (sc_chain s)) (expand g))"
proof -
  have "card (live_listed g all_live) < 2 ^ 63"
    using expand_live_card [OF assms(1,2), of all_live] assms(3) by (simp add: chain_live_all)
  from count_live_correct [OF assms(1) this] show ?thesis by (simp add: expand_live_card [OF assms(1,2)])
qed

definition ex_node :: "string list \<Rightarrow> string list \<Rightarrow> string list \<Rightarrow> graph_component" where
  "ex_node emits triggered dependents =
     \<lparr>gc_unresolved = False, gc_observes = [''up''],
      gc_states = [\<lparr>gs_name = ''down'', gs_emits = emits, gs_triggered_by = triggered\<rparr>],
      gc_dependents = map (\<lambda>d. \<lparr>gl_to = d, gl_group = False, gl_roots = []\<rparr>) dependents\<rparr>"

definition ex_graph :: failure_graph where
  "ex_graph = [(''db'', ex_node [''lost''] [] [''web'']), (''web'', ex_node [] [''lost''] [])]"

lemma ex_graph_map: "map_of ex_graph n = Some gc \<longleftrightarrow>
    n = ''db'' \<and> gc = ex_node [''lost''] [] [''web''] \<or> n = ''web'' \<and> gc = ex_node [] [''lost''] []"
  by (auto simp: ex_graph_def)

lemma ex_graph_simple: "simple_graph ex_graph"
proof -
  have "spread ex_graph \<subseteq> measure length" by (auto simp: spread_def ex_graph_map ex_node_def)
  then have "acyclic (spread ex_graph)" using wf_acyclic wf_subset wf_measure by blast
  moreover have "wf_dict ex_graph" by (simp add: wf_dict_def ex_graph_def)
  moreover have "distinct (map gl_to (gc_dependents gc)) \<and> distinct (map gs_name (gc_states gc))"
    if "map_of ex_graph n = Some gc" for n gc
    using that unfolding ex_graph_map by (auto simp: ex_node_def)
  ultimately show ?thesis unfolding simple_graph_def by blast
qed

lemma ex_graph_clean: "clean_names ex_graph"
  by (auto simp: clean_names_def failing_def ex_graph_map ex_node_def)

lemma length_expand: "length (expand g) = length (drop_duplicate_chains (all_chains g))"
proof -
  have "length (map (\<lambda>s. (sc_root s, sc_chain s)) (expand g)) =
      length (map (\<lambda>s. (sc_root s, sc_chain s)) (sort_scenarios (drop_duplicate_chains (all_chains g))))"
    by (simp only: expand_def assign_ids_pairs)
  then show ?thesis by (simp add: sort_scenarios_def)
qed

lemma ex_graph_expand: "length (expand ex_graph) = 2"
  unfolding length_expand by code_simp

theorem count_agrees_with_expand_witness:
  "\<exists>c. count_live ex_graph all_live = Some c \<and> unat (ct_live c) = 2"
  using count_agrees_with_expand [OF ex_graph_simple ex_graph_clean, of all_live]
  by (simp add: ex_graph_expand chain_live_all)

end
