(* ===== verification/Strategies.thy ===== *)
theory Strategies
  imports Root_Cause Graph_Count
begin

text \<open>
  Choosing the next probe (\<open>internal/engine/strategy\<close>: strategy.go, bfs.go, standalone.go, liveset.go,
  occam.go, occam_graph.go, autoselect.go): the breadth-first strategy, the scenarios the facts
  leave live, and the strategy that tells them apart, both over the listed scenarios and over the
  failure graph.

  A \<open>*Probe\<close> or \<open>*Scenario\<close> that may be nil is an option. The model, registry and store of an
  \<open>Input\<close> are values, as every caller sets them; a duration is its number of nanoseconds.
\<close>

subsection \<open>Inputs and decisions\<close>

record suspect_hint =
  su_component :: string
  su_state :: string

record probe =
  pb_component :: string
  pb_fact :: string
  pb_provider :: string
  pb_type :: string
  pb_resource :: string
  pb_cost :: string
  pb_access :: string
  pb_command :: string
  pb_parse_mode :: string
  pb_window :: int
  pb_derive :: string
  pb_vars :: "string dict"
  pb_eliminates :: "string list"
  pb_eliminates_count :: "64 word"

definition probe_target :: "probe \<Rightarrow> string" where
  "probe_target p = (if pb_resource p \<noteq> [] then pb_resource p else pb_component p)"

record decision =
  dc_probe :: "probe option"
  dc_done :: bool
  dc_root_cause :: "scenario option"
  dc_stuck :: bool
  dc_reason :: string

definition no_decision :: decision where
  "no_decision = \<lparr>dc_probe = None, dc_done = False, dc_root_cause = None, dc_stuck = False, dc_reason = []\<rparr>"

definition stuck_on :: "string \<Rightarrow> decision" where
  "stuck_on why = no_decision\<lparr>dc_stuck := True, dc_reason := why\<rparr>"

definition done_with :: "scenario option \<Rightarrow> string \<Rightarrow> decision" where
  "done_with root why = no_decision\<lparr>dc_done := True, dc_root_cause := root, dc_reason := why\<rparr>"

definition probe_next :: "probe \<Rightarrow> decision" where
  "probe_next p = no_decision\<lparr>dc_probe := Some p\<rparr>"

record strategy_input =
  in_model :: model
  in_registry :: registry
  in_store :: store
  in_scenarios :: "scenario list"
  in_graph :: "failure_graph option"
  in_suspects :: "suspect_hint list"

definition parse_one_suspect :: "string \<Rightarrow> suspect_hint" where
  "parse_one_suspect entry =
     (case cut CHR ''/'' entry of
        Some (a, b) \<Rightarrow> \<lparr>su_component = a, su_state = b\<rparr>
      | None \<Rightarrow>
          (case cut CHR ''='' entry of
             Some (a, b) \<Rightarrow> \<lparr>su_component = a, su_state = b\<rparr>
           | None \<Rightarrow>
               (case cut CHR ''.'' entry of
                  Some (a, b) \<Rightarrow> \<lparr>su_component = a, su_state = b\<rparr>
                | None \<Rightarrow> \<lparr>su_component = entry, su_state = []\<rparr>)))"

definition parse_suspect_hints :: "string list \<Rightarrow> suspect_hint list" where
  "parse_suspect_hints raw = map parse_one_suspect (filter (\<lambda>e. e \<noteq> []) (map trim_space raw))"

definition component_vars_from_model :: "model \<Rightarrow> string \<Rightarrow> string dict" where
  "component_vars_from_model m cn = (case component_of m cn of None \<Rightarrow> [] | Some c \<Rightarrow> c_vars c)"

definition component_vars :: "model \<Rightarrow> string \<Rightarrow> string dict" where
  "component_vars m cn = merge_vars (mt_vars (m_meta m)) (component_vars_from_model m cn)"

text \<open>The probe of a fact, which both strategies fill in the same way.\<close>

definition fact_probe :: "string \<Rightarrow> component \<Rightarrow> ptype \<Rightarrow> string \<Rightarrow> string \<Rightarrow> fact_spec \<Rightarrow> string dict \<Rightarrow> probe" where
  "fact_probe cn c t owner fn fs vars =
     \<lparr>pb_component = cn, pb_fact = fn, pb_provider = owner, pb_type = ty_name t, pb_resource = resource_name c,
      pb_cost = pd_cost (fs_probe fs), pb_access = pd_access (fs_probe fs), pb_command = pd_cmd (fs_probe fs),
      pb_parse_mode = pd_parse (fs_probe fs), pb_window = fs_window fs, pb_derive = fs_derive fs,
      pb_vars = vars, pb_eliminates = [], pb_eliminates_count = 0\<rparr>"

subsection \<open>The breadth-first strategy\<close>

fun uncollected_loop :: "model \<Rightarrow> store \<Rightarrow> string \<Rightarrow> component \<Rightarrow> ptype \<Rightarrow> string \<Rightarrow> string list \<Rightarrow> probe option" where
  "uncollected_loop m s cn c t owner [] = None"
| "uncollected_loop m s cn c t owner (fn # fns) =
     (if latest s cn fn \<noteq> None then uncollected_loop m s cn c t owner fns
      else (case map_of (ty_facts t) fn of
              None \<Rightarrow> uncollected_loop m s cn c t owner fns
            | Some fs \<Rightarrow> Some (fact_probe cn c t owner fn fs (component_vars m cn))))"

definition first_uncollected_fact :: "model \<Rightarrow> store \<Rightarrow> string \<Rightarrow> component \<Rightarrow> ptype \<Rightarrow> string \<Rightarrow> probe option" where
  "first_uncollected_fact m s cn c t owner = uncollected_loop m s cn c t owner (sort (keys (ty_facts t)))"

fun first_uncollected_probe :: "model \<Rightarrow> registry \<Rightarrow> store \<Rightarrow> string list \<Rightarrow> probe option" where
  "first_uncollected_probe m r s [] = None"
| "first_uncollected_probe m r s (cn # cns) =
     (case component_of m cn of
        None \<Rightarrow> first_uncollected_probe m r s cns
      | Some c \<Rightarrow>
          (case resolve_type c m r of
             Inl _ \<Rightarrow> first_uncollected_probe m r s cns
           | Inr (t, owner) \<Rightarrow>
               (case first_uncollected_fact m s cn c t owner of
                  Some p \<Rightarrow> Some p
                | None \<Rightarrow> first_uncollected_probe m r s cns)))"

fun failed_state_loop :: "model \<Rightarrow> registry \<Rightarrow> store \<Rightarrow> string \<Rightarrow> ptype \<Rightarrow> state_def list \<Rightarrow> string" where
  "failed_state_loop m r s name t [] = ''unhealthy''"
| "failed_state_loop m r s name t (st # sts) =
     (if sd_name st = ty_default t then failed_state_loop m r s name t sts
      else (case sd_when st of
              None \<Rightarrow> failed_state_loop m r s name t sts
            | Some n \<Rightarrow>
                if eval_predicate m r s name n = Inr True then sd_name st
                else failed_state_loop m r s name t sts))"

definition failed_state_for :: "model \<Rightarrow> registry \<Rightarrow> store \<Rightarrow> string \<Rightarrow> string" where
  "failed_state_for m r s name =
     (case component_of m name of
        None \<Rightarrow> ''unhealthy''
      | Some c \<Rightarrow>
          (case resolve_type c m r of
             Inl _ \<Rightarrow> ''unhealthy''
           | Inr (t, _) \<Rightarrow> failed_state_loop m r s name t (ty_states t)))"

definition standalone_unhealthy_root :: "model \<Rightarrow> registry \<Rightarrow> store \<Rightarrow> scenario option" where
  "standalone_unhealthy_root m r s =
     (let chosen = root_cause m r s (entry_point m)
      in if chosen = [] then None
         else (let st = failed_state_for m r s chosen
               in Some \<lparr>sc_id = ''standalone-unhealthy:'' @ chosen,
                        sc_root = \<lparr>rr_component = chosen, rr_state = st\<rparr>,
                        sc_chain = [plain_step chosen st]\<rparr>))"

definition bfs_suggest :: "strategy_input \<Rightarrow> decision" where
  "bfs_suggest inp =
     (let m = in_model inp; r = in_registry inp; s = in_store inp; entry = entry_point m
      in if entry = [] then stuck_on ''model has no entry point''
         else (case first_uncollected_probe m r s (bfs_walk m r s entry) of
                 Some p \<Rightarrow> probe_next p
               | None \<Rightarrow>
                   (case standalone_unhealthy_root m r s of
                      Some root \<Rightarrow> done_with (Some root) ''standalone unhealthy component''
                    | None \<Rightarrow> done_with None ''bfs coverage exhausted'')))"

subsection \<open>Live scenarios\<close>

definition absent_step_consistent :: "step \<Rightarrow> ptype \<Rightarrow> bool" where
  "absent_step_consistent st t \<longleftrightarrow> ty_default t = [] \<or> sp_state st \<noteq> ty_default t"

definition matched_step_consistent :: "model \<Rightarrow> registry \<Rightarrow> store \<Rightarrow> step \<Rightarrow> ptype \<Rightarrow> bool" where
  "matched_step_consistent m r s st t =
     (case List.find (\<lambda>d. sd_name d = sp_state st) (ty_states t) of
        None \<Rightarrow> True
      | Some d \<Rightarrow>
          (case sd_when d of
             None \<Rightarrow> True
           | Some n \<Rightarrow>
               (case eval_predicate m r s (sp_component st) n of
                  Inl (Unresolved _ _ _) \<Rightarrow> True
                | Inl _ \<Rightarrow> False
                | Inr b \<Rightarrow> b)))"

definition step_consistent :: "model \<Rightarrow> registry \<Rightarrow> store \<Rightarrow> step \<Rightarrow> bool" where
  "step_consistent m r s st =
     (if facts_for s (sp_component st) = [] then True
      else (case component_of m (sp_component st) of
              None \<Rightarrow> True
            | Some c \<Rightarrow>
                (case resolve_type c m r of
                   Inl _ \<Rightarrow> True
                 | Inr (t, _) \<Rightarrow>
                     if is_absent s (sp_component st) then absent_step_consistent st t
                     else matched_step_consistent m r s st t)))"

fun live_steps :: "model \<Rightarrow> registry \<Rightarrow> store \<Rightarrow> step list \<Rightarrow> bool" where
  "live_steps m r s [] = True"
| "live_steps m r s [st] = step_consistent m r s st"
| "live_steps m r s (st # nx # sts) =
     (if \<not> step_consistent m r s st then False
      else if group_holds m r s (sp_component nx) (sp_component st) then False
      else live_steps m r s (nx # sts))"

definition is_live :: "model \<Rightarrow> registry \<Rightarrow> store \<Rightarrow> scenario \<Rightarrow> bool" where
  "is_live m r s sc = live_steps m r s (sc_chain sc)"

definition filter_live :: "model \<Rightarrow> registry \<Rightarrow> store \<Rightarrow> scenario list \<Rightarrow> scenario list" where
  "filter_live m r s scs = filter (is_live m r s) scs"

text \<open>\<open>graphLiveness\<close>; its caches only spare evaluations.\<close>

definition graph_liveness :: "model \<Rightarrow> registry \<Rightarrow> store \<Rightarrow> liveness" where
  "graph_liveness m r s =
     \<lparr>lv_node = Some (\<lambda>c st. step_consistent m r s (plain_step c st)),
      lv_edge = Some (\<lambda>a b. \<not> group_holds m r s b a)\<rparr>"

subsection \<open>What a step still needs\<close>

fun walk_fact_refs :: "node \<Rightarrow> string list" where
  "walk_fact_refs (AndNode l r) = walk_fact_refs l @ walk_fact_refs r"
| "walk_fact_refs (OrNode l r) = walk_fact_refs l @ walk_fact_refs r"
| "walk_fact_refs (CmpNode cn k oper v) =
     (if k \<noteq> [] \<and> k \<noteq> ''state'' \<and> cn = [] then [k] else []) @
     (case v of VStr s \<Rightarrow> if s = ''true'' \<or> s = ''false'' then [] else [s] | _ \<Rightarrow> [])"

text \<open>A nil \<open>when\<close> names nothing. The set \<open>seen\<close> comes out sorted.\<close>

definition collect_fact_refs :: "node option \<Rightarrow> string list" where
  "collect_fact_refs n = (case n of None \<Rightarrow> [] | Some w \<Rightarrow> sort (remdups (walk_fact_refs w)))"

definition step_observing_facts :: "step \<Rightarrow> ptype \<Rightarrow> string list" where
  "step_observing_facts st t =
     (if is_terminal st then sort (sp_observes st)
      else (case List.find (\<lambda>d. sd_name d = sp_state st) (ty_states t) of
              None \<Rightarrow> []
            | Some d \<Rightarrow> collect_fact_refs (sd_when d)))"

definition valid_step_facts :: "step \<Rightarrow> ptype \<Rightarrow> string list" where
  "valid_step_facts st t = filter (\<lambda>n. map_of (ty_facts t) n \<noteq> None) (step_observing_facts st t)"

text \<open>The fact's name, or the empty text when the step is verified.\<close>

definition next_fact_to_probe :: "step \<Rightarrow> ptype \<Rightarrow> store \<Rightarrow> string" where
  "next_fact_to_probe st t s =
     (let needed = (if valid_step_facts st t = [] then sort (keys (ty_facts t)) else valid_step_facts st t)
      in case List.find (\<lambda>n. latest s (sp_component st) n = None) needed of None \<Rightarrow> [] | Some n \<Rightarrow> n)"

definition probe_for_step :: "model \<Rightarrow> registry \<Rightarrow> store \<Rightarrow> step \<Rightarrow> probe option" where
  "probe_for_step m r s st =
     (case component_of m (sp_component st) of
        None \<Rightarrow> None
      | Some c \<Rightarrow>
          (case resolve_type c m r of
             Inl _ \<Rightarrow> None
           | Inr (t, owner) \<Rightarrow>
               (let fn = next_fact_to_probe st t s
                in if fn = [] then None
                   else (case map_of (ty_facts t) fn of
                           None \<Rightarrow> None
                         | Some fs \<Rightarrow>
                             Some (fact_probe (sp_component st) c t owner fn fs
                               (merge_vars (mt_vars (m_meta m)) (c_vars c)))))))"

text \<open>From the symptom, the chain's end, toward the root.\<close>

fun inward_loop :: "model \<Rightarrow> registry \<Rightarrow> store \<Rightarrow> step list \<Rightarrow> probe option" where
  "inward_loop m r s [] = None"
| "inward_loop m r s (st # sts) =
     (case probe_for_step m r s st of Some p \<Rightarrow> Some p | None \<Rightarrow> inward_loop m r s sts)"

definition pick_symptom_inward :: "model \<Rightarrow> registry \<Rightarrow> store \<Rightarrow> scenario \<Rightarrow> probe option" where
  "pick_symptom_inward m r s sc = inward_loop m r s (rev (sc_chain sc))"

subsection \<open>The scenario strategy\<close>

definition touches_any_suspect :: "scenario \<Rightarrow> suspect_hint list \<Rightarrow> bool" where
  "touches_any_suspect sc hints =
     list_ex (\<lambda>h. touches_component sc (su_component h) \<and>
       (su_state h = [] \<or> list_ex (\<lambda>st. sp_component st = su_component h \<and> sp_state st = su_state h) (sc_chain sc))) hints"

fun touch_steps :: "step list \<Rightarrow> string set \<Rightarrow> (string \<Rightarrow> nat) \<Rightarrow> (string \<Rightarrow> nat)" where
  "touch_steps [] seen n = n"
| "touch_steps (st # sts) seen n =
     (if sp_component st \<notin> seen
      then touch_steps sts (insert (sp_component st) seen) (n(sp_component st := n (sp_component st) + 1))
      else touch_steps sts seen n)"

definition live_touch_counts :: "scenario list \<Rightarrow> (string \<Rightarrow> nat)" where
  "live_touch_counts live = foldl (\<lambda>n sc. touch_steps (sc_chain sc) {} n) (\<lambda>_. 0) live"

text \<open>A scenario with its rank keys; \<open>elims\<close> is how many other live scenarios touch a component.\<close>

record ranked =
  rk_scenario :: scenario
  rk_suspect :: bool
  rk_elim :: int

definition rank_key :: "strategy_input \<Rightarrow> (string \<Rightarrow> int) \<Rightarrow> scenario \<Rightarrow> ranked" where
  "rank_key inp elims sc =
     \<lparr>rk_scenario = sc, rk_suspect = touches_any_suspect sc (in_suspects inp),
      rk_elim = (case pick_symptom_inward (in_model inp) (in_registry inp) (in_store inp) sc of
                   None \<Rightarrow> 0 | Some p \<Rightarrow> elims (pb_component p))\<rparr>"

definition rank_in_layer :: "ranked \<Rightarrow> ranked \<Rightarrow> bool" where
  "rank_in_layer a b =
     (if rk_suspect a \<noteq> rk_suspect b then rk_suspect a
      else if rk_elim a \<noteq> rk_elim b then rk_elim b < rk_elim a
      else scenario_less (rk_scenario a) (rk_scenario b))"

definition rank_less :: "ranked \<Rightarrow> ranked \<Rightarrow> bool" where
  "rank_less a b =
     (if scenario_length (rk_scenario a) \<noteq> scenario_length (rk_scenario b)
      then scenario_length (rk_scenario a) < scenario_length (rk_scenario b)
      else rank_in_layer a b)"

definition rank_by :: "(ranked \<Rightarrow> ranked \<Rightarrow> bool) \<Rightarrow> strategy_input \<Rightarrow> (string \<Rightarrow> int) \<Rightarrow> scenario list \<Rightarrow> scenario list" where
  "rank_by lt inp elims scs = map rk_scenario (sort_by lt (map (rank_key inp elims) scs))"

text \<open>The listing branch of \<open>SuggestProbe\<close>.\<close>

definition occam_on_list :: "strategy_input \<Rightarrow> decision" where
  "occam_on_list inp =
     (let m = in_model inp; r = in_registry inp; s = in_store inp; live = filter_live m r s (in_scenarios inp)
      in case live of
           [] \<Rightarrow> stuck_on ''no scenario matches observed facts''
         | [sc] \<Rightarrow> done_with (Some sc) ''single scenario remains''
         | _ \<Rightarrow>
             (let ranked = rank_by rank_less inp (\<lambda>c. int (live_touch_counts live c) - 1) live
              in case pick_symptom_inward m r s (hd ranked) of
                   None \<Rightarrow> stuck_on ''chosen scenario fully verified but live set has multiple''
                 | Some p \<Rightarrow>
                     (let ids = map sc_id (filter (\<lambda>sc. touches_component sc (pb_component p)) ranked)
                      in probe_next (p\<lparr>pb_eliminates := ids, pb_eliminates_count := of_nat (length ids)\<rparr>))))"

text \<open>The callback that names up to ten eliminated scenarios: its state is the names so far.\<close>

fun name_eliminated :: "string \<Rightarrow> string list \<Rightarrow> scenario list \<Rightarrow> bool \<times> string list" where
  "name_eliminated cn ids [] = (True, ids)"
| "name_eliminated cn ids (sc # scs) =
     (if touches_component sc cn
      then (if length (ids @ [sc_id sc]) = 10 then (False, ids @ [sc_id sc]) else name_eliminated cn (ids @ [sc_id sc]) scs)
      else name_eliminated cn ids scs)"

definition layer_rank :: "strategy_input \<Rightarrow> counts \<Rightarrow> scenario list \<Rightarrow> scenario list" where
  "layer_rank inp c = rank_by rank_in_layer inp (\<lambda>cn. sint (ct_touch c cn - 1))"

text \<open>\<open>occamOnGraph\<close>: \<open>None\<close> when it does not return, \<open>Some None\<close> when the graph has a cycle.\<close>

definition occam_on_graph :: "strategy_input \<Rightarrow> failure_graph \<Rightarrow> decision option option" where
  "occam_on_graph inp g =
     (let m = in_model inp; r = in_registry inp; s = in_store inp; live = graph_liveness m r s
      in case count_live g live of
           None \<Rightarrow> Some None
         | Some c \<Rightarrow>
             if ct_live c = 0 then Some (Some (stuck_on ''no scenario matches observed facts''))
             else (case live_by_length g live (\<lambda>_ layer. (False, Some (hd (layer_rank inp c layer)))) None of
                     None \<Rightarrow> None
                   | Some chosen \<Rightarrow>
                       if ct_live c = 1 then Some (Some (done_with chosen ''single scenario remains''))
                       else (case Option.bind chosen (pick_symptom_inward m r s) of
                               None \<Rightarrow> Some (Some (stuck_on ''chosen scenario fully verified but live set has multiple''))
                             | Some p \<Rightarrow>
                                 (case live_by_length g live
                                         (\<lambda>ids layer. name_eliminated (pb_component p) ids (layer_rank inp c layer)) [] of
                                    None \<Rightarrow> None
                                  | Some ids \<Rightarrow>
                                      Some (Some (probe_next (p\<lparr>pb_eliminates := ids,
                                        pb_eliminates_count := ct_touch c (pb_component p)\<rparr>)))))))"

definition occam_suggest :: "strategy_input \<Rightarrow> decision option" where
  "occam_suggest inp =
     (case in_graph inp of
        None \<Rightarrow> Some (occam_on_list inp)
      | Some g \<Rightarrow>
          if in_scenarios inp \<noteq> [] then Some (occam_on_list inp)
          else (case occam_on_graph inp g of
                  None \<Rightarrow> None
                | Some (Some d) \<Rightarrow> Some d
                | Some None \<Rightarrow> Some (occam_on_list (inp\<lparr>in_scenarios := expand g\<rparr>))))"

text \<open>\<open>AutoSelect\<close> and the \<open>SuggestProbe\<close> of what it selects.\<close>

datatype strategy = Occam | Bfs

definition auto_select :: "strategy_input \<Rightarrow> strategy" where
  "auto_select inp = (if in_scenarios inp \<noteq> [] \<or> in_graph inp \<noteq> None then Occam else Bfs)"

definition suggest_probe :: "strategy \<Rightarrow> strategy_input \<Rightarrow> decision option" where
  "suggest_probe st inp = (case st of Occam \<Rightarrow> occam_suggest inp | Bfs \<Rightarrow> Some (bfs_suggest inp))"

subsection \<open>Liveness\<close>

lemma step_consistent_plain: "step_consistent m r s (plain_step (sp_component st) (sp_state st)) = step_consistent m r s st"
  by (simp add: step_consistent_def plain_step_def absent_step_consistent_def matched_step_consistent_def
      split: option.splits sum.splits)

text \<open>
  A scenario is live for the listing strategy exactly when every step and every edge of its chain
  is live for the strategy that counts over the graph.
\<close>

theorem live_agrees_with_graph:
  "is_live m r s sc = chain_live (graph_liveness m r s) (sc_chain sc)"
proof -
  have "live_steps m r s ch = chain_live (graph_liveness m r s) ch" for ch
    by (induction m r s ch rule: live_steps.induct)
      (auto simp: live_node_def live_edge_def graph_liveness_def step_consistent_plain)
  then show ?thesis by (simp add: is_live_def)
qed

lemma filter_live_graph:
  "filter_live m r s scs = filter (\<lambda>sc. chain_live (graph_liveness m r s) (sc_chain sc)) scs"
proof -
  have "live_steps m r s ch = chain_live (graph_liveness m r s) ch" for ch
    by (induction m r s ch rule: live_steps.induct)
      (auto simp: live_node_def live_edge_def graph_liveness_def step_consistent_plain)
  then show ?thesis by (simp add: filter_live_def is_live_def [abs_def])
qed

subsection \<open>Suggested probes\<close>

text \<open>A probe that reads a fact not yet collected, of a type the registry gives the component.\<close>

definition fresh_probe :: "model \<Rightarrow> registry \<Rightarrow> store \<Rightarrow> probe \<Rightarrow> bool" where
  "fresh_probe m r s p \<longleftrightarrow>
     latest s (pb_component p) (pb_fact p) = None \<and>
     (\<exists>c t fs. component_of m (pb_component p) = Some c \<and> resolve_type c m r = Inr (t, pb_provider p) \<and>
        pb_type p = ty_name t \<and> map_of (ty_facts t) (pb_fact p) = Some fs \<and> pb_command p = pd_cmd (fs_probe fs) \<and>
        pb_resource p = resource_name c)"

lemma fresh_fact_probe:
  "latest s cn fn = None \<Longrightarrow> component_of m cn = Some c \<Longrightarrow> resolve_type c m r = Inr (t, owner) \<Longrightarrow>
   map_of (ty_facts t) fn = Some fs \<Longrightarrow> fresh_probe m r s (fact_probe cn c t owner fn fs vars)"
  by (simp add: fresh_probe_def fact_probe_def)

lemma fresh_probe_upd [simp]:
  "fresh_probe m r s (p\<lparr>pb_eliminates := ids, pb_eliminates_count := n\<rparr>) = fresh_probe m r s p"
  by (simp add: fresh_probe_def)

lemma uncollected_loop_iff:
  "case uncollected_loop m s cn c t owner fns of
     None \<Rightarrow> \<forall>fn\<in>set fns. latest s cn fn \<noteq> None \<or> map_of (ty_facts t) fn = None
   | Some p \<Rightarrow> \<exists>fn fs. fn \<in> set fns \<and> latest s cn fn = None \<and> map_of (ty_facts t) fn = Some fs \<and>
       p = fact_probe cn c t owner fn fs (component_vars m cn)"
  by (induction fns) (auto split: option.splits)

text \<open>A component in play with a fact of its type not collected.\<close>

definition fact_missing :: "model \<Rightarrow> registry \<Rightarrow> store \<Rightarrow> string \<Rightarrow> bool" where
  "fact_missing m r s cn \<longleftrightarrow>
     (\<exists>c t owner fn. component_of m cn = Some c \<and> resolve_type c m r = Inr (t, owner) \<and>
        fn \<in> set (keys (ty_facts t)) \<and> latest s cn fn = None)"

lemma first_uncollected_fact_iff:
  assumes "component_of m cn = Some c" and "resolve_type c m r = Inr (t, owner)"
  shows "case first_uncollected_fact m s cn c t owner of
     None \<Rightarrow> \<not> fact_missing m r s cn
   | Some p \<Rightarrow> fact_missing m r s cn \<and> pb_component p = cn \<and> fresh_probe m r s p"
proof -
  have keys: "fn \<in> set (keys (ty_facts t)) \<longleftrightarrow> map_of (ty_facts t) fn \<noteq> None" for fn
    by (auto simp: set_keys)
  show ?thesis
  proof (cases "first_uncollected_fact m s cn c t owner")
    case None
    then show ?thesis
      using uncollected_loop_iff [where m = m and s = s and cn = cn and c = c and t = t and owner = owner and
        fns = "sort (keys (ty_facts t))"] assms
      by (auto simp: first_uncollected_fact_def fact_missing_def keys)
  next
    case (Some p)
    then obtain fn fs where "latest s cn fn = None" "map_of (ty_facts t) fn = Some fs"
        "p = fact_probe cn c t owner fn fs (component_vars m cn)"
      using uncollected_loop_iff [where m = m and s = s and cn = cn and c = c and t = t and owner = owner and
        fns = "sort (keys (ty_facts t))"]
      by (auto simp: first_uncollected_fact_def)
    then show ?thesis using Some assms keys [of fn] fresh_fact_probe
      by (auto simp: fact_missing_def fact_probe_def)
  qed
qed

lemma first_uncollected_probe_iff:
  "case first_uncollected_probe m r s cns of
     None \<Rightarrow> \<forall>cn\<in>set cns. \<not> fact_missing m r s cn
   | Some p \<Rightarrow> fresh_probe m r s p \<and> List.find (fact_missing m r s) cns = Some (pb_component p)"
proof (induction cns)
  case Nil
  then show ?case by simp
next
  case (Cons cn cns)
  show ?case
  proof (cases "component_of m cn")
    case None
    then have "\<not> fact_missing m r s cn" by (simp add: fact_missing_def)
    with Cons None show ?thesis by (simp split: option.splits)
  next
    case (Some c)
    show ?thesis
    proof (cases "resolve_type c m r")
      case (Inl e)
      with Some have "\<not> fact_missing m r s cn" by (simp add: fact_missing_def)
      with Cons Some Inl show ?thesis by (simp split: option.splits)
    next
      case (Inr to)
      obtain t owner where "to = (t, owner)" by (cases to)
      with Inr have res: "resolve_type c m r = Inr (t, owner)" by simp
      show ?thesis
        using first_uncollected_fact_iff [OF Some res, where s = s] Cons Some res
        by (cases "first_uncollected_fact m s cn c t owner") (auto split: option.splits)
    qed
  qed
qed

text \<open>
  C18: The breadth-first strategy probes the first component in play, in walk order, that has a fact
  not yet collected; it is done exactly when none has, and then names the root cause, if there is
  one.
\<close>

theorem bfs_suggest_correct:
  assumes "entry_point (in_model inp) \<noteq> []"
  shows "case List.find (fact_missing (in_model inp) (in_registry inp) (in_store inp))
      (bfs_walk (in_model inp) (in_registry inp) (in_store inp) (entry_point (in_model inp))) of
     Some cn \<Rightarrow> \<not> dc_done (bfs_suggest inp) \<and> (\<exists>p. dc_probe (bfs_suggest inp) = Some p \<and> pb_component p = cn)
   | None \<Rightarrow> dc_done (bfs_suggest inp) \<and> dc_probe (bfs_suggest inp) = None \<and>
       (case dc_root_cause (bfs_suggest inp) of
          None \<Rightarrow> root_cause (in_model inp) (in_registry inp) (in_store inp) (entry_point (in_model inp)) = []
        | Some sc \<Rightarrow> root_cause (in_model inp) (in_registry inp) (in_store inp) (entry_point (in_model inp)) =
            rr_component (sc_root sc) \<and> rr_component (sc_root sc) \<noteq> [])"
proof -
  let ?m = "in_model inp" and ?r = "in_registry inp" and ?s = "in_store inp"
  let ?walk = "bfs_walk ?m ?r ?s (entry_point ?m)"
  note key = first_uncollected_probe_iff [where m = ?m and r = ?r and s = ?s and cns = ?walk]
  show ?thesis
  proof (cases "first_uncollected_probe ?m ?r ?s ?walk")
    case None
    with key have "List.find (fact_missing ?m ?r ?s) ?walk = None" by (simp add: find_None_iff)
    then show ?thesis using assms None
      by (auto simp: bfs_suggest_def done_with_def no_decision_def standalone_unhealthy_root_def Let_def)
  next
    case (Some p)
    with key assms show ?thesis by (simp add: bfs_suggest_def probe_next_def no_decision_def Let_def)
  qed
qed

lemma probe_for_step_fresh: "probe_for_step m r s st = Some p \<Longrightarrow> fresh_probe m r s p \<and> pb_component p = sp_component st"
proof -
  assume p: "probe_for_step m r s st = Some p"
  then obtain c t owner fs where c: "component_of m (sp_component st) = Some c" "resolve_type c m r = Inr (t, owner)"
      and fn: "next_fact_to_probe st t s \<noteq> []" "map_of (ty_facts t) (next_fact_to_probe st t s) = Some fs"
      and probe: "p = fact_probe (sp_component st) c t owner (next_fact_to_probe st t s) fs (merge_vars (mt_vars (m_meta m)) (c_vars c))"
    by (auto simp: probe_for_step_def Let_def split: option.splits sum.splits if_splits)
  have "latest s (sp_component st) (next_fact_to_probe st t s) = None"
    using fn(1) by (auto simp: next_fact_to_probe_def Let_def split: option.splits if_splits dest: find_Some_in)
  then show ?thesis using c fn(2) fresh_fact_probe by (simp add: probe) (simp add: fact_probe_def)
qed

lemma pick_symptom_inward_fresh:
  "pick_symptom_inward m r s sc = Some p \<Longrightarrow> fresh_probe m r s p \<and> pb_component p \<in> sp_component ` set (sc_chain sc)"
proof -
  have "inward_loop m r s sts = Some p \<Longrightarrow> fresh_probe m r s p \<and> pb_component p \<in> sp_component ` set sts" for sts
    by (induction sts) (auto split: option.splits dest: probe_for_step_fresh)
  then show "pick_symptom_inward m r s sc = Some p \<Longrightarrow> fresh_probe m r s p \<and> pb_component p \<in> sp_component ` set (sc_chain sc)"
    unfolding pick_symptom_inward_def by (metis set_rev)
qed

lemmas decision_simps = stuck_on_def done_with_def probe_next_def no_decision_def

lemma occam_on_list_fresh:
  "dc_probe (occam_on_list inp) = Some p \<Longrightarrow> fresh_probe (in_model inp) (in_registry inp) (in_store inp) p"
  by (auto simp: occam_on_list_def Let_def decision_simps split: list.splits option.splits
      dest!: pick_symptom_inward_fresh)

lemma occam_on_graph_fresh:
  "occam_on_graph inp g = Some (Some d) \<Longrightarrow> dc_probe d = Some p \<Longrightarrow>
   fresh_probe (in_model inp) (in_registry inp) (in_store inp) p"
  by (auto simp: occam_on_graph_def Let_def decision_simps split: option.splits if_splits bind_splits
      dest!: pick_symptom_inward_fresh)

lemma suggest_probe_fresh_lemma:
  assumes "suggest_probe st inp = Some d" and "dc_probe d = Some p"
  shows "fresh_probe (in_model inp) (in_registry inp) (in_store inp) p"
proof -
  let ?m = "in_model inp" and ?r = "in_registry inp" and ?s = "in_store inp"
  show ?thesis
  proof (cases st)
    case Occam
    with assms have occam: "occam_suggest inp = Some d" by (simp add: suggest_probe_def)
    have list: "dc_probe (occam_on_list (inp\<lparr>in_scenarios := scs\<rparr>)) = Some p \<Longrightarrow> fresh_probe ?m ?r ?s p" for scs
      using occam_on_list_fresh [of "inp\<lparr>in_scenarios := scs\<rparr>" p] by simp
    from occam assms(2) show ?thesis
      by (auto simp: occam_suggest_def split: option.splits if_splits
          dest: occam_on_list_fresh occam_on_graph_fresh list)
  next
    case Bfs
    with assms have "first_uncollected_probe ?m ?r ?s (bfs_walk ?m ?r ?s (entry_point ?m)) = Some p"
      by (auto simp: suggest_probe_def bfs_suggest_def Let_def decision_simps split: option.splits if_splits)
    then show ?thesis
      using first_uncollected_probe_iff [where m = ?m and r = ?r and s = ?s and cns = "bfs_walk ?m ?r ?s (entry_point ?m)"]
      by simp
  qed
qed

text \<open>
  C17: Whatever strategy runs, the probe it suggests reads a fact no record holds yet, of a component
  of the model whose type, as the registry resolves it, declares the fact and its command.
\<close>

theorem suggest_probe_fresh:
  assumes "suggest_probe st inp = Some d" and "dc_probe d = Some p"
  shows "latest (in_store inp) (pb_component p) (pb_fact p) = None \<and>
    (\<exists>c t fs. component_of (in_model inp) (pb_component p) = Some c \<and>
       resolve_type c (in_model inp) (in_registry inp) = Inr (t, pb_provider p) \<and> pb_type p = ty_name t \<and>
       map_of (ty_facts t) (pb_fact p) = Some fs \<and> pb_command p = pd_cmd (fs_probe fs) \<and> pb_resource p = resource_name c)"
  using suggest_probe_fresh_lemma [OF assms] by (simp add: fresh_probe_def)

definition ex_spec :: fact_spec where
  "ex_spec = \<lparr>fs_type = ''mgtt.bool'', fs_ttl = 0,
     fs_probe = \<lparr>pd_cmd = ''check {name}'', pd_parse = ''bool'', pd_cost = ''low'', pd_access = [], pd_timeout = 0\<rparr>,
     fs_window = 0, fs_derive = []\<rparr>"

definition ex_probed :: registry where
  "ex_probed = register new_registry (ex_provider ''p''
     [(''svc'', (ex_type ''svc'' [CmpNode [] ''up'' OpEq (VBool True)]
        [ex_state ''live'' (Some (CmpNode [] ''up'' OpEq (VBool True))) NoVerdict,
         ex_state ''down'' (Some (CmpNode [] ''up'' OpEq (VBool False))) NoVerdict])\<lparr>ty_facts := [(''up'', ex_spec)]\<rparr>)])"

definition ex_input :: "store \<Rightarrow> strategy_input" where
  "ex_input s = \<lparr>in_model = ex_site, in_registry = ex_probed, in_store = s, in_scenarios = [], in_graph = None, in_suspects = []\<rparr>"

definition ex_probe :: probe where
  "ex_probe = fact_probe ''web'' (ex_component ''web'' ''svc'' []) (ex_type ''svc'' [] []) ''p'' ''up'' ex_spec [(''zone'', ''eu'')]"

lemma ex_suggest: "suggest_probe Bfs (ex_input (ex_up [])) = Some (probe_next ex_probe)"
  by code_simp

theorem suggest_probe_fresh_witness:
  "latest (ex_up []) ''web'' ''up'' = None \<and>
   (\<exists>c t fs. component_of ex_site ''web'' = Some c \<and> resolve_type c ex_site ex_probed = Inr (t, ''p'') \<and>
      map_of (ty_facts t) ''up'' = Some fs \<and> pd_cmd (fs_probe fs) = ''check {name}'')"
  using suggest_probe_fresh [OF ex_suggest, of ex_probe]
  by (auto simp: decision_simps ex_probe_def fact_probe_def ex_input_def ex_spec_def)

lemma ex_down_done: "dc_done (bfs_suggest (ex_input ex_down))"
  by code_simp

theorem bfs_suggest_correct_witness:
  "List.find (fact_missing ex_site ex_probed ex_down) (bfs_walk ex_site ex_probed ex_down (entry_point ex_site)) = None"
proof -
  have "entry_point (in_model (ex_input ex_down)) \<noteq> []" by code_simp
  from bfs_suggest_correct [OF this] show ?thesis
    using ex_down_done by (simp add: ex_input_def split: option.splits)
qed

end
