(* ===== verification/Plan_Engine.thy ===== *)
theory Plan_Engine
  imports Strategies
begin

text \<open>
  The constraint engine (\<open>internal/engine/plan.go\<close>, types.go): the failure paths from an entry, which
  of them the facts eliminate and why, the root cause, and the next probe.

  The scenario sidecar that \<open>loadScenariosIfPresent\<close> reads from disk is an argument. The engine's own
  copies of the walk and of \<open>whileGuardActive\<close> are those of \<open>Walks\<close>.
\<close>

subsection \<open>Paths\<close>

record path =
  pt_id :: string
  pt_components :: "string list"
  pt_reason :: string

record path_tree =
  tr_entry :: string
  tr_paths :: "path list"
  tr_eliminated :: "path list"
  tr_suggested :: "probe option"
  tr_root_cause :: string
  tr_states :: derivation
  tr_cannot_rule_out :: "unseen list"
  tr_degraded :: "degraded list"

text \<open>
  \<open>fmt.Sprintf("PATH %c", 'A'+i)\<close>: the rune's UTF-8 bytes, one, two, three or four of them; the
  surrogates and what lies beyond the last code point print as the replacement character.
\<close>

definition utf8 :: "nat \<Rightarrow> string" where
  "utf8 n0 =
     (let n = (if 55296 \<le> n0 \<and> n0 \<le> 57343 \<or> 1114111 < n0 then 65533 else n0)
      in map char_of
        (if n < 128 then [n]
         else if n < 2048 then [192 + n div 64, 128 + n mod 64]
         else if n < 65536 then [224 + n div 4096, 128 + n div 64 mod 64, 128 + n mod 64]
         else [240 + n div 262144, 128 + n div 4096 mod 64, 128 + n div 64 mod 64, 128 + n mod 64]))"

definition path_id :: "nat \<Rightarrow> string" where
  "path_id i = ''PATH '' @ utf8 (65 + i)"

definition engine_act :: "model \<Rightarrow> registry \<Rightarrow> store \<Rightarrow> derivation \<Rightarrow> string \<Rightarrow> dependency \<Rightarrow> bool" where
  "engine_act m r s d = while_guard_active m r s (dv_states d)"

text \<open>
  \<open>sortPathsByDeclarationOrder\<close>: by the place of the path's end in \<open>m.Order\<close> (the last place, should
  it be listed twice; a name not listed counts as place 0).
\<close>

fun place_of :: "string list \<Rightarrow> nat \<Rightarrow> string \<Rightarrow> nat \<Rightarrow> nat" where
  "place_of [] i name found = found"
| "place_of (n # ns) i name found = place_of ns (i + 1) name (if n = name then i else found)"

definition order_place :: "string list \<Rightarrow> string \<Rightarrow> nat" where
  "order_place order name = place_of order 0 name 0"

definition sort_paths :: "string list \<Rightarrow> string list list \<Rightarrow> string list list" where
  "sort_paths order = sort_by (\<lambda>p q. order_place order (last p) < order_place order (last q))"

definition enumerate_paths :: "model \<Rightarrow> registry \<Rightarrow> store \<Rightarrow> derivation \<Rightarrow> string \<Rightarrow> string list list" where
  "enumerate_paths m r s d entry = sort_paths (m_order m) (bfs_enumerate m (engine_act m r s d) entry)"

subsection \<open>Which paths are eliminated\<close>

fun satisfied_group_on :: "model \<Rightarrow> registry \<Rightarrow> store \<Rightarrow> string list \<Rightarrow> string" where
  "satisfied_group_on m r s (a # b # cs) =
     (case satisfied_group m r s a b of Some why \<Rightarrow> why | None \<Rightarrow> satisfied_group_on m r s (b # cs))"
| "satisfied_group_on m r s _ = []"

definition healthy_link :: "model \<Rightarrow> registry \<Rightarrow> store \<Rightarrow> string list \<Rightarrow> string" where
  "healthy_link m r s p =
     (case List.find (\<lambda>c. component_verdict m r s c = Healthy) (butlast p) of None \<Rightarrow> [] | Some c \<Rightarrow> c)"

text \<open>\<open>ResolveDefaultActive\<close>: empty when the type does not resolve.\<close>

definition resolve_default_active :: "component option \<Rightarrow> model \<Rightarrow> registry \<Rightarrow> string" where
  "resolve_default_active c m r =
     (case c of
        None \<Rightarrow> []
      | Some c \<Rightarrow> (case resolve_type c m r of Inl _ \<Rightarrow> [] | Inr (t, _) \<Rightarrow> ty_default t))"

definition state_of :: "derivation \<Rightarrow> string \<Rightarrow> string" where
  "state_of d c = (case dv_states d c of None \<Rightarrow> [] | Some st \<Rightarrow> st)"

definition has_unhealthy_upstream :: "model \<Rightarrow> registry \<Rightarrow> store \<Rightarrow> derivation \<Rightarrow> string list \<Rightarrow> bool" where
  "has_unhealthy_upstream m r s d p =
     list_ex (\<lambda>c. let def = resolve_default_active (component_of m c) m r
                  in facts_for s c \<noteq> [] \<and> (def = [] \<or> state_of d c \<noteq> def)) (butlast p)"

definition is_eliminated :: "model \<Rightarrow> registry \<Rightarrow> store \<Rightarrow> string \<Rightarrow> bool" where
  "is_eliminated m r s c = (if facts_for s c = [] then True else component_verdict m r s c = Healthy)"

text \<open>One path of \<open>splitPaths\<close>: why it is eliminated, or that it stays.\<close>

definition elimination :: "model \<Rightarrow> registry \<Rightarrow> store \<Rightarrow> derivation \<Rightarrow> string list \<Rightarrow> string option" where
  "elimination m r s d p =
     (let deepest = last p; why = satisfied_group_on m r s p; link = healthy_link m r s p
      in if why \<noteq> [] then Some (''redundancy holds ('' @ why @ '')'')
         else if link \<noteq> [] \<and> component_verdict m r s deepest \<noteq> Unhealthy
         then Some (link @ '' healthy: a failure of '' @ deepest @ '' cannot pass through it'')
         else if \<not> is_eliminated m r s deepest then None
         else if facts_for s deepest = []
         then (if has_unhealthy_upstream m r s d p then None else Some (deepest @ '' has no observations''))
         else Some (deepest @ '' healthy ('' @ state_of d deepest @ '')''))"

fun split_paths :: "model \<Rightarrow> registry \<Rightarrow> store \<Rightarrow> derivation \<Rightarrow> nat \<Rightarrow> string list list \<Rightarrow> path list \<times> path list" where
  "split_paths m r s d i [] = ([], [])"
| "split_paths m r s d i (p # ps) =
     (case split_paths m r s d (i + 1) ps of
        (alive, elim) \<Rightarrow>
          (case elimination m r s d p of
             None \<Rightarrow> (\<lparr>pt_id = path_id i, pt_components = p, pt_reason = []\<rparr> # alive, elim)
           | Some why \<Rightarrow> (alive, \<lparr>pt_id = path_id i, pt_components = p, pt_reason = why\<rparr> # elim)))"

subsection \<open>The whole plan\<close>

definition conclude :: "model \<Rightarrow> registry \<Rightarrow> store \<Rightarrow> string \<Rightarrow> path_tree" where
  "conclude m r s entry0 =
     (let entry = (if entry0 = [] then entry_point m else entry0);
          d = derive m r s;
          (alive, elim) = split_paths m r s d 0 (enumerate_paths m r s d entry);
          alive1 = (if component_verdict m r s entry = Unhealthy
                    then \<lparr>pt_id = ''PATH ENTRY'', pt_components = [entry], pt_reason = []\<rparr> # alive else alive)
      in \<lparr>tr_entry = entry, tr_paths = alive1, tr_eliminated = elim, tr_suggested = None,
          tr_root_cause = root_cause m r s entry, tr_states = d,
          tr_cannot_rule_out = cannot_rule_out m r s, tr_degraded = redundancy_degraded m r s\<rparr>)"

text \<open>The scenario sidecar: the listed chains and the graph they expand from.\<close>

record scenario_set =
  ss_chains :: "scenario list"
  ss_graph :: "failure_graph option"

definition suggest_next_probe ::
    "model \<Rightarrow> registry \<Rightarrow> store \<Rightarrow> scenario_set \<Rightarrow> suspect_hint list \<Rightarrow> probe option option" where
  "suggest_next_probe m r s sc suspects =
     (let inp = \<lparr>in_model = m, in_registry = r, in_store = s, in_scenarios = ss_chains sc, in_graph = ss_graph sc,
                 in_suspects = suspects\<rparr>
      in map_option dc_probe (suggest_probe (auto_select inp) inp))"

definition plan_with ::
    "model \<Rightarrow> registry \<Rightarrow> store \<Rightarrow> scenario_set \<Rightarrow> string \<Rightarrow> suspect_hint list \<Rightarrow> path_tree option" where
  "plan_with m r s sc entry suspects =
     map_option (\<lambda>p. (conclude m r s entry)\<lparr>tr_suggested := p\<rparr>) (suggest_next_probe m r s sc suspects)"

definition plan :: "model \<Rightarrow> registry \<Rightarrow> store \<Rightarrow> scenario_set \<Rightarrow> string \<Rightarrow> path_tree option" where
  "plan m r s sc entry = plan_with m r s sc entry []"

definition eliminated_only :: "path_tree \<Rightarrow> string list" where
  "eliminated_only t =
     dedup_by (\<lambda>c. c) (\<Union>p\<in>set (tr_paths t). set (pt_components p)) (concat (map pt_components (tr_eliminated t)))"

subsection \<open>Every path is accounted for\<close>

lemma split_paths_components:
  "map pt_components (fst (split_paths m r s d i ps)) = filter (\<lambda>p. elimination m r s d p = None) ps \<and>
   map pt_components (snd (split_paths m r s d i ps)) = filter (\<lambda>p. elimination m r s d p \<noteq> None) ps"
  by (induction ps arbitrary: i) (auto simp: split_def split: option.splits)

lemma split_paths_reasons:
  "p \<in> set (snd (split_paths m r s d i ps)) \<Longrightarrow> elimination m r s d (pt_components p) = Some (pt_reason p)"
  by (induction ps arbitrary: i) (auto simp: split_def split: option.splits)

lemma enumerated_paths:
  "p \<in> set (enumerate_paths m r s d entry) \<Longrightarrow> p \<noteq> []"
  "distinct (map last (enumerate_paths m r s d entry))"
proof -
  show "distinct (map last (enumerate_paths m r s d entry))"
    unfolding enumerate_paths_def sort_paths_def bfs_enumerate_def distinct_map_sort_by
    by (rule conjunct1 [OF enum_loop_ends]) auto
  assume "p \<in> set (enumerate_paths m r s d entry)"
  then have "p \<in> set (enum_loop m (engine_act m r s d) [(entry, [entry])] {entry})"
    by (simp add: enumerate_paths_def sort_paths_def bfs_enumerate_def)
  then show "p \<noteq> []" by (rule enum_loop_nonempty [rotated]) auto
qed

lemma satisfied_text: "satisfied_group m r s a b = Some why \<Longrightarrow> why \<noteq> []"
proof -
  have "group_loop m r s a b deps = Some why \<Longrightarrow> why \<noteq> []" for deps
    by (induction deps) (auto simp: group_text_def Let_def split: if_splits)
  then show "satisfied_group m r s a b = Some why \<Longrightarrow> why \<noteq> []"
    by (auto simp: satisfied_group_def split: option.splits)
qed

lemma satisfied_group_on_iff:
  "satisfied_group_on m r s p \<noteq> [] \<longleftrightarrow> (\<exists>a b. (a, b) \<in> set (zip p (tl p)) \<and> group_holds m r s a b)"
proof (induction m r s p rule: satisfied_group_on.induct)
  case (1 m r s a b cs)
  then show ?case by (cases "satisfied_group m r s a b") (auto dest: satisfied_text)
qed auto

lemma healthy_link_iff:
  assumes "[] \<notin> set (butlast p)"
  shows "healthy_link m r s p \<noteq> [] \<longleftrightarrow> (\<exists>c\<in>set (butlast p). component_verdict m r s c = Healthy)"
proof (cases "List.find (\<lambda>c. component_verdict m r s c = Healthy) (butlast p)")
  case None
  then show ?thesis using find_None_all [OF None] by (auto simp: healthy_link_def)
next
  case (Some c)
  with find_Some_in [OF Some] assms show ?thesis by (auto simp: healthy_link_def)
qed

text \<open>
  The surviving and the eliminated paths of a plan are exactly the enumerated paths, each in one
  of the two lists, in the order of enumeration; the entry is a path of its own exactly when it is
  seen broken.
\<close>

theorem conclude_partitions:
  "let e = (if entry = [] then entry_point m else entry); d = derive m r s; ps = enumerate_paths m r s d e;
       t = conclude m r s entry
   in map pt_components (tr_paths t) =
        (if component_verdict m r s e = Unhealthy then [[e]] else []) @ filter (\<lambda>p. elimination m r s d p = None) ps \<and>
      map pt_components (tr_eliminated t) = filter (\<lambda>p. elimination m r s d p \<noteq> None) ps \<and>
      tr_root_cause t = root_cause m r s e"
  using split_paths_components [of m r s "derive m r s" 0]
  by (simp add: conclude_def Let_def split_def)

text \<open>
  C6: A path is eliminated exactly when it runs through a redundancy group that holds, or a link before
  its end is proven healthy and the end not seen broken, or its end is proven healthy, or its end was
  never observed and nothing above it was observed outside its default state.
\<close>

theorem elimination_iff:
  assumes "p \<noteq> []" and "[] \<notin> set p"
  shows "elimination m r s (derive m r s) p \<noteq> None \<longleftrightarrow>
    (\<exists>a b. (a, b) \<in> set (zip p (tl p)) \<and> group_holds m r s a b) \<or>
    (\<exists>c\<in>set (butlast p). component_verdict m r s c = Healthy) \<and> component_verdict m r s (last p) \<noteq> Unhealthy \<or>
    component_verdict m r s (last p) = Healthy \<and> facts_for s (last p) \<noteq> [] \<or>
    facts_for s (last p) = [] \<and> \<not> has_unhealthy_upstream m r s (derive m r s) p"
proof -
  have "[] \<notin> set (butlast p)" using assms(2) by (auto dest: in_set_butlastD)
  note links = healthy_link_iff [OF this, of m r s, symmetric]
  show ?thesis
    unfolding elimination_def Let_def is_eliminated_def satisfied_group_on_iff [symmetric] links
    by (cases "component_verdict m r s (last p)"; cases "facts_for s (last p) = []") simp_all
qed

text \<open>
  A component seen broken is never lost: unless a redundancy group that holds lies on its path, its
  path survives, whatever was observed above it.
\<close>

theorem broken_path_survives:
  assumes path: "p \<in> set (enumerate_paths m r s (derive m r s) e)" and "e \<noteq> []"
    and broken: "component_verdict m r s (last p) = Unhealthy" and seen: "facts_for s (last p) \<noteq> []"
    and plain: "\<not> (\<exists>a b. (a, b) \<in> set (zip p (tl p)) \<and> group_holds m r s a b)"
  shows "p \<in> pt_components ` set (tr_paths (conclude m r s e))"
proof -
  have "satisfied_group_on m r s p = []" using plain satisfied_group_on_iff [of m r s p] by auto
  then have "elimination m r s (derive m r s) p = None"
    using broken seen by (simp add: elimination_def Let_def is_eliminated_def)
  then have "p \<in> set (map pt_components (fst (split_paths m r s (derive m r s) 0 (enumerate_paths m r s (derive m r s) e))))"
    using path split_paths_components [of m r s "derive m r s" 0] by simp
  then show ?thesis using assms(2) by (auto simp: conclude_def Let_def split_def)
qed

text \<open>A database behind a redundancy group that holds and, beside it, behind a plain dependency.\<close>

definition ex_detour :: model where
  "ex_detour = ex_model [ex_component ''web'' ''svc'' [ex_group [''a'', ''b''] 1, ex_dep [''c'']],
     ex_component ''a'' ''svc'' [ex_dep [''db'']], ex_component ''b'' ''svc'' [],
     ex_component ''c'' ''svc'' [ex_dep [''db'']], ex_component ''db'' ''svc'' []]"

definition ex_detour_facts :: store where
  "ex_detour_facts = ex_up [(''web'', False), (''b'', True), (''db'', False)]"

lemma eliminated_only_iff:
  "c \<in> set (eliminated_only t) \<longleftrightarrow>
     (\<exists>p\<in>set (map pt_components (tr_eliminated t)). c \<in> set p) \<and>
     (\<forall>p\<in>set (map pt_components (tr_paths t)). c \<notin> set p)"
  by (auto simp: eliminated_only_def set_dedup)

lemma conclude_simps:
  assumes "e \<noteq> []"
  shows "tr_root_cause (conclude m r s e) = root_cause m r s e"
    "map pt_components (tr_paths (conclude m r s e)) =
       (if component_verdict m r s e = Unhealthy then [[e]] else []) @
       filter (\<lambda>p. elimination m r s (derive m r s) p = None) (enumerate_paths m r s (derive m r s) e)"
    "map pt_components (tr_eliminated (conclude m r s e)) =
       filter (\<lambda>p. elimination m r s (derive m r s) p \<noteq> None) (enumerate_paths m r s (derive m r s) e)"
  using assms split_paths_components [of m r s "derive m r s" 0]
  by (simp_all add: conclude_def Let_def split_def)

text \<open>
  The plan can contradict itself: where a component's shortest path runs through a redundancy group
  that holds while another path carries its failure, the root cause the plan names is one of the
  components found on eliminated paths only.
\<close>

lemma root_cause_eliminated:
  "tr_root_cause (conclude ex_detour ex_registry ex_detour_facts ''web'') = ''db'' \<and>
   ''db'' \<in> set (eliminated_only (conclude ex_detour ex_registry ex_detour_facts ''web''))"
proof -
  have "root_cause ex_detour ex_registry ex_detour_facts ''web'' = ''db''" by code_simp
  moreover have "enumerate_paths ex_detour ex_registry ex_detour_facts (derive ex_detour ex_registry ex_detour_facts) ''web'' =
      [[''web'', ''a''], [''web'', ''b''], [''web'', ''c''], [''web'', ''a'', ''db'']]" by code_simp
  moreover have "map (\<lambda>p. elimination ex_detour ex_registry ex_detour_facts (derive ex_detour ex_registry ex_detour_facts) p \<noteq> None)
      [[''web'', ''a''], [''web'', ''b''], [''web'', ''c''], [''web'', ''a'', ''db'']] = [True, True, False, True]"
    by code_simp
  ultimately show ?thesis unfolding eliminated_only_iff by (simp add: conclude_simps)
qed

theorem elimination_iff_witness:
  "elimination ex_detour ex_registry ex_detour_facts (derive ex_detour ex_registry ex_detour_facts) [''web'', ''a''] \<noteq> None"
proof -
  have "group_holds ex_detour ex_registry ex_detour_facts ''web'' ''a''" by code_simp
  then show ?thesis by (subst elimination_iff) auto
qed

theorem broken_path_survives_witness:
  "[''web'', ''cache''] \<in> pt_components ` set (tr_paths (conclude ex_site ex_registry ex_down ''web''))"
proof (rule broken_path_survives)
  show "[''web'', ''cache''] \<in> set (enumerate_paths ex_site ex_registry ex_down (derive ex_site ex_registry ex_down) ''web'')"
    by code_simp
  show "component_verdict ex_site ex_registry ex_down (last [''web'', ''cache'']) = Unhealthy" by code_simp
  show "facts_for ex_down (last [''web'', ''cache'']) \<noteq> []" by code_simp
  have "\<not> group_holds ex_site ex_registry ex_down ''web'' ''cache''" by code_simp
  then show "\<not> (\<exists>a b. (a, b) \<in> set (zip [''web'', ''cache''] (tl [''web'', ''cache''])) \<and> group_holds ex_site ex_registry ex_down a b)"
    by auto
qed simp

end
