(* ===== verification/Consistency.thy ===== *)
theory Consistency
  imports System_Model
begin

text \<open>
  \<open>internal/model/consistency.go\<close>: a type says what healthy means in its rules and again in its
  states. \<open>HealthStateDisagreements\<close> tries fact values around every constant the two compare
  against and reports where they part company; \<open>Witness\<close> finds facts that show a state.

  A nil \<open>vars\<close> is the lookup that finds nothing. The generator of the sampled search
  (\<open>math/rand/v2\<close>, seeded with the number of facts) is the parameter \<open>intn\<close>: \<open>intn sizes k\<close> is the
  result of the \<open>k\<close>-th call when the bounds of the calls run through \<open>sizes\<close> again and again, of
  which the documentation promises that it lies below its bound. It is only used beyond 4096
  combinations.

  The lemmas show that every reported disagreement is real, that the search misses none among
  the values it tries while the combinations stay within its bound, and that a witness shows the
  state it is asked for.
\<close>

subsection \<open>Float arithmetic of the candidate values\<close>

definition f64_zero :: f64 where
  "f64_zero = Fin False 0"

definition round_units :: "bool \<Rightarrow> nat \<Rightarrow> f64" where
  "round_units neg k =
     (let s = nbits k - 53; j = half_even k (2 ^ s) * 2 ^ s
      in if 2 ^ 2098 \<le> j then Inf neg else Fin neg j)"

fun f64_add :: "f64 \<Rightarrow> f64 \<Rightarrow> f64" where
  "f64_add NaN b = NaN"
| "f64_add a NaN = NaN"
| "f64_add (Inf m) (Inf n) = (if m = n then Inf m else NaN)"
| "f64_add (Inf m) (Fin n k) = Inf m"
| "f64_add (Fin m j) (Inf n) = Inf n"
| "f64_add (Fin m j) (Fin n k) =
     (let u = units m j + units n k
      in if u = 0 then Fin (m \<and> n) 0 else round_units (u < 0) (nat \<bar>u\<bar>))"

fun f64_neg :: "f64 \<Rightarrow> f64" where
  "f64_neg NaN = NaN"
| "f64_neg (Inf m) = Inf (\<not> m)"
| "f64_neg (Fin m k) = Fin (\<not> m) k"

text \<open>
  The conversion \<open>int(x)\<close>: truncation. Go leaves a value out of range to the implementation; on
  amd64 it is the least integer.
\<close>

fun f64_to_int :: "f64 \<Rightarrow> int" where
  "f64_to_int (Fin m k) =
     (let v = units m (k div 2 ^ 1074) in if - (2 ^ 63) \<le> v \<and> v < 2 ^ 63 then v else - (2 ^ 63))"
| "f64_to_int x = - (2 ^ 63)"

text \<open>A key put into a \<open>map[float64]bool\<close>: equal floats are one key, the last spelling of it.\<close>

definition float_put :: "f64 list \<Rightarrow> f64 \<Rightarrow> f64 list" where
  "float_put xs v = filter (\<lambda>x. \<not> f64_eq x v) xs @ [v]"

subsection \<open>The values worth trying\<close>

record cand_acc =
  ca_nums :: "string \<rightharpoonup> f64 list"
  ca_strs :: "string \<rightharpoonup> string list"
  ca_rel :: "string set"

definition no_cands :: cand_acc where
  "no_cands = \<lparr>ca_nums = Map.empty, ca_strs = Map.empty, ca_rel = {}\<rparr>"

definition list_at :: "(string \<rightharpoonup> 'a list) \<Rightarrow> string \<Rightarrow> 'a list" where
  "list_at m k = (case m k of None \<Rightarrow> [] | Some xs \<Rightarrow> xs)"

definition add_num :: "string \<Rightarrow> f64 \<Rightarrow> cand_acc \<Rightarrow> cand_acc" where
  "add_num fct v a = a\<lparr>ca_nums := (ca_nums a)(fct \<mapsto> float_put (list_at (ca_nums a) fct) v)\<rparr>"

definition add_str :: "string \<Rightarrow> string \<Rightarrow> cand_acc \<Rightarrow> cand_acc" where
  "add_str fct v a = a\<lparr>ca_strs := (ca_strs a)(fct \<mapsto> List.insert v (list_at (ca_strs a) fct))\<rparr>"

text \<open>One comparison of \<open>walk\<close>: constants, the other fact of a comparison of two, a variable's number.\<close>

definition cmp_cands ::
    "ptype \<Rightarrow> string \<Rightarrow> (string \<Rightarrow> string \<Rightarrow> string option) \<Rightarrow> string \<Rightarrow> val \<Rightarrow> fact_spec \<Rightarrow> cand_acc \<Rightarrow> cand_acc" where
  "cmp_cands t cn vars fct v f a =
     (case v of
        VInt i \<Rightarrow> add_num fct (f64_of_int i) a
      | VFloat64 x \<Rightarrow> add_num fct x a
      | VStr s \<Rightarrow>
          if fs_type f = ''mgtt.string'' then add_str fct s a
          else if map_of (ty_facts t) s \<noteq> None then
            (let b = add_num fct (f64_of_int 1) (add_num s (f64_of_int 1) (add_num s f64_zero (add_num fct f64_zero a)))
             in b\<lparr>ca_rel := ca_rel b \<union> {s, fct}\<rparr>)
          else (case vars cn s of
                  None \<Rightarrow> a
                | Some raw \<Rightarrow> (case parse_float raw of None \<Rightarrow> a | Some x \<Rightarrow> add_num fct x a))
      | _ \<Rightarrow> a)"

fun walk_cands ::
    "ptype \<Rightarrow> string \<Rightarrow> (string \<Rightarrow> string \<Rightarrow> string option) \<Rightarrow> cand_acc \<Rightarrow> node \<Rightarrow> cand_acc" where
  "walk_cands t cn vars a (AndNode l r) = walk_cands t cn vars (walk_cands t cn vars a l) r"
| "walk_cands t cn vars a (OrNode l r) = walk_cands t cn vars (walk_cands t cn vars a l) r"
| "walk_cands t cn vars a (CmpNode c fct oper v) =
     (case map_of (ty_facts t) fct of
        None \<Rightarrow> a
      | Some f \<Rightarrow> if c \<noteq> [] then a else cmp_cands t cn vars fct v f a)"

text \<open>A number with its neighbours, none below zero, in order.\<close>

definition neighbours :: "bool \<Rightarrow> f64 \<Rightarrow> f64 list" where
  "neighbours is_int c =
     (let step = (if is_int then f64_of_int 1 else case round_mag 1 1000 of None \<Rightarrow> NaN | Some k \<Rightarrow> Fin False k)
      in filter (\<lambda>x. compare_floats OpGte x f64_zero) [f64_add c (f64_neg step), c, f64_add c step])"

definition num_values :: "bool \<Rightarrow> f64 list \<Rightarrow> val list" where
  "num_values is_int cs =
     map (\<lambda>x. if is_int then VInt (f64_to_int x) else VFloat64 x)
       (sort_by f64_lt (foldl float_put [] (concat (map (neighbours is_int) cs))))"

definition fact_cands :: "cand_acc \<Rightarrow> string \<Rightarrow> fact_spec \<Rightarrow> val list" where
  "fact_cands a name f =
     (if fs_type f = ''mgtt.bool'' then [VBool True, VBool False]
      else if fs_type f = ''mgtt.string'' \<and> ca_strs a name \<noteq> None then map VStr (sort (list_at (ca_strs a) name))
      else (case ca_nums a name of
              None \<Rightarrow> []
            | Some cs \<Rightarrow> num_values (fs_type f = ''mgtt.int'') cs))"

definition state_whens :: "ptype \<Rightarrow> node list" where
  "state_whens t = List.map_filter sd_when (ty_states t)"

definition candidates ::
    "node list \<Rightarrow> ptype \<Rightarrow> string \<Rightarrow> (string \<Rightarrow> string \<Rightarrow> string option) \<Rightarrow> val list dict \<times> string set" where
  "candidates rules t cn vars =
     (let a = foldl (walk_cands t cn vars) no_cands (rules @ state_whens t)
      in (filter (\<lambda>(n, vs). vs \<noteq> []) (map (\<lambda>(n, f). (n, fact_cands a n f)) (ty_facts t)), ca_rel a))"

subsection \<open>Trying them\<close>

definition max_assignments :: nat where
  "max_assignments = 4096"

text \<open>The product of the list lengths; the loop stops once it has passed the bound.\<close>

fun capped_total :: "val list dict \<Rightarrow> nat \<Rightarrow> nat" where
  "capped_total [] tot = tot"
| "capped_total ((n, vs) # cs) tot =
     (let t = tot * length vs in if max_assignments < t then t else capped_total cs t)"

fun pick_at :: "val list dict \<Rightarrow> nat \<Rightarrow> val dict" where
  "pick_at [] idx = []"
| "pick_at ((n, vs) # cs) idx = (n, vs ! (idx mod length vs)) # pick_at cs (idx div length vs)"

fun draw_at :: "(nat \<Rightarrow> nat) \<Rightarrow> val list dict \<Rightarrow> nat \<Rightarrow> val dict" where
  "draw_at calls [] k = []"
| "draw_at calls ((n, vs) # cs) k = (n, vs ! calls k) # draw_at calls cs (Suc k)"

definition by_name :: "'v dict \<Rightarrow> 'v dict" where
  "by_name cands = sort_by (\<lambda>a b. fst a < fst b) cands"

text \<open>What \<open>eachAssignment\<close> hands to its function, in order.\<close>

definition assignments :: "(nat list \<Rightarrow> nat \<Rightarrow> nat) \<Rightarrow> val list dict \<Rightarrow> val dict list" where
  "assignments intn cands =
     (let cs = by_name cands; tot = capped_total cs 1
      in if max_assignments < tot then map (\<lambda>i. draw_at (intn (map (length \<circ> snd) cs)) cs (i * length cs)) [0..<max_assignments]
         else map (pick_at cs) [0..<tot])"

definition assign_ctx :: "string \<Rightarrow> (string \<Rightarrow> string \<Rightarrow> string option) \<Rightarrow> val dict \<Rightarrow> ctx" where
  "assign_ctx cn vars assign =
     \<lparr>cx_component = cn, cx_facts = (\<lambda>c k. if c = cn then map_of assign k else None),
      cx_states = Map.empty, cx_vars = vars\<rparr>"

fun state_loop :: "ctx \<Rightarrow> state_def list \<Rightarrow> string \<times> state_verdict" where
  "state_loop c [] = ([], NoVerdict)"
| "state_loop c (st # sts) =
     (case sd_when st of
        None \<Rightarrow> state_loop c sts
      | Some w \<Rightarrow> if eval c w = Inr True then (sd_name st, sd_verdict st) else state_loop c sts)"

definition state_of :: "ptype \<Rightarrow> ctx \<Rightarrow> string \<times> state_verdict" where
  "state_of t c = state_loop c (ty_states t)"

fun all_true :: "ctx \<Rightarrow> node list \<Rightarrow> bool \<Rightarrow> bool \<times> bool" where
  "all_true c [] healthy = (healthy, True)"
| "all_true c (r # rs) healthy =
     (case eval c r of Inl _ \<Rightarrow> (False, False) | Inr ok \<Rightarrow> all_true c rs (healthy \<and> ok))"

text \<open>\<open>healthOf\<close>: the state, whether healthy, and whether that is decided.\<close>

definition health_of :: "node list \<Rightarrow> ptype \<Rightarrow> ctx \<Rightarrow> string \<times> bool \<times> bool" where
  "health_of rules t c =
     (let (state, vd) = state_of t c
      in case vd of
           VerdictBroken \<Rightarrow> (state, False, True)
         | VerdictHealthy \<Rightarrow> (state, True, True)
         | NoVerdict \<Rightarrow> (state, all_true c rules True))"

definition state_verdict_named :: "ptype \<Rightarrow> string \<Rightarrow> state_verdict" where
  "state_verdict_named t state =
     (case List.find (\<lambda>st. sd_name st = state) (ty_states t) of None \<Rightarrow> NoVerdict | Some st \<Rightarrow> sd_verdict st)"

subsection \<open>Disagreements\<close>

record disagreement =
  dg_state :: string
  dg_healthy :: bool
  dg_witness :: "val dict"

text \<open>The switch of \<open>HealthStateDisagreements\<close>: whether the two say the same of the component.\<close>

definition agree :: "ptype \<Rightarrow> string \<Rightarrow> bool \<Rightarrow> bool" where
  "agree t state healthy \<longleftrightarrow>
     (if state = [] then healthy
      else healthy = (state = ty_default t \<or> state_verdict_named t state = VerdictHealthy))"

definition disagreement_at ::
    "node list \<Rightarrow> ptype \<Rightarrow> string \<Rightarrow> (string \<Rightarrow> string \<Rightarrow> string option) \<Rightarrow> val dict \<Rightarrow> disagreement option" where
  "disagreement_at rules t cn vars assign =
     (let (state, healthy, dec) = health_of rules t (assign_ctx cn vars assign)
      in if \<not> dec \<or> agree t state healthy then None
         else Some \<lparr>dg_state = state, dg_healthy = healthy, dg_witness = assign\<rparr>)"

definition disagreement_less :: "disagreement \<Rightarrow> disagreement \<Rightarrow> bool" where
  "disagreement_less a b \<longleftrightarrow>
     (if dg_state a \<noteq> dg_state b then dg_state a < dg_state b else dg_healthy a \<and> \<not> dg_healthy b)"

definition health_state_disagreements ::
    "(nat list \<Rightarrow> nat \<Rightarrow> nat) \<Rightarrow> node list \<Rightarrow> ptype \<Rightarrow> string \<Rightarrow> (string \<Rightarrow> string \<Rightarrow> string option) \<Rightarrow> disagreement list" where
  "health_state_disagreements intn rules t cn vars =
     (if ty_default t = [] \<or> rules = [] then []
      else let cands = fst (candidates rules t cn vars)
           in if cands = [] then []
              else sort_by disagreement_less
                     (dedup_by (\<lambda>d. (dg_state d, dg_healthy d)) {}
                        (List.map_filter (disagreement_at rules t cn vars) (assignments intn cands))))"

subsection \<open>Witnesses\<close>

text \<open>A string value the list does not hold.\<close>

function fresh_other :: "val list \<Rightarrow> string \<Rightarrow> string" where
  "fresh_other vals other = (if VStr other \<in> set vals then fresh_other vals (other @ ''-value'') else other)"
  by pat_completeness auto

fun val_size :: "val \<Rightarrow> nat" where
  "val_size (VStr s) = length s"
| "val_size v = 0"

termination fresh_other
proof (relation "measure (\<lambda>(vals, other). card {v \<in> set vals. length other \<le> val_size v})", goal_cases)
  case (2 vals other)
  have "{v \<in> set vals. length (other @ ''-value'') \<le> val_size v} \<subset> {v \<in> set vals. length other \<le> val_size v}"
  proof
    show "{v \<in> set vals. length (other @ ''-value'') \<le> val_size v} \<subseteq> {v \<in> set vals. length other \<le> val_size v}"
      by auto
    have "VStr other \<in> {v \<in> set vals. length other \<le> val_size v}" using 2 by simp
    moreover have "VStr other \<notin> {v \<in> set vals. length (other @ ''-value'') \<le> val_size v}" by simp
    ultimately show "{v \<in> set vals. length (other @ ''-value'') \<le> val_size v} \<noteq> {v \<in> set vals. length other \<le> val_size v}"
      by blast
  qed
  then show ?case by (auto intro: psubset_card_mono)
qed simp

declare fresh_other.simps [simp del]

text \<open>Equality of interface values, with the zero of the fact's type.\<close>

fun is_zero :: "bool \<Rightarrow> val \<Rightarrow> bool" where
  "is_zero is_int (VInt i) = (is_int \<and> i = 0)"
| "is_zero is_int (VFloat64 x) = (\<not> is_int \<and> f64_eq x f64_zero)"
| "is_zero is_int v = False"

text \<open>The values in the order that reads plainly: zero first, or last for a count compared with a count.\<close>

definition plain_order :: "ptype \<Rightarrow> string set \<Rightarrow> string \<Rightarrow> val list \<Rightarrow> val list" where
  "plain_order t relative name vals =
     (let ty = (case map_of (ty_facts t) name of None \<Rightarrow> [] | Some f \<Rightarrow> fs_type f)
      in if ty = ''mgtt.bool'' then vals
         else if ty = ''mgtt.string'' then vals @ [VStr (fresh_other vals ''other'')]
         else let is_int = (ty = ''mgtt.int'');
                  zero = (if is_int then VInt 0 else VFloat64 f64_zero);
                  rest = filter (\<lambda>v. \<not> is_zero is_int v) vals
              in if name \<in> relative then rest @ [zero] else zero # rest)"

definition witness ::
    "(nat list \<Rightarrow> nat \<Rightarrow> nat) \<Rightarrow> node list \<Rightarrow> ptype \<Rightarrow> string \<Rightarrow> (string \<Rightarrow> string \<Rightarrow> string option) \<Rightarrow> string \<Rightarrow> bool \<Rightarrow> val dict option" where
  "witness intn rules t cn vars state healthy =
     (let (cands, relative) = candidates rules t cn vars
      in List.find (\<lambda>assign. health_of rules t (assign_ctx cn vars assign) = (state, healthy, True))
           (assignments intn (map (\<lambda>(n, vs). (n, plain_order t relative n vs)) cands)))"

subsection \<open>The search is exhaustive within its bound\<close>

text \<open>An assignment that takes one of its values for every fact, in order.\<close>

definition choice_of :: "val list dict \<Rightarrow> val dict \<Rightarrow> bool" where
  "choice_of cs a \<longleftrightarrow> list_all2 (\<lambda>p q. fst q = fst p \<and> snd q \<in> set (snd p)) cs a"

definition combinations :: "val list dict \<Rightarrow> nat" where
  "combinations cs = prod_list (map (\<lambda>p. length (snd p)) cs)"

lemma choice_of_simps [simp]:
  "choice_of [] a \<longleftrightarrow> a = []"
  "choice_of ((n, vs) # cs) ((k, v) # a) \<longleftrightarrow> k = n \<and> v \<in> set vs \<and> choice_of cs a"
  "\<not> choice_of (p # cs) []"
  by (auto simp: choice_of_def)

lemma combinations_simps [simp]:
  "combinations [] = 1" "combinations (p # cs) = length (snd p) * combinations cs"
  by (simp_all add: combinations_def)

lemma combinations_positive: "\<forall>p\<in>set cs. snd p \<noteq> [] \<Longrightarrow> 0 < combinations cs"
  by (induction cs) auto

lemma capped_total_exact:
  "\<forall>p\<in>set cs. snd p \<noteq> [] \<Longrightarrow> t * combinations cs \<le> max_assignments \<Longrightarrow>
   capped_total cs t = t * combinations cs"
proof (induction cs t rule: capped_total.induct)
  case (1 t)
  then show ?case by simp
next
  case (2 n vs cs t)
  have "1 \<le> combinations cs" using 2(2) combinations_positive [of cs] by simp
  then have "t * length vs * 1 \<le> t * length vs * combinations cs" by (intro mult_le_mono2)
  then have "t * length vs \<le> t * (length vs * combinations cs)" by (simp only: mult.assoc mult_1_right)
  also have "\<dots> \<le> max_assignments" using 2(3) by simp
  finally have "\<not> max_assignments < t * length vs" by simp
  with 2 show ?case by (simp add: mult.assoc)
qed

lemma capped_total_over:
  "\<forall>p\<in>set cs. snd p \<noteq> [] \<Longrightarrow> t \<le> max_assignments \<Longrightarrow> max_assignments < t * combinations cs \<Longrightarrow>
   max_assignments < capped_total cs t"
proof (induction cs t rule: capped_total.induct)
  case (1 t)
  then show ?case by simp
next
  case (2 n vs cs t)
  then show ?case by (cases "max_assignments < t * length vs") (auto simp: mult.assoc)
qed

lemma pick_choice: "\<forall>p\<in>set cs. snd p \<noteq> [] \<Longrightarrow> choice_of cs (pick_at cs i)"
  by (induction cs i rule: pick_at.induct) auto

lemma choice_pick: "choice_of cs a \<Longrightarrow> \<exists>i<combinations cs. pick_at cs i = a"
proof (induction cs arbitrary: a)
  case Nil
  then show ?case by auto
next
  case (Cons p cs)
  obtain n vs where p: "p = (n, vs)" by (cases p)
  from Cons.prems p obtain v a' where a: "a = (n, v) # a'" "v \<in> set vs" "choice_of cs a'"
    by (cases a) auto
  obtain j where j: "j < length vs" "vs ! j = v" using a(2) by (auto simp: in_set_conv_nth)
  obtain i where i: "i < combinations cs" "pick_at cs i = a'" using Cons.IH a(3) by blast
  have "(j + length vs * i) div length vs = i" using j(1) by (metis add.right_neutral div_less div_mult_self2 gr_implies_not0 plus_nat.add_0)
  then have "pick_at (p # cs) (j + length vs * i) = a" using a j i p by simp
  moreover have "j + length vs * i < combinations (p # cs)"
  proof -
    have "j + length vs * i < length vs * Suc i" using j(1) by simp
    also have "\<dots> \<le> length vs * combinations cs" using i(1) by (intro mult_le_mono2) simp
    finally show ?thesis using p by simp
  qed
  ultimately show ?case by blast
qed

lemma draw_choice:
  "\<forall>p\<in>set cs. snd p \<noteq> [] \<Longrightarrow> (\<And>j. j < length cs \<Longrightarrow> calls (k + j) < length (snd (cs ! j))) \<Longrightarrow>
   choice_of cs (draw_at calls cs k)"
proof (induction calls cs k rule: draw_at.induct)
  case (2 calls n vs cs k)
  have "calls k < length vs" using 2(3) [of 0] by simp
  moreover have "calls (Suc k + j) < length (snd (cs ! j))" if "j < length cs" for j
    using 2(3) [of "Suc j"] that by simp
  ultimately show ?case using 2(1,2) by simp
qed simp

lemma assignments_exhaustive:
  assumes "\<forall>p\<in>set cands. snd p \<noteq> []" and "combinations (by_name cands) \<le> max_assignments"
  shows "set (assignments intn cands) = {a. choice_of (by_name cands) a}"
proof -
  have ne: "\<forall>p\<in>set (by_name cands). snd p \<noteq> []" using assms(1) by (simp add: by_name_def)
  have "capped_total (by_name cands) 1 = combinations (by_name cands)"
    using capped_total_exact [OF ne, of 1] assms(2) by simp
  then have "assignments intn cands = map (pick_at (by_name cands)) [0..<combinations (by_name cands)]"
    using assms(2) by (simp add: assignments_def Let_def)
  then show ?thesis using pick_choice [OF ne] choice_pick by (force simp: image_def)
qed

text \<open>Every assignment tried takes its values from the candidates, sampled or not.\<close>

lemma assignments_choice:
  assumes "\<And>sizes k. k mod length sizes < length sizes \<Longrightarrow> intn sizes k < sizes ! (k mod length sizes)"
    and "\<forall>p\<in>set cands. snd p \<noteq> []" and "a \<in> set (assignments intn cands)"
  shows "choice_of (by_name cands) a"
proof -
  let ?cs = "by_name cands"
  have ne: "\<forall>p\<in>set ?cs. snd p \<noteq> []" using assms(2) by (simp add: by_name_def)
  have "choice_of ?cs (draw_at (intn (map (length \<circ> snd) ?cs)) ?cs (i * length ?cs))" for i
  proof (rule draw_choice [OF ne])
    fix j assume "j < length ?cs"
    with assms(1) [of "i * length ?cs + j" "map (length \<circ> snd) ?cs"]
    show "intn (map (length \<circ> snd) ?cs) (i * length ?cs + j) < length (snd (?cs ! j))" by simp
  qed
  with assms(3) pick_choice [OF ne] show ?thesis
    by (auto simp: assignments_def Let_def split: if_splits)
qed

lemma candidates_nonempty: "\<forall>p\<in>set (fst (candidates rules t cn vars)). snd p \<noteq> []"
  by (auto simp: candidates_def Let_def)

subsection \<open>Disagreements\<close>

lemma set_map_filter: "set (List.map_filter f xs) = {y. \<exists>x\<in>set xs. f x = Some y}"
  by (induction xs) (auto simp: List.map_filter_def split: option.splits)

lemma disagreement_at_Some:
  "disagreement_at rules t cn vars a = Some d \<longleftrightarrow>
     health_of rules t (assign_ctx cn vars a) = (dg_state d, dg_healthy d, True) \<and> dg_witness d = a \<and>
     \<not> agree t (dg_state d) (dg_healthy d)"
proof -
  obtain st h b where "health_of rules t (assign_ctx cn vars a) = (st, h, b)"
    by (cases "health_of rules t (assign_ctx cn vars a)")
  then show ?thesis by (cases d; cases h; cases "dg_healthy d") (auto simp: disagreement_at_def)
qed

lemma disagreements_keys:
  assumes "ty_default t \<noteq> []" and "rules \<noteq> []" and "fst (candidates rules t cn vars) \<noteq> []"
  shows "(\<lambda>d. (dg_state d, dg_healthy d)) ` set (health_state_disagreements intn rules t cn vars) =
    {(st, h). \<exists>a\<in>set (assignments intn (fst (candidates rules t cn vars))).
       health_of rules t (assign_ctx cn vars a) = (st, h, True) \<and> \<not> agree t st h}"
    (is "?key ` _ = ?R")
proof -
  let ?as = "assignments intn (fst (candidates rules t cn vars))"
  have "?key ` set (health_state_disagreements intn rules t cn vars) =
      ?key ` set (List.map_filter (disagreement_at rules t cn vars) ?as)"
    using assms by (simp add: health_state_disagreements_def Let_def dedup_by_keys)
  also have "\<dots> = ?R"
  proof
    show "?key ` set (List.map_filter (disagreement_at rules t cn vars) ?as) \<subseteq> ?R"
      by (auto simp: set_map_filter disagreement_at_Some)
    show "?R \<subseteq> ?key ` set (List.map_filter (disagreement_at rules t cn vars) ?as)"
    proof safe
      fix st h a assume a: "a \<in> set ?as" "health_of rules t (assign_ctx cn vars a) = (st, h, True)" "\<not> agree t st h"
      let ?d = "\<lparr>dg_state = st, dg_healthy = h, dg_witness = a\<rparr>"
      from a have "disagreement_at rules t cn vars a = Some ?d" by (simp add: disagreement_at_Some)
      with a(1) have "?d \<in> set (List.map_filter (disagreement_at rules t cn vars) ?as)"
        by (auto simp: set_map_filter)
      then have "?key ?d \<in> ?key ` set (List.map_filter (disagreement_at rules t cn vars) ?as)" by (rule imageI)
      then show "(st, h) \<in> ?key ` set (List.map_filter (disagreement_at rules t cn vars) ?as)" by simp
    qed
  qed
  finally show ?thesis .
qed

text \<open>
  Every disagreement reported is real: its witness facts put the component in the state named,
  they decide its health as reported, and the two contradict each other.
\<close>

theorem disagreement_sound:
  assumes "d \<in> set (health_state_disagreements intn rules t cn vars)"
  shows "health_of rules t (assign_ctx cn vars (dg_witness d)) = (dg_state d, dg_healthy d, True) \<and>
    (if dg_state d = [] then \<not> dg_healthy d
     else dg_healthy d \<noteq> (dg_state d = ty_default t \<or> state_verdict_named t (dg_state d) = VerdictHealthy))"
proof -
  have "d \<in> set (List.map_filter (disagreement_at rules t cn vars) (assignments intn (fst (candidates rules t cn vars))))"
    using assms set_dedup_by_subset
    by (fastforce simp: health_state_disagreements_def Let_def split: if_splits)
  then show ?thesis by (auto simp: set_map_filter disagreement_at_Some agree_def)
qed

text \<open>
  C29: While the candidate values have at most 4096 combinations, a state and verdict are reported
  exactly when some combination of them puts rules and states in that disagreement.
\<close>

theorem disagreements_iff:
  fixes intn :: "nat list \<Rightarrow> nat \<Rightarrow> nat"
  assumes "ty_default t \<noteq> []" and "rules \<noteq> []" and "fst (candidates rules t cn vars) \<noteq> []"
    and "combinations (by_name (fst (candidates rules t cn vars))) \<le> max_assignments"
  shows "(\<exists>d\<in>set (health_state_disagreements intn rules t cn vars). dg_state d = st \<and> dg_healthy d = h) \<longleftrightarrow>
    (\<exists>a. choice_of (by_name (fst (candidates rules t cn vars))) a \<and>
       health_of rules t (assign_ctx cn vars a) = (st, h, True) \<and> \<not> agree t st h)"
proof -
  have "(\<exists>d\<in>set (health_state_disagreements intn rules t cn vars). dg_state d = st \<and> dg_healthy d = h) \<longleftrightarrow>
      (st, h) \<in> (\<lambda>d. (dg_state d, dg_healthy d)) ` set (health_state_disagreements intn rules t cn vars)"
    by (auto simp: image_def)
  then show ?thesis
    unfolding disagreements_keys [OF assms(1-3)] assignments_exhaustive [OF candidates_nonempty assms(4)]
    by auto
qed

subsection \<open>Witnesses\<close>

lemma plain_order_nonempty: "vals \<noteq> [] \<Longrightarrow> plain_order t relative n vals \<noteq> []"
  by (simp add: plain_order_def Let_def)

lemma fresh_other_fresh: "VStr (fresh_other vals other) \<notin> set vals"
  by (induction vals other rule: fresh_other.induct) (subst fresh_other.simps, simp)

text \<open>The candidate lists a witness is searched in.\<close>

definition witness_cands :: "node list \<Rightarrow> ptype \<Rightarrow> string \<Rightarrow> (string \<Rightarrow> string \<Rightarrow> string option) \<Rightarrow> val list dict" where
  "witness_cands rules t cn vars =
     (let (cands, relative) = candidates rules t cn vars in map (\<lambda>(n, vs). (n, plain_order t relative n vs)) cands)"

lemma witness_cands_nonempty: "\<forall>p\<in>set (witness_cands rules t cn vars). snd p \<noteq> []"
proof -
  obtain cands relative where c: "candidates rules t cn vars = (cands, relative)" by fastforce
  with candidates_nonempty [of rules t cn vars] show ?thesis
    by (auto simp: witness_cands_def plain_order_nonempty)
qed

lemma witness_alt:
  "witness intn rules t cn vars state healthy =
     List.find (\<lambda>a. health_of rules t (assign_ctx cn vars a) = (state, healthy, True))
       (assignments intn (witness_cands rules t cn vars))"
  by (simp add: witness_def witness_cands_def split_def Let_def)

text \<open>
  A witness shows what it was asked for: under its facts the component is in that state with that
  health. While the combinations stay within the bound, there is none only when no combination
  of the values tried shows it.
\<close>

theorem witness_correct:
  fixes intn :: "nat list \<Rightarrow> nat \<Rightarrow> nat"
  assumes "combinations (by_name (witness_cands rules t cn vars)) \<le> max_assignments"
  shows "case witness intn rules t cn vars st h of
      Some a \<Rightarrow> choice_of (by_name (witness_cands rules t cn vars)) a \<and>
        health_of rules t (assign_ctx cn vars a) = (st, h, True)
    | None \<Rightarrow> \<forall>a. choice_of (by_name (witness_cands rules t cn vars)) a \<longrightarrow>
        health_of rules t (assign_ctx cn vars a) \<noteq> (st, h, True)"
proof -
  note ex = assignments_exhaustive [OF witness_cands_nonempty assms, of intn]
  show ?thesis
  proof (cases "witness intn rules t cn vars st h")
    case None
    then have "List.find (\<lambda>a. health_of rules t (assign_ctx cn vars a) = (st, h, True))
        (assignments intn (witness_cands rules t cn vars)) = None"
      by (simp add: witness_alt)
    then have "\<forall>a\<in>set (assignments intn (witness_cands rules t cn vars)).
        health_of rules t (assign_ctx cn vars a) \<noteq> (st, h, True)"
      by (simp add: find_None_iff)
    with ex None show ?thesis by simp
  next
    case (Some a)
    with find_Some_in [of _ "assignments intn (witness_cands rules t cn vars)" a] ex show ?thesis
      by (auto simp: witness_alt)
  qed
qed

subsection \<open>An example\<close>

text \<open>A service that is down when it is not up, and starting, which its rules call healthy, when not ready.\<close>

definition ex_bool_fact :: fact_spec where
  "ex_bool_fact =
     \<lparr>fs_type = ''mgtt.bool'', fs_ttl = 0,
      fs_probe = \<lparr>pd_cmd = [], pd_parse = [], pd_cost = [], pd_access = [], pd_timeout = 0\<rparr>,
      fs_window = 0, fs_derive = []\<rparr>"

definition ex_when :: "string \<Rightarrow> string \<Rightarrow> state_def" where
  "ex_when n fct =
     \<lparr>sd_name = n, sd_when_raw = [], sd_when = Some (CmpNode [] fct OpEq (VBool False)),
      sd_description = [], sd_triggered_by = [], sd_verdict = NoVerdict\<rparr>"

definition ex_starting :: ptype where
  "ex_starting = (ex_type ''svc'' [] [ex_when ''down'' ''up'', ex_when ''starting'' ''ready''])
     \<lparr>ty_facts := [(''up'', ex_bool_fact), (''ready'', ex_bool_fact)]\<rparr>"

definition ex_up_rule :: "node list" where
  "ex_up_rule = [CmpNode [] ''up'' OpEq (VBool True)]"

lemma ex_starting_cands:
  "candidates ex_up_rule ex_starting cn vars =
     ([(''up'', [VBool True, VBool False]), (''ready'', [VBool True, VBool False])], {})"
  by (simp add: candidates_def ex_up_rule_def ex_starting_def ex_type_def state_whens_def ex_when_def
      List.map_filter_def cmp_cands_def fact_cands_def ex_bool_fact_def no_cands_def)

lemma ex_starting_found:
  "health_state_disagreements (\<lambda>_ _. 0) ex_up_rule ex_starting ''web'' (\<lambda>_ _. None) =
     [\<lparr>dg_state = ''starting'', dg_healthy = True, dg_witness = [(''ready'', VBool False), (''up'', VBool True)]\<rparr>]"
  unfolding health_state_disagreements_def ex_starting_cands by code_simp

theorem disagreement_sound_witness:
  "health_of ex_up_rule ex_starting
     (assign_ctx ''web'' (\<lambda>_ _. None) [(''ready'', VBool False), (''up'', VBool True)]) = (''starting'', True, True)"
  using disagreement_sound [of "\<lparr>dg_state = ''starting'', dg_healthy = True,
      dg_witness = [(''ready'', VBool False), (''up'', VBool True)]\<rparr>" "\<lambda>_ _. 0" ex_up_rule ex_starting "''web''" "\<lambda>_ _. None"]
  by (simp add: ex_starting_found)

theorem disagreements_iff_witness:
  "\<exists>a. choice_of (by_name (fst (candidates ex_up_rule ex_starting ''web'' (\<lambda>_ _. None)))) a \<and>
     health_of ex_up_rule ex_starting (assign_ctx ''web'' (\<lambda>_ _. None) a) = (''starting'', True, True) \<and>
     \<not> agree ex_starting ''starting'' True"
proof (rule disagreements_iff [where intn = "\<lambda>_ _. 0", THEN iffD1])
  show "ty_default ex_starting \<noteq> []" "ex_up_rule \<noteq> []"
    by (simp_all add: ex_starting_def ex_type_def ex_up_rule_def)
  show "fst (candidates ex_up_rule ex_starting ''web'' (\<lambda>_ _. None)) \<noteq> []"
    "combinations (by_name (fst (candidates ex_up_rule ex_starting ''web'' (\<lambda>_ _. None)))) \<le> max_assignments"
    unfolding ex_starting_cands by (simp_all add: by_name_def combinations_def max_assignments_def)
  show "\<exists>d\<in>set (health_state_disagreements (\<lambda>_ _. 0) ex_up_rule ex_starting ''web'' (\<lambda>_ _. None)).
      dg_state d = ''starting'' \<and> dg_healthy d = True"
    by (simp add: ex_starting_found)
qed

theorem witness_correct_witness:
  "health_of ex_up_rule ex_starting
     (assign_ctx ''web'' (\<lambda>_ _. None) [(''ready'', VBool True), (''up'', VBool False)]) = (''down'', False, True)"
proof -
  have c: "combinations (by_name (witness_cands ex_up_rule ex_starting ''web'' (\<lambda>_ _. None))) \<le> max_assignments"
    unfolding witness_cands_def ex_starting_cands
    by (simp add: by_name_def combinations_def max_assignments_def plain_order_def ex_starting_def ex_bool_fact_def ex_type_def)
  have w: "witness (\<lambda>_ _. 0) ex_up_rule ex_starting ''web'' (\<lambda>_ _. None) ''down'' False =
      Some [(''ready'', VBool True), (''up'', VBool False)]"
    unfolding witness_def ex_starting_cands by code_simp
  show ?thesis using witness_correct [OF c, where intn = "\<lambda>_ _. 0" and st = "''down''" and h = False] unfolding w by simp
qed

end
