(* ===== verification/Edit_Distance.thy ===== *)
theory Edit_Distance
  imports Go_Num
begin

text \<open>
  The suggestion for a misspelled dependency (\<open>internal/model/validate.go\<close>): \<open>levenshtein\<close>, a
  table filled row by row, and \<open>closestMatch\<close>. Text is ASCII, so a rune is a byte and
  \<open>strings.ToLower\<close> works byte by byte.

  The table is proved to hold the least number of single-character edits that turn one text into
  the other: every table entry is an optimal alignment of two prefixes, and alignments and edit
  sequences have the same costs.
\<close>

text \<open>The cells of row \<open>i\<close> after the first: \<open>up\<close> is row \<open>i - 1\<close> from the cell diagonally before.\<close>

fun lev_cells :: "char \<Rightarrow> string \<Rightarrow> nat list \<Rightarrow> nat \<Rightarrow> nat list" where
  "lev_cells x (y # ys) (diag # up # rest) left =
     (let cost = (if x = y then 0 else 1);
          cell = min (min (up + 1) (left + 1)) (diag + cost)
      in cell # lev_cells x ys (up # rest) cell)"
| "lev_cells x ys prev left = []"

definition lev_row :: "string \<Rightarrow> nat list \<Rightarrow> nat \<Rightarrow> char \<Rightarrow> nat list" where
  "lev_row b prev i x = i # lev_cells x b prev i"

fun lev_rows :: "string \<Rightarrow> nat list \<Rightarrow> nat \<Rightarrow> string \<Rightarrow> nat list" where
  "lev_rows b prev i [] = prev"
| "lev_rows b prev i (x # a) = lev_rows b (lev_row b prev i x) (Suc i) a"

definition levenshtein :: "string \<Rightarrow> string \<Rightarrow> nat" where
  "levenshtein a b =
     (let ra = to_lower a; rb = to_lower b
      in if ra = [] then length rb
         else if rb = [] then length ra
         else last (lev_rows rb [0..<Suc (length rb)] 1 ra))"

text \<open>\<open>closestMatch\<close>: the loop over the candidate names with the best name and distance so far.\<close>

fun closest_loop :: "string \<Rightarrow> string list \<Rightarrow> (string \<times> nat) option \<Rightarrow> (string \<times> nat) option" where
  "closest_loop target [] best = best"
| "closest_loop target (n # ns) best =
     (let d = levenshtein target n
      in closest_loop target ns
           (case best of
              None \<Rightarrow> Some (n, d)
            | Some (b, bd) \<Rightarrow> if d < bd then Some (n, d) else best))"

definition closest_match :: "string \<Rightarrow> string list \<Rightarrow> string" where
  "closest_match target names =
     (case closest_loop target names None of None \<Rightarrow> [] | Some (b, _) \<Rightarrow> b)"

subsection \<open>Alignments\<close>

text \<open>\<open>align a b n\<close>: the two texts read side by side with \<open>n\<close> deletions, insertions and substitutions.\<close>

inductive align :: "string \<Rightarrow> string \<Rightarrow> nat \<Rightarrow> bool" where
  align_Nil: "align [] [] 0"
| align_keep: "align a b n \<Longrightarrow> align (a @ [x]) (b @ [x]) n"
| align_subst: "align a b n \<Longrightarrow> align (a @ [x]) (b @ [y]) (Suc n)"
| align_delete: "align a b n \<Longrightarrow> align (a @ [x]) b (Suc n)"
| align_insert: "align a b n \<Longrightarrow> align a (b @ [y]) (Suc n)"

text \<open>The optimal cost of prefixes, the last characters first.\<close>

fun dist :: "string \<Rightarrow> string \<Rightarrow> nat" where
  "dist [] b = length b"
| "dist a [] = length a"
| "dist (x # a) (y # b) =
     min (min (dist a (y # b) + 1) (dist (x # a) b + 1)) (dist a b + (if x = y then 0 else 1))"

abbreviation pdist :: "string \<Rightarrow> string \<Rightarrow> nat" where
  "pdist a b \<equiv> dist (rev a) (rev b)"

lemma dist_Nil2 [simp]: "dist a [] = length a"
  by (cases a) auto

lemma pdist_snoc:
  "pdist (a @ [x]) (b @ [y]) =
     min (min (pdist a (b @ [y]) + 1) (pdist (a @ [x]) b + 1)) (pdist a b + (if x = y then 0 else 1))"
  by simp

lemma dist_step1: "dist (x # a) b \<le> Suc (dist a b)"
  by (cases b) auto

lemma dist_step2: "dist a (y # b) \<le> Suc (dist a b)"
  by (cases a) auto

lemma align_insert_all: "align [] b (length b)"
  by (induction b rule: rev_induct) (auto intro: align_Nil align_insert)

lemma align_delete_all: "align a [] (length a)"
  by (induction a rule: rev_induct) (auto intro: align_Nil align_delete)

lemma align_dist: "align (rev a) (rev b) (dist a b)"
proof (induction a b rule: dist.induct)
  case (1 b)
  then show ?case using align_insert_all [of "rev b"] by simp
next
  case (2 x a)
  then show ?case using align_delete_all [of "rev (x # a)"] by simp
next
  case (3 x a y b)
  consider "dist (x # a) (y # b) = Suc (dist a (y # b))" | "dist (x # a) (y # b) = Suc (dist (x # a) b)"
    | "dist (x # a) (y # b) = dist a b" "x = y" | "dist (x # a) (y # b) = Suc (dist a b)"
  proof -
    have "dist (x # a) (y # b) \<in> {Suc (dist a (y # b)), Suc (dist (x # a) b), dist a b + (if x = y then 0 else 1)}"
      unfolding dist.simps(3) min_def by (auto simp del: dist.simps)
    then show ?thesis using that by (cases "x = y") (auto simp del: dist.simps)
  qed
  then show ?case
    by cases (use 3 align_delete [of "rev a" "rev (y # b)"] align_insert [of "rev (x # a)" "rev b"]
        align_keep [of "rev a" "rev b"] align_subst [of "rev a" "rev b"] in auto)
qed

lemma dist_least: "align a b n \<Longrightarrow> pdist a b \<le> n"
proof (induction rule: align.induct)
  case align_Nil
  then show ?case by simp
next
  case (align_keep a b n x)
  then show ?case by simp
next
  case (align_subst a b n x y)
  have "pdist (a @ [x]) (b @ [y]) \<le> Suc (pdist a b)" unfolding pdist_snoc min_def by auto
  then show ?case using align_subst.IH by linarith
next
  case (align_delete a b n x)
  then show ?case using dist_step1 [of x "rev a" "rev b"] by simp
next
  case (align_insert a b n y)
  then show ?case using dist_step2 [of "rev a" y "rev b"] by simp
qed

subsection \<open>The table\<close>

lemma lev_cells_pdist:
  "prev = map (\<lambda>j. pdist a (take j b)) [k..<Suc (length b)] \<Longrightarrow> k \<le> length b \<Longrightarrow> left = pdist (a @ [x]) (take k b) \<Longrightarrow>
   lev_cells x (drop k b) prev left = map (\<lambda>j. pdist (a @ [x]) (take j b)) [Suc k..<Suc (length b)]"
proof (induction "length b - k" arbitrary: k prev left)
  case 0
  then show ?case by simp
next
  case (Suc d)
  then have k: "k < length b" by simp
  then have prev: "prev = pdist a (take k b) # pdist a (take (Suc k) b) # map (\<lambda>j. pdist a (take j b)) [Suc (Suc k)..<Suc (length b)]"
    using Suc(3) by (simp add: upt_rec)
  have drop: "drop k b = b ! k # drop (Suc k) b" using k by (simp add: Cons_nth_drop_Suc)
  have "pdist (a @ [x]) (take (Suc k) b) =
      min (min (pdist a (take (Suc k) b) + 1) (left + 1)) (pdist a (take k b) + (if x = b ! k then 0 else 1))"
    unfolding Suc(5) take_Suc_conv_app_nth [OF k] by (rule pdist_snoc)
  moreover have "pdist a (take (Suc k) b) # map (\<lambda>j. pdist a (take j b)) [Suc (Suc k)..<Suc (length b)] =
      map (\<lambda>j. pdist a (take j b)) [Suc k..<Suc (length b)]"
    using k by (subst (2) upt_conv_Cons) simp_all
  moreover have "lev_cells x (drop (Suc k) b) (pdist a (take (Suc k) b) # map (\<lambda>j. pdist a (take j b)) [Suc (Suc k)..<Suc (length b)])
      (pdist (a @ [x]) (take (Suc k) b)) = map (\<lambda>j. pdist (a @ [x]) (take j b)) [Suc (Suc k)..<Suc (length b)]"
    by (rule Suc.hyps(1)) (use Suc.hyps(2) k calculation(2) in auto)
  moreover have "map (\<lambda>j. pdist (a @ [x]) (take j b)) [Suc k..<Suc (length b)] =
      pdist (a @ [x]) (take (Suc k) b) # map (\<lambda>j. pdist (a @ [x]) (take j b)) [Suc (Suc k)..<Suc (length b)]"
    using k by (subst upt_conv_Cons) simp_all
  ultimately show ?case unfolding drop prev lev_cells.simps Let_def by simp
qed

lemma lev_row_pdist:
  assumes "prev = map (\<lambda>j. pdist a (take j b)) [0..<Suc (length b)]"
  shows "lev_row b prev (Suc (length a)) x = map (\<lambda>j. pdist (a @ [x]) (take j b)) [0..<Suc (length b)]"
proof -
  have "lev_cells x (drop 0 b) prev (Suc (length a)) = map (\<lambda>j. pdist (a @ [x]) (take j b)) [Suc 0..<Suc (length b)]"
    by (rule lev_cells_pdist [OF assms]) simp_all
  then show ?thesis by (subst upt_conv_Cons) (simp_all add: lev_row_def del: upt_Suc)
qed

lemma lev_rows_pdist:
  "prev = map (\<lambda>j. pdist dn (take j b)) [0..<Suc (length b)] \<Longrightarrow>
   lev_rows b prev (Suc (length dn)) a = map (\<lambda>j. pdist (dn @ a) (take j b)) [0..<Suc (length b)]"
proof (induction a arbitrary: dn prev)
  case Nil
  then show ?case by simp
next
  case (Cons x a)
  from Cons.IH [OF lev_row_pdist [OF Cons.prems, of x]] show ?case by simp
qed

lemma levenshtein_dist: "levenshtein a b = pdist (to_lower a) (to_lower b)"
proof -
  have "[0..<Suc (length (to_lower b))] = map (\<lambda>j. pdist [] (take j (to_lower b))) [0..<Suc (length (to_lower b))]"
    by (intro nth_equalityI) (simp_all del: upt_Suc)
  note lev_rows_pdist [OF this, of "to_lower a"]
  then show ?thesis by (simp add: levenshtein_def Let_def)
qed

subsection \<open>Single-character edits\<close>

inductive edit :: "string \<Rightarrow> string \<Rightarrow> bool" where
  edit_subst: "edit (u @ x # v) (u @ y # v)"
| edit_delete: "edit (u @ x # v) (u @ v)"
| edit_insert: "edit (u @ v) (u @ y # v)"

lemma align_append: "align b b' m \<Longrightarrow> align a a' n \<Longrightarrow> align (a @ b) (a' @ b') (n + m)"
proof (induction arbitrary: a a' n rule: align.induct)
  case (align_keep b b' m x)
  from align.align_keep [OF align_keep.IH [OF align_keep.prems]] show ?case by simp
next
  case (align_subst b b' m x y)
  from align.align_subst [OF align_subst.IH [OF align_subst.prems]] show ?case by simp
next
  case (align_delete b b' m x)
  from align.align_delete [OF align_delete.IH [OF align_delete.prems]] show ?case by simp
next
  case (align_insert b b' m y)
  from align.align_insert [OF align_insert.IH [OF align_insert.prems]] show ?case by simp
qed simp

lemma align_split:
  "align a b n \<Longrightarrow> b = u @ v \<Longrightarrow> \<exists>a1 a2 n1 n2. a = a1 @ a2 \<and> align a1 u n1 \<and> align a2 v n2 \<and> n = n1 + n2"
proof (induction arbitrary: v rule: align.induct)
  case align_Nil
  then show ?case using align.align_Nil by auto
next
  case (align_keep a b n x)
  show ?case
  proof (cases v rule: rev_cases)
    case Nil
    then show ?thesis using align.align_keep [OF align_keep.hyps, of x] align_keep.prems align.align_Nil by force
  next
    case (snoc v' z)
    with align_keep.prems have "z = x" "b = u @ v'" by auto
    with align_keep.IH obtain a1 a2 n1 n2 where "a = a1 @ a2" "align a1 u n1" "align a2 v' n2" "n = n1 + n2" by blast
    with align.align_keep [of a2 v' n2 x] snoc \<open>z = x\<close> show ?thesis by (metis append.assoc)
  qed
next
  case (align_subst a b n x y)
  show ?case
  proof (cases v rule: rev_cases)
    case Nil
    then show ?thesis using align.align_subst [OF align_subst.hyps, of x y] align_subst.prems align.align_Nil by force
  next
    case (snoc v' z)
    with align_subst.prems have "z = y" "b = u @ v'" by auto
    with align_subst.IH obtain a1 a2 n1 n2 where "a = a1 @ a2" "align a1 u n1" "align a2 v' n2" "n = n1 + n2" by blast
    with align.align_subst [of a2 v' n2 x y] snoc \<open>z = y\<close> show ?thesis by (metis append.assoc add_Suc_right)
  qed
next
  case (align_delete a b n x)
  then obtain a1 a2 n1 n2 where "a = a1 @ a2" "align a1 u n1" "align a2 v n2" "n = n1 + n2" by blast
  with align.align_delete [of a2 v n2 x] show ?case by (metis append.assoc add_Suc_right)
next
  case (align_insert a b n y)
  show ?case
  proof (cases v rule: rev_cases)
    case Nil
    then show ?thesis using align.align_insert [OF align_insert.hyps, of y] align_insert.prems align.align_Nil by force
  next
    case (snoc v' z)
    with align_insert.prems have "z = y" "b = u @ v'" by auto
    with align_insert.IH obtain a1 a2 n1 n2 where "a = a1 @ a2" "align a1 u n1" "align a2 v' n2" "n = n1 + n2" by blast
    with align.align_insert [of a2 v' n2 y] snoc \<open>z = y\<close> show ?thesis by (metis add_Suc_right)
  qed
qed

text \<open>Turning one aligned character into another text costs at most one more.\<close>

lemma align_single:
  assumes "align a [x] n"
  shows "\<exists>m\<le>Suc n. align a [] m" and "\<exists>m\<le>Suc n. align a [y] m"
proof -
  have n: "pdist a [x] \<le> n" by (rule dist_least [OF assms])
  have "pdist a [] \<le> Suc (pdist a [x])"
    by (induction a rule: rev_induct) auto
  with n align_dist [of "rev a" "[]"] show "\<exists>m\<le>Suc n. align a [] m" by (metis le_trans Suc_le_mono rev_rev_ident rev.simps(1))
  have "pdist a [y] \<le> Suc (pdist a [x])"
    by (induction a rule: rev_induct) auto
  with n align_dist [of "rev a" "[y]"] show "\<exists>m\<le>Suc n. align a [y] m" by (metis le_trans Suc_le_mono rev_rev_ident rev_singleton_conv)
qed

lemma align_edit:
  assumes "align a b n" and "edit b c"
  shows "\<exists>m\<le>Suc n. align a c m"
  using assms(2,1)
proof cases
  case (edit_subst u x v y)
  with assms(1) obtain a1 a2 n1 n2 where 1: "a = a1 @ a2" "align a1 u n1" "align a2 ([x] @ v) n2" "n = n1 + n2"
    using align_split [of a b n u "x # v"] by auto
  from align_split [OF 1(3) refl] obtain b1 b2 k1 k2 where 2: "a2 = b1 @ b2" "align b1 [x] k1" "align b2 v k2" "n2 = k1 + k2"
    by blast
  from align_single(2) [OF 2(2)] obtain m where m: "m \<le> Suc k1" "align b1 [y] m" by blast
  have "align a c (n1 + (m + k2))"
    using align_append [OF align_append [OF 2(3) m(2)] 1(2)] 1 2 edit_subst by simp
  then show ?thesis using m(1) 1 2 by (intro exI [of _ "n1 + (m + k2)"]) simp
next
  case (edit_delete u x v)
  with assms(1) obtain a1 a2 n1 n2 where 1: "a = a1 @ a2" "align a1 u n1" "align a2 ([x] @ v) n2" "n = n1 + n2"
    using align_split [of a b n u "x # v"] by auto
  from align_split [OF 1(3) refl] obtain b1 b2 k1 k2 where 2: "a2 = b1 @ b2" "align b1 [x] k1" "align b2 v k2" "n2 = k1 + k2"
    by blast
  from align_single(1) [OF 2(2)] obtain m where m: "m \<le> Suc k1" "align b1 [] m" by blast
  have "align a c (n1 + (m + k2))"
    using align_append [OF align_append [OF 2(3) m(2)] 1(2)] 1 2 edit_delete by simp
  then show ?thesis using m(1) 1 2 by (intro exI [of _ "n1 + (m + k2)"]) simp
next
  case (edit_insert u v y)
  with assms(1) obtain a1 a2 n1 n2 where 1: "a = a1 @ a2" "align a1 u n1" "align a2 v n2" "n = n1 + n2"
    using align_split [of a b n u v] by auto
  have "align a c (n1 + (1 + n2))"
    using align_append [OF align_append [OF 1(3) align_insert [OF align_Nil, of y]] 1(2)] 1 edit_insert by simp
  then show ?thesis using 1 by (intro exI [of _ "n1 + (1 + n2)"]) simp
qed

lemma edit_append: "edit a b \<Longrightarrow> edit (a @ w) (b @ w)"
  by (induction rule: edit.induct) (simp_all add: edit.intros)

lemma edits_append: "(edit ^^ n) a b \<Longrightarrow> (edit ^^ n) (a @ w) (b @ w)"
  by (induction n arbitrary: b) (auto intro: edit_append)

lemma align_edits: "align a b n \<Longrightarrow> (edit ^^ n) a b"
proof (induction rule: align.induct)
  case (align_subst a b n x y)
  from edits_append [OF this(2), of "[x]"] edit_subst [of b x "[]" y] show ?case by auto
next
  case (align_delete a b n x)
  from edits_append [OF this(2), of "[x]"] edit_delete [of b x "[]"] show ?case by auto
next
  case (align_insert a b n y)
  with edit_insert [of b "[]" y] show ?case by auto
qed (auto intro: edits_append)

lemma edits_align: "(edit ^^ n) a b \<Longrightarrow> \<exists>m\<le>n. align a b m"
proof (induction n arbitrary: b)
  case 0
  moreover have "align a a 0" by (induction a rule: rev_induct) (auto intro: align_Nil align_keep)
  ultimately show ?case by auto
next
  case (Suc n)
  then obtain c where "(edit ^^ n) a c" "edit c b" by auto
  with Suc.IH align_edit show ?case by (meson Suc_le_mono le_trans)
qed

text \<open>
  C31: \<open>levenshtein\<close> is the least number of single-character substitutions, deletions and insertions
  that turn one text into the other, letter case ignored.
\<close>

theorem levenshtein_edits: "levenshtein a b = (LEAST n. (edit ^^ n) (to_lower a) (to_lower b))"
proof (rule Least_equality [symmetric])
  show "(edit ^^ levenshtein a b) (to_lower a) (to_lower b)"
    using align_edits [OF align_dist [of "rev (to_lower a)" "rev (to_lower b)"]] by (simp add: levenshtein_dist)
next
  fix n assume "(edit ^^ n) (to_lower a) (to_lower b)"
  then obtain k where "k \<le> n" "align (to_lower a) (to_lower b) k" using edits_align by blast
  with dist_least show "levenshtein a b \<le> n" unfolding levenshtein_dist by (metis le_trans)
qed

lemma closest_loop_nearest:
  "closest_loop target ns best = Some (b, d) \<Longrightarrow> (\<forall>n k. best = Some (n, k) \<longrightarrow> k = levenshtein target n) \<Longrightarrow>
   d = levenshtein target b \<and> (b \<in> set ns \<or> best = Some (b, d)) \<and>
   (\<forall>n\<in>set ns. d \<le> levenshtein target n) \<and> (\<forall>n k. best = Some (n, k) \<longrightarrow> d \<le> k)"
proof (induction target ns best rule: closest_loop.induct)
  case (1 target best)
  then show ?case by simp
next
  case (2 target n ns best)
  define best' where "best' = (case best of None \<Rightarrow> Some (n, levenshtein target n)
    | Some (b, bd) \<Rightarrow> if levenshtein target n < bd then Some (n, levenshtein target n) else best)"
  have c: "closest_loop target ns best' = Some (b, d)" using 2(2) by (simp add: best'_def Let_def)
  have inv: "\<forall>n k. best' = Some (n, k) \<longrightarrow> k = levenshtein target n"
    using 2(3) by (auto simp: best'_def split: option.splits if_splits)
  note IH = 2(1) [OF refl, folded best'_def, OF c inv]
  show ?case
  proof (cases best)
    case None
    with IH show ?thesis by (auto simp: best'_def)
  next
    case (Some p)
    with IH show ?thesis
      by (cases p; cases "levenshtein target n < snd p") (auto simp: best'_def)
  qed
qed

lemma closest_loop_Some: "best \<noteq> None \<or> ns \<noteq> [] \<Longrightarrow> closest_loop target ns best \<noteq> None"
  by (induction target ns best rule: closest_loop.induct) (auto simp: Let_def split: option.splits)

text \<open>The suggestion is one of the names, and no other name is nearer.\<close>

lemma closest_match_nearest:
  assumes "names \<noteq> []"
  shows "closest_match target names \<in> set names \<and>
    (\<forall>n\<in>set names. levenshtein target (closest_match target names) \<le> levenshtein target n)"
proof -
  obtain b d where b: "closest_loop target names None = Some (b, d)"
    using closest_loop_Some [of None names target] assms by auto
  from closest_loop_nearest [OF this] have "b \<in> set names" "\<forall>n\<in>set names. levenshtein target b \<le> levenshtein target n"
    by auto
  with b show ?thesis by (simp add: closest_match_def)
qed

end
