(* ===== verification/Validate.thy ===== *)
theory Validate
  imports Consistency Edit_Distance Root_Cause
begin

text \<open>
  \<open>internal/model/validate.go\<close>: the passes of \<open>Validate\<close> over a loaded model, each returning the
  errors and warnings it appends, in order. A message is the constructor of \<open>message\<close> with the
  values its text prints.

  \<open>m.Order\<close> lists components of the model (\<open>wf_model\<close>): a name without one, which the code
  either skips or dereferences, contributes nothing.

  The lemmas characterise the models \<open>Validate\<close> finds no error in.
\<close>

subsection \<open>Results\<close>

datatype message =
    NameRequired
  | VersionRequired
  | HasNoType string
  | Unresolvable string
  | StrictRejects string
  | BadSource string
  | BadNeed int "string list"
  | UnknownDependency string string
  | Circular "string list option"
  | StateTaken string string
  | StateReadsFact string string string
  | NotAStateOf string string
  | TypeHasNoState string string
  | NoProducer string string string
  | ProbedWhole string string string
  | DuplicateResource string string string string
  | DropsRule string string
  | UnsetVar string string
  | HoldsInState string string "val dict"
  | FailsWithoutState string "val dict"
  | FailsInDefault string "val dict"

record validation_error =
  ve_component :: string
  ve_field :: string
  ve_message :: message
  ve_suggestion :: string

record validation_warning =
  vw_component :: string
  vw_field :: string
  vw_message :: message

record validation_result =
  vr_errors :: "validation_error list"
  vr_warnings :: "validation_warning list"

definition has_errors :: "validation_result \<Rightarrow> bool" where
  "has_errors v \<longleftrightarrow> vr_errors v \<noteq> []"

definition err :: "string \<Rightarrow> string \<Rightarrow> message \<Rightarrow> validation_error" where
  "err cn field msg = \<lparr>ve_component = cn, ve_field = field, ve_message = msg, ve_suggestion = []\<rparr>"

definition warn :: "string \<Rightarrow> string \<Rightarrow> message \<Rightarrow> validation_warning" where
  "warn cn field msg = \<lparr>vw_component = cn, vw_field = field, vw_message = msg\<rparr>"

text \<open>The loop over \<open>m.Order\<close> that every pass runs.\<close>

definition each_component :: "model \<Rightarrow> (string \<Rightarrow> component \<Rightarrow> 'a list) \<Rightarrow> 'a list" where
  "each_component m f =
     concat (map (\<lambda>n. case component_of m n of None \<Rightarrow> [] | Some c \<Rightarrow> f n c) (m_order m))"

text \<open>The type a pass looks at: nothing when it cannot be resolved.\<close>

definition with_type :: "model \<Rightarrow> registry \<Rightarrow> component \<Rightarrow> (ptype \<Rightarrow> string \<Rightarrow> 'a list) \<Rightarrow> 'a list" where
  "with_type m r c f = (case resolve_type c m r of Inl _ \<Rightarrow> [] | Inr (t, owner) \<Rightarrow> f t owner)"

subsection \<open>The passes\<close>

definition pass1_structural :: "model \<Rightarrow> validation_error list" where
  "pass1_structural m =
     (if mt_name (m_meta m) = [] then [err [] ''meta.name'' NameRequired] else []) @
     (if mt_version (m_meta m) = [] then [err [] ''meta.version'' VersionRequired] else []) @
     each_component m (\<lambda>n c. if c_type c = [] then [err n ''type'' (HasNoType n)] else [])"

definition pass2_type_resolution :: "model \<Rightarrow> registry \<Rightarrow> validation_error list" where
  "pass2_type_resolution m r =
     each_component m (\<lambda>n c.
       if c_type c = [] then []
       else (case resolve_type c m r of
               Inl _ \<Rightarrow> [err n ''type'' (Unresolvable (c_type c))]
             | Inr (t, owner) \<Rightarrow>
                 if mt_strict (m_meta m) \<and> owner = generic_name then [err n ''type'' (StrictRejects (c_type c))]
                 else []))"

definition pass3_dep_refs :: "model \<Rightarrow> validation_error list" where
  "pass3_dep_refs m =
     each_component m (\<lambda>n c.
       (if c_source c \<noteq> [] \<and> c_source c \<noteq> ''discovered'' \<and> c_source c \<noteq> ''authored''
        then [err n ''source'' (BadSource (c_source c))] else []) @
       concat (map (\<lambda>dep.
         (if dp_need dep < 0 \<or> int (length (dp_on dep)) < dp_need dep
          then [err n ''depends'' (BadNeed (dp_need dep) (dp_on dep))] else []) @
         concat (map (\<lambda>target.
           if component_of m target = None then
             [(err n ''depends'' (UnknownDependency n target))
                \<lparr>ve_suggestion := closest_match target (keys (m_components m))\<rparr>]
           else []) (dp_on dep)))
         (c_depends c)))"

definition pass4_cycles :: "model \<Rightarrow> validation_error list" where
  "pass4_cycles m =
     (case detect_cycle (build_graph m) of
        None \<Rightarrow> []
      | Some cycle \<Rightarrow> if cycle = Some [] then [] else [err [] ''depends'' (Circular cycle)])"

definition collect_can_cause_labels :: "registry \<Rightarrow> model \<Rightarrow> string set" where
  "collect_can_cause_labels r m =
     (\<Union>p\<in>set (registry_all r). \<Union>(n, t)\<in>set (pv_types p). \<Union>(st, causes)\<in>set (ty_failure_modes t). set causes) \<union>
     (\<Union>(n, c)\<in>set (m_components m). \<Union>(st, causes)\<in>set (c_failure_modes c). set causes)"

definition pass5_triggered_by :: "model \<Rightarrow> registry \<Rightarrow> validation_warning list" where
  "pass5_triggered_by m r =
     (let producers = collect_can_cause_labels r m
      in each_component m (\<lambda>n c.
           if c_type c = [] then []
           else with_type m r c (\<lambda>t owner.
             map (\<lambda>(state, label). warn n ''triggered_by'' (NoProducer (c_type c) state label))
               (dedup_by id {}
                 (filter (\<lambda>(state, label). label \<notin> producers)
                   (concat (map (\<lambda>st. map (\<lambda>label. (sd_name st, label)) (sd_triggered_by st)) (ty_states t))))))))"

text \<open>Pass 6 threads the resources seen, each with the component that owns it, through its loop.\<close>

definition kind_warning :: "string \<Rightarrow> component \<Rightarrow> validation_warning list" where
  "kind_warning n c =
     (case kind_prefixed n of
        None \<Rightarrow> []
      | Some (kind, rest) \<Rightarrow>
          if c_resource c = [] \<and> kind \<noteq> short_type (c_type c)
          then [warn n ''resource'' (ProbedWhole n (short_type (c_type c)) rest)] else [])"

fun duplicate_loop ::
    "model \<Rightarrow> registry \<Rightarrow> (string \<times> string \<times> string \<rightharpoonup> string) \<Rightarrow> string list \<Rightarrow> validation_warning list" where
  "duplicate_loop m r seen [] = []"
| "duplicate_loop m r seen (n # ns) =
     (case component_of m n of
        None \<Rightarrow> duplicate_loop m r seen ns
      | Some c \<Rightarrow>
          kind_warning n c @
          (case resolve_type c m r of
             Inl _ \<Rightarrow> duplicate_loop m r seen ns
           | Inr (_, owner) \<Rightarrow>
               (case seen (owner, c_type c, resource_name c) of
                  Some prior \<Rightarrow>
                    warn n ''resource'' (DuplicateResource (resource_name c) owner (c_type c) prior) #
                    duplicate_loop m r seen ns
                | None \<Rightarrow> duplicate_loop m r (seen((owner, c_type c, resource_name c) \<mapsto> n)) ns)))"

definition pass6_duplicate_resource :: "model \<Rightarrow> registry \<Rightarrow> validation_warning list" where
  "pass6_duplicate_resource m r = duplicate_loop m r Map.empty (m_order m)"

text \<open>\<open>squash\<close>: \<open>strings.Fields\<close> joined by nothing.\<close>

function fields :: "string \<Rightarrow> string list" where
  "fields [] = []"
| "fields (c # cs) =
     (if is_space c then fields cs
      else (c # takeWhile (\<lambda>d. \<not> is_space d) cs) # fields (dropWhile (\<lambda>d. \<not> is_space d) cs))"
  by pat_completeness auto

termination fields
  by (relation "measure length") (auto simp: le_imp_less_Suc length_dropWhile_le)

definition squash :: "string \<Rightarrow> string" where
  "squash rule = join [] (fields rule)"

definition pass7_healthy_override :: "model \<Rightarrow> registry \<Rightarrow> validation_warning list" where
  "pass7_healthy_override m r =
     each_component m (\<lambda>n c.
       if c_healthy_raw c = [] \<or> c_healthy_mode c \<noteq> [] then []
       else with_type m r c (\<lambda>t owner.
         map (\<lambda>rule. warn n ''healthy'' (DropsRule rule (c_type c)))
           (filter (\<lambda>rule. squash rule \<notin> squash ` set (c_healthy_raw c)) (ty_healthy_raw t))))"

definition ascii_letter :: "char \<Rightarrow> bool" where
  "ascii_letter c \<longleftrightarrow> (97 \<le> char_code c \<and> char_code c \<le> 122) \<or> (65 \<le> char_code c \<and> char_code c \<le> 90)"

definition is_bare_word :: "string \<Rightarrow> bool" where
  "is_bare_word s \<longleftrightarrow>
     list_all (\<lambda>c. c = CHR ''_'' \<or> ascii_letter c \<or> is_digit c) s \<and>
     s \<noteq> [] \<and> \<not> is_digit (hd s) \<and> s \<noteq> ''true'' \<and> s \<noteq> ''false''"

fun var_refs :: "ptype \<Rightarrow> node \<Rightarrow> string list" where
  "var_refs t (AndNode l r) = var_refs t l @ var_refs t r"
| "var_refs t (OrNode l r) = var_refs t l @ var_refs t r"
| "var_refs t (CmpNode cn fct oper v) =
     (case v of
        VStr s \<Rightarrow>
          if cn \<noteq> [] \<or> fct = [] \<or> fct = ''state'' \<or> \<not> is_bare_word s then []
          else if (case map_of (ty_facts t) fct of None \<Rightarrow> False | Some f \<Rightarrow> fs_type f = ''mgtt.string'') then []
          else if map_of (ty_facts t) s = None then [s] else []
      | _ \<Rightarrow> [])"

definition pass8_unset_vars :: "model \<Rightarrow> registry \<Rightarrow> validation_warning list" where
  "pass8_unset_vars m r =
     each_component m (\<lambda>n c. with_type m r c (\<lambda>t owner.
       map (\<lambda>key. warn n ''vars'' (UnsetVar (c_type c) key))
         (dedup_by id {}
           (filter (\<lambda>key. model_var m (Some r) n key = None)
             (concat (map (var_refs t) (healthy_rules c (Some t) @ state_whens t)))))))"

definition pass9_errors :: "model \<Rightarrow> registry \<Rightarrow> validation_error list" where
  "pass9_errors m r =
     each_component m (\<lambda>n c. with_type m r c (\<lambda>t owner.
       map (\<lambda>s. err n ''healthy_diverges_from'' (TypeHasNoState (c_type c) s))
         (filter (\<lambda>s. s \<notin> sd_name ` set (ty_states t)) (c_diverges c))))"

definition disagreement_message :: "component \<Rightarrow> ptype \<Rightarrow> disagreement \<Rightarrow> message" where
  "disagreement_message c t d =
     (if dg_state d = [] then FailsWithoutState (c_type c) (dg_witness d)
      else if \<not> dg_healthy d then FailsInDefault (dg_state d) (dg_witness d)
      else HoldsInState (dg_state d) (ty_default t) (dg_witness d))"

definition pass9_warnings :: "(nat list \<Rightarrow> nat \<Rightarrow> nat) \<Rightarrow> model \<Rightarrow> registry \<Rightarrow> validation_warning list" where
  "pass9_warnings intn m r =
     each_component m (\<lambda>n c. with_type m r c (\<lambda>t owner.
       if c_healthy_raw c = [] then []
       else let vars = model_var m (Some r);
                inherited = (\<lambda>d. (dg_state d, dg_healthy d)) ` set (health_state_disagreements intn (ty_healthy t) t n vars)
            in map (\<lambda>d. warn n ''healthy'' (disagreement_message c t d))
                 (filter (\<lambda>d. dg_state d \<notin> set (c_diverges c) \<and> (dg_state d, dg_healthy d) \<notin> inherited)
                   (health_state_disagreements intn (healthy_rules c (Some t)) t n vars))))"

fun own_fact_refs :: "node \<Rightarrow> string list" where
  "own_fact_refs (AndNode l r) = own_fact_refs l @ own_fact_refs r"
| "own_fact_refs (OrNode l r) = own_fact_refs l @ own_fact_refs r"
| "own_fact_refs (CmpNode cn fct oper v) = (if cn = [] \<and> fct \<noteq> ''state'' then [fct] else [])"

text \<open>Pass 10 looks at the provider's type, without the model's own states.\<close>

definition pass10_model_states :: "model \<Rightarrow> registry \<Rightarrow> validation_error list" where
  "pass10_model_states m r =
     each_component m (\<lambda>n c.
       if c_states c = [] \<and> c_healthy_in c = [] then []
       else (case registry_resolve r (effective_providers c m) (c_type c) of
               Inl _ \<Rightarrow> []
             | Inr (t, owner) \<Rightarrow>
                 concat (map (\<lambda>st.
                   (if sd_name st \<in> sd_name ` set (ty_states t)
                    then [err n ''states'' (StateTaken (sd_name st) (c_type c))] else []) @
                   map (\<lambda>f. err n ''states'' (StateReadsFact (sd_name st) f (c_type c)))
                     (filter (\<lambda>f. map_of (ty_facts t) f = None)
                       (case sd_when st of None \<Rightarrow> [] | Some w \<Rightarrow> own_fact_refs w)))
                   (c_states c)) @
                 map (\<lambda>h. err n ''healthy_in'' (NotAStateOf h (c_type c)))
                   (filter (\<lambda>h. h \<notin> sd_name ` set (ty_states t)) (c_healthy_in c))))"

text \<open>\<open>Validate\<close>: the passes over types only with a registry.\<close>

definition validate :: "(nat list \<Rightarrow> nat \<Rightarrow> nat) \<Rightarrow> model \<Rightarrow> registry option \<Rightarrow> validation_result" where
  "validate intn m reg =
     \<lparr>vr_errors =
        pass1_structural m @
        (case reg of None \<Rightarrow> []
         | Some r \<Rightarrow> pass2_type_resolution m r @ pass9_errors m r @ pass10_model_states m r) @
        pass3_dep_refs m @ pass4_cycles m,
      vr_warnings =
        (case reg of None \<Rightarrow> []
         | Some r \<Rightarrow> pass5_triggered_by m r @ pass6_duplicate_resource m r @ pass7_healthy_override m r @
             pass8_unset_vars m r @ pass9_warnings intn m r)\<rparr>"

text \<open>\<open>CollectGenericFallbacks\<close>: component and type, each component once.\<close>

definition collect_generic_fallbacks :: "model \<Rightarrow> registry option \<Rightarrow> (string \<times> string) list" where
  "collect_generic_fallbacks m reg =
     (case reg of
        None \<Rightarrow> []
      | Some r \<Rightarrow>
          dedup_by fst {}
            (each_component m (\<lambda>n c.
               if c_type c = [] then []
               else with_type m r c (\<lambda>t owner. if owner = generic_name then [(n, c_type c)] else []))))"

subsection \<open>What the passes accept\<close>

lemma each_component_Nil_iff:
  "each_component m f = [] \<longleftrightarrow> (\<forall>n\<in>set (m_order m). \<forall>c. component_of m n = Some c \<longrightarrow> f n c = [])"
  by (auto simp: each_component_def split: option.splits)

lemma concat_guard_Nil: "concat (map (\<lambda>x. if P x then [f x] else []) xs) = [] \<longleftrightarrow> (\<forall>x\<in>set xs. \<not> P x)"
  by (induction xs) auto

lemma with_type_Nil_iff: "with_type m r c f = [] \<longleftrightarrow> (\<forall>t owner. resolve_type c m r = Inr (t, owner) \<longrightarrow> f t owner = [])"
  by (auto simp: with_type_def split: sum.splits)

text \<open>The components of the model, as every pass meets them.\<close>

definition declared :: "model \<Rightarrow> (string \<times> component) set" where
  "declared m = {(n, c). n \<in> set (m_order m) \<and> component_of m n = Some c}"

lemma each_component_declared: "each_component m f = [] \<longleftrightarrow> (\<forall>(n, c)\<in>declared m. f n c = [])"
  by (auto simp: each_component_Nil_iff declared_def)

lemma declared_iff: "wf_model m \<Longrightarrow> (n, c) \<in> declared m \<longleftrightarrow> component_of m n = Some c"
  by (auto simp: declared_def wf_model_def map_of_in_keys)

text \<open>What a valid model is, component by component.\<close>

definition state_names :: "state_def list \<Rightarrow> string set" where
  "state_names sts = sd_name ` set sts"

definition valid_dependency :: "model \<Rightarrow> dependency \<Rightarrow> bool" where
  "valid_dependency m dep \<longleftrightarrow>
     0 \<le> dp_need dep \<and> dp_need dep \<le> int (length (dp_on dep)) \<and> (\<forall>x\<in>set (dp_on dep). component_of m x \<noteq> None)"

definition valid_typing :: "model \<Rightarrow> registry \<Rightarrow> component \<Rightarrow> ptype \<Rightarrow> string \<Rightarrow> bool" where
  "valid_typing m r c t owner \<longleftrightarrow>
     (mt_strict (m_meta m) \<longrightarrow> owner \<noteq> generic_name) \<and>
     (\<forall>st\<in>set (c_states c). sd_name st \<notin> state_names (ty_states t) \<and>
        (\<forall>w f. sd_when st = Some w \<longrightarrow> f \<in> set (own_fact_refs w) \<longrightarrow> map_of (ty_facts t) f \<noteq> None)) \<and>
     set (c_healthy_in c) \<subseteq> state_names (ty_states t) \<and>
     set (c_diverges c) \<subseteq> state_names (c_states c) \<union> state_names (ty_states t)"

definition valid_component :: "model \<Rightarrow> registry \<Rightarrow> component \<Rightarrow> bool" where
  "valid_component m r c \<longleftrightarrow>
     c_type c \<noteq> [] \<and> c_source c \<in> {[], ''discovered'', ''authored''} \<and> list_all (valid_dependency m) (c_depends c) \<and>
     (\<exists>t owner. registry_resolve r (effective_providers c m) (c_type c) = Inr (t, owner) \<and> valid_typing m r c t owner)"

definition valid_model :: "model \<Rightarrow> registry \<Rightarrow> bool" where
  "valid_model m r \<longleftrightarrow>
     mt_name (m_meta m) \<noteq> [] \<and> mt_version (m_meta m) \<noteq> [] \<and> (\<forall>(n, c)\<in>declared m. valid_component m r c) \<and>
     acyclic (edges (dependencies_of m))"

lemma effective_state_names: "state_names (ty_states (effective_type c t)) = state_names (c_states c) \<union> state_names (ty_states t)"
proof -
  have m: "sd_name ` mark_healthy_in c ` S = sd_name ` S" for S by (simp add: image_image)
  show ?thesis by (auto simp: state_names_def effective_type_def image_Un m)
qed

lemma resolve_type_Inr:
  "resolve_type c m r = Inr (t', owner) \<longleftrightarrow>
     (\<exists>t. registry_resolve r (effective_providers c m) (c_type c) = Inr (t, owner) \<and> t' = effective_type c t)"
  by (auto simp: resolve_type_def split: sum.splits)

lemma pass1_ok:
  "pass1_structural m = [] \<longleftrightarrow> mt_name (m_meta m) \<noteq> [] \<and> mt_version (m_meta m) \<noteq> [] \<and> (\<forall>(n, c)\<in>declared m. c_type c \<noteq> [])"
  by (auto simp: pass1_structural_def each_component_declared)

lemma pass3_ok:
  "pass3_dep_refs m = [] \<longleftrightarrow>
     (\<forall>(n, c)\<in>declared m. c_source c \<in> {[], ''discovered'', ''authored''} \<and> list_all (valid_dependency m) (c_depends c))"
  unfolding pass3_dep_refs_def each_component_declared
proof (intro ball_cong refl, clarify)
  fix n and c :: component
  have "concat (map (\<lambda>dep.
         (if dp_need dep < 0 \<or> int (length (dp_on dep)) < dp_need dep
          then [err n ''depends'' (BadNeed (dp_need dep) (dp_on dep))] else []) @
         concat (map (\<lambda>target.
           if component_of m target = None then
             [(err n ''depends'' (UnknownDependency n target))
                \<lparr>ve_suggestion := closest_match target (keys (m_components m))\<rparr>]
           else []) (dp_on dep))) (c_depends c)) = [] \<longleftrightarrow> list_all (valid_dependency m) (c_depends c)" (is "?l = [] \<longleftrightarrow> ?r")
    unfolding concat_eq_Nil_conv set_map ball_simps append_is_Nil_conv concat_guard_Nil
    by (auto simp: list_all_iff valid_dependency_def)
  then show "(if c_source c \<noteq> [] \<and> c_source c \<noteq> ''discovered'' \<and> c_source c \<noteq> ''authored''
        then [err n ''source'' (BadSource (c_source c))] else []) @ ?l = [] \<longleftrightarrow>
      c_source c \<in> {[], ''discovered'', ''authored''} \<and> ?r"
    by simp
qed

lemma pass4_ok:
  assumes "wf_model m"
  shows "pass4_cycles m = [] \<longleftrightarrow> acyclic (edges (dependencies_of m))"
proof (cases "detect_cycle (build_graph m)")
  case None
  then show ?thesis using detect_cycle_None_iff [OF assms] by (simp add: pass4_cycles_def)
next
  case (Some cycle)
  with detect_cycle_sound [OF Some] have "cycle \<noteq> Some []" by auto
  then show ?thesis using Some detect_cycle_None_iff [OF assms] by (simp add: pass4_cycles_def)
qed

lemma pass2_ok:
  assumes "pass1_structural m = []"
  shows "pass2_type_resolution m r = [] \<longleftrightarrow>
     (\<forall>(n, c)\<in>declared m. \<exists>t owner. registry_resolve r (effective_providers c m) (c_type c) = Inr (t, owner) \<and>
        (mt_strict (m_meta m) \<longrightarrow> owner \<noteq> generic_name))"
  unfolding pass2_type_resolution_def each_component_declared
proof (intro ball_cong refl, clarify)
  fix n c assume "(n, c) \<in> declared m"
  with assms have "c_type c \<noteq> []" by (auto simp: pass1_ok)
  then show "(if c_type c = [] then []
       else (case resolve_type c m r of
               Inl _ \<Rightarrow> [err n ''type'' (Unresolvable (c_type c))]
             | Inr (t, owner) \<Rightarrow>
                 if mt_strict (m_meta m) \<and> owner = generic_name then [err n ''type'' (StrictRejects (c_type c))]
                 else [])) = [] \<longleftrightarrow>
      (\<exists>t owner. registry_resolve r (effective_providers c m) (c_type c) = Inr (t, owner) \<and>
        (mt_strict (m_meta m) \<longrightarrow> owner \<noteq> generic_name))"
    by (cases "registry_resolve r (effective_providers c m) (c_type c)") (auto simp: resolve_type_def)
qed

lemma filter_Nil_subset: "filter (\<lambda>x. x \<notin> A) xs = [] \<longleftrightarrow> set xs \<subseteq> A"
  by (auto simp: filter_empty_conv)

lemma pass9_ok:
  "pass9_errors m r = [] \<longleftrightarrow>
     (\<forall>(n, c)\<in>declared m. \<forall>t owner. registry_resolve r (effective_providers c m) (c_type c) = Inr (t, owner) \<longrightarrow>
        set (c_diverges c) \<subseteq> state_names (c_states c) \<union> state_names (ty_states t))"
  unfolding pass9_errors_def each_component_declared with_type_Nil_iff map_is_Nil_conv filter_Nil_subset
    state_names_def [symmetric] resolve_type_Inr
  by (intro ball_cong refl) (auto simp: effective_state_names)

lemma pass10_ok:
  "pass10_model_states m r = [] \<longleftrightarrow>
     (\<forall>(n, c)\<in>declared m. \<forall>t owner. registry_resolve r (effective_providers c m) (c_type c) = Inr (t, owner) \<longrightarrow>
        (\<forall>st\<in>set (c_states c). sd_name st \<notin> state_names (ty_states t) \<and>
           (\<forall>w f. sd_when st = Some w \<longrightarrow> f \<in> set (own_fact_refs w) \<longrightarrow> map_of (ty_facts t) f \<noteq> None)) \<and>
        set (c_healthy_in c) \<subseteq> state_names (ty_states t))"
  unfolding pass10_model_states_def each_component_declared
proof (intro ball_cong refl, clarify)
  fix n and c :: component
  have sts: "concat (map (\<lambda>st.
       (if sd_name st \<in> sd_name ` set (ty_states t) then [err n ''states'' (StateTaken (sd_name st) (c_type c))] else []) @
       map (\<lambda>f. err n ''states'' (StateReadsFact (sd_name st) f (c_type c)))
         (filter (\<lambda>f. map_of (ty_facts t) f = None) (case sd_when st of None \<Rightarrow> [] | Some w \<Rightarrow> own_fact_refs w)))
       (c_states c)) = [] \<longleftrightarrow>
      (\<forall>st\<in>set (c_states c). sd_name st \<notin> state_names (ty_states t) \<and>
         (\<forall>w f. sd_when st = Some w \<longrightarrow> f \<in> set (own_fact_refs w) \<longrightarrow> map_of (ty_facts t) f \<noteq> None))" for t
  proof -
    have one: "filter (\<lambda>f. map_of (ty_facts t) f = None) (case sd_when st of None \<Rightarrow> [] | Some w \<Rightarrow> own_fact_refs w) = [] \<longleftrightarrow>
        (\<forall>w f. sd_when st = Some w \<longrightarrow> f \<in> set (own_fact_refs w) \<longrightarrow> map_of (ty_facts t) f \<noteq> None)" for st
      by (cases "sd_when st") (auto simp: filter_empty_conv)
    show ?thesis
      unfolding concat_eq_Nil_conv set_map ball_simps append_is_Nil_conv map_is_Nil_conv one
      by (auto simp: state_names_def)
  qed
  show "(if c_states c = [] \<and> c_healthy_in c = [] then []
       else (case registry_resolve r (effective_providers c m) (c_type c) of
               Inl _ \<Rightarrow> []
             | Inr (t, owner) \<Rightarrow>
                 concat (map (\<lambda>st.
                   (if sd_name st \<in> sd_name ` set (ty_states t)
                    then [err n ''states'' (StateTaken (sd_name st) (c_type c))] else []) @
                   map (\<lambda>f. err n ''states'' (StateReadsFact (sd_name st) f (c_type c)))
                     (filter (\<lambda>f. map_of (ty_facts t) f = None)
                       (case sd_when st of None \<Rightarrow> [] | Some w \<Rightarrow> own_fact_refs w)))
                   (c_states c)) @
                 map (\<lambda>h. err n ''healthy_in'' (NotAStateOf h (c_type c)))
                   (filter (\<lambda>h. h \<notin> sd_name ` set (ty_states t)) (c_healthy_in c)))) = [] \<longleftrightarrow>
      (\<forall>t owner. registry_resolve r (effective_providers c m) (c_type c) = Inr (t, owner) \<longrightarrow>
        (\<forall>st\<in>set (c_states c). sd_name st \<notin> state_names (ty_states t) \<and>
           (\<forall>w f. sd_when st = Some w \<longrightarrow> f \<in> set (own_fact_refs w) \<longrightarrow> map_of (ty_facts t) f \<noteq> None)) \<and>
        set (c_healthy_in c) \<subseteq> state_names (ty_states t))"
  proof (cases "registry_resolve r (effective_providers c m) (c_type c)")
    case (Inr p)
    obtain t owner where p: "p = (t, owner)" by (cases p)
    show ?thesis
    proof (cases "c_states c = [] \<and> c_healthy_in c = []")
      case False
      then show ?thesis
        unfolding Inr p sum.case prod.case if_not_P [OF False] append_is_Nil_conv map_is_Nil_conv sts filter_Nil_subset
        by (auto simp: state_names_def)
    qed simp
  qed simp
qed

text \<open>
  C9: \<open>Validate\<close> finds no error in a loaded model exactly when the model is well typed: it is named
  and versioned, its dependencies are acyclic and name components within their \<open>need\<close> bounds, and
  every component has a resolvable type whose states and facts its own \<open>states\<close>, \<open>healthy_in\<close> and
  \<open>healthy_diverges_from\<close> fit.
\<close>

theorem validate_accepts_iff:
  assumes "wf_model m"
  shows "\<not> has_errors (validate intn m (Some r)) \<longleftrightarrow> valid_model m r"
proof -
  have "\<not> has_errors (validate intn m (Some r)) \<longleftrightarrow>
      pass1_structural m = [] \<and> pass2_type_resolution m r = [] \<and> pass9_errors m r = [] \<and>
      pass10_model_states m r = [] \<and> pass3_dep_refs m = [] \<and> pass4_cycles m = []"
    by (auto simp: has_errors_def validate_def)
  also have "\<dots> \<longleftrightarrow> pass1_structural m = [] \<and>
      (\<forall>(n, c)\<in>declared m. \<exists>t owner. registry_resolve r (effective_providers c m) (c_type c) = Inr (t, owner) \<and> valid_typing m r c t owner) \<and>
      pass3_dep_refs m = [] \<and> pass4_cycles m = []"
    unfolding pass9_ok pass10_ok by (rule conj_cong [OF refl]) (fastforce simp: pass2_ok valid_typing_def)
  also have "\<dots> \<longleftrightarrow> valid_model m r"
    unfolding pass1_ok pass3_ok pass4_ok [OF assms] by (auto simp: valid_model_def valid_component_def)
  finally show ?thesis .
qed

text \<open>A model without errors is one the root-cause theorems speak of.\<close>

lemma validated_sound_model:
  assumes "wf_model m" and "[] \<notin> set (m_order m)" and "\<not> has_errors (validate intn m reg)"
  shows "sound_model m"
proof -
  have "pass4_cycles m = []" using assms(3) by (simp add: has_errors_def validate_def)
  with pass4_ok [OF assms(1)] detect_cycle_None_iff [OF assms(1)] assms(1,2) show ?thesis
    by (simp add: sound_model_def)
qed

text \<open>Every dependency of a model without errors leads to one of its components.\<close>

lemma validated_targets:
  assumes "wf_model m" and "\<not> has_errors (validate intn m reg)" and "x \<in> set (dependencies_of m n)"
  shows "x \<in> set (m_order m)"
proof -
  have "pass3_dep_refs m = []" using assms(2) by (simp add: has_errors_def validate_def)
  moreover obtain c where c: "component_of m n = Some c" "x \<in> set (targets_of c)"
    using assms(3) by (cases "component_of m n") (auto simp: dependencies_of_eq next_of_def targets_of_def)
  ultimately obtain dep where "dep \<in> set (c_depends c)" "x \<in> set (dp_on dep)" "valid_dependency m dep"
    using declared_iff [OF assms(1), of n c] by (auto simp: pass3_ok targets_of_def list_all_iff)
  then show ?thesis using assms(1) by (auto simp: valid_dependency_def wf_model_def set_keys)
qed

subsection \<open>Warnings\<close>

text \<open>The (provider, type, resource) triple a component's probes read; none when its type is unknown.\<close>

definition reads :: "model \<Rightarrow> registry \<Rightarrow> string \<Rightarrow> (string \<times> string \<times> string) option" where
  "reads m r n =
     (case component_of m n of
        None \<Rightarrow> None
      | Some c \<Rightarrow> (case resolve_type c m r of Inl _ \<Rightarrow> None | Inr (_, owner) \<Rightarrow> Some (owner, c_type c, resource_name c)))"

abbreviation duplicate_warning :: "string \<Rightarrow> string \<times> string \<times> string \<Rightarrow> string \<Rightarrow> validation_warning" where
  "duplicate_warning n k prior \<equiv>
     warn n ''resource'' (DuplicateResource (snd (snd k)) (fst k) (fst (snd k)) prior)"

lemma warn_inject: "warn a b c = warn a' b' c' \<longleftrightarrow> a = a' \<and> b = b' \<and> c = c'"
  by (simp add: warn_def)

lemma kind_warning_other: "duplicate_warning n k prior \<notin> set (kind_warning x c)"
  by (auto simp: kind_warning_def warn_def split: option.splits)

lemma duplicate_loop_Cons:
  "duplicate_warning n k prior \<in> set (duplicate_loop m r seen (x # ns)) \<longleftrightarrow>
     (case reads m r x of
        None \<Rightarrow> duplicate_warning n k prior \<in> set (duplicate_loop m r seen ns)
      | Some j \<Rightarrow>
          (case seen j of
             Some p \<Rightarrow> (n = x \<and> k = j \<and> prior = p) \<or> duplicate_warning n k prior \<in> set (duplicate_loop m r seen ns)
           | None \<Rightarrow> duplicate_warning n k prior \<in> set (duplicate_loop m r (seen(j \<mapsto> x)) ns)))"
proof (cases "component_of m x")
  case None
  then show ?thesis by (simp add: reads_def)
next
  case (Some c)
  show ?thesis
  proof (cases "resolve_type c m r")
    case (Inl e)
    then show ?thesis using Some by (simp add: reads_def kind_warning_other)
  next
    case (Inr p)
    then show ?thesis using Some
      by (cases p; cases "seen (snd p, c_type c, resource_name c)"; cases k)
        (auto simp: reads_def kind_warning_other [where k = "(u, v, w)" for u v w, simplified] warn_inject)
  qed
qed

lemma duplicate_loop_iff:
  assumes "\<And>k. seen k = List.find (\<lambda>x. reads m r x = Some k) dn"
  shows "duplicate_warning n k prior \<in> set (duplicate_loop m r seen ns) \<longleftrightarrow>
    (\<exists>us vs. ns = us @ n # vs \<and> reads m r n = Some k \<and> List.find (\<lambda>x. reads m r x = Some k) (dn @ us) = Some prior)"
  using assms
proof (induction ns arbitrary: seen dn)
  case Nil
  then show ?case by simp
next
  case (Cons x ns)
  have "(\<exists>us vs. x # ns = us @ n # vs \<and> P us) \<longleftrightarrow> (x = n \<and> P []) \<or> (\<exists>us vs. ns = us @ n # vs \<and> P (x # us))" for P
    by (auto simp: Cons_eq_append_conv)
  from this [where P = "\<lambda>us. reads m r n = Some k \<and> List.find (\<lambda>x. reads m r x = Some k) (dn @ us) = Some prior"]
  have split: "(\<exists>us vs. x # ns = us @ n # vs \<and> reads m r n = Some k \<and> List.find (\<lambda>x. reads m r x = Some k) (dn @ us) = Some prior) \<longleftrightarrow>
      (x = n \<and> reads m r x = Some k \<and> seen k = Some prior) \<or>
      (\<exists>us vs. ns = us @ n # vs \<and> reads m r n = Some k \<and> List.find (\<lambda>x. reads m r x = Some k) ((dn @ [x]) @ us) = Some prior)"
    using Cons.prems [of k] by auto
  show ?case
  proof (cases "reads m r x")
    case None
    have "seen j = List.find (\<lambda>x. reads m r x = Some j) (dn @ [x])" for j
      using Cons.prems [of j] None by (simp add: find_append split: option.split)
    from Cons.IH [OF this] None show ?thesis unfolding duplicate_loop_Cons split by simp
  next
    case (Some j)
    note j = Some
    show ?thesis
    proof (cases "seen j")
      case None
      have "(seen(j \<mapsto> x)) i = List.find (\<lambda>x. reads m r x = Some i) (dn @ [x])" for i
        using Cons.prems [of i] j None by (auto simp: find_append split: option.split)
      then have "duplicate_warning n k prior \<in> set (duplicate_loop m r (seen(j \<mapsto> x)) ns) \<longleftrightarrow>
          (\<exists>us vs. ns = us @ n # vs \<and> reads m r n = Some k \<and> List.find (\<lambda>x. reads m r x = Some k) ((dn @ [x]) @ us) = Some prior)"
        by (rule Cons.IH)
      with j None show ?thesis unfolding duplicate_loop_Cons split by auto
    next
      case (Some p)
      have "seen i = List.find (\<lambda>x. reads m r x = Some i) (dn @ [x])" for i
        using Cons.prems [of i] Cons.prems [of j] j Some
        by (cases "List.find (\<lambda>x. reads m r x = Some i) dn") (auto simp: find_append)
      from Cons.IH [OF this] j Some show ?thesis unfolding duplicate_loop_Cons split by auto
    qed
  qed
qed

text \<open>
  A component is warned of as a duplicate exactly when its probes read the same resource of the
  same type from the same provider as an earlier one, and the warning names the first that does.
\<close>

theorem duplicate_warned_iff:
  "warn n ''resource'' (DuplicateResource res owner ty prior) \<in> set (pass6_duplicate_resource m r) \<longleftrightarrow>
     (\<exists>us vs. m_order m = us @ n # vs \<and> reads m r n = Some (owner, ty, res) \<and>
        List.find (\<lambda>x. reads m r x = Some (owner, ty, res)) us = Some prior)"
  using duplicate_loop_iff [where dn = "[]" and seen = Map.empty and k = "(owner, ty, res)" and ns = "m_order m"]
  by (simp add: pass6_duplicate_resource_def)

text \<open>Rules compare with white space ignored: squashing a rule drops it.\<close>

lemma fields_join: "join [] (fields rule) = filter (\<lambda>c. \<not> is_space c) rule"
proof (induction rule rule: fields.induct)
  case 1
  then show ?case by simp
next
  case (2 c cs)
  have j: "join [] (x # xs) = x @ join [] xs" for x :: string and xs by (cases xs) auto
  show ?case
  proof (cases "is_space c")
    case False
    have "filter (\<lambda>c. \<not> is_space c) cs = takeWhile (\<lambda>d. \<not> is_space d) cs @ filter (\<lambda>c. \<not> is_space c) (dropWhile (\<lambda>d. \<not> is_space d) cs)"
      by (induction cs) auto
    with False 2(2) show ?thesis by (simp add: j)
  qed (use 2(1) in simp)
qed

subsection \<open>An example\<close>

definition ex_svc_registry :: registry where
  "ex_svc_registry = register new_registry (ex_provider ''p'' [(''svc'', ex_type ''svc'' [] [])])"

lemma ex_svc_resolves: "registry_resolve ex_svc_registry [''p''] ''svc'' = Inr (ex_type ''svc'' [] [], ''p'')"
  by (simp add: registry_resolve_def ex_svc_registry_def register_def new_registry_def ex_provider_def
      bare_provider_name_def rcut_def)

lemma ex_chain_valid: "\<not> has_errors (validate intn ex_chain (Some ex_svc_registry))"
proof -
  have d: "declared ex_chain = {(''db'', ex_component ''db'' ''svc'' []), (''api'', ex_component ''api'' ''svc'' [ex_dep [''db'']]),
      (''web'', ex_component ''web'' ''svc'' [ex_dep [''api'']])}"
    by (auto simp: declared_def ex_chain_def ex_model_def ex_component_def)
  have ps: "effective_providers c ex_chain = [''p'']" if "c_providers c = []" for c
    using that by (simp add: effective_providers_def ex_chain_def ex_model_def)
  have c: "c_type (ex_component n ''svc'' deps) = ''svc''" "c_providers (ex_component n ''svc'' deps) = []"
    "c_source (ex_component n ''svc'' deps) = []" "c_depends (ex_component n ''svc'' deps) = deps"
    "c_states (ex_component n ''svc'' deps) = []" "c_healthy_in (ex_component n ''svc'' deps) = []"
    "c_diverges (ex_component n ''svc'' deps) = []" for n deps
    by (simp_all add: ex_component_def)
  have p1: "pass1_structural ex_chain = []"
    unfolding pass1_ok d by (simp add: c) (simp add: ex_chain_def ex_model_def)
  moreover have "pass2_type_resolution ex_chain ex_svc_registry = []"
    unfolding pass2_ok [OF p1] d by (simp add: c ps ex_svc_resolves) (simp add: ex_chain_def ex_model_def)
  moreover have "pass9_errors ex_chain ex_svc_registry = []" "pass10_model_states ex_chain ex_svc_registry = []"
    unfolding pass9_ok pass10_ok d by (simp_all add: c)
  moreover have "pass3_dep_refs ex_chain = []"
    unfolding pass3_ok d by (simp add: c valid_dependency_def ex_dep_def) (simp add: ex_chain_def ex_model_def ex_component_def)
  moreover have "pass4_cycles ex_chain = []" by (simp add: pass4_cycles_def ex_chain_acyclic)
  ultimately show ?thesis by (simp add: has_errors_def validate_def)
qed

theorem validate_accepts_iff_witness: "valid_model ex_chain ex_svc_registry"
  using validate_accepts_iff [OF wf_ex_chain, of "\<lambda>_ _. 0" ex_svc_registry] ex_chain_valid by blast

end
