(* ===== verification/Build.thy ===== *)
theory Build
  imports System_Model
begin

text \<open>
  \<open>internal/model/build\<close>: a model built from what the providers discover. \<open>BuildModel\<close> (build.go)
  turns the providers' results into components and dependencies, \<open>MergePrev\<close> (merge.go) carries
  over what discovery cannot know, \<open>ComputeDiff\<close> (diff.go) and \<open>GateDeletions\<close> (safety.go) compare
  with the model replaced and refuse unintended removals; \<open>Discover\<close> (plan.go) composes them.

  The results of discovery, which run the providers, are an argument. A component \<open>MergePrev\<close> keeps is
  the previous model's own object, so the loop that carries guards over reads the dependencies it
  writes; \<open>port_shared\<close> is that loop.

  The lemmas characterise when a model is built and what is in it, which components a merge can
  remove, and what it keeps of them.
\<close>

subsection \<open>What a provider discovers (sdk/provider/discover.go)\<close>

record discovered =
  di_name :: string
  di_type :: string
  di_health_facts :: "string list"
  di_metadata :: "string dict"

record discovered_dep =
  dd_from :: string
  dd_to :: string

record discovery =
  ds_components :: "discovered list"
  ds_dependencies :: "discovered_dep list"

subsection \<open>\<open>BuildModel\<close>\<close>

datatype build_error =
    ReturnedTwice string string
  | NameCollision string string string
  | FromUnknown string string
  | ToUnknown string string

text \<open>The results in the order of the providers' names, which every pass follows.\<close>

definition provider_results :: "discovery dict \<Rightarrow> (string \<times> discovery) list" where
  "provider_results sn = List.map_filter (\<lambda>p. map_option (Pair p) (map_of sn p)) (sort (keys sn))"

fun count_names :: "string \<Rightarrow> string set \<Rightarrow> discovered list \<Rightarrow> (string \<Rightarrow> nat) \<Rightarrow> build_error + (string \<Rightarrow> nat)" where
  "count_names p seen [] n = Inr n"
| "count_names p seen (dc # dcs) n =
     (if di_name dc \<in> seen then Inl (ReturnedTwice p (di_name dc))
      else count_names p (insert (di_name dc) seen) dcs (n(di_name dc := n (di_name dc) + 1)))"

fun count_providers :: "(string \<times> discovery) list \<Rightarrow> (string \<Rightarrow> nat) \<Rightarrow> build_error + (string \<Rightarrow> nat)" where
  "count_providers [] n = Inr n"
| "count_providers ((p, res) # ps) n =
     (case count_names p {} (ds_components res) n of Inl e \<Rightarrow> Inl e | Inr n1 \<Rightarrow> count_providers ps n1)"

definition component_key :: "(string \<Rightarrow> nat) \<Rightarrow> discovered \<Rightarrow> string" where
  "component_key returned_by dc =
     (if 1 < returned_by (di_name dc) then kind_key (di_type dc) (di_name dc) else di_name dc)"

definition discovered_component :: "string \<Rightarrow> string \<Rightarrow> discovered \<Rightarrow> component" where
  "discovered_component key p dc =
     \<lparr>c_name = key, c_type = di_type dc, c_resource = [], c_providers = [p], c_depends = [],
      c_source = ''discovered'', c_healthy_raw = [], c_healthy = [], c_healthy_mode = [], c_diverges = [],
      c_failure_modes = [], c_states = [], c_healthy_in = [], c_vars = []\<rparr>"

text \<open>The first pass: the components of one provider, with the key of every name it returned.\<close>

fun register_components ::
    "(string \<Rightarrow> nat) \<Rightarrow> string \<Rightarrow> discovered list \<Rightarrow> component dict \<times> (string \<rightharpoonup> string) \<Rightarrow>
     build_error + component dict \<times> (string \<rightharpoonup> string)" where
  "register_components n p [] st = Inr st"
| "register_components n p (dc # dcs) (cs, key_of) =
     (let key = component_key n dc
      in case map_of cs key of
           Some existing \<Rightarrow> Inl (NameCollision key (hd (c_providers existing)) p)
         | None \<Rightarrow> register_components n p dcs
             (AList.update key (discovered_component key p dc) cs, key_of(di_name dc \<mapsto> key)))"

fun register_providers ::
    "(string \<Rightarrow> nat) \<Rightarrow> (string \<times> discovery) list \<Rightarrow> component dict \<times> (string \<rightharpoonup> string \<rightharpoonup> string) \<Rightarrow>
     build_error + component dict \<times> (string \<rightharpoonup> string \<rightharpoonup> string)" where
  "register_providers n [] st = Inr st"
| "register_providers n ((p, res) # ps) (cs, key_of) =
     (case register_components n p (ds_components res) (cs, Map.empty) of
        Inl e \<Rightarrow> Inl e
      | Inr (cs1, ks) \<Rightarrow> register_providers n ps (cs1, key_of(p \<mapsto> ks)))"

definition plain_dependency :: "string \<Rightarrow> dependency" where
  "plain_dependency target = \<lparr>dp_on = [target], dp_need = 0, dp_while_raw = [], dp_while = None\<rparr>"

definition add_dependency :: "string \<Rightarrow> component \<Rightarrow> component" where
  "add_dependency target c = c\<lparr>c_depends := c_depends c @ [plain_dependency target]\<rparr>"

text \<open>The second pass.\<close>

fun apply_dependencies ::
    "string \<Rightarrow> (string \<rightharpoonup> string) \<Rightarrow> discovered_dep list \<Rightarrow> component dict \<Rightarrow> build_error + component dict" where
  "apply_dependencies p ks [] cs = Inr cs"
| "apply_dependencies p ks (d # ds) cs =
     (case ks (dd_from d) of
        None \<Rightarrow> Inl (FromUnknown p (dd_from d))
      | Some from_key \<Rightarrow>
          (case ks (dd_to d) of
             None \<Rightarrow> Inl (ToUnknown p (dd_to d))
           | Some to_key \<Rightarrow> apply_dependencies p ks ds (AList.map_entry from_key (add_dependency to_key) cs)))"

fun apply_all_dependencies ::
    "(string \<rightharpoonup> string \<rightharpoonup> string) \<Rightarrow> (string \<times> discovery) list \<Rightarrow> component dict \<Rightarrow> build_error + component dict" where
  "apply_all_dependencies key_of [] cs = Inr cs"
| "apply_all_dependencies key_of ((p, res) # ps) cs =
     (case apply_dependencies p (case key_of p of None \<Rightarrow> Map.empty | Some ks \<Rightarrow> ks) (ds_dependencies res) cs of
        Inl e \<Rightarrow> Inl e
      | Inr cs1 \<Rightarrow> apply_all_dependencies key_of ps cs1)"

definition build_model :: "discovery dict \<Rightarrow> build_error + model" where
  "build_model sn =
     (let ps = provider_results sn
      in case count_providers ps (\<lambda>_. 0) of
           Inl e \<Rightarrow> Inl e
         | Inr n \<Rightarrow>
             (case register_providers n ps ([], Map.empty) of
                Inl e \<Rightarrow> Inl e
              | Inr (cs, key_of) \<Rightarrow>
                  (case apply_all_dependencies key_of ps cs of
                     Inl e \<Rightarrow> Inl e
                   | Inr cs1 \<Rightarrow>
                       Inr \<lparr>m_meta = \<lparr>mt_name = ''generated'', mt_version = ''1.0'', mt_providers = sort (keys sn),
                              mt_vars = [], mt_strict = False, mt_scenarios = []\<rparr>,
                            m_components = cs1, m_order = [], m_source_path = []\<rparr>)))"

subsection \<open>\<open>MergePrev\<close>\<close>

definition same_targets :: "string list \<Rightarrow> string list \<Rightarrow> bool" where
  "same_targets a b \<longleftrightarrow> length a = length b \<and> set b \<subseteq> set a"

definition port_guard :: "dependency list \<Rightarrow> dependency \<Rightarrow> dependency" where
  "port_guard prev nd =
     (case List.find (\<lambda>pd. dp_while_raw pd \<noteq> [] \<and> same_targets (dp_on nd) (dp_on pd)) prev of
        None \<Rightarrow> nd
      | Some pd \<Rightarrow> nd\<lparr>dp_while_raw := dp_while_raw pd, dp_while := dp_while pd\<rparr>)"

definition port_shared :: "dependency list \<Rightarrow> dependency list" where
  "port_shared deps = foldl (\<lambda>ds i. ds[i := port_guard ds (ds ! i)]) deps [0..<length deps]"

text \<open>The body of \<open>mergeHandAuthored\<close> for one component; \<open>shared\<close> tells that both are one object.\<close>

definition merge_component :: "bool \<Rightarrow> component \<Rightarrow> component \<Rightarrow> component" where
  "merge_component shared pc nc =
     (let c1 = (if c_healthy_raw nc = [] \<and> c_healthy_raw pc \<noteq> []
                then nc\<lparr>c_healthy_raw := c_healthy_raw pc, c_healthy_mode := c_healthy_mode pc, c_healthy := c_healthy pc\<rparr>
                else nc);
          c2 = (if c_failure_modes c1 = [] \<and> c_failure_modes pc \<noteq> []
                then c1\<lparr>c_failure_modes := c_failure_modes pc\<rparr> else c1);
          c3 = (if c_vars c2 = [] \<and> c_vars pc \<noteq> [] then c2\<lparr>c_vars := c_vars pc\<rparr> else c2)
      in c3\<lparr>c_depends := (if shared then port_shared (c_depends c3)
                          else map (port_guard (c_depends pc)) (c_depends c3))\<rparr>)"

definition merge_hand_authored :: "component dict \<Rightarrow> string set \<Rightarrow> component dict \<Rightarrow> component dict" where
  "merge_hand_authored prev discovered_keys next =
     map (\<lambda>(name, nc). (name,
       case map_of prev name of None \<Rightarrow> nc | Some pc \<Rightarrow> merge_component (name \<notin> discovered_keys) pc nc)) next"

definition kept_authored :: "component dict \<Rightarrow> component dict \<Rightarrow> component dict" where
  "kept_authored prev next = filter (\<lambda>(name, pc). map_of next name = None \<and> authored pc) prev"

fun keep_tombstones :: "component dict \<Rightarrow> string list \<Rightarrow> component dict \<Rightarrow> component dict" where
  "keep_tombstones prev [] next = next"
| "keep_tombstones prev (name # names) next =
     keep_tombstones prev names
       (case map_of prev name of
          None \<Rightarrow> next
        | Some pc \<Rightarrow> if map_of next name \<noteq> None then next else AList.update name pc next)"

definition merge_prev :: "model option \<Rightarrow> model \<Rightarrow> string list \<Rightarrow> string list \<times> model" where
  "merge_prev prev next tombstone =
     (case prev of
        None \<Rightarrow> ([], next)
      | Some pm \<Rightarrow>
          (let prev_cs = m_components pm; next_cs = m_components next;
               kept = kept_authored prev_cs next_cs;
               with_kept = foldl (\<lambda>cs (name, pc). AList.update name pc cs) next_cs kept;
               with_tombs = keep_tombstones prev_cs tombstone with_kept
           in (sort (map fst kept),
               next\<lparr>m_components := merge_hand_authored prev_cs (set (keys next_cs)) with_tombs\<rparr>)))"

text \<open>\<open>Dangling\<close>: authored components that depend on one the model does not have.\<close>

definition dangling :: "model \<Rightarrow> string list" where
  "dangling m =
     concat (map (\<lambda>name.
       case component_of m name of
         None \<Rightarrow> []
       | Some c \<Rightarrow>
           if \<not> authored c then []
           else map (\<lambda>on. name @ '' depends on '' @ on)
                  (filter (\<lambda>on. component_of m on = None) (concat (map dp_on (c_depends c)))))
       (sort (keys (m_components m))))"

subsection \<open>\<open>ComputeDiff\<close> and \<open>GateDeletions\<close>\<close>

record type_change =
  tc_name :: string
  tc_from :: string
  tc_to :: string

record model_diff =
  df_added :: "string list"
  df_removed :: "string list"
  df_type_changed :: "type_change list"

definition has_deletions :: "model_diff \<Rightarrow> bool" where
  "has_deletions d \<longleftrightarrow> 0 < length (df_removed d)"

definition diff_components :: "model option \<Rightarrow> component dict" where
  "diff_components m = (case m of None \<Rightarrow> [] | Some mm \<Rightarrow> m_components mm)"

definition compute_diff :: "model option \<Rightarrow> model option \<Rightarrow> model_diff" where
  "compute_diff prev next =
     (let ps = diff_components prev; ns = diff_components next
      in \<lparr>df_added = sort (filter (\<lambda>n. map_of ps n = None) (keys ns)),
          df_removed = sort (filter (\<lambda>n. map_of ns n = None) (keys ps)),
          df_type_changed = sort_by (\<lambda>a b. tc_name a < tc_name b)
            (List.map_filter (\<lambda>(n, c).
               case map_of ps n of
                 None \<Rightarrow> None
               | Some pc \<Rightarrow> if c_type pc \<noteq> c_type c then Some \<lparr>tc_name = n, tc_from = c_type pc, tc_to = c_type c\<rparr> else None) ns)\<rparr>)"

text \<open>\<open>GateDeletions\<close>: the names in the message when it refuses.\<close>

definition gate_deletions :: "model_diff \<Rightarrow> bool \<Rightarrow> string list \<Rightarrow> string list option" where
  "gate_deletions d allow_deletes tombstone =
     (if \<not> has_deletions d then None
      else if allow_deletes then None
      else let unprotected = filter (\<lambda>n. n \<notin> set tombstone) (df_removed d)
           in if unprotected = [] then None else Some unprotected)"

subsection \<open>\<open>Discover\<close>, given what the providers returned\<close>

record build_plan =
  bp_snapshots :: "discovery dict"
  bp_prev :: "model option"
  bp_next :: model
  bp_kept :: "string list"
  bp_diff :: model_diff

definition plan_build :: "discovery dict \<Rightarrow> model option \<Rightarrow> string list \<Rightarrow> build_error + build_plan" where
  "plan_build sn prev tombstone =
     (case build_model sn of
        Inl e \<Rightarrow> Inl e
      | Inr next0 \<Rightarrow>
          (case merge_prev prev next0 tombstone of
             (kept, next) \<Rightarrow>
               Inr \<lparr>bp_snapshots = sn, bp_prev = prev, bp_next = next, bp_kept = kept,
                    bp_diff = compute_diff prev (Some next)\<rparr>))"

subsection \<open>What the passes compute\<close>

abbreviation names_of :: "discovery \<Rightarrow> string list" where
  "names_of res \<equiv> map di_name (ds_components res)"

abbreviation returned :: "(string \<times> discovery) list \<Rightarrow> (string \<times> discovered) list" where
  "returned ps \<equiv> concat (map (\<lambda>(p, res). map (Pair p) (ds_components res)) ps)"

lemma map_of_provider_results: "map_of (provider_results sn) = map_of sn"
proof
  fix p
  have "List.map_filter (\<lambda>p. map_option (Pair p) (map_of sn p)) ps = map (\<lambda>p. (p, the (map_of sn p))) ps"
    if "set ps \<subseteq> dom (map_of sn)" for ps
    using that by (induction ps) (auto simp: List.map_filter_def)
  then have "provider_results sn = map (\<lambda>p. (p, the (map_of sn p))) (sort (keys sn))"
    by (simp add: provider_results_def set_keys)
  then show "map_of (provider_results sn) p = map_of sn p"
    by (cases "map_of sn p") (auto simp: map_of_map_restrict restrict_map_def set_keys)
qed

lemma keys_provider_results: "map fst (provider_results sn) = sort (keys sn)"
proof -
  have "map fst (List.map_filter (\<lambda>p. map_option (Pair p) (map_of sn p)) ps) = ps"
    if "set ps \<subseteq> dom (map_of sn)" for ps
    using that by (induction ps) (auto simp: List.map_filter_def)
  then show ?thesis by (simp add: provider_results_def set_keys)
qed

lemma wf_provider_results: "wf_dict sn \<Longrightarrow> wf_dict (provider_results sn)"
  by (simp add: wf_dict_def keys_provider_results keys_def)

lemma count_names_iff:
  "count_names p seen dcs n = Inr n' \<longleftrightarrow>
     distinct (map di_name dcs) \<and> di_name ` set dcs \<inter> seen = {} \<and>
     n' = (\<lambda>x. n x + count_list (map di_name dcs) x)"
  by (induction dcs arbitrary: seen n) (auto simp: fun_eq_iff)

lemma count_providers_iff:
  "count_providers ps n = Inr n' \<longleftrightarrow>
     (\<forall>(p, res)\<in>set ps. distinct (names_of res)) \<and>
     n' = (\<lambda>x. n x + count_list (concat (map (\<lambda>(p, res). names_of res) ps)) x)"
proof (induction ps arbitrary: n)
  case (Cons a ps)
  obtain p res where a: "a = (p, res)" by (cases a)
  show ?case
  proof (cases "count_names p {} (ds_components res) n")
    case (Inl e)
    then have "\<not> distinct (names_of res)" using count_names_iff [of p "{}" "ds_components res" n] by auto
    with Inl a show ?thesis by simp
  next
    case (Inr n1)
    then have "distinct (names_of res)" "n1 = (\<lambda>x. n x + count_list (names_of res) x)"
      by (auto simp: count_names_iff)
    then show ?thesis using Cons.IH [of n1] by (simp add: a Inr add.assoc)
  qed
qed (auto simp: fun_eq_iff)

lemma update_new: "map_of cs k = None \<Longrightarrow> AList.update k v cs = cs @ [(k, v)]"
  by (induction cs) auto

lemma register_components_iff:
  "register_components n p dcs (cs, ks) = Inr st \<longleftrightarrow>
     distinct (map (component_key n) dcs) \<and> component_key n ` set dcs \<inter> dom (map_of cs) = {} \<and>
     st = (cs @ map (\<lambda>dc. (component_key n dc, discovered_component (component_key n dc) p dc)) dcs,
           ks(map di_name dcs [\<mapsto>] map (component_key n) dcs))"
proof (induction dcs arbitrary: cs ks)
  case (Cons dc dcs)
  show ?case
  proof (cases "map_of cs (component_key n dc)")
    case None
    then have "map_of cs = map_of cs" "dom (map_of (cs @ [(component_key n dc, v)])) = insert (component_key n dc) (dom (map_of cs))" for v
      by (auto simp: dom_map_of_conv_image_fst)
    then show ?thesis using None by (auto simp: Let_def Cons.IH update_new fun_upd_def)
  qed (auto simp: Let_def)
qed auto

abbreviation keys_in :: "(string \<Rightarrow> nat) \<Rightarrow> discovery \<Rightarrow> string \<rightharpoonup> string" where
  "keys_in n res \<equiv> Map.empty(names_of res [\<mapsto>] map (component_key n) (ds_components res))"

lemma register_providers_iff:
  "register_providers n ps (cs, ko) = Inr st \<longleftrightarrow>
     distinct (map (\<lambda>(p, dc). component_key n dc) (returned ps)) \<and>
     (\<lambda>(p, dc). component_key n dc) ` set (returned ps) \<inter> dom (map_of cs) = {} \<and>
     st = (cs @ map (\<lambda>(p, dc). (component_key n dc, discovered_component (component_key n dc) p dc)) (returned ps),
           ko(map fst ps [\<mapsto>] map (\<lambda>(p, res). keys_in n res) ps))"
proof (induction ps arbitrary: cs ko)
  case (Cons a ps)
  obtain p res where a: "a = (p, res)" by (cases a)
  let ?new = "map (\<lambda>dc. (component_key n dc, discovered_component (component_key n dc) p dc)) (ds_components res)"
  have dom: "dom (map_of (cs @ ?new)) = dom (map_of cs) \<union> component_key n ` set (ds_components res)"
    by (auto simp: dom_map_of_conv_image_fst image_image)
  show ?case
  proof (cases "register_components n p (ds_components res) (cs, Map.empty)")
    case (Inl e)
    then have "\<not> (distinct (map (component_key n) (ds_components res)) \<and>
        component_key n ` set (ds_components res) \<inter> dom (map_of cs) = {})"
      using register_components_iff [of n p "ds_components res" cs Map.empty] by auto
    with Inl show ?thesis by (auto simp: a comp_def)
  next
    case (Inr st1)
    then obtain cs1 ks where st1: "st1 = (cs1, ks)" "register_components n p (ds_components res) (cs, Map.empty) = Inr (cs1, ks)"
      by (cases st1) auto
    from st1(2) have c: "distinct (map (component_key n) (ds_components res))"
      "component_key n ` set (ds_components res) \<inter> dom (map_of cs) = {}" "cs1 = cs @ ?new" "ks = keys_in n res"
      by (simp_all add: register_components_iff)
    have step: "register_providers n (a # ps) (cs, ko) = register_providers n ps (cs @ ?new, ko(p \<mapsto> keys_in n res))"
      by (simp add: a st1(2) c(3,4))
    have old: "map (\<lambda>(p, dc). component_key n dc) (map (Pair p) (ds_components res)) = map (component_key n) (ds_components res)"
      "(\<lambda>(p, dc). component_key n dc) ` set (map (Pair p) (ds_components res)) = component_key n ` set (ds_components res)"
      by (auto simp: comp_def)
    have ret: "returned (a # ps) = map (Pair p) (ds_components res) @ returned ps" by (simp add: a)
    define K where "K = (\<lambda>(p, dc). component_key n dc) ` set (returned ps)"
    define D where "D = dom (map_of cs)"
    have res: "(cs @ ?new) @ map (\<lambda>(p, dc). (component_key n dc, discovered_component (component_key n dc) p dc)) (returned ps) =
        cs @ map (\<lambda>(p, dc). (component_key n dc, discovered_component (component_key n dc) p dc)) (returned (a # ps))"
      "(ko(p \<mapsto> keys_in n res))(map fst ps [\<mapsto>] map (\<lambda>(p, res). keys_in n res) ps) =
        ko(map fst (a # ps) [\<mapsto>] map (\<lambda>(p, res). keys_in n res) (a # ps))"
      by (simp_all add: a comp_def)
    show ?thesis
      unfolding step Cons.IH dom ret [symmetric] res
      unfolding ret map_append set_append image_Un distinct_append old K_def [symmetric] D_def [symmetric]
      using c(1,2) unfolding D_def [symmetric] set_map old K_def [symmetric] by blast
  qed
qed auto

text \<open>The dependencies a pass adds to the component of key \<open>k\<close>.\<close>

definition edges_at :: "(string \<rightharpoonup> string) \<Rightarrow> discovered_dep list \<Rightarrow> string \<Rightarrow> dependency list" where
  "edges_at ks ds k = map (\<lambda>d. plain_dependency (the (ks (dd_to d)))) (filter (\<lambda>d. ks (dd_from d) = Some k) ds)"

definition with_edges :: "(string \<Rightarrow> dependency list) \<Rightarrow> component dict \<Rightarrow> component dict" where
  "with_edges es cs = map (\<lambda>(k, c). (k, c\<lparr>c_depends := c_depends c @ es k\<rparr>)) cs"

lemma map_entry_distinct:
  "wf_dict cs \<Longrightarrow> AList.map_entry k f cs = map (\<lambda>(j, c). (j, if j = k then f c else c)) cs"
proof (induction cs)
  case (Cons a cs)
  have "AList.map_entry k f cs = cs" if "k \<notin> fst ` set cs" using that by (induction cs) auto
  moreover have "map (\<lambda>(j, c). (j, if j = k then f c else c)) cs = cs" if "k \<notin> fst ` set cs"
    using that by (induction cs) auto
  ultimately show ?case using Cons by (cases a) (auto simp: wf_dict_def keys_def)
qed simp

lemma with_edges_twice: "with_edges f (with_edges e cs) = with_edges (\<lambda>k. e k @ f k) cs"
  by (simp add: with_edges_def comp_def split_def)

lemma with_edges_none [simp]: "with_edges (\<lambda>k. []) cs = cs"
  by (simp add: with_edges_def split_def)

lemma map_of_with_edges: "map_of (with_edges e cs) k = map_option (\<lambda>c. c\<lparr>c_depends := c_depends c @ e k\<rparr>) (map_of cs k)"
  unfolding with_edges_def by (induction cs) auto

lemma keys_with_edges [simp]: "wf_dict (with_edges e cs) = wf_dict cs"
  by (simp add: wf_dict_def keys_def with_edges_def comp_def split_def)

lemma apply_dependencies_iff:
  "wf_dict cs \<Longrightarrow>
   apply_dependencies p ks ds cs = Inr cs' \<longleftrightarrow>
     (\<forall>d\<in>set ds. ks (dd_from d) \<noteq> None \<and> ks (dd_to d) \<noteq> None) \<and> cs' = with_edges (edges_at ks ds) cs"
proof (induction ds arbitrary: cs)
  case Nil
  have "edges_at ks [] = (\<lambda>k. [])" by (simp add: edges_at_def fun_eq_iff)
  then show ?case by auto
next
  case (Cons d ds)
  show ?case
  proof (cases "ks (dd_from d) = None \<or> ks (dd_to d) = None")
    case True
    then show ?thesis by (auto split: option.split)
  next
    case False
    then obtain f t where ft: "ks (dd_from d) = Some f" "ks (dd_to d) = Some t" by auto
    have one: "AList.map_entry f (add_dependency t) cs = with_edges (edges_at ks [d]) cs"
      unfolding map_entry_distinct [OF Cons.prems]
      by (auto simp: with_edges_def edges_at_def add_dependency_def ft)
    have "edges_at ks (d # ds) = (\<lambda>k. edges_at ks [d] k @ edges_at ks ds k)"
      by (auto simp: edges_at_def fun_eq_iff)
    then show ?thesis using Cons.prems
      by (simp add: ft one Cons.IH with_edges_twice)
  qed
qed

lemma apply_all_iff:
  "wf_dict cs \<Longrightarrow>
   apply_all_dependencies ko ps cs = Inr cs' \<longleftrightarrow>
     (\<forall>(p, res)\<in>set ps. \<forall>d\<in>set (ds_dependencies res).
        (case ko p of None \<Rightarrow> Map.empty | Some ks \<Rightarrow> ks) (dd_from d) \<noteq> None \<and>
        (case ko p of None \<Rightarrow> Map.empty | Some ks \<Rightarrow> ks) (dd_to d) \<noteq> None) \<and>
     cs' = with_edges (\<lambda>k. concat (map (\<lambda>(p, res).
        edges_at (case ko p of None \<Rightarrow> Map.empty | Some ks \<Rightarrow> ks) (ds_dependencies res) k) ps)) cs"
proof (induction ps arbitrary: cs)
  case (Cons a ps)
  obtain p res where a: "a = (p, res)" by (cases a)
  let ?ks = "case ko p of None \<Rightarrow> Map.empty | Some ks \<Rightarrow> ks"
  show ?case
  proof (cases "apply_dependencies p ?ks (ds_dependencies res) cs")
    case (Inl e)
    then show ?thesis using apply_dependencies_iff [OF Cons.prems, of p ?ks "ds_dependencies res"] by (auto simp: a)
  next
    case (Inr cs1)
    note c = Inr [unfolded apply_dependencies_iff [OF Cons.prems]]
    then have "wf_dict cs1" using Cons.prems by simp
    from Cons.IH [OF this] c show ?thesis by (simp add: a Inr with_edges_twice)
  qed
qed auto

subsection \<open>When a model is built, and what is in it\<close>

definition returned_by :: "discovery dict \<Rightarrow> string \<Rightarrow> nat" where
  "returned_by sn x = card {p. \<exists>res. map_of sn p = Some res \<and> x \<in> set (names_of res)}"

abbreviation final_key :: "discovery dict \<Rightarrow> discovered \<Rightarrow> string" where
  "final_key sn dc \<equiv> component_key (returned_by sn) dc"

definition well_returned :: "discovery \<Rightarrow> bool" where
  "well_returned res \<longleftrightarrow>
     distinct (names_of res) \<and>
     (\<forall>d\<in>set (ds_dependencies res). dd_from d \<in> set (names_of res) \<and> dd_to d \<in> set (names_of res))"

lemma count_list_once: "distinct xs \<Longrightarrow> count_list xs x = (if x \<in> set xs then 1 else 0)"
  by (induction xs) auto

lemma returned_by_count:
  "wf_dict ps \<Longrightarrow> \<forall>(p, res)\<in>set ps. distinct (names_of res) \<Longrightarrow>
   count_list (concat (map (\<lambda>(p, res). names_of res) ps)) x = returned_by ps x"
proof (induction ps)
  case Nil
  show ?case by (simp add: returned_by_def)
next
  case (Cons a ps)
  obtain p res where a: "a = (p, res)" by (cases a)
  let ?P = "{p. \<exists>res. map_of ps p = Some res \<and> x \<in> set (names_of res)}"
  have "?P \<subseteq> dom (map_of ps)" by auto
  then have fin: "finite ?P" using finite_dom_map_of finite_subset by blast
  have p: "map_of ps p = None" using Cons.prems by (auto simp: a wf_dict_def keys_def map_of_eq_None_iff)
  have "{q. \<exists>r. map_of (a # ps) q = Some r \<and> x \<in> set (names_of r)} = (if x \<in> set (names_of res) then insert p ?P else ?P)"
    using p by (auto simp: a)
  moreover have "count_list (names_of res) x = (if x \<in> set (names_of res) then 1 else 0)"
    using Cons.prems by (auto simp: a count_list_0_iff count_list_once)
  moreover have "count_list (concat (map (\<lambda>(p, res). names_of res) ps)) x = card ?P"
    using Cons by (simp add: returned_by_def wf_dict_def keys_def)
  ultimately show ?case using fin p by (simp add: a returned_by_def)
qed

lemma map_upds_map: "Map.empty(map f xs [\<mapsto>] map g xs) = map_of (rev (map (\<lambda>x. (f x, g x)) xs))"
  by (simp add: map_upds_def zip_map_map zip_same_conv_map comp_def)

lemma map_of_rev: "distinct (map fst xs) \<Longrightarrow> map_of (rev xs) = map_of xs"
  by (subst map_of_inject_set) (simp_all add: rev_map [symmetric])

lemma keys_in_iff:
  "distinct (names_of res) \<Longrightarrow>
   keys_in n res x = Some k \<longleftrightarrow> (\<exists>dc\<in>set (ds_components res). di_name dc = x \<and> k = component_key n dc)"
  by (auto simp: map_upds_map map_of_eq_Some_iff rev_map [symmetric] comp_def)

lemma keys_in_None: "keys_in n res x = None \<longleftrightarrow> x \<notin> set (names_of res)"
  by (auto simp: map_upds_map map_of_eq_None_iff image_image)

lemma upds_dict: "wf_dict ps \<Longrightarrow> (Map.empty(map fst ps [\<mapsto>] map (\<lambda>(p, res). f res) ps)) p = map_option f (map_of ps p)"
proof -
  assume wf: "wf_dict ps"
  have "Map.empty(map fst ps [\<mapsto>] map (\<lambda>(p, res). f res) ps) = map_of (rev (map (\<lambda>(p, res). (p, f res)) ps))"
    unfolding map_upds_map by (simp add: split_def)
  also have "\<dots> = map_of (map (\<lambda>(p, res). (p, f res)) ps)"
    using wf by (intro map_of_rev) (simp add: wf_dict_def keys_def comp_def split_def)
  finally show ?thesis by (simp add: map_of_map)
qed

lemma build_model_iff:
  assumes wf: "wf_dict sn"
  defines "ps \<equiv> provider_results sn"
  shows "build_model sn = Inr m \<longleftrightarrow>
    (\<forall>p res. map_of sn p = Some res \<longrightarrow> well_returned res) \<and>
    distinct (map (\<lambda>(p, dc). final_key sn dc) (returned ps)) \<and>
    m = \<lparr>m_meta = \<lparr>mt_name = ''generated'', mt_version = ''1.0'', mt_providers = sort (keys sn),
           mt_vars = [], mt_strict = False, mt_scenarios = []\<rparr>,
         m_components = with_edges (\<lambda>k. concat (map (\<lambda>(p, res). edges_at (keys_in (returned_by sn) res) (ds_dependencies res) k) ps))
           (map (\<lambda>(p, dc). (final_key sn dc, discovered_component (final_key sn dc) p dc)) (returned ps)),
         m_order = [], m_source_path = []\<rparr>"
proof -
  have wfp: "wf_dict ps" and mo: "map_of ps = map_of sn"
    by (simp_all add: ps_def wf_provider_results [OF wf] map_of_provider_results)
  have all: "(\<forall>(p, res)\<in>set ps. P p res) \<longleftrightarrow> (\<forall>p res. map_of sn p = Some res \<longrightarrow> P p res)" for P
    using map_of_wf_dict [OF wfp] mo by fastforce
  show ?thesis
  proof (cases "count_providers ps (\<lambda>_. 0)")
    case (Inl e)
    then have "\<not> (\<forall>(p, res)\<in>set ps. distinct (names_of res))"
      using count_providers_iff [of ps "\<lambda>_. 0"] by auto
    then have "\<not> (\<forall>p res. map_of sn p = Some res \<longrightarrow> well_returned res)"
      unfolding all by (auto simp: well_returned_def)
    with Inl show ?thesis by (auto simp: build_model_def ps_def [symmetric])
  next
    case (Inr n)
    then have dist: "\<forall>(p, res)\<in>set ps. distinct (names_of res)"
      and "n = (\<lambda>x. count_list (concat (map (\<lambda>(p, res). names_of res) ps)) x)"
      by (simp_all add: count_providers_iff)
    then have "n = returned_by ps" using returned_by_count [OF wfp dist] by auto
    then have n: "n = returned_by sn" by (simp add: returned_by_def mo fun_eq_iff)
    let ?cs = "map (\<lambda>(p, dc). (final_key sn dc, discovered_component (final_key sn dc) p dc)) (returned ps)"
    let ?ko = "Map.empty(map fst ps [\<mapsto>] map (\<lambda>(p, res). keys_in n res) ps)"
    show ?thesis
    proof (cases "distinct (map (\<lambda>(p, dc). final_key sn dc) (returned ps))")
      case False
      then have "\<exists>e. register_providers n ps ([], Map.empty) = Inl e"
        using register_providers_iff [of n ps "[]" Map.empty] n
        by (cases "register_providers n ps ([], Map.empty)") auto
      with False Inr show ?thesis by (auto simp: build_model_def ps_def [symmetric])
    next
      case True
      then have reg: "register_providers n ps ([], Map.empty) = Inr (?cs, ?ko)"
        by (simp add: register_providers_iff n)
      have wfc: "wf_dict ?cs" using True by (simp add: wf_dict_def keys_def comp_def split_def)
      have ko: "(case ?ko p of None \<Rightarrow> Map.empty | Some ks \<Rightarrow> ks) = keys_in n res" if "(p, res) \<in> set ps" for p res
        unfolding upds_dict [OF wfp] using that map_of_wf_dict [OF wfp] by (simp add: n)
      have ends: "(\<forall>(p, res)\<in>set ps. \<forall>d\<in>set (ds_dependencies res).
           (case ?ko p of None \<Rightarrow> Map.empty | Some ks \<Rightarrow> ks) (dd_from d) \<noteq> None \<and>
           (case ?ko p of None \<Rightarrow> Map.empty | Some ks \<Rightarrow> ks) (dd_to d) \<noteq> None) \<longleftrightarrow>
         (\<forall>(p, res)\<in>set ps. well_returned res)"
      proof (intro ball_cong refl, goal_cases)
        case (1 a)
        obtain p res where a: "a = (p, res)" by (cases a)
        with 1 have "distinct (names_of res)" using dist by auto
        moreover have "keys_in n res x \<noteq> None \<longleftrightarrow> x \<in> set (names_of res)" for x
          by (simp only: keys_in_None not_not)
        ultimately show ?case
          unfolding a prod.case ko [OF 1 [unfolded a]] well_returned_def by blast
      qed
      have edges: "concat (map (\<lambda>(p, res). edges_at (case ?ko p of None \<Rightarrow> Map.empty | Some ks \<Rightarrow> ks) (ds_dependencies res) k) ps) =
          concat (map (\<lambda>(p, res). edges_at (keys_in n res) (ds_dependencies res) k) ps)" for k
        by (intro arg_cong [of _ _ concat] map_cong refl) (auto simp: ko)
      show ?thesis
      proof (cases "apply_all_dependencies ?ko ps ?cs")
        case (Inl e)
        then have "\<not> (\<forall>(p, res)\<in>set ps. well_returned res)"
          using apply_all_iff [OF wfc, of ?ko ps] unfolding ends by auto
        then show ?thesis unfolding all using \<open>count_providers ps (\<lambda>_. 0) = Inr n\<close>
          by (auto simp: build_model_def ps_def [symmetric] reg Inl)
      next
        case (Inr cs1)
        note c = Inr [unfolded apply_all_iff [OF wfc] ends edges]
        then have ok: "\<forall>p res. map_of sn p = Some res \<longrightarrow> well_returned res" unfolding all by blast
        have "build_model sn = Inr \<lparr>m_meta = \<lparr>mt_name = ''generated'', mt_version = ''1.0'', mt_providers = sort (keys sn),
             mt_vars = [], mt_strict = False, mt_scenarios = []\<rparr>, m_components = cs1, m_order = [], m_source_path = []\<rparr>"
          using \<open>count_providers ps (\<lambda>_. 0) = Inr n\<close> by (simp add: build_model_def ps_def [symmetric] reg Inr)
        then show ?thesis using ok True c by (auto simp: n)
      qed
    qed
  qed
qed


text \<open>
  C16: \<open>BuildModel\<close> succeeds exactly when no provider returns a name twice, the endpoints of every
  dependency are components of the provider that returned it, and no two components get one key.
\<close>

theorem build_model_accepts_iff:
  assumes "wf_dict sn"
  shows "(\<exists>m. build_model sn = Inr m) \<longleftrightarrow>
    (\<forall>p res. map_of sn p = Some res \<longrightarrow> well_returned res) \<and>
    (\<forall>p res dc p' res' dc'. map_of sn p = Some res \<longrightarrow> dc \<in> set (ds_components res) \<longrightarrow>
       map_of sn p' = Some res' \<longrightarrow> dc' \<in> set (ds_components res') \<longrightarrow>
       final_key sn dc = final_key sn dc' \<longrightarrow> p = p' \<and> dc = dc')"
proof -
  let ?ps = "provider_results sn"
  note mo = map_of_provider_results [of sn]
  have wfp: "wf_dict ?ps" by (rule wf_provider_results [OF assms])
  have ret: "(p, dc) \<in> set (returned ?ps) \<longleftrightarrow> (\<exists>res. map_of sn p = Some res \<and> dc \<in> set (ds_components res))" for p dc
    using map_of_wf_dict [OF wfp] unfolding mo by fastforce
  have dist: "distinct (returned ?ps)" if "\<forall>p res. map_of sn p = Some res \<longrightarrow> well_returned res"
  proof -
    have "distinct (returned ps)" if "wf_dict ps" "\<forall>(p, res)\<in>set ps. distinct (ds_components res)" for ps
      using that
    proof (induction ps)
      case (Cons a ps)
      then show ?case
        by (cases a) (auto simp: wf_dict_def keys_def distinct_map inj_on_def image_iff)
    qed simp
    moreover have "\<forall>(p, res)\<in>set ?ps. distinct (ds_components res)"
      using that map_of_wf_dict [OF wfp] unfolding mo by (fastforce simp: well_returned_def distinct_map)
    ultimately show ?thesis using wfp by blast
  qed
  have inj: "inj_on (\<lambda>(p, dc). final_key sn dc) (set (returned ?ps)) \<longleftrightarrow>
     (\<forall>p res dc p' res' dc'. map_of sn p = Some res \<longrightarrow> dc \<in> set (ds_components res) \<longrightarrow>
       map_of sn p' = Some res' \<longrightarrow> dc' \<in> set (ds_components res') \<longrightarrow>
       final_key sn dc = final_key sn dc' \<longrightarrow> p = p' \<and> dc = dc')"
    unfolding inj_on_def Ball_def split_paired_All ret prod.case prod.inject by blast
  show ?thesis
    unfolding build_model_iff [OF assms] distinct_map inj using dist by blast
qed

lemma ex_pull:
  "(\<exists>c0. (\<exists>p dc. (\<exists>res. A p res \<and> B dc res) \<and> K dc \<and> c0 = g p dc) \<and> c = f c0) \<longleftrightarrow>
   (\<exists>p res dc. A p res \<and> B dc res \<and> K dc \<and> c = f (g p dc))"
  by blast

definition target_key :: "discovery dict \<Rightarrow> discovery \<Rightarrow> string \<Rightarrow> string" where
  "target_key sn res x =
     (case List.find (\<lambda>dc. di_name dc = x) (ds_components res) of None \<Rightarrow> [] | Some dc \<Rightarrow> final_key sn dc)"

lemma keys_in_target:
  "distinct (names_of res) \<Longrightarrow> x \<in> set (names_of res) \<Longrightarrow> keys_in (returned_by sn) res x = Some (target_key sn res x)"
  by (auto simp: keys_in_iff target_key_def find_None_iff split: option.split dest: find_Some_in)

lemma concat_at:
  "wf_dict ps \<Longrightarrow> map_of ps p = Some res \<Longrightarrow> \<forall>(q, r)\<in>set ps. q \<noteq> p \<longrightarrow> f q r = [] \<Longrightarrow>
   concat (map (\<lambda>(q, r). f q r) ps) = f p res"
proof (induction ps)
  case (Cons a ps)
  obtain q r where a: "a = (q, r)" by (cases a)
  show ?case
  proof (cases "q = p")
    case True
    then have "\<forall>(q', r')\<in>set ps. f q' r' = []"
      using Cons.prems by (force simp: a wf_dict_def keys_def)
    then have "concat (map (\<lambda>(q, r). f q r) ps) = []" by auto
    then show ?thesis using True Cons.prems by (simp add: a)
  next
    case False
    then show ?thesis using Cons by (simp add: a wf_dict_def)
  qed
qed simp

text \<open>
  C22: The model built has exactly one component for every component a provider returned, under its
  name or, if several providers return that name, under its kind; it is owned by that provider, marked
  as discovered, and depends on exactly what the provider says it depends on, in that order.
\<close>

theorem build_model_components:
  assumes wf: "wf_dict sn" and built: "build_model sn = Inr m"
  shows "component_of m k = Some c \<longleftrightarrow>
    (\<exists>p res dc. map_of sn p = Some res \<and> dc \<in> set (ds_components res) \<and> k = final_key sn dc \<and>
       c = (discovered_component k p dc)\<lparr>c_depends :=
             map (\<lambda>d. plain_dependency (target_key sn res (dd_to d)))
               (filter (\<lambda>d. dd_from d = di_name dc) (ds_dependencies res))\<rparr>)"
proof -
  let ?ps = "provider_results sn"
  let ?raw = "map (\<lambda>(p, dc). (final_key sn dc, discovered_component (final_key sn dc) p dc)) (returned ?ps)"
  let ?e = "\<lambda>k. concat (map (\<lambda>(p, res). edges_at (keys_in (returned_by sn) res) (ds_dependencies res) k) ?ps)"
  note b = built [unfolded build_model_iff [OF wf]]
  have wfp: "wf_dict ?ps" by (rule wf_provider_results [OF wf])
  have mo: "map_of ?ps = map_of sn" by (rule map_of_provider_results)
  have ret: "(p, dc) \<in> set (returned ?ps) \<longleftrightarrow> (\<exists>res. map_of sn p = Some res \<and> dc \<in> set (ds_components res))" for p dc
    using map_of_wf_dict [OF wfp] unfolding mo by fastforce
  have dist: "distinct (map fst ?raw)" using b by (simp add: comp_def split_def)
  have raw: "map_of ?raw k = Some c0 \<longleftrightarrow>
      (\<exists>p dc. (p, dc) \<in> set (returned ?ps) \<and> k = final_key sn dc \<and> c0 = discovered_component k p dc)" for c0
  proof -
    have "(k, c0) \<in> set (map (\<lambda>(p, dc). (final_key sn dc, discovered_component (final_key sn dc) p dc)) xs) \<longleftrightarrow>
       (\<exists>p dc. (p, dc) \<in> set xs \<and> k = final_key sn dc \<and> c0 = discovered_component k p dc)" for xs
      by auto
    then show ?thesis unfolding map_of_eq_Some_iff [OF dist] .
  qed
  have same: "p = p' \<and> dc = dc'"
    if "map_of sn p = Some res" "dc \<in> set (ds_components res)" "map_of sn p' = Some res'" "dc' \<in> set (ds_components res')"
      "final_key sn dc = final_key sn dc'" for p res dc p' res' dc'
    using build_model_accepts_iff [OF wf] built that by metis
  have edges: "?e (final_key sn dc) = map (\<lambda>d. plain_dependency (target_key sn res (dd_to d)))
       (filter (\<lambda>d. dd_from d = di_name dc) (ds_dependencies res))"
    if p: "map_of sn p = Some res" and dc: "dc \<in> set (ds_components res)" for p res dc
  proof -
    have wr: "well_returned res" using b p by blast
    then have dn: "distinct (names_of res)" by (simp add: well_returned_def)
    have "edges_at (keys_in (returned_by sn) r) (ds_dependencies r) (final_key sn dc) = []"
      if q: "(q, r) \<in> set ?ps" "q \<noteq> p" for q r
    proof -
      have r: "map_of sn q = Some r" using q(1) map_of_wf_dict [OF wfp] mo by metis
      then have "distinct (names_of r)" using b by (auto simp: well_returned_def)
      then have "keys_in (returned_by sn) r x \<noteq> Some (final_key sn dc)" for x
        using same [OF p dc r] q(2) by (auto simp: keys_in_iff)
      then show ?thesis by (simp add: edges_at_def)
    qed
    then have "?e (final_key sn dc) = edges_at (keys_in (returned_by sn) res) (ds_dependencies res) (final_key sn dc)"
      using p mo by (intro concat_at [OF wfp, where f = "\<lambda>p res. edges_at (keys_in (returned_by sn) res) (ds_dependencies res) (final_key sn dc)"]) auto
    moreover have "keys_in (returned_by sn) res (dd_from d) = Some (final_key sn dc) \<longleftrightarrow> dd_from d = di_name dc" for d :: discovered_dep
      using same [OF p dc p] dc by (auto simp: keys_in_iff [OF dn])
    moreover have "d \<in> set (ds_dependencies res) \<Longrightarrow>
        keys_in (returned_by sn) res (dd_to d) = Some (target_key sn res (dd_to d))" for d
      using wr by (intro keys_in_target dn) (auto simp: well_returned_def)
    ultimately show ?thesis by (simp add: edges_at_def)
  qed
  have "component_of m k = map_option (\<lambda>c. c\<lparr>c_depends := c_depends c @ ?e k\<rparr>) (map_of ?raw k)"
    using b map_of_with_edges [of ?e ?raw k] by simp
  then have "component_of m k = Some c \<longleftrightarrow> (\<exists>c0. map_of ?raw k = Some c0 \<and> c = c0\<lparr>c_depends := c_depends c0 @ ?e k\<rparr>)"
    by auto
  also have "\<dots> \<longleftrightarrow> (\<exists>p res dc. map_of sn p = Some res \<and> dc \<in> set (ds_components res) \<and> k = final_key sn dc \<and>
       c = (discovered_component k p dc)\<lparr>c_depends := ?e k\<rparr>)"
  proof -
    have none: "c_depends (discovered_component key p dc) = []" for key p dc by (simp add: discovered_component_def)
    define E where "E = ?e k"
    note pull = ex_pull [where f = "\<lambda>c. c\<lparr>c_depends := c_depends c @ E\<rparr>" and g = "discovered_component k" and c = c and
        A = "\<lambda>p res. map_of sn p = Some res" and B = "\<lambda>dc res. dc \<in> set (ds_components res)" and
        K = "\<lambda>dc. k = final_key sn dc", unfolded none append_Nil]
    show ?thesis unfolding raw ret E_def [symmetric] by (rule pull)
  qed
  also have "\<dots> \<longleftrightarrow> (\<exists>p res dc. map_of sn p = Some res \<and> dc \<in> set (ds_components res) \<and> k = final_key sn dc \<and>
       c = (discovered_component k p dc)\<lparr>c_depends := map (\<lambda>d. plain_dependency (target_key sn res (dd_to d)))
          (filter (\<lambda>d. dd_from d = di_name dc) (ds_dependencies res))\<rparr>)"
    by (intro ex_cong1 conj_cong refl) (simp only: edges)
  finally show ?thesis .
qed

subsection \<open>What a merge keeps\<close>

lemma map_of_filter_key:
  "wf_dict ps \<Longrightarrow> map_of (filter (\<lambda>(n, c). P n c) ps) n =
     (case map_of ps n of None \<Rightarrow> None | Some c \<Rightarrow> if P n c then Some c else None)"
proof (induction ps)
  case (Cons a ps)
  then show ?case
    by (cases a) (auto simp: wf_dict_def keys_def map_of_eq_None_iff image_iff split: option.split)
qed simp

lemma wf_dict_filter: "wf_dict ps \<Longrightarrow> wf_dict (filter P ps)"
  by (simp add: wf_dict_def keys_def distinct_map_filter)

lemma keep_tombstones_lookup:
  "map_of (keep_tombstones prev names next) n =
     (case map_of next n of Some c \<Rightarrow> Some c | None \<Rightarrow> if n \<in> set names then map_of prev n else None)"
  by (induction names arbitrary: "next") (auto simp: update_conv' split: option.split)

lemma with_kept_lookup:
  "wf_dict prev \<Longrightarrow> map_of (foldl (\<lambda>cs (name, pc). AList.update name pc cs) next (kept_authored prev next)) n =
     (case map_of next n of Some c \<Rightarrow> Some c
      | None \<Rightarrow> (case map_of prev n of None \<Rightarrow> None | Some pc \<Rightarrow> if authored pc then Some pc else None))"
proof -
  assume wf: "wf_dict prev"
  have "wf_dict (kept_authored prev next)" unfolding kept_authored_def by (rule wf_dict_filter [OF wf])
  then have "map_of (rev (kept_authored prev next)) = map_of (kept_authored prev next)"
    by (intro map_of_rev) (simp add: wf_dict_def keys_def)
  then show ?thesis
    unfolding map_of_update_all kept_authored_def
    by (auto simp: map_add_def map_of_filter_key [OF wf, of "\<lambda>n c. map_of next n = None \<and> authored c"] split: option.split)
qed

text \<open>Merging a kept component with itself only carries its guards over.\<close>

lemma merge_component_self: "merge_component True pc pc = pc\<lparr>c_depends := port_shared (c_depends pc)\<rparr>"
  by (simp add: merge_component_def Let_def)

lemma merged_lookup:
  assumes "wf_dict (m_components pm)"
  shows "component_of (snd (merge_prev (Some pm) next tombs)) n =
    (case component_of next n of
       Some nc \<Rightarrow> Some (case component_of pm n of None \<Rightarrow> nc | Some pc \<Rightarrow> merge_component False pc nc)
     | None \<Rightarrow>
         (case component_of pm n of
            None \<Rightarrow> None
          | Some pc \<Rightarrow> if authored pc \<or> n \<in> set tombs then Some (merge_component True pc pc) else None))"
proof -
  have keys: "n \<in> set (keys (m_components next)) \<longleftrightarrow> component_of next n \<noteq> None" by (auto simp: set_keys)
  have hand: "map_of (merge_hand_authored prev ks cs) n = map_option (\<lambda>nc.
      case map_of prev n of None \<Rightarrow> nc | Some pc \<Rightarrow> merge_component (n \<notin> ks) pc nc) (map_of cs n)" for prev ks cs
    unfolding merge_hand_authored_def by (induction cs) (auto split: option.split)
  show ?thesis
    by (auto simp: merge_prev_def Let_def hand keep_tombstones_lookup with_kept_lookup [OF assms] keys split: option.split)
qed

text \<open>
  C10: Merging with the previous model removes only what discovery owned and no longer returns: the
  components reported as removed are those of the previous model that are not authored, not
  rediscovered and not tombstoned. No authored component is ever removed.
\<close>

theorem merge_removes_iff:
  assumes "wf_dict (m_components pm)"
  shows "n \<in> set (df_removed (compute_diff (Some pm) (Some (snd (merge_prev (Some pm) next tombs))))) \<longleftrightarrow>
    (\<exists>pc. component_of pm n = Some pc \<and> \<not> authored pc) \<and> component_of next n = None \<and> n \<notin> set tombs"
  using assms
  by (auto simp: compute_diff_def diff_components_def Let_def set_keys merged_lookup split: option.splits if_splits)

lemma gate_deletions_iff:
  "gate_deletions d allow tombs = None \<longleftrightarrow> allow \<or> set (df_removed d) \<subseteq> set tombs"
  by (auto simp: gate_deletions_def has_deletions_def filter_empty_conv)

text \<open>
  C23: The safety gate, applied to the plan of a build, lets it through exactly when deletions are
  allowed or every component discovery once returned, and is not tombstoned, is returned again.
\<close>

theorem build_gate_iff:
  assumes "wf_dict (m_components pm)" and "build_model sn = Inr next" and "plan_build sn (Some pm) tombs = Inr pl"
  shows "gate_deletions (bp_diff pl) allow tombs = None \<longleftrightarrow>
    allow \<or> (\<forall>n pc. component_of pm n = Some pc \<longrightarrow> \<not> authored pc \<longrightarrow> n \<notin> set tombs \<longrightarrow> component_of next n \<noteq> None)"
proof -
  have "bp_diff pl = compute_diff (Some pm) (Some (snd (merge_prev (Some pm) next tombs)))"
    using assms(2,3) by (auto simp: plan_build_def split: prod.splits)
  then show ?thesis
    unfolding gate_deletions_iff subset_iff by (auto simp: merge_removes_iff [OF assms(1)])
qed

text \<open>
  A rediscovered component keeps its previous rules, failure modes and variables, and loses its own
  states, the states it was healthy in, the states it knowingly diverges from and its resource.
\<close>

theorem rebuilt_component:
  assumes "wf_dict sn" and "wf_dict (m_components pm)" and "build_model sn = Inr next"
    and "component_of next n \<noteq> None" and "component_of pm n = Some pc"
    and "component_of (snd (merge_prev (Some pm) next tombs)) n = Some c"
  shows "c_healthy_raw c = c_healthy_raw pc \<and> c_failure_modes c = c_failure_modes pc \<and> c_vars c = c_vars pc \<and>
    c_states c = [] \<and> c_healthy_in c = [] \<and> c_diverges c = [] \<and> c_resource c = []"
proof -
  obtain nc where nc: "component_of next n = Some nc" using assms(4) by auto
  then obtain p dc ds where "nc = (discovered_component n p dc)\<lparr>c_depends := ds\<rparr>"
    using build_model_components [OF assms(1,3)] by blast
  moreover have "c = merge_component False pc nc"
    using assms(5,6) nc by (simp add: merged_lookup [OF assms(2)])
  ultimately show ?thesis by (simp add: merge_component_def discovered_component_def Let_def)
qed

text \<open>
  A dependency discovery finds again keeps its guard: the guard the merge gives a dependency on one
  component is that of the first guarded dependency of the previous component on it alone.
\<close>

theorem rebuilt_guard:
  assumes "dp_on nd = [t]" and "dp_while_raw nd = []"
  shows "dp_while_raw (port_guard prev nd) =
    (case List.find (\<lambda>pd. dp_while_raw pd \<noteq> [] \<and> dp_on pd = [t]) prev of None \<Rightarrow> [] | Some pd \<Rightarrow> dp_while_raw pd)"
proof -
  have "same_targets [t] on \<longleftrightarrow> on = [t]" for on
    by (cases on) (auto simp: same_targets_def)
  then show ?thesis using assms by (simp add: port_guard_def split: option.split)
qed

subsection \<open>An example\<close>

text \<open>Two providers return a name each; the previous model says more of the web than discovery can.\<close>

definition ex_found :: "string \<Rightarrow> string \<Rightarrow> discovered" where
  "ex_found n ty = \<lparr>di_name = n, di_type = ty, di_health_facts = [], di_metadata = []\<rparr>"

definition ex_snapshots :: "discovery dict" where
  "ex_snapshots =
     [(''k8s'', \<lparr>ds_components = [ex_found ''api'' ''deployment'', ex_found ''web'' ''deployment''],
         ds_dependencies = [\<lparr>dd_from = ''web'', dd_to = ''api''\<rparr>]\<rparr>),
      (''aws'', \<lparr>ds_components = [ex_found ''api'' ''rds_instance''], ds_dependencies = []\<rparr>)]"

definition ex_web_state :: state_def where
  "ex_web_state = \<lparr>sd_name = ''slow'', sd_when_raw = ''latency > 5'', sd_when = Some (CmpNode [] ''latency'' OpGt (VInt 5)),
     sd_description = [], sd_triggered_by = [], sd_verdict = VerdictBroken\<rparr>"

definition ex_previous :: model where
  "ex_previous =
     \<lparr>m_meta = \<lparr>mt_name = ''shop'', mt_version = ''1.0'', mt_providers = [''k8s''], mt_vars = [], mt_strict = False,
        mt_scenarios = []\<rparr>,
      m_components =
        [(''web'', (discovered_component ''web'' ''k8s'' (ex_found ''web'' ''deployment''))
            \<lparr>c_vars := [(''namespace'', ''shop'')], c_states := [ex_web_state],
             c_depends := [\<lparr>dp_on = [''deployment/api''], dp_need = 0, dp_while_raw = ''load > 5'', dp_while = None\<rparr>]\<rparr>),
         (''old'', discovered_component ''old'' ''k8s'' (ex_found ''old'' ''deployment'')),
         (''bank'', ex_component ''bank'' ''external'' [])],
      m_order = [''web'', ''old'', ''bank''], m_source_path = []\<rparr>"

definition ex_built :: model where
  "ex_built = (case build_model ex_snapshots of Inr m \<Rightarrow> m | Inl _ \<Rightarrow> ex_previous)"

lemma ex_built: "build_model ex_snapshots = Inr ex_built"
proof -
  have "case build_model ex_snapshots of Inr _ \<Rightarrow> True | Inl _ \<Rightarrow> False" by code_simp
  then show ?thesis unfolding ex_built_def by (auto split: sum.splits)
qed

lemma ex_snapshots_wf: "wf_dict ex_snapshots"
  by (simp add: ex_snapshots_def wf_dict_def)

lemma ex_previous_wf: "wf_dict (m_components ex_previous)"
  by (simp add: ex_previous_def wf_dict_def)

lemma ex_built_web: "component_of ex_built ''web'' \<noteq> None"
  by code_simp

theorem build_model_accepts_iff_witness:
  "\<exists>res m. build_model ex_snapshots = Inr m \<and> map_of ex_snapshots ''k8s'' = Some res \<and> well_returned res"
proof -
  have "map_of ex_snapshots ''k8s'' \<noteq> None" by (simp add: ex_snapshots_def)
  then show ?thesis using build_model_accepts_iff [OF ex_snapshots_wf, THEN iffD1] ex_built by blast
qed

theorem build_model_components_witness:
  "\<exists>p res dc. map_of ex_snapshots p = Some res \<and> dc \<in> set (ds_components res) \<and> ''web'' = final_key ex_snapshots dc"
  using build_model_components [OF ex_snapshots_wf ex_built, of "''web''"] ex_built_web by blast

theorem merge_removes_iff_witness:
  "''old'' \<in> set (df_removed (compute_diff (Some ex_previous) (Some (snd (merge_prev (Some ex_previous) ex_built [])))))"
proof -
  have "component_of ex_built ''old'' = None" by code_simp
  then show ?thesis
    by (subst merge_removes_iff [OF ex_previous_wf]) (simp add: ex_previous_def authored_def discovered_component_def)
qed

theorem build_gate_iff_witness:
  "\<exists>pl. plan_build ex_snapshots (Some ex_previous) [''old''] = Inr pl \<and> gate_deletions (bp_diff pl) False [''old''] = None"
proof -
  obtain pl where pl: "plan_build ex_snapshots (Some ex_previous) [''old''] = Inr pl"
    by (cases "merge_prev (Some ex_previous) ex_built [''old'']") (auto simp: plan_build_def ex_built)
  have "gate_deletions (bp_diff pl) False [''old''] = None"
    using ex_built_web
    by (subst build_gate_iff [OF ex_previous_wf ex_built pl])
      (simp add: ex_previous_def authored_def discovered_component_def ex_component_def)
  with pl show ?thesis by blast
qed

theorem rebuilt_component_witness:
  "\<exists>pc c. component_of ex_previous ''web'' = Some pc \<and> c_states pc = [ex_web_state] \<and>
     component_of (snd (merge_prev (Some ex_previous) ex_built [])) ''web'' = Some c \<and> c_vars c = c_vars pc \<and> c_states c = []"
proof -
  obtain pc where pc: "component_of ex_previous ''web'' = Some pc" "c_states pc = [ex_web_state]"
    by (simp add: ex_previous_def)
  obtain c where c: "component_of (snd (merge_prev (Some ex_previous) ex_built [])) ''web'' = Some c"
    using ex_built_web by (auto simp: merged_lookup [OF ex_previous_wf])
  from rebuilt_component [OF ex_snapshots_wf ex_previous_wf ex_built ex_built_web pc(1) c] pc c show ?thesis by blast
qed

theorem rebuilt_guard_witness:
  "dp_while_raw (port_guard [\<lparr>dp_on = [''api''], dp_need = 0, dp_while_raw = ''load > 5'', dp_while = None\<rparr>] (plain_dependency ''api'')) =
     ''load > 5''"
  by (subst rebuilt_guard [of _ "''api''"]) (simp_all add: plain_dependency_def)

text \<open>
  Two dependencies need not name the same components to be taken for the same: a list with a
  repeated name matches one of its length that has more names, but not the other way round.
\<close>

theorem same_targets_one_sided:
  "same_targets [''a'', ''b''] [''a'', ''a''] \<and> \<not> same_targets [''a'', ''a''] [''a'', ''b'']"
  by (simp add: same_targets_def)

end
