(* ===== verification/Emit.thy ===== *)
theory Emit
  imports Build
begin

text \<open>
  \<open>internal/model/build/emit.go\<close>: a model as the YAML document \<open>EmitYAML\<close> writes. The tree of
  \<open>yaml.Node\<close>s the code builds is \<open>yaml_node\<close>: a scalar with its tag, a sequence, or a mapping whose
  content alternates keys and values. Turning the tree into text is the YAML library's part.

  The lemmas show exactly which fields of a component its node determines, and so which are lost.
\<close>

datatype yaml_node =
    YScalar string string
  | YSequence string "yaml_node list"
  | YMapping string "yaml_node list"

definition str_node :: "string \<Rightarrow> yaml_node" where
  "str_node s = YScalar ''!!str'' s"

definition bool_node :: "bool \<Rightarrow> yaml_node" where
  "bool_node b = YScalar ''!!bool'' (if b then ''true'' else ''false'')"

definition str_seq_node :: "string list \<Rightarrow> yaml_node" where
  "str_seq_node vals = YSequence ''!!seq'' (map str_node vals)"

text \<open>A field that is there only under a condition.\<close>

definition field_if :: "bool \<Rightarrow> string \<Rightarrow> yaml_node \<Rightarrow> yaml_node list" where
  "field_if b key v = (if b then [str_node key, v] else [])"

definition string_map_node :: "string dict \<Rightarrow> yaml_node" where
  "string_map_node m =
     YMapping ''!!map'' (concat (map (\<lambda>k. case map_of m k of None \<Rightarrow> [] | Some v \<Rightarrow> [str_node k, str_node v]) (sort (keys m))))"

definition failure_modes_node :: "string list dict \<Rightarrow> yaml_node" where
  "failure_modes_node fm =
     YMapping ''!!map''
       (concat (map (\<lambda>st. case map_of fm st of
            None \<Rightarrow> []
          | Some ls \<Rightarrow> [str_node st, YMapping ''!!map'' [str_node ''can_cause'', str_seq_node ls]]) (sort (keys fm))))"

definition first_target :: "dependency \<Rightarrow> string" where
  "first_target d = (case dp_on d of [] \<Rightarrow> [] | t # _ \<Rightarrow> t)"

definition emitted_depends :: "dependency list \<Rightarrow> dependency list" where
  "emitted_depends deps =
     sort_by (\<lambda>a b. first_target a < first_target b) (map (\<lambda>d. d\<lparr>dp_on := sort (dp_on d)\<rparr>) deps)"

definition dependency_node :: "dependency \<Rightarrow> yaml_node" where
  "dependency_node d =
     YMapping ''!!map''
       ([str_node ''on'', str_seq_node (dp_on d)] @
        field_if (dp_while_raw d \<noteq> []) ''while'' (str_node (dp_while_raw d)) @
        field_if (0 < dp_need d) ''need'' (YScalar ''!!int'' (itoa (dp_need d))))"

definition depends_node :: "dependency list \<Rightarrow> yaml_node" where
  "depends_node deps = YSequence ''!!seq'' (map dependency_node (emitted_depends deps))"

definition healthy_node :: "component \<Rightarrow> yaml_node" where
  "healthy_node c =
     (if c_healthy_mode c \<noteq> [] then YMapping [] [str_node (c_healthy_mode c), str_seq_node (c_healthy_raw c)]
      else str_seq_node (c_healthy_raw c))"

definition component_node :: "component \<Rightarrow> yaml_node" where
  "component_node c =
     YMapping ''!!map''
       ([str_node ''type'', str_node (c_type c)] @
        field_if (c_source c \<noteq> []) ''source'' (str_node (c_source c)) @
        field_if (c_providers c \<noteq> []) ''providers'' (str_seq_node (c_providers c)) @
        field_if (c_resource c \<noteq> []) ''resource'' (str_node (c_resource c)) @
        field_if (c_vars c \<noteq> []) ''vars'' (string_map_node (c_vars c)) @
        field_if (c_healthy_raw c \<noteq> []) ''healthy'' (healthy_node c) @
        field_if (c_depends c \<noteq> []) ''depends'' (depends_node (c_depends c)) @
        field_if (c_failure_modes c \<noteq> []) ''failure_modes'' (failure_modes_node (c_failure_modes c)))"

definition components_node :: "model \<Rightarrow> yaml_node" where
  "components_node m =
     YMapping ''!!map''
       (concat (map (\<lambda>n. case component_of m n of None \<Rightarrow> [] | Some c \<Rightarrow> [str_node n, component_node c])
          (sort (keys (m_components m)))))"

definition meta_node :: "meta \<Rightarrow> yaml_node" where
  "meta_node mt =
     YMapping ''!!map''
       ([str_node ''name'', str_node (mt_name mt), str_node ''version'', str_node (mt_version mt)] @
        field_if (mt_providers mt \<noteq> []) ''providers'' (str_seq_node (mt_providers mt)) @
        field_if (mt_vars mt \<noteq> []) ''vars'' (string_map_node (mt_vars mt)) @
        field_if (mt_strict mt) ''strict_types'' (bool_node True) @
        field_if (mt_scenarios mt \<noteq> []) ''scenarios'' (str_node (mt_scenarios mt)))"

definition model_node :: "model \<Rightarrow> yaml_node" where
  "model_node m = YMapping ''!!map'' [str_node ''meta'', meta_node (m_meta m), str_node ''components'', components_node m]"

subsection \<open>What a node determines\<close>

text \<open>The value of a key in a mapping's content.\<close>

fun lookup_field :: "string \<Rightarrow> yaml_node list \<Rightarrow> yaml_node option" where
  "lookup_field k (key # v # rest) = (if key = str_node k then Some v else lookup_field k rest)"
| "lookup_field k _ = None"

lemma str_node_inject [simp]: "str_node a = str_node b \<longleftrightarrow> a = b"
  by (simp add: str_node_def)

lemma lookup_field_if [simp]:
  "lookup_field k (field_if b key v @ rest) = (if b \<and> key = k then Some v else lookup_field k rest)"
  "lookup_field k (field_if b key v) = (if b \<and> key = k then Some v else None)"
  by (simp_all add: field_if_def)

lemma lookup_field_Cons [simp]:
  "lookup_field k (str_node key # v # rest) = (if key = k then Some v else lookup_field k rest)"
  by simp

lemma str_seq_node_inject [simp]: "str_seq_node a = str_seq_node b \<longleftrightarrow> a = b"
  by (simp add: str_seq_node_def inj_map_eq_map inj_on_def)

text \<open>A dictionary written in the order of its keys determines what it holds.\<close>

lemma dict_content_lookup:
  assumes "set ks = dom (map_of m)"
  shows "lookup_field k (concat (map (\<lambda>k. case map_of m k of None \<Rightarrow> [] | Some v \<Rightarrow> [str_node k, f v]) ks)) =
    map_option f (map_of m k)"
proof -
  have "lookup_field k (concat (map (\<lambda>k. case map_of m k of None \<Rightarrow> [] | Some v \<Rightarrow> [str_node k, f v]) ks)) =
      (if k \<in> set ks then map_option f (map_of m k) else None)" if "set ks \<subseteq> dom (map_of m)" for ks
    using that by (induction ks) auto
  with assms show ?thesis by (auto simp: dom_def)
qed

lemma dict_content_inject:
  assumes "inj f" and "wf_dict m" and "wf_dict n"
  shows "concat (map (\<lambda>k. case map_of m k of None \<Rightarrow> [] | Some v \<Rightarrow> [str_node k, f v]) (sort (keys m))) =
     concat (map (\<lambda>k. case map_of n k of None \<Rightarrow> [] | Some v \<Rightarrow> [str_node k, f v]) (sort (keys n)))
   \<longleftrightarrow> map_of m = map_of n"
proof
  assume eq: "concat (map (\<lambda>k. case map_of m k of None \<Rightarrow> [] | Some v \<Rightarrow> [str_node k, f v]) (sort (keys m))) =
     concat (map (\<lambda>k. case map_of n k of None \<Rightarrow> [] | Some v \<Rightarrow> [str_node k, f v]) (sort (keys n)))"
  show "map_of m = map_of n"
  proof
    fix k
    have "map_option f (map_of m k) = map_option f (map_of n k)"
      using arg_cong [OF eq, of "lookup_field k"] by (simp add: dict_content_lookup set_keys)
    then show "map_of m k = map_of n k"
      using assms(1) by (cases "map_of m k"; cases "map_of n k") (auto dest: injD)
  qed
next
  assume eq: "map_of m = map_of n"
  then have "set (keys m) = set (keys n)" by (simp add: set_keys)
  then have "sort (keys m) = sort (keys n)"
    using assms(2,3) by (metis sorted_distinct_set_unique sorted_sort distinct_sort set_sort wf_dict_def)
  with eq show "concat (map (\<lambda>k. case map_of m k of None \<Rightarrow> [] | Some v \<Rightarrow> [str_node k, f v]) (sort (keys m))) =
     concat (map (\<lambda>k. case map_of n k of None \<Rightarrow> [] | Some v \<Rightarrow> [str_node k, f v]) (sort (keys n)))" by simp
qed

lemma string_map_node_inject: "wf_dict m \<Longrightarrow> wf_dict n \<Longrightarrow> string_map_node m = string_map_node n \<longleftrightarrow> map_of m = map_of n"
  unfolding string_map_node_def yaml_node.inject
  by (subst dict_content_inject) (simp_all add: inj_on_def)

lemma failure_modes_node_inject:
  "wf_dict m \<Longrightarrow> wf_dict n \<Longrightarrow> failure_modes_node m = failure_modes_node n \<longleftrightarrow> map_of m = map_of n"
  unfolding failure_modes_node_def yaml_node.inject
  by (subst dict_content_inject [where f = "\<lambda>ls. YMapping ''!!map'' [str_node ''can_cause'', str_seq_node ls]"])
    (simp_all add: inj_on_def)

lemma itoa_inject: "itoa i = itoa j \<Longrightarrow> 0 < i \<Longrightarrow> 0 < j \<Longrightarrow> i = j"
  using dec_value_nat_to_dec by (metis eq_nat_nat_iff itoa_def linorder_not_less order_less_imp_le)

definition written_dependency :: "dependency \<Rightarrow> string list \<times> string \<times> int" where
  "written_dependency d = (dp_on d, dp_while_raw d, max 0 (dp_need d))"

lemma dependency_node_inject: "dependency_node d = dependency_node e \<longleftrightarrow> written_dependency d = written_dependency e"
proof
  assume eq: "dependency_node d = dependency_node e"
  have l: "lookup_field k (case dependency_node d of YMapping _ xs \<Rightarrow> xs | _ \<Rightarrow> []) =
      lookup_field k (case dependency_node e of YMapping _ xs \<Rightarrow> xs | _ \<Rightarrow> [])" for k
    by (simp only: eq)
  show "written_dependency d = written_dependency e"
    using l [of "''on''"] l [of "''while''"] l [of "''need''"]
    by (auto simp: dependency_node_def written_dependency_def dest: itoa_inject split: if_splits)
next
  assume "written_dependency d = written_dependency e"
  then have "dp_on d = dp_on e" "dp_while_raw d = dp_while_raw e"
    "0 < dp_need d \<longleftrightarrow> 0 < dp_need e" "0 < dp_need d \<Longrightarrow> dp_need d = dp_need e"
    by (auto simp: written_dependency_def max_def split: if_splits)
  then show "dependency_node d = dependency_node e" by (cases "0 < dp_need d") (simp_all add: dependency_node_def field_if_def)
qed

lemma depends_node_inject:
  "depends_node ds = depends_node es \<longleftrightarrow>
     map written_dependency (emitted_depends ds) = map written_dependency (emitted_depends es)"
proof -
  have "map dependency_node xs = map dependency_node ys \<longleftrightarrow> map written_dependency xs = map written_dependency ys" for xs ys
    by (induction xs ys rule: list_induct2') (auto simp: dependency_node_inject)
  then show ?thesis by (simp add: depends_node_def)
qed

lemma healthy_node_inject:
  "healthy_node c = healthy_node d \<longleftrightarrow> c_healthy_mode c = c_healthy_mode d \<and> c_healthy_raw c = c_healthy_raw d"
  by (auto simp: healthy_node_def str_seq_node_def inj_map_eq_map inj_on_def)

definition component_content :: "component \<Rightarrow> yaml_node list" where
  "component_content c = (case component_node c of YMapping _ xs \<Rightarrow> xs | _ \<Rightarrow> [])"

lemma component_fields:
  "lookup_field ''type'' (component_content c) = Some (str_node (c_type c))"
  "lookup_field ''source'' (component_content c) = (if c_source c \<noteq> [] then Some (str_node (c_source c)) else None)"
  "lookup_field ''providers'' (component_content c) = (if c_providers c \<noteq> [] then Some (str_seq_node (c_providers c)) else None)"
  "lookup_field ''resource'' (component_content c) = (if c_resource c \<noteq> [] then Some (str_node (c_resource c)) else None)"
  "lookup_field ''vars'' (component_content c) = (if c_vars c \<noteq> [] then Some (string_map_node (c_vars c)) else None)"
  "lookup_field ''healthy'' (component_content c) = (if c_healthy_raw c \<noteq> [] then Some (healthy_node c) else None)"
  "lookup_field ''depends'' (component_content c) = (if c_depends c \<noteq> [] then Some (depends_node (c_depends c)) else None)"
  "lookup_field ''failure_modes'' (component_content c) =
     (if c_failure_modes c \<noteq> [] then Some (failure_modes_node (c_failure_modes c)) else None)"
  by (simp_all add: component_content_def component_node_def)

lemma emitted_depends_empty [simp]: "emitted_depends ds = [] \<longleftrightarrow> ds = []"
  by (simp add: emitted_depends_def)

lemma option_if_inject:
  "(if P then Some a else None) = (if Q then Some b else None) \<longleftrightarrow> P = Q \<and> (P \<longrightarrow> a = b)"
  by auto

lemma map_of_Nil_iff: "map_of [] = map_of m \<longleftrightarrow> m = []" "map_of m = map_of [] \<longleftrightarrow> m = []"
  by (cases m; auto simp: fun_eq_iff dest: map_of_eq_None_iff [THEN iffD1])+

text \<open>
  The node written for a component determines its type, source, providers, resource, variables,
  healthy rules, dependencies and failure modes, and nothing else: two components that agree on these
  are written alike whatever their own states, the states they are healthy in and the states they
  knowingly diverge from.
\<close>

theorem component_node_eq_iff:
  assumes "wf_dict (c_vars c)" "wf_dict (c_vars d)" "wf_dict (c_failure_modes c)" "wf_dict (c_failure_modes d)"
  shows "component_node c = component_node d \<longleftrightarrow>
    c_type c = c_type d \<and> c_source c = c_source d \<and> c_providers c = c_providers d \<and> c_resource c = c_resource d \<and>
    map_of (c_vars c) = map_of (c_vars d) \<and> c_healthy_raw c = c_healthy_raw d \<and>
    (c_healthy_raw c \<noteq> [] \<longrightarrow> c_healthy_mode c = c_healthy_mode d) \<and>
    map written_dependency (emitted_depends (c_depends c)) = map written_dependency (emitted_depends (c_depends d)) \<and>
    map_of (c_failure_modes c) = map_of (c_failure_modes d)" (is "_ \<longleftrightarrow> ?same")
proof
  assume eq: "component_node c = component_node d"
  have l: "lookup_field k (component_content c) = lookup_field k (component_content d)" for k
    by (simp add: component_content_def eq)
  note f = l [of "''type''"] l [of "''source''"] l [of "''providers''"] l [of "''resource''"] l [of "''vars''"]
    l [of "''healthy''"] l [of "''depends''"] l [of "''failure_modes''"]
  note f = f [unfolded component_fields option_if_inject option.inject str_node_inject str_seq_node_inject
      healthy_node_inject depends_node_inject]
  have "map_of (c_vars c) = map_of (c_vars d)"
    using f(5) assms(1,2) by (cases "c_vars c = []") (auto simp: string_map_node_inject)
  moreover have "map_of (c_failure_modes c) = map_of (c_failure_modes d)"
    using f(8) assms(3,4) by (cases "c_failure_modes c = []") (auto simp: failure_modes_node_inject)
  moreover have "map written_dependency (emitted_depends (c_depends c)) = map written_dependency (emitted_depends (c_depends d))"
    using f(7) by (cases "c_depends c = []") auto
  moreover have "c_healthy_raw c = c_healthy_raw d" "c_healthy_raw c \<noteq> [] \<longrightarrow> c_healthy_mode c = c_healthy_mode d"
    using f(6) by (metis (full_types))+
  moreover have "c_source c = c_source d" "c_providers c = c_providers d" "c_resource c = c_resource d"
    using f(2-4) by (metis (full_types))+
  ultimately show ?same using f(1) by blast
next
  assume s: ?same
  have nil: "m = [] \<longleftrightarrow> n = []" if "map_of m = map_of n" for m n :: "'v dict"
    using that map_of_Nil_iff by (cases m; cases n) (auto simp: fun_eq_iff split: if_splits)
  have "c_vars c \<noteq> [] \<longleftrightarrow> c_vars d \<noteq> []" "c_failure_modes c \<noteq> [] \<longleftrightarrow> c_failure_modes d \<noteq> []"
    using s nil [of "c_vars c" "c_vars d"] nil [of "c_failure_modes c" "c_failure_modes d"] by blast+
  moreover have "c_depends c \<noteq> [] \<longleftrightarrow> c_depends d \<noteq> []"
    using s by (metis emitted_depends_empty map_is_Nil_conv)
  moreover have "string_map_node (c_vars c) = string_map_node (c_vars d)"
    "failure_modes_node (c_failure_modes c) = failure_modes_node (c_failure_modes d)"
    "depends_node (c_depends c) = depends_node (c_depends d)"
    using s assms by (simp_all add: string_map_node_inject failure_modes_node_inject depends_node_inject)
  moreover have "field_if (c_healthy_raw c \<noteq> []) ''healthy'' (healthy_node c) = field_if (c_healthy_raw d \<noteq> []) ''healthy'' (healthy_node d)"
    using s by (auto simp: field_if_def healthy_node_inject)
  ultimately show "component_node c = component_node d"
    using s by (simp add: component_node_def)
qed

theorem component_node_eq_iff_witness:
  "component_node (the (component_of ex_previous ''web'')) =
   component_node ((the (component_of ex_previous ''web''))\<lparr>c_states := []\<rparr>)"
  by (subst component_node_eq_iff) (simp_all add: ex_previous_def wf_dict_def discovered_component_def)

end
