(* ===== verification/Impact.thy ===== *)
theory Impact
  imports Scenarios
begin

text \<open>
  \<open>internal/scenarios/impact.go\<close>: what breaks when a component fails. \<open>ImpactOf\<close> searches the
  failure graph breadth first from the component's failure states and reports the components
  reached with a chain to each, the redundancy groups that stop the failure, and the \<open>while:\<close>
  guards it crosses.

  The map \<open>parent\<close> is an association list in the order its keys were put in; \<open>unguardedReach\<close>, which
  ranges over it, computes a fixpoint that no order changes. A nil model has no guards.

  The lemmas show that the search ends, and that what it reports as affected is exactly what the
  failure can reach, in exactly the states it can drive each component into, with a shortest chain.
\<close>

subsection \<open>Results and the state of the search\<close>

type_synonym inode = "string \<times> string"

record affected =
  af_component :: string
  af_states :: "string list"
  af_path :: "string list option"
  af_symptom :: bool
  af_conditions :: "string list"

record blocked =
  bk_dependent :: string
  bk_member :: string

record impact =
  im_component :: string
  im_states :: "string list"
  im_affected :: "affected list"
  im_blocked :: "blocked list"

datatype impact_error =
    NoComponent string
  | NoResolvedType string
  | NotAFailureState string string "string list"

record impact_walk =
  iw_parent :: "(inode \<times> inode) list"
  iw_state :: "inode \<rightharpoonup> graph_state"
  iw_queue :: "inode list"
  iw_reached :: "affected dict"
  iw_blocked :: "blocked list"

text \<open>
  \<open>pathTo\<close>: parent links up to the failed component, which is its own parent. A missing link is
  the zero value, the node of empty names.
\<close>

definition parent_of :: "(inode \<times> inode) list \<Rightarrow> inode \<Rightarrow> inode" where
  "parent_of par n = (case map_of par n of None \<Rightarrow> ([], []) | Some p \<Rightarrow> p)"

partial_function (option) path_climb :: "(inode \<times> inode) list \<Rightarrow> inode \<Rightarrow> string list \<Rightarrow> string list option" where
  "path_climb par n up =
     (if parent_of par n = n then Some (up @ [fst n]) else path_climb par (parent_of par n) (up @ [fst n]))"

declare path_climb.simps [simp del, code]

definition path_to :: "(inode \<times> inode) list \<Rightarrow> inode \<Rightarrow> string list option" where
  "path_to par n = map_option rev (path_climb par n [])"

subsection \<open>The search\<close>

definition emits_of :: "impact_walk \<Rightarrow> inode \<Rightarrow> string list" where
  "emits_of w n = (case iw_state w n of None \<Rightarrow> [] | Some st \<Rightarrow> gs_emits st)"

definition reach_node :: "inode \<Rightarrow> graph_component \<Rightarrow> graph_state \<Rightarrow> inode \<Rightarrow> impact_walk \<Rightarrow> impact_walk" where
  "reach_node cur gd ds nx w =
     (let par = iw_parent w @ [(nx, cur)];
          a = (case map_of (iw_reached w) (fst nx) of
                 None \<Rightarrow> \<lparr>af_component = fst nx, af_states = [], af_path = path_to par nx,
                          af_symptom = (gc_dependents gd = []), af_conditions = []\<rparr>
               | Some a \<Rightarrow> a)
      in w\<lparr>iw_parent := par, iw_state := (iw_state w)(nx \<mapsto> ds), iw_queue := iw_queue w @ [nx],
           iw_reached := AList.update (fst nx) (a\<lparr>af_states := af_states a @ [snd nx]\<rparr>) (iw_reached w)\<rparr>)"

text \<open>The innermost loop: the failure states of a dependent.\<close>

fun reach_states :: "inode \<Rightarrow> string \<Rightarrow> graph_component \<Rightarrow> graph_state list \<Rightarrow> impact_walk \<Rightarrow> impact_walk" where
  "reach_states cur d gd [] w = w"
| "reach_states cur d gd (ds # dss) w =
     reach_states cur d gd dss
       (if match_edge_label (emits_of w cur) (gs_triggered_by ds) = [] then w
        else if map_of (iw_parent w) (d, gs_name ds) \<noteq> None then w
        else reach_node cur gd ds (d, gs_name ds) w)"

text \<open>The loop over the links of the current node's component.\<close>

fun reach_links :: "failure_graph \<Rightarrow> string \<Rightarrow> inode \<Rightarrow> graph_link list \<Rightarrow> impact_walk \<Rightarrow> impact_walk" where
  "reach_links g root cur [] w = w"
| "reach_links g root cur (l # ls) w =
     reach_links g root cur ls
       (if gl_group l \<and> root \<notin> set (gl_roots l)
        then w\<lparr>iw_blocked := List.insert \<lparr>bk_dependent = gl_to l, bk_member = fst cur\<rparr> (iw_blocked w)\<rparr>
        else (case map_of g (gl_to l) of
                None \<Rightarrow> w
              | Some gd \<Rightarrow>
                  if gc_unresolved gd \<or> gl_to l = root then w
                  else reach_states cur (gl_to l) gd (gc_states gd) w))"

definition links_of :: "failure_graph \<Rightarrow> string \<Rightarrow> graph_link list" where
  "links_of g cn = (case map_of g cn of None \<Rightarrow> [] | Some gc \<Rightarrow> gc_dependents gc)"

text \<open>Every node there is.\<close>

definition all_inodes :: "failure_graph \<Rightarrow> inode set" where
  "all_inodes g = (\<Union>(cn, gc)\<in>set g. (\<lambda>st. (cn, gs_name st)) ` set (gc_states gc))"

lemma finite_all_inodes [simp]: "finite (all_inodes g)"
  by (simp add: all_inodes_def split_def)

text \<open>What one turn of the loops adds: new nodes, found from \<open>cur\<close>, queued in order.\<close>

definition grown :: "inode \<Rightarrow> impact_walk \<Rightarrow> inode list \<Rightarrow> impact_walk \<Rightarrow> bool" where
  "grown cur w new w' \<longleftrightarrow>
     iw_parent w' = iw_parent w @ map (\<lambda>n. (n, cur)) new \<and> iw_queue w' = iw_queue w @ new \<and>
     distinct new \<and> set new \<inter> dom (map_of (iw_parent w)) = {}"

lemma dom_grown: "grown cur w new w' \<Longrightarrow> dom (map_of (iw_parent w')) = dom (map_of (iw_parent w)) \<union> set new"
  by (auto simp: grown_def dom_map_of_conv_image_fst image_Un image_image)

lemma grown_refl: "iw_parent w' = iw_parent w \<Longrightarrow> iw_queue w' = iw_queue w \<Longrightarrow> grown cur w [] w'"
  by (simp add: grown_def)

lemma grown_trans: "grown cur w new w' \<Longrightarrow> grown cur w' new' w'' \<Longrightarrow> grown cur w (new @ new') w''"
  using dom_grown [of cur w new w'] by (auto simp: grown_def)

lemma reach_states_grown:
  "\<exists>new. grown cur w new (reach_states cur d gd dss w) \<and> set new \<subseteq> (\<lambda>ds. (d, gs_name ds)) ` set dss"
proof (induction dss arbitrary: w)
  case Nil
  show ?case by (intro exI [of _ "[]"]) (simp add: grown_def)
next
  case (Cons ds dss)
  let ?w = "if match_edge_label (emits_of w cur) (gs_triggered_by ds) = [] then w
        else if map_of (iw_parent w) (d, gs_name ds) \<noteq> None then w
        else reach_node cur gd ds (d, gs_name ds) w"
  have "\<exists>new. grown cur w new ?w \<and> set new \<subseteq> {(d, gs_name ds)}"
    by (auto simp: grown_def reach_node_def Let_def intro: exI [of _ "[]"])
  then obtain n1 where n1: "grown cur w n1 ?w" "set n1 \<subseteq> {(d, gs_name ds)}" by blast
  from Cons.IH [of ?w] obtain n2 where n2: "grown cur ?w n2 (reach_states cur d gd dss ?w)"
      "set n2 \<subseteq> (\<lambda>ds. (d, gs_name ds)) ` set dss"
    by blast
  from grown_trans [OF n1(1) n2(1)] have "grown cur w (n1 @ n2) (reach_states cur d gd (ds # dss) w)" by simp
  with n1(2) n2(2) show ?case by (intro exI [of _ "n1 @ n2"]) auto
qed

lemma reach_links_grown:
  "\<exists>new. grown cur w new (reach_links g root cur ls w) \<and> set new \<subseteq> all_inodes g"
proof (induction ls arbitrary: w)
  case Nil
  show ?case by (intro exI [of _ "[]"]) (simp add: grown_def)
next
  case (Cons l ls)
  let ?w = "if gl_group l \<and> root \<notin> set (gl_roots l)
        then w\<lparr>iw_blocked := List.insert \<lparr>bk_dependent = gl_to l, bk_member = fst cur\<rparr> (iw_blocked w)\<rparr>
        else (case map_of g (gl_to l) of
                None \<Rightarrow> w
              | Some gd \<Rightarrow>
                  if gc_unresolved gd \<or> gl_to l = root then w
                  else reach_states cur (gl_to l) gd (gc_states gd) w)"
  have "\<exists>new. grown cur w new ?w \<and> set new \<subseteq> all_inodes g"
  proof (cases "(gl_group l \<and> root \<notin> set (gl_roots l)) \<or> map_of g (gl_to l) = None")
    case True
    then have "iw_parent ?w = iw_parent w" "iw_queue ?w = iw_queue w" by auto
    then have "grown cur w [] ?w" by (rule grown_refl)
    then show ?thesis by (intro exI [of _ "[]"]) simp
  next
    case False
    then obtain gd where gd: "map_of g (gl_to l) = Some gd" by auto
    from reach_states_grown [of cur w "gl_to l" gd "gc_states gd"] obtain new where
      "grown cur w new (reach_states cur (gl_to l) gd (gc_states gd) w)" "set new \<subseteq> (\<lambda>ds. (gl_to l, gs_name ds)) ` set (gc_states gd)"
      by blast
    moreover have "(\<lambda>ds. (gl_to l, gs_name ds)) ` set (gc_states gd) \<subseteq> all_inodes g"
      using map_of_SomeD [OF gd] by (auto simp: all_inodes_def)
    moreover have "\<exists>new. grown cur w new w \<and> set new \<subseteq> all_inodes g" by (intro exI [of _ "[]"]) (simp add: grown_def)
    ultimately show ?thesis using gd False by (cases "gc_unresolved gd \<or> gl_to l = root") auto
  qed
  then obtain n1 where n1: "grown cur w n1 ?w" "set n1 \<subseteq> all_inodes g" by blast
  from Cons.IH [of ?w] obtain n2 where n2: "grown cur ?w n2 (reach_links g root cur ls ?w)" "set n2 \<subseteq> all_inodes g"
    by blast
  from grown_trans [OF n1(1) n2(1)] have "grown cur w (n1 @ n2) (reach_links g root cur (l # ls) w)" by simp
  with n1(2) n2(2) show ?case by (intro exI [of _ "n1 @ n2"]) auto
qed

text \<open>The outer loop over the queue.\<close>

function impact_loop :: "failure_graph \<Rightarrow> string \<Rightarrow> impact_walk \<Rightarrow> impact_walk" where
  "impact_loop g root w =
     (case iw_queue w of
        [] \<Rightarrow> w
      | cur # rest \<Rightarrow> impact_loop g root (reach_links g root cur (links_of g (fst cur)) (w\<lparr>iw_queue := rest\<rparr>)))"
  by pat_completeness auto

termination impact_loop
proof (relation "measures
    [\<lambda>(g, root, w). card (all_inodes g - dom (map_of (iw_parent w))), \<lambda>(g, root, w). length (iw_queue w)]", goal_cases)
  case (2 g root w cur rest)
  let ?w = "w\<lparr>iw_queue := rest\<rparr>"
  obtain new where new: "grown cur ?w new (reach_links g root cur (links_of g (fst cur)) ?w)" "set new \<subseteq> all_inodes g"
    using reach_links_grown by blast
  note dom_grown [OF new(1)]
  show ?case
  proof (cases new)
    case Nil
    with new(1) show ?thesis using 2 by (simp add: grown_def)
  next
    case (Cons n ns)
    then have "all_inodes g - (dom (map_of (iw_parent w)) \<union> set new) \<subset> all_inodes g - dom (map_of (iw_parent w))"
      using new by (auto simp: grown_def)
    then have "card (all_inodes g - (dom (map_of (iw_parent w)) \<union> set new)) < card (all_inodes g - dom (map_of (iw_parent w)))"
      by (intro psubset_card_mono) simp_all
    with dom_grown [OF new(1)] show ?thesis by simp
  qed
qed simp

declare impact_loop.simps [simp del]

subsection \<open>Guards\<close>

definition guard :: "model option \<Rightarrow> string \<Rightarrow> string \<Rightarrow> string" where
  "guard m child dependent =
     (case m of
        None \<Rightarrow> []
      | Some mm \<Rightarrow>
          (case component_of mm dependent of
             None \<Rightarrow> []
           | Some c \<Rightarrow>
               (case List.find (\<lambda>dep. child \<in> set (dp_on dep)) (c_depends c) of
                  None \<Rightarrow> []
                | Some dep \<Rightarrow> dp_while_raw dep)))"

fun free_pass :: "model option \<Rightarrow> (inode \<times> inode) list \<Rightarrow> string set \<Rightarrow> string set" where
  "free_pass m [] free = free"
| "free_pass m ((n, p) # ps) free =
     free_pass m ps
       (if n = p \<or> fst n \<in> free \<or> fst p \<notin> free then free
        else if guard m (fst p) (fst n) = [] then insert (fst n) free else free)"

lemma free_pass_grows: "free \<subseteq> free_pass m ps free \<and> free_pass m ps free \<subseteq> free \<union> fst ` fst ` set ps"
proof (induction ps arbitrary: free)
  case (Cons np ps)
  obtain n p where np: "np = (n, p)" by (cases np)
  define f where "f = (if n = p \<or> fst n \<in> free \<or> fst p \<notin> free then free
        else if guard m (fst p) (fst n) = [] then insert (fst n) free else free)"
  have "free \<subseteq> f" "f \<subseteq> insert (fst n) free" by (auto simp: f_def)
  moreover have "free_pass m (np # ps) free = free_pass m ps f" by (simp add: np f_def)
  ultimately show ?case using Cons.IH [of f] np by auto
qed simp

text \<open>The passes go on while one has changed something.\<close>

function free_loop :: "model option \<Rightarrow> (inode \<times> inode) list \<Rightarrow> string set \<Rightarrow> string set" where
  "free_loop m par free =
     (let free' = free_pass m par free in if free' = free then free else free_loop m par free')"
  by pat_completeness auto

termination free_loop
proof (relation "measure (\<lambda>(m, par, free). card (fst ` fst ` set par - free))", goal_cases)
  case (2 m par free free')
  have g: "free \<subseteq> free'" "free' \<subseteq> free \<union> fst ` fst ` set par"
    by (simp_all only: 2(1) free_pass_grows)
  with 2(2) have "fst ` fst ` set par - free' \<subset> fst ` fst ` set par - free" by fast
  then show ?case by (simp add: psubset_card_mono)
qed simp

declare free_loop.simps [simp del]

definition unguarded_reach :: "model option \<Rightarrow> string \<Rightarrow> (inode \<times> inode) list \<Rightarrow> string set" where
  "unguarded_reach m root par = free_loop m par {root}"

text \<open>A condition names the gate, the component it depends on and the guard.\<close>

definition condition_text :: "string \<Rightarrow> string \<Rightarrow> string \<Rightarrow> string" where
  "condition_text gate child raw = gate @ '' depends on '' @ child @ '' while '' @ raw"

definition conditions_for :: "model option \<Rightarrow> string list \<Rightarrow> string set \<Rightarrow> string set \<Rightarrow> string \<Rightarrow> string list" where
  "conditions_for m path free reached root =
     (let gate = (case List.find (\<lambda>c. c \<notin> free) path of None \<Rightarrow> [] | Some c \<Rightarrow> c)
      in case m of
           None \<Rightarrow> []
         | Some mm \<Rightarrow>
             (case component_of mm gate of
                None \<Rightarrow> []
              | Some dep \<Rightarrow>
                  sort (concat (map (\<lambda>d.
                    if dp_while_raw d = [] then []
                    else map (\<lambda>child. condition_text gate child (dp_while_raw d))
                           (filter (\<lambda>child. child = root \<or> child \<in> reached) (dp_on d)))
                    (c_depends dep)))))"

subsection \<open>The whole answer\<close>

text \<open>\<open>byName\<close>: of two states of one name the later stays.\<close>

definition state_by_name :: "graph_component \<Rightarrow> string \<Rightarrow> graph_state option" where
  "state_by_name gc s = find_last (\<lambda>st. gs_name st = s) (gc_states gc)"

fun start_walk :: "string \<Rightarrow> graph_component \<Rightarrow> string list \<Rightarrow> impact_walk \<Rightarrow> impact_error + impact_walk" where
  "start_walk cn gc [] w = Inr w"
| "start_walk cn gc (s # ss) w =
     (case state_by_name gc s of
        None \<Rightarrow> Inl (NotAFailureState s cn (map gs_name (gc_states gc)))
      | Some st \<Rightarrow>
          start_walk cn gc ss
            (w\<lparr>iw_parent := AList.update (cn, s) (cn, s) (iw_parent w),
               iw_state := (iw_state w)((cn, s) \<mapsto> st), iw_queue := iw_queue w @ [(cn, s)]\<rparr>))"

definition empty_walk :: impact_walk where
  "empty_walk = \<lparr>iw_parent = [], iw_state = Map.empty, iw_queue = [], iw_reached = [], iw_blocked = []\<rparr>"

definition path_length :: "affected \<Rightarrow> nat" where
  "path_length a = (case af_path a of None \<Rightarrow> 0 | Some p \<Rightarrow> length p)"

definition affected_less :: "affected \<Rightarrow> affected \<Rightarrow> bool" where
  "affected_less a b \<longleftrightarrow>
     (if path_length a \<noteq> path_length b then path_length a < path_length b else af_component a < af_component b)"

definition blocked_less :: "blocked \<Rightarrow> blocked \<Rightarrow> bool" where
  "blocked_less a b \<longleftrightarrow>
     (if bk_dependent a \<noteq> bk_dependent b then bk_dependent a < bk_dependent b else bk_member a < bk_member b)"

definition finish_affected :: "model option \<Rightarrow> string \<Rightarrow> string set \<Rightarrow> string set \<Rightarrow> affected \<Rightarrow> affected" where
  "finish_affected m root free reached a =
     a\<lparr>af_states := sort (af_states a),
       af_conditions := (if af_component a \<in> free then af_conditions a
                         else conditions_for m (case af_path a of None \<Rightarrow> [] | Some p \<Rightarrow> p) free reached root)\<rparr>"

definition impact_of :: "failure_graph \<Rightarrow> model option \<Rightarrow> string \<Rightarrow> string list \<Rightarrow> impact_error + impact" where
  "impact_of g m cn states0 =
     (case map_of g cn of
        None \<Rightarrow> Inl (NoComponent cn)
      | Some gc \<Rightarrow>
          if gc_unresolved gc then Inl (NoResolvedType cn)
          else let states = (if states0 = [] then map gs_name (gc_states gc) else states0)
               in case start_walk cn gc states empty_walk of
                    Inl e \<Rightarrow> Inl e
                  | Inr w0 \<Rightarrow>
                      (let w = impact_loop g cn w0;
                           free = unguarded_reach m cn (iw_parent w);
                           reached = set (keys (iw_reached w))
                       in Inr \<lparr>im_component = cn, im_states = states,
                            im_affected = sort_by affected_less
                              (map (\<lambda>(n, a). finish_affected m cn free reached a) (iw_reached w)),
                            im_blocked = sort_by blocked_less
                              (filter (\<lambda>b. bk_dependent b \<notin> reached) (iw_blocked w))\<rparr>))"

subsection \<open>How a failure spreads\<close>

text \<open>One step of the failure of \<open>root\<close>: over a link that carries it, to a state its label triggers.\<close>

definition carries :: "failure_graph \<Rightarrow> string \<Rightarrow> (inode \<times> inode) set" where
  "carries g root =
     {((a, sa), (b, sb)). \<exists>ga st gb ds.
        map_of g a = Some ga \<and> st \<in> set (gc_states ga) \<and> gs_name st = sa \<and>
        b \<in> set (carried_to root ga) \<and> b \<noteq> root \<and>
        map_of g b = Some gb \<and> \<not> gc_unresolved gb \<and> ds \<in> set (gc_states gb) \<and> gs_name ds = sb \<and>
        match_edge_label (gs_emits st) (gs_triggered_by ds) \<noteq> []}"

definition named_once :: "failure_graph \<Rightarrow> bool" where
  "named_once g \<longleftrightarrow> (\<forall>n gc. map_of g n = Some gc \<longrightarrow> distinct (map gs_name (gc_states gc)))"

abbreviation chain_of :: "('n \<times> 'n) set \<Rightarrow> 'n list \<Rightarrow> bool" where
  "chain_of E ns \<equiv> ns \<noteq> [] \<and> successively (\<lambda>a b. (a, b) \<in> E) ns"

lemma carries_not_root: "(a, b) \<in> carries g root \<Longrightarrow> fst b \<noteq> root"
  by (auto simp: carries_def)

subsection \<open>The invariant of the search\<close>

definition tree_inv :: "('n \<times> 'n) set \<Rightarrow> 'n set \<Rightarrow> ('n \<Rightarrow> nat) \<Rightarrow> ('n \<times> 'n) list \<Rightarrow> bool" where
  "tree_inv E S dep par \<longleftrightarrow>
     S \<subseteq> dom (map_of par) \<and>
     (\<forall>n p. map_of par n = Some p \<longrightarrow>
        (n \<in> S \<and> p = n \<and> dep n = 0) \<or>
        (n \<notin> S \<and> p \<in> dom (map_of par) \<and> (p, n) \<in> E \<and> dep n = Suc (dep p)))"

definition state_inv :: "failure_graph \<Rightarrow> impact_walk \<Rightarrow> bool" where
  "state_inv g w \<longleftrightarrow>
     (\<forall>n \<in> dom (map_of (iw_parent w)). \<exists>gc st. map_of g (fst n) = Some gc \<and> st \<in> set (gc_states gc) \<and>
        gs_name st = snd n \<and> iw_state w n = Some st)"

text \<open>What is on record of a component: its states, and a chain to the state found first.\<close>

definition recorded :: "(inode \<times> inode) set \<Rightarrow> inode set \<Rightarrow> (inode \<Rightarrow> nat) \<Rightarrow> inode set \<Rightarrow> string \<Rightarrow> affected \<Rightarrow> bool" where
  "recorded E S dep seen c a \<longleftrightarrow>
     af_component a = c \<and> set (af_states a) = {s. (c, s) \<in> seen} \<and> af_conditions a = [] \<and>
     (\<exists>ns. chain_of E ns \<and> hd ns \<in> S \<and> last ns \<in> seen \<and> fst (last ns) = c \<and> length ns = Suc (dep (last ns)) \<and>
        af_path a = Some (map fst ns) \<and> (\<forall>s. (c, s) \<in> seen \<longrightarrow> dep (last ns) \<le> dep (c, s)))"

definition walk_inv :: "failure_graph \<Rightarrow> string \<Rightarrow> inode set \<Rightarrow> (inode \<Rightarrow> nat) \<Rightarrow> impact_walk \<Rightarrow> bool" where
  "walk_inv g root S dep w \<longleftrightarrow>
     tree_inv (carries g root) S dep (iw_parent w) \<and> state_inv g w \<and> fst ` S \<subseteq> {root} \<and>
     wf_dict (iw_reached w) \<and>
     (\<forall>c. map_of (iw_reached w) c = None \<longleftrightarrow> c = root \<or> (\<forall>s. (c, s) \<notin> dom (map_of (iw_parent w)))) \<and>
     (\<forall>c a. map_of (iw_reached w) c = Some a \<longrightarrow> recorded (carries g root) S dep (dom (map_of (iw_parent w))) c a)"

lemma tree_cases:
  "tree_inv E S dep par \<Longrightarrow> map_of par n = Some p \<Longrightarrow>
   (n \<in> S \<and> p = n \<and> dep n = 0) \<or> (n \<notin> S \<and> p \<in> dom (map_of par) \<and> (p, n) \<in> E \<and> dep n = Suc (dep p))"
  by (simp add: tree_inv_def)

lemma tree_climb:
  assumes "tree_inv E S dep par" and "n \<in> dom (map_of par)"
  shows "\<exists>ns. chain_of E ns \<and> hd ns \<in> S \<and> last ns = n \<and> length ns = Suc (dep n) \<and>
    path_climb par n up = Some (up @ rev (map fst ns))"
  using assms(2)
proof (induction "dep n" arbitrary: n up)
  case 0
  from 0(2) obtain p where p: "map_of par n = Some p" unfolding dom_def by blast
  from tree_cases [OF assms(1) p] 0(1) have n: "n \<in> S" "p = n" by simp_all
  then have "path_climb par n up = Some (up @ rev (map fst [n]))"
    using p by (subst path_climb.simps) (simp add: parent_of_def)
  with n(1) 0(1) show ?case by (intro exI [of _ "[n]"]) simp
next
  case (Suc d)
  from Suc(3) obtain p where p: "map_of par n = Some p" unfolding dom_def by blast
  from tree_cases [OF assms(1) p] Suc(2) have t: "p \<in> dom (map_of par)" "(p, n) \<in> E" "dep n = Suc (dep p)"
    by (metis nat.distinct(1))+
  with Suc(2) have "d = dep p" by simp
  from Suc(1) [OF this t(1), of "up @ [fst n]"] obtain ns where ns: "chain_of E ns" "hd ns \<in> S" "last ns = p"
      "length ns = Suc (dep p)" "path_climb par p (up @ [fst n]) = Some ((up @ [fst n]) @ rev (map fst ns))"
    by blast
  have "p \<noteq> n" using t(3) by auto
  then have "path_climb par n up = Some (up @ rev (map fst (ns @ [n])))"
    using ns(5) p by (subst path_climb.simps) (simp add: parent_of_def)
  moreover have "chain_of E (ns @ [n])" using ns(1,3) t(2) by (simp add: successively_append_iff)
  ultimately show ?case using ns t(3) by (intro exI [of _ "ns @ [n]"]) simp
qed

lemma tree_inv_add:
  assumes t: "tree_inv E S dep par" and cur: "cur \<in> dom (map_of par)" and nx: "nx \<notin> dom (map_of par)" and e: "(cur, nx) \<in> E"
  shows "tree_inv E S (dep(nx := Suc (dep cur))) (par @ [(nx, cur)])"
  unfolding tree_inv_def
proof (intro conjI allI impI)
  have S: "S \<subseteq> dom (map_of par)" using t by (simp add: tree_inv_def)
  then show "S \<subseteq> dom (map_of (par @ [(nx, cur)]))" by auto
  fix n p assume n: "map_of (par @ [(nx, cur)]) n = Some p"
  show "(n \<in> S \<and> p = n \<and> (dep(nx := Suc (dep cur))) n = 0) \<or>
      (n \<notin> S \<and> p \<in> dom (map_of (par @ [(nx, cur)])) \<and> (p, n) \<in> E \<and>
        (dep(nx := Suc (dep cur))) n = Suc ((dep(nx := Suc (dep cur))) p))"
  proof (cases "n = nx")
    case True
    have "map_of par nx = None" using nx by auto
    with n True have p: "p = cur" by (simp add: map_add_Some_iff)
    moreover have "cur \<noteq> nx" "nx \<notin> S" using cur nx S by auto
    moreover have "cur \<in> dom (map_of (par @ [(nx, cur)]))" using cur by auto
    ultimately show ?thesis using True e by simp
  next
    case False
    with n have np: "map_of par n = Some p" by (simp add: map_add_Some_iff)
    have "p \<noteq> nx" if "p \<in> dom (map_of par)" using that nx by auto
    moreover have "p \<in> dom (map_of (par @ [(nx, cur)]))" if "p \<in> dom (map_of par)" using that by auto
    ultimately show ?thesis using tree_cases [OF t np] False by auto
  qed
qed

lemma chain_dep_le:
  assumes "\<And>a b. a \<in> V \<Longrightarrow> (a, b) \<in> E \<Longrightarrow> b \<in> V \<and> dep b \<le> Suc (dep a)"
  shows "successively (\<lambda>a b. (a, b) \<in> E) ns \<Longrightarrow> ns \<noteq> [] \<Longrightarrow> hd ns \<in> V \<Longrightarrow>
    last ns \<in> V \<and> Suc (dep (last ns)) \<le> dep (hd ns) + length ns"
proof (induction ns rule: rev_induct)
  case (snoc n ns)
  show ?case
  proof (cases "ns = []")
    case False
    with snoc have "last ns \<in> V" "Suc (dep (last ns)) \<le> dep (hd ns) + length ns" "(last ns, n) \<in> E"
      by (auto simp: successively_append_iff)
    with assms [of "last ns" n] False show ?thesis by auto
  qed (use snoc in auto)
qed simp

subsection \<open>One node more\<close>

lemma dom_snoc: "dom (map_of (par @ [(nx, cur)])) = insert nx (dom (map_of par))"
  by (auto simp: dom_map_of_conv_image_fst)

lemma state_inv_add:
  assumes "state_inv g w" and "map_of g (fst nx) = Some gd" and "ds \<in> set (gc_states gd)" and "gs_name ds = snd nx"
  shows "state_inv g (reach_node cur gd ds nx w)"
  using assms by (auto simp: state_inv_def reach_node_def Let_def dom_snoc simp del: map_of_append)

lemma recorded_mono:
  assumes rec: "recorded E S dep seen c a" and nx: "nx \<notin> seen" and far: "\<And>n. n \<in> seen \<Longrightarrow> dep n \<le> k"
  shows "recorded E S (dep(nx := k)) (insert nx seen) c (if fst nx = c then a\<lparr>af_states := af_states a @ [snd nx]\<rparr> else a)"
proof -
  from rec obtain ns where ns: "chain_of E ns" "hd ns \<in> S" "last ns \<in> seen" "fst (last ns) = c"
      "length ns = Suc (dep (last ns))" "af_path a = Some (map fst ns)" "\<And>s. (c, s) \<in> seen \<Longrightarrow> dep (last ns) \<le> dep (c, s)"
    by (auto simp: recorded_def)
  have l: "last ns \<noteq> nx" using ns(3) nx by auto
  have least: "(dep(nx := k)) (last ns) \<le> (dep(nx := k)) (c, s)" if "(c, s) \<in> insert nx seen" for s
    using that ns(7) far [OF ns(3)] l by (cases "(c, s) = nx") auto
  have states: "set (af_states (if fst nx = c then a\<lparr>af_states := af_states a @ [snd nx]\<rparr> else a)) = {s. (c, s) \<in> insert nx seen}"
    using rec by (cases nx) (auto simp: recorded_def)
  show ?thesis unfolding recorded_def
  proof (intro conjI exI [of _ ns])
    show "\<forall>s. (c, s) \<in> insert nx seen \<longrightarrow> (dep(nx := k)) (last ns) \<le> (dep(nx := k)) (c, s)"
      using least by blast
    show "set (af_states (if fst nx = c then a\<lparr>af_states := af_states a @ [snd nx]\<rparr> else a)) = {s. (c, s) \<in> insert nx seen}"
      by (rule states)
  qed (use ns l rec in \<open>auto simp: recorded_def\<close>)
qed

lemma recorded_first:
  assumes t: "tree_inv E S (dep(nx := k)) (par @ [(nx, cur)])" and fresh: "\<And>s. (fst nx, s) \<notin> dom (map_of par)"
  shows "recorded E S (dep(nx := k)) (insert nx (dom (map_of par))) (fst nx)
    \<lparr>af_component = fst nx, af_states = [snd nx], af_path = path_to (par @ [(nx, cur)]) nx,
     af_symptom = b, af_conditions = []\<rparr>"
proof -
  have "nx \<in> dom (map_of (par @ [(nx, cur)]))" unfolding dom_snoc by simp
  from tree_climb [OF t this, of "[]"] obtain ns where ns: "chain_of E ns" "hd ns \<in> S" "last ns = nx"
      "length ns = Suc ((dep(nx := k)) nx)" "path_climb (par @ [(nx, cur)]) nx [] = Some (rev (map fst ns))"
    by auto
  then have "path_to (par @ [(nx, cur)]) nx = Some (map fst ns)" by (simp add: path_to_def)
  moreover have "{s. (fst nx, s) \<in> insert nx (dom (map_of par))} = {snd nx}" using fresh by (cases nx) auto
  moreover from this have "(fst nx, s) \<in> insert nx (dom (map_of par)) \<Longrightarrow> (fst nx, s) = nx" for s by (cases nx) auto
  ultimately show ?thesis unfolding recorded_def using ns(1-4)
    by (intro conjI exI [of _ ns]) auto
qed

lemma walk_inv_add:
  assumes inv: "walk_inv g root S dep w" and cur: "cur \<in> dom (map_of (iw_parent w))"
    and nx: "nx \<notin> dom (map_of (iw_parent w))" and e: "(cur, nx) \<in> carries g root"
    and gd: "map_of g (fst nx) = Some gd" "ds \<in> set (gc_states gd)" "gs_name ds = snd nx"
    and far: "\<And>n. n \<in> dom (map_of (iw_parent w)) \<Longrightarrow> dep n \<le> Suc (dep cur)"
  shows "walk_inv g root S (dep(nx := Suc (dep cur))) (reach_node cur gd ds nx w)"
proof -
  let ?par = "iw_parent w @ [(nx, cur)]" and ?dep = "dep(nx := Suc (dep cur))"
  let ?seen = "dom (map_of (iw_parent w))"
  let ?w = "reach_node cur gd ds nx w"
  let ?a = "case map_of (iw_reached w) (fst nx) of
       None \<Rightarrow> \<lparr>af_component = fst nx, af_states = [], af_path = path_to ?par nx,
                af_symptom = (gc_dependents gd = []), af_conditions = []\<rparr>
     | Some a \<Rightarrow> a"
  have par: "iw_parent ?w = ?par" by (simp add: reach_node_def Let_def)
  have reached: "iw_reached ?w = AList.update (fst nx) (?a\<lparr>af_states := af_states ?a @ [snd nx]\<rparr>) (iw_reached w)"
    by (simp add: reach_node_def Let_def)
  have tree: "tree_inv (carries g root) S ?dep ?par"
    using inv by (intro tree_inv_add [OF _ cur nx e]) (simp add: walk_inv_def)
  have none: "map_of (iw_reached w) c = None \<longleftrightarrow> c = root \<or> (\<forall>s. (c, s) \<notin> ?seen)" for c
    using inv by (simp add: walk_inv_def)
  have some: "recorded (carries g root) S dep ?seen c a" if "map_of (iw_reached w) c = Some a" for c a
    using inv that by (simp add: walk_inv_def)
  have root: "fst nx \<noteq> root" using carries_not_root [OF e] .
  have rec: "recorded (carries g root) S ?dep (insert nx ?seen) c a"
    if a: "map_of (iw_reached ?w) c = Some a" for c a
  proof (cases "c = fst nx")
    case False
    with a have "map_of (iw_reached w) c = Some a" by (simp add: reached update_conv')
    from recorded_mono [OF some [OF this] nx far] False show ?thesis by simp
  next
    case True
    show ?thesis
    proof (cases "map_of (iw_reached w) (fst nx)")
      case None
      with none root have "(fst nx, s) \<notin> ?seen" for s by auto
      from recorded_first [OF tree this] None True a show ?thesis by (auto simp: reached update_conv')
    next
      case (Some b)
      from recorded_mono [OF some [OF Some] nx far] Some True a show ?thesis by (simp add: reached update_conv')
    qed
  qed
  show ?thesis unfolding walk_inv_def par dom_snoc
  proof (intro conjI allI impI)
    show "tree_inv (carries g root) S ?dep ?par" by (rule tree)
    show "state_inv g ?w" using inv gd by (intro state_inv_add) (simp_all add: walk_inv_def)
    show "fst ` S \<subseteq> {root}" using inv by (simp add: walk_inv_def)
    show "wf_dict (iw_reached ?w)" using inv by (simp add: reached walk_inv_def wf_dict_def keys_def distinct_update)
    show "(map_of (iw_reached ?w) c = None) = (c = root \<or> (\<forall>s. (c, s) \<notin> insert nx ?seen))" for c
    proof (cases "c = fst nx")
      case True
      then have "(c, snd nx) \<in> insert nx ?seen" by (cases nx) simp
      then have "\<not> (c = root \<or> (\<forall>s. (c, s) \<notin> insert nx ?seen))" using True root by blast
      with True show ?thesis by (simp add: reached update_conv')
    next
      case False
      then have "(c, s) \<in> insert nx ?seen \<longleftrightarrow> (c, s) \<in> ?seen" for s by (cases nx) auto
      with False none [of c] show ?thesis by (simp add: reached update_conv')
    qed
    show "recorded (carries g root) S ?dep (insert nx ?seen) c a" if "map_of (iw_reached ?w) c = Some a" for c a
      using rec [OF that] .
  qed
qed

subsection \<open>One turn of the loops\<close>

definition ready :: "failure_graph \<Rightarrow> string \<Rightarrow> inode set \<Rightarrow> inode \<Rightarrow> (inode \<Rightarrow> nat) \<Rightarrow> impact_walk \<Rightarrow> bool" where
  "ready g root S cur dep w \<longleftrightarrow>
     walk_inv g root S dep w \<and> cur \<in> dom (map_of (iw_parent w)) \<and>
     (\<forall>n\<in>dom (map_of (iw_parent w)). dep n \<le> Suc (dep cur))"

text \<open>From \<open>w\<close> to \<open>w'\<close> the search has found the nodes of \<open>X\<close> it did not know, one step beyond \<open>cur\<close>.\<close>

definition turned ::
    "failure_graph \<Rightarrow> string \<Rightarrow> inode set \<Rightarrow> inode \<Rightarrow> (inode \<Rightarrow> nat) \<Rightarrow> impact_walk \<Rightarrow> inode set \<Rightarrow>
     (inode \<Rightarrow> nat) \<Rightarrow> impact_walk \<Rightarrow> bool" where
  "turned g root S cur dep w X dep' w' \<longleftrightarrow>
     walk_inv g root S dep' w' \<and> iw_state w' cur = iw_state w cur \<and>
     (\<forall>n\<in>dom (map_of (iw_parent w)). dep' n = dep n) \<and>
     (\<exists>new. grown cur w new w' \<and> set new = X - dom (map_of (iw_parent w)) \<and> (\<forall>n\<in>set new. dep' n = Suc (dep cur)))"

lemma turned_dom: "turned g root S cur dep w X dep' w' \<Longrightarrow> dom (map_of (iw_parent w')) = dom (map_of (iw_parent w)) \<union> X"
  unfolding turned_def using dom_grown by blast

lemma turned_dep:
  "turned g root S cur dep w X dep' w' \<Longrightarrow> cur \<in> dom (map_of (iw_parent w)) \<Longrightarrow>
   n \<in> X - dom (map_of (iw_parent w)) \<Longrightarrow> dep' n = Suc (dep cur)"
  unfolding turned_def by blast

lemma turned_ready:
  assumes r: "ready g root S cur dep w" and t: "turned g root S cur dep w X dep' w'"
  shows "ready g root S cur dep' w'"
proof -
  have cur: "cur \<in> dom (map_of (iw_parent w))" using r by (simp add: ready_def)
  then have c: "dep' cur = dep cur" using t by (simp add: turned_def)
  have "dep' n \<le> Suc (dep' cur)" if "n \<in> dom (map_of (iw_parent w'))" for n
  proof (cases "n \<in> dom (map_of (iw_parent w))")
    case True
    then have "dep' n = dep n" using t by (simp add: turned_def)
    with True r c show ?thesis by (simp add: ready_def)
  next
    case False
    with that turned_dom [OF t] have "n \<in> X - dom (map_of (iw_parent w))" by simp
    with turned_dep [OF t cur] c show ?thesis by simp
  qed
  moreover have "walk_inv g root S dep' w'" using t by (simp add: turned_def)
  moreover have "cur \<in> dom (map_of (iw_parent w'))" using cur turned_dom [OF t] by simp
  ultimately show ?thesis by (simp add: ready_def)
qed

lemma turned_trans:
  assumes r: "ready g root S cur dep w" and 1: "turned g root S cur dep w X dep1 w1" and 2: "turned g root S cur dep1 w1 Y dep2 w2"
  shows "turned g root S cur dep w (X \<union> Y) dep2 w2"
proof -
  let ?D = "dom (map_of (iw_parent w))"
  obtain n1 where n1: "grown cur w n1 w1" "set n1 = X - ?D" "\<forall>n\<in>set n1. dep1 n = Suc (dep cur)"
    using 1 by (auto simp: turned_def)
  obtain n2 where n2: "grown cur w1 n2 w2" "set n2 = Y - (?D \<union> X)" "\<forall>n\<in>set n2. dep2 n = Suc (dep1 cur)"
    using 2 unfolding turned_def turned_dom [OF 1] by blast
  have "cur \<in> ?D" using r by (simp add: ready_def)
  then have cur: "dep1 cur = dep cur" using 1 by (simp add: turned_def)
  have old: "\<forall>n\<in>?D \<union> X. dep2 n = dep1 n" using 2 unfolding turned_def turned_dom [OF 1] by blast
  have "set (n1 @ n2) = (X \<union> Y) - ?D" using n1(2) n2(2) by auto
  moreover have "\<forall>n\<in>set (n1 @ n2). dep2 n = Suc (dep cur)" using n1(2,3) n2(3) old cur by auto
  moreover have "\<forall>n\<in>?D. dep2 n = dep n" using old 1 by (simp add: turned_def)
  ultimately show ?thesis
    using grown_trans [OF n1(1) n2(1)] 1 2 unfolding turned_def by (intro conjI exI [of _ "n1 @ n2"]) auto
qed

lemma turned_skip:
  assumes "ready g root S cur dep w"
    and "iw_parent w' = iw_parent w" "iw_queue w' = iw_queue w" "iw_state w' = iw_state w" "iw_reached w' = iw_reached w"
  shows "turned g root S cur dep w {} dep w'"
  using assms by (auto simp: turned_def ready_def walk_inv_def state_inv_def grown_def)

lemma turned_seen:
  assumes "ready g root S cur dep w" and "X \<subseteq> dom (map_of (iw_parent w))"
  shows "turned g root S cur dep w X dep w"
  using assms unfolding turned_def ready_def by (intro conjI exI [of _ "[]"]) (auto simp: grown_def)

lemma turned_node:
  assumes r: "ready g root S cur dep w" and nx: "nx \<notin> dom (map_of (iw_parent w))" and e: "(cur, nx) \<in> carries g root"
    and gd: "map_of g (fst nx) = Some gd" "ds \<in> set (gc_states gd)" "gs_name ds = snd nx"
  shows "turned g root S cur dep w {nx} (dep(nx := Suc (dep cur))) (reach_node cur gd ds nx w)"
proof -
  have "walk_inv g root S (dep(nx := Suc (dep cur))) (reach_node cur gd ds nx w)"
    using r by (intro walk_inv_add [OF _ _ nx e gd]) (auto simp: ready_def)
  moreover have "cur \<noteq> nx" using r nx by (auto simp: ready_def)
  moreover have "grown cur w [nx] (reach_node cur gd ds nx w)"
    using nx by (simp add: grown_def reach_node_def Let_def)
  ultimately show ?thesis unfolding turned_def using nx
    by (intro conjI exI [of _ "[nx]"]) (auto simp: reach_node_def Let_def)
qed

lemma reach_states_turned:
  assumes ga: "map_of g (fst cur) = Some ga" "st \<in> set (gc_states ga)" "gs_name st = snd cur"
    and d: "d \<in> set (carried_to root ga)" "d \<noteq> root" "map_of g d = Some gd" "\<not> gc_unresolved gd"
  shows "ready g root S cur dep w \<Longrightarrow> iw_state w cur = Some st \<Longrightarrow> set dss \<subseteq> set (gc_states gd) \<Longrightarrow>
    \<exists>dep'. turned g root S cur dep w
      ((\<lambda>ds. (d, gs_name ds)) ` {ds \<in> set dss. match_edge_label (gs_emits st) (gs_triggered_by ds) \<noteq> []})
      dep' (reach_states cur d gd dss w)"
proof (induction dss arbitrary: dep w)
  case Nil
  then show ?case using turned_skip by fastforce
next
  case (Cons ds dss)
  let ?nx = "(d, gs_name ds)"
  let ?w = "if match_edge_label (emits_of w cur) (gs_triggered_by ds) = [] then w
        else if map_of (iw_parent w) ?nx \<noteq> None then w else reach_node cur gd ds ?nx w"
  let ?X = "if match_edge_label (gs_emits st) (gs_triggered_by ds) = [] then {} else {?nx}"
  have em: "emits_of w cur = gs_emits st" using Cons.prems(2) by (simp add: emits_of_def)
  have "\<exists>dep1. turned g root S cur dep w ?X dep1 ?w"
  proof (cases "match_edge_label (gs_emits st) (gs_triggered_by ds) = []")
    case True
    then show ?thesis using turned_seen [OF Cons.prems(1), of "{}"] em by auto
  next
    case False
    then have e: "(cur, ?nx) \<in> carries g root"
      using ga d Cons.prems(3) by (cases cur) (auto simp: carries_def)
    show ?thesis
    proof (cases "map_of (iw_parent w) ?nx = None")
      case True
      then have "?nx \<notin> dom (map_of (iw_parent w))" by auto
      from turned_node [OF Cons.prems(1) this e, of gd ds] d(3) Cons.prems(3) True False em
      show ?thesis by auto
    next
      case False
      then have "{?nx} \<subseteq> dom (map_of (iw_parent w))" by auto
      from turned_seen [OF Cons.prems(1) this] False \<open>match_edge_label _ _ \<noteq> []\<close> em show ?thesis by auto
    qed
  qed
  then obtain dep1 where t: "turned g root S cur dep w ?X dep1 ?w" by blast
  have "\<exists>dep2. turned g root S cur dep1 ?w
      ((\<lambda>ds. (d, gs_name ds)) ` {ds \<in> set dss. match_edge_label (gs_emits st) (gs_triggered_by ds) \<noteq> []})
      dep2 (reach_states cur d gd dss ?w)"
  proof (rule Cons.IH)
    show "ready g root S cur dep1 ?w" by (rule turned_ready [OF Cons.prems(1) t])
    show "iw_state ?w cur = Some st" using t Cons.prems(2) by (simp only: turned_def)
    show "set dss \<subseteq> set (gc_states gd)" using Cons.prems(3) by simp
  qed
  then obtain dep2 where t2: "turned g root S cur dep1 ?w
      ((\<lambda>ds. (d, gs_name ds)) ` {ds \<in> set dss. match_edge_label (gs_emits st) (gs_triggered_by ds) \<noteq> []})
      dep2 (reach_states cur d gd dss ?w)" by blast
  have "(\<lambda>ds. (d, gs_name ds)) ` {x \<in> set (ds # dss). match_edge_label (gs_emits st) (gs_triggered_by x) \<noteq> []} =
      ?X \<union> (\<lambda>ds. (d, gs_name ds)) ` {ds \<in> set dss. match_edge_label (gs_emits st) (gs_triggered_by ds) \<noteq> []}"
    by auto
  with turned_trans [OF Cons.prems(1) t t2] show ?case by (simp only: reach_states.simps) blast
qed

definition link_nodes :: "failure_graph \<Rightarrow> string \<Rightarrow> graph_state \<Rightarrow> graph_link \<Rightarrow> inode set" where
  "link_nodes g root st l =
     (if gl_group l \<and> root \<notin> set (gl_roots l) then {}
      else (case map_of g (gl_to l) of
              None \<Rightarrow> {}
            | Some gd \<Rightarrow>
                if gc_unresolved gd \<or> gl_to l = root then {}
                else (\<lambda>ds. (gl_to l, gs_name ds)) `
                  {ds \<in> set (gc_states gd). match_edge_label (gs_emits st) (gs_triggered_by ds) \<noteq> []}))"

lemma reach_links_turned:
  assumes ga: "map_of g (fst cur) = Some ga" "st \<in> set (gc_states ga)" "gs_name st = snd cur"
  shows "ready g root S cur dep w \<Longrightarrow> iw_state w cur = Some st \<Longrightarrow> set ls \<subseteq> set (gc_dependents ga) \<Longrightarrow>
    \<exists>dep'. turned g root S cur dep w (\<Union>l\<in>set ls. link_nodes g root st l) dep' (reach_links g root cur ls w)"
proof (induction ls arbitrary: dep w)
  case Nil
  then show ?case using turned_skip by fastforce
next
  case (Cons l ls)
  let ?w = "if gl_group l \<and> root \<notin> set (gl_roots l)
        then w\<lparr>iw_blocked := List.insert \<lparr>bk_dependent = gl_to l, bk_member = fst cur\<rparr> (iw_blocked w)\<rparr>
        else (case map_of g (gl_to l) of
                None \<Rightarrow> w
              | Some gd \<Rightarrow>
                  if gc_unresolved gd \<or> gl_to l = root then w
                  else reach_states cur (gl_to l) gd (gc_states gd) w)"
  have "\<exists>dep1. turned g root S cur dep w (link_nodes g root st l) dep1 ?w"
  proof (cases "link_nodes g root st l = {} \<and> iw_parent ?w = iw_parent w \<and> iw_queue ?w = iw_queue w \<and>
      iw_state ?w = iw_state w \<and> iw_reached ?w = iw_reached w")
    case True
    with turned_skip [OF Cons.prems(1), of ?w] show ?thesis by auto
  next
    case False
    then obtain gd where gd: "map_of g (gl_to l) = Some gd" "\<not> gc_unresolved gd" "gl_to l \<noteq> root"
      "\<not> (gl_group l \<and> root \<notin> set (gl_roots l))"
      by (auto simp: link_nodes_def split: if_splits option.splits)
    then have "gl_to l \<in> set (carried_to root ga)" using Cons.prems(3) by (auto simp: carried_to_def)
    note t = reach_states_turned [OF ga this gd(3,1,2) Cons.prems(1,2) subset_refl]
    have w: "?w = reach_states cur (gl_to l) gd (gc_states gd) w" using gd by auto
    have "link_nodes g root st l = (\<lambda>ds. (gl_to l, gs_name ds)) `
        {ds \<in> set (gc_states gd). match_edge_label (gs_emits st) (gs_triggered_by ds) \<noteq> []}"
      using gd by (auto simp: link_nodes_def)
    with t show ?thesis unfolding w by (simp only:)
  qed
  then obtain dep1 where t: "turned g root S cur dep w (link_nodes g root st l) dep1 ?w" by blast
  have "\<exists>dep2. turned g root S cur dep1 ?w (\<Union>l\<in>set ls. link_nodes g root st l) dep2 (reach_links g root cur ls ?w)"
  proof (rule Cons.IH)
    show "ready g root S cur dep1 ?w" by (rule turned_ready [OF Cons.prems(1) t])
    show "iw_state ?w cur = Some st" using t Cons.prems(2) by (simp only: turned_def)
    show "set ls \<subseteq> set (gc_dependents ga)" using Cons.prems(3) by simp
  qed
  then obtain dep2 where t2: "turned g root S cur dep1 ?w (\<Union>l\<in>set ls. link_nodes g root st l) dep2 (reach_links g root cur ls ?w)"
    by blast
  have "(\<Union>l\<in>set (l # ls). link_nodes g root st l) = link_nodes g root st l \<union> (\<Union>l\<in>set ls. link_nodes g root st l)"
    by simp
  with turned_trans [OF Cons.prems(1) t t2] show ?case by (simp only: reach_links.simps) blast
qed

lemma link_nodes_carries:
  assumes ga: "named_once g" "map_of g (fst cur) = Some ga" "st \<in> set (gc_states ga)" "gs_name st = snd cur"
  shows "(\<Union>l\<in>set (gc_dependents ga). link_nodes g root st l) = carries g root `` {cur}"
proof -
  have st: "st' = st" if "st' \<in> set (gc_states ga)" "gs_name st' = snd cur" for st'
    using that ga by (auto simp: named_once_def distinct_map inj_on_def)
  have out: "nx \<in> link_nodes g root st l \<longleftrightarrow> \<not> (gl_group l \<and> root \<notin> set (gl_roots l)) \<and> gl_to l \<noteq> root \<and>
      (\<exists>gd ds. map_of g (gl_to l) = Some gd \<and> \<not> gc_unresolved gd \<and> ds \<in> set (gc_states gd) \<and>
         match_edge_label (gs_emits st) (gs_triggered_by ds) \<noteq> [] \<and> nx = (gl_to l, gs_name ds))" for nx l
    by (cases "map_of g (gl_to l)") (auto simp: link_nodes_def)
  show ?thesis
  proof (intro equalityI subsetI)
    fix nx assume "nx \<in> (\<Union>l\<in>set (gc_dependents ga). link_nodes g root st l)"
    then obtain l gd ds where l: "l \<in> set (gc_dependents ga)" "\<not> (gl_group l \<and> root \<notin> set (gl_roots l))" "gl_to l \<noteq> root"
      "map_of g (gl_to l) = Some gd" "\<not> gc_unresolved gd" "ds \<in> set (gc_states gd)"
      "match_edge_label (gs_emits st) (gs_triggered_by ds) \<noteq> []" "nx = (gl_to l, gs_name ds)"
      unfolding UN_iff out by blast
    then have "gl_to l \<in> set (carried_to root ga)" by (auto simp: carried_to_def)
    with l ga show "nx \<in> carries g root `` {cur}" by (cases cur) (simp add: carries_def, blast)
  next
    fix nx assume "nx \<in> carries g root `` {cur}"
    then have "(cur, nx) \<in> carries g root" by simp
    then obtain st' gb ds where c: "st' \<in> set (gc_states ga)" "gs_name st' = snd cur" "fst nx \<in> set (carried_to root ga)"
      "fst nx \<noteq> root" "map_of g (fst nx) = Some gb" "\<not> gc_unresolved gb" "ds \<in> set (gc_states gb)" "gs_name ds = snd nx"
      "match_edge_label (gs_emits st') (gs_triggered_by ds) \<noteq> []"
      using ga(2) unfolding carries_def by (cases cur; cases nx) (simp, blast)
    then obtain l where l: "l \<in> set (gc_dependents ga)" "fst nx = gl_to l" "\<not> (gl_group l \<and> root \<notin> set (gl_roots l))"
      by (auto simp: carried_to_def)
    have "nx = (gl_to l, gs_name ds)" using c(8) l(2) by (cases nx) simp
    then have "nx \<in> link_nodes g root st l" unfolding out using c l(2,3) st [OF c(1,2)] by auto
    with l(1) show "nx \<in> (\<Union>l\<in>set (gc_dependents ga). link_nodes g root st l)" by blast
  qed
qed

subsection \<open>The whole search\<close>

definition loop_inv :: "failure_graph \<Rightarrow> string \<Rightarrow> inode set \<Rightarrow> (inode \<Rightarrow> nat) \<Rightarrow> impact_walk \<Rightarrow> bool" where
  "loop_inv g root S dep w \<longleftrightarrow>
     walk_inv g root S dep w \<and> set (iw_queue w) \<subseteq> dom (map_of (iw_parent w)) \<and> sorted (map dep (iw_queue w)) \<and>
     (\<forall>n\<in>dom (map_of (iw_parent w)). \<forall>q\<in>set (iw_queue w). dep n \<le> Suc (dep q)) \<and>
     (\<forall>v\<in>dom (map_of (iw_parent w)) - set (iw_queue w). (\<forall>q\<in>set (iw_queue w). dep v \<le> dep q) \<and>
        (\<forall>b. (v, b) \<in> carries g root \<longrightarrow> b \<in> dom (map_of (iw_parent w)) \<and> dep b \<le> Suc (dep v)))"

lemma loop_inv_step:
  assumes once: "named_once g" and inv: "loop_inv g root S dep w" and q: "iw_queue w = cur # rest"
  shows "\<exists>dep'. loop_inv g root S dep' (reach_links g root cur (links_of g (fst cur)) (w\<lparr>iw_queue := rest\<rparr>))"
proof -
  let ?w = "w\<lparr>iw_queue := rest\<rparr>" and ?E = "carries g root" and ?D = "dom (map_of (iw_parent w))"
  let ?w' = "reach_links g root cur (links_of g (fst cur)) ?w"
  have wi: "walk_inv g root S dep w" and cur: "cur \<in> ?D" and B: "\<forall>n\<in>?D. \<forall>p\<in>set (cur # rest). dep n \<le> Suc (dep p)"
    and sort: "sorted (map dep (cur # rest))" and qD: "set (cur # rest) \<subseteq> ?D"
    and C: "\<forall>v\<in>?D - set (cur # rest). (\<forall>p\<in>set (cur # rest). dep v \<le> dep p) \<and> (\<forall>b. (v, b) \<in> ?E \<longrightarrow> b \<in> ?D \<and> dep b \<le> Suc (dep v))"
    using inv unfolding loop_inv_def q by auto
  obtain ga st where ga: "map_of g (fst cur) = Some ga" "st \<in> set (gc_states ga)" "gs_name st = snd cur" "iw_state w cur = Some st"
    using wi cur unfolding walk_inv_def state_inv_def by blast
  have "ready g root S cur dep ?w"
    using wi cur B by (auto simp: ready_def walk_inv_def state_inv_def)
  moreover have links: "links_of g (fst cur) = gc_dependents ga" by (simp add: links_of_def ga)
  ultimately obtain dep' where t: "turned g root S cur dep ?w (?E `` {cur}) dep' ?w'"
    using reach_links_turned [OF ga(1-3), of root S dep ?w "gc_dependents ga"] ga(4)
    unfolding link_nodes_carries [OF once ga(1-3)] links by auto
  then obtain new where new: "grown cur ?w new ?w'" "set new = ?E `` {cur} - ?D" "\<forall>n\<in>set new. dep' n = Suc (dep cur)"
    and old: "\<forall>n\<in>?D. dep' n = dep n" and wi': "walk_inv g root S dep' ?w'"
    by (auto simp: turned_def)
  have q': "iw_queue ?w' = rest @ new" using new(1) by (simp add: grown_def)
  have D': "dom (map_of (iw_parent ?w')) = ?D \<union> set new" using dom_grown [OF new(1)] by simp
  have rest: "dep cur \<le> dep p" "p \<in> ?D" if "p \<in> set rest" for p using sort qD that by auto
  have D: "dep n \<le> Suc (dep cur)" if "n \<in> ?D" for n using B that by simp
  have low: "dep cur \<le> dep' p" if "p \<in> set (rest @ new)" for p
  proof (cases "p \<in> set rest")
    case True
    with rest [OF True] old show ?thesis by simp
  next
    case False
    with that new(3) show ?thesis by simp
  qed
  have "loop_inv g root S dep' ?w'" unfolding loop_inv_def q' D'
  proof (intro conjI)
    show "walk_inv g root S dep' ?w'" by (rule wi')
    show "set (rest @ new) \<subseteq> ?D \<union> set new" using qD by auto
    have r: "map dep' rest = map dep rest" using old rest by simp
    have n: "map dep' new = replicate (length new) (Suc (dep cur))" using new(3) by (induction new) simp_all
    show "sorted (map dep' (rest @ new))"
      unfolding map_append r n using sort rest D by (auto simp: sorted_append)
  next
    show "\<forall>n\<in>?D \<union> set new. \<forall>p\<in>set (rest @ new). dep' n \<le> Suc (dep' p)"
    proof (intro ballI)
      fix n p assume "n \<in> ?D \<union> set new" and "p \<in> set (rest @ new)"
      then have "dep cur \<le> dep' p" using low by blast
      moreover have "dep' n \<le> Suc (dep cur)"
      proof (cases "n \<in> ?D")
        case True
        with D [OF True] old show ?thesis by simp
      next
        case False
        with \<open>n \<in> ?D \<union> set new\<close> new(3) show ?thesis by simp
      qed
      ultimately show "dep' n \<le> Suc (dep' p)" by simp
    qed
  next
    show "\<forall>v\<in>?D \<union> set new - set (rest @ new). (\<forall>p\<in>set (rest @ new). dep' v \<le> dep' p) \<and>
        (\<forall>b. (v, b) \<in> ?E \<longrightarrow> b \<in> ?D \<union> set new \<and> dep' b \<le> Suc (dep' v))"
    proof (intro ballI)
      fix v assume v: "v \<in> ?D \<union> set new - set (rest @ new)"
      then have vD: "v \<in> ?D" "dep' v = dep v" using old by auto
      show "(\<forall>p\<in>set (rest @ new). dep' v \<le> dep' p) \<and> (\<forall>b. (v, b) \<in> ?E \<longrightarrow> b \<in> ?D \<union> set new \<and> dep' b \<le> Suc (dep' v))"
      proof (cases "v = cur")
        case True
        have "b \<in> ?D \<union> set new \<and> dep' b \<le> Suc (dep cur)" if "(cur, b) \<in> ?E" for b
        proof (cases "b \<in> ?D")
          case True
          with D old show ?thesis by simp
        next
          case False
          with that new(2) have "b \<in> set new" by auto
          with new(3) show ?thesis by simp
        qed
        then show ?thesis using True vD(2) low by simp
      next
        case False
        with v vD have v': "v \<in> ?D - set (cur # rest)" by auto
        then have "\<forall>p\<in>set (cur # rest). dep v \<le> dep p" "\<forall>b. (v, b) \<in> ?E \<longrightarrow> b \<in> ?D \<and> dep b \<le> Suc (dep v)"
          using C by blast+
        then show ?thesis using vD(2) old low by fastforce
      qed
    qed
  qed
  then show ?thesis by blast
qed

lemma impact_loop_inv:
  "named_once g \<Longrightarrow> loop_inv g root S dep w \<Longrightarrow> \<exists>dep'. loop_inv g root S dep' (impact_loop g root w) \<and> iw_queue (impact_loop g root w) = []"
proof (induction g root w arbitrary: dep rule: impact_loop.induct)
  case (1 g root w)
  show ?case
  proof (cases "iw_queue w")
    case Nil
    with 1(3) show ?thesis by (subst (1 2) impact_loop.simps) auto
  next
    case (Cons cur rest)
    from loop_inv_step [OF 1(2,3) Cons] obtain dep' where
      "loop_inv g root S dep' (reach_links g root cur (links_of g (fst cur)) (w\<lparr>iw_queue := rest\<rparr>))" by blast
    from 1(1) [OF Cons 1(2) this] Cons show ?thesis by (subst (1 2) impact_loop.simps) simp
  qed
qed

lemma start_walk_inv:
  "start_walk cn gc ss w = Inr w' \<Longrightarrow> map_of g cn = Some gc \<Longrightarrow>
   (\<And>n p. map_of (iw_parent w) n = Some p \<Longrightarrow> p = n \<and> fst n = cn) \<Longrightarrow> state_inv g w \<Longrightarrow>
   set (iw_queue w) = dom (map_of (iw_parent w)) \<Longrightarrow>
   (\<forall>n p. map_of (iw_parent w') n = Some p \<longrightarrow> p = n \<and> fst n = cn) \<and> state_inv g w' \<and>
   set (iw_queue w') = dom (map_of (iw_parent w')) \<and>
   dom (map_of (iw_parent w')) = dom (map_of (iw_parent w)) \<union> (\<lambda>s. (cn, s)) ` set ss \<and>
   iw_reached w' = iw_reached w \<and> iw_blocked w' = iw_blocked w"
proof (induction ss arbitrary: w)
  case Nil
  then show ?case by simp
next
  case (Cons s ss)
  from Cons.prems(1) obtain st where st: "state_by_name gc s = Some st" by (auto split: option.splits)
  then have st': "st \<in> set (gc_states gc)" "gs_name st = s" by (auto simp: state_by_name_def dest: find_last_SomeD)
  let ?w = "w\<lparr>iw_parent := AList.update (cn, s) (cn, s) (iw_parent w),
               iw_state := (iw_state w)((cn, s) \<mapsto> st), iw_queue := iw_queue w @ [(cn, s)]\<rparr>"
  have par: "map_of (iw_parent ?w) = (map_of (iw_parent w))((cn, s) \<mapsto> (cn, s))" by (simp add: update_conv')
  have run: "start_walk cn gc ss ?w = Inr w'" using Cons.prems(1) st by simp
  have self: "p = n \<and> fst n = cn" if "map_of (iw_parent ?w) n = Some p" for n p
    using that Cons.prems(3) unfolding par by (cases "n = (cn, s)") auto
  have "state_inv g ?w"
    unfolding state_inv_def par
  proof
    fix n assume n: "n \<in> dom ((map_of (iw_parent w))((cn, s) \<mapsto> (cn, s)))"
    show "\<exists>gc st. map_of g (fst n) = Some gc \<and> st \<in> set (gc_states gc) \<and> gs_name st = snd n \<and> iw_state ?w n = Some st"
    proof (cases "n = (cn, s)")
      case True
      then show ?thesis using Cons.prems(2) st' by simp
    next
      case False
      with n have "n \<in> dom (map_of (iw_parent w))" by simp
      with Cons.prems(4) False show ?thesis by (simp add: state_inv_def)
    qed
  qed
  moreover have "set (iw_queue ?w) = dom (map_of (iw_parent ?w))" using Cons.prems(5) unfolding par by auto
  ultimately have "(\<forall>n p. map_of (iw_parent w') n = Some p \<longrightarrow> p = n \<and> fst n = cn) \<and> state_inv g w' \<and>
     set (iw_queue w') = dom (map_of (iw_parent w')) \<and>
     dom (map_of (iw_parent w')) = dom (map_of (iw_parent ?w)) \<union> (\<lambda>s. (cn, s)) ` set ss \<and>
     iw_reached w' = iw_reached ?w \<and> iw_blocked w' = iw_blocked ?w"
    by (intro Cons.IH [OF run Cons.prems(2) self])
  then show ?case unfolding par by auto
qed

lemma start_loop_inv:
  assumes "start_walk cn gc ss empty_walk = Inr w" and "map_of g cn = Some gc"
  shows "loop_inv g cn ((\<lambda>s. (cn, s)) ` set ss) (\<lambda>_. 0) w"
proof -
  have st: "(\<forall>n p. map_of (iw_parent w) n = Some p \<longrightarrow> p = n \<and> fst n = cn) \<and> state_inv g w \<and>
     set (iw_queue w) = dom (map_of (iw_parent w)) \<and>
     dom (map_of (iw_parent w)) = (\<lambda>s. (cn, s)) ` set ss \<and> iw_reached w = []"
    using start_walk_inv [OF assms] by (simp add: empty_walk_def state_inv_def)
  then have "tree_inv (carries g cn) ((\<lambda>s. (cn, s)) ` set ss) (\<lambda>_. 0) (iw_parent w)"
    unfolding tree_inv_def by (metis domI order_refl)
  moreover have "sorted (map (\<lambda>_. 0::nat) xs)" for xs :: "inode list" by (induction xs) auto
  moreover have "c = cn \<or> (\<forall>s. (c, s) \<notin> dom (map_of (iw_parent w)))" for c using st by auto
  ultimately show ?thesis using st unfolding loop_inv_def walk_inv_def by (auto simp: wf_dict_def)
qed

text \<open>What a run of the search leaves, in terms of the failure's steps alone.\<close>

lemma impact_search:
  assumes once: "named_once g" and run: "start_walk cn gc ss empty_walk = Inr w0" and gc: "map_of g cn = Some gc"
  defines "S \<equiv> (\<lambda>s. (cn, s)) ` set ss" and "w \<equiv> impact_loop g cn w0"
  obtains dep where
    "dom (map_of (iw_parent w)) = (carries g cn)\<^sup>* `` S" and "walk_inv g cn S dep w"
    and "\<And>ns. chain_of (carries g cn) ns \<Longrightarrow> hd ns \<in> S \<Longrightarrow> Suc (dep (last ns)) \<le> length ns"
proof -
  let ?E = "carries g cn" and ?D = "dom (map_of (iw_parent w))"
  from impact_loop_inv [OF once start_loop_inv [OF run gc]] obtain dep where
    inv: "loop_inv g cn S dep w" "iw_queue w = []"
    unfolding w_def S_def by blast
  have wi: "walk_inv g cn S dep w" using inv by (simp add: loop_inv_def)
  have "\<forall>v\<in>?D. \<forall>b. (v, b) \<in> ?E \<longrightarrow> b \<in> ?D \<and> dep b \<le> Suc (dep v)" using inv by (simp add: loop_inv_def)
  then have closed: "b \<in> ?D \<and> dep b \<le> Suc (dep a)" if "a \<in> ?D" "(a, b) \<in> ?E" for a b
    using that by blast
  have tree: "tree_inv ?E S dep (iw_parent w)" using wi by (simp add: walk_inv_def)
  then have S: "S \<subseteq> ?D" by (simp add: tree_inv_def)
  have zero: "dep n = 0" if "n \<in> S" for n
  proof -
    from that S obtain p where "map_of (iw_parent w) n = Some p" by (auto simp: dom_def)
    from tree_cases [OF tree this] that show ?thesis by simp
  qed
  have "b \<in> ?D" if "(a, b) \<in> ?E\<^sup>*" "a \<in> ?D" for a b
    using that by (induction rule: rtrancl_induct) (use closed in blast)+
  moreover have "n \<in> ?E\<^sup>* `` S" if "n \<in> ?D" for n
    using that
  proof (induction "dep n" arbitrary: n)
    case 0
    from 0(2) obtain p where "map_of (iw_parent w) n = Some p" unfolding dom_def by blast
    from tree_cases [OF tree this] 0(1) have "n \<in> S" by simp
    then show ?case by blast
  next
    case (Suc d)
    from Suc(3) obtain p where p: "map_of (iw_parent w) n = Some p" unfolding dom_def by blast
    from tree_cases [OF tree p] Suc(2) have t: "p \<in> ?D" "(p, n) \<in> ?E" "dep n = Suc (dep p)"
      by (metis nat.distinct(1))+
    with Suc(1) [of p] Suc(2) have "p \<in> ?E\<^sup>* `` S" by simp
    with t(2) show ?case by (meson Image_iff rtrancl.rtrancl_into_rtrancl)
  qed
  ultimately have "?D = ?E\<^sup>* `` S" using S by blast
  moreover have "Suc (dep (last ns)) \<le> length ns" if "chain_of ?E ns" "hd ns \<in> S" for ns
    using chain_dep_le [of ?D ?E dep ns, OF closed] that S zero by auto
  ultimately show thesis using that wi by blast
qed

subsection \<open>What is reported\<close>

lemma impact_of_Inr:
  assumes "impact_of g m cn states0 = Inr im"
  obtains gc w0 where "map_of g cn = Some gc" "start_walk cn gc (im_states im) empty_walk = Inr w0"
    "im_affected im = sort_by affected_less (map (\<lambda>(n, a). finish_affected m cn
       (unguarded_reach m cn (iw_parent (impact_loop g cn w0))) (set (keys (iw_reached (impact_loop g cn w0)))) a)
       (iw_reached (impact_loop g cn w0)))"
    "im_blocked im = sort_by blocked_less
       (filter (\<lambda>b. bk_dependent b \<notin> set (keys (iw_reached (impact_loop g cn w0)))) (iw_blocked (impact_loop g cn w0)))"
proof -
  obtain gc where gc: "map_of g cn = Some gc" using assms by (auto simp: impact_of_def split: option.splits)
  let ?states = "if states0 = [] then map gs_name (gc_states gc) else states0"
  have u: "\<not> gc_unresolved gc" using assms gc by (auto simp: impact_of_def split: if_splits)
  obtain w0 where w0: "start_walk cn gc ?states empty_walk = Inr w0"
    using assms gc u by (cases "start_walk cn gc ?states empty_walk") (auto simp: impact_of_def Let_def)
  from assms gc u w0 have "im_states im = ?states"
    and "im_affected im = sort_by affected_less (map (\<lambda>(n, a). finish_affected m cn
       (unguarded_reach m cn (iw_parent (impact_loop g cn w0))) (set (keys (iw_reached (impact_loop g cn w0)))) a)
       (iw_reached (impact_loop g cn w0)))"
    and "im_blocked im = sort_by blocked_less
       (filter (\<lambda>b. bk_dependent b \<notin> set (keys (iw_reached (impact_loop g cn w0)))) (iw_blocked (impact_loop g cn w0)))"
    by (auto simp: impact_of_def Let_def)
  with gc w0 show thesis by (intro that [of gc w0]) simp_all
qed

lemma reported_iff:
  assumes once: "named_once g" and run: "impact_of g m cn states0 = Inr im"
  obtains dep seen where
    "seen = (carries g cn)\<^sup>* `` ((\<lambda>s. (cn, s)) ` set (im_states im))"
    and "\<And>c. (\<exists>a\<in>set (im_affected im). af_component a = c) \<longleftrightarrow> c \<noteq> cn \<and> (\<exists>s. (c, s) \<in> seen)"
    and "\<And>a. a \<in> set (im_affected im) \<Longrightarrow> \<exists>b. recorded (carries g cn) ((\<lambda>s. (cn, s)) ` set (im_states im)) dep seen (af_component a) b \<and>
       af_path a = af_path b \<and> set (af_states a) = set (af_states b)"
    and "\<And>ns. chain_of (carries g cn) ns \<Longrightarrow> hd ns \<in> (\<lambda>s. (cn, s)) ` set (im_states im) \<Longrightarrow> Suc (dep (last ns)) \<le> length ns"
proof -
  obtain gc w0 where gc: "map_of g cn = Some gc"
    and w0: "start_walk cn gc (im_states im) empty_walk = Inr w0"
    and aff: "im_affected im = sort_by affected_less (map (\<lambda>(n, a). finish_affected m cn
       (unguarded_reach m cn (iw_parent (impact_loop g cn w0))) (set (keys (iw_reached (impact_loop g cn w0)))) a)
       (iw_reached (impact_loop g cn w0)))"
    by (rule impact_of_Inr [OF run])
  let ?w = "impact_loop g cn w0" and ?S = "(\<lambda>s. (cn, s)) ` set (im_states im)"
  obtain dep where seen: "dom (map_of (iw_parent ?w)) = (carries g cn)\<^sup>* `` ?S" and wi: "walk_inv g cn ?S dep ?w"
    and near: "\<And>ns. chain_of (carries g cn) ns \<Longrightarrow> hd ns \<in> ?S \<Longrightarrow> Suc (dep (last ns)) \<le> length ns"
    using impact_search [OF once w0 gc] by metis
  let ?seen = "dom (map_of (iw_parent ?w))"
  let ?fin = "finish_affected m cn (unguarded_reach m cn (iw_parent ?w)) (set (keys (iw_reached ?w)))"
  have wf: "wf_dict (iw_reached ?w)" and none: "\<And>c. map_of (iw_reached ?w) c = None \<longleftrightarrow> c = cn \<or> (\<forall>s. (c, s) \<notin> ?seen)"
    and rec: "\<And>c a. map_of (iw_reached ?w) c = Some a \<Longrightarrow> recorded (carries g cn) ?S dep ?seen c a"
    using wi by (simp_all add: walk_inv_def)
  have set: "a \<in> set (im_affected im) \<longleftrightarrow> (\<exists>c b. map_of (iw_reached ?w) c = Some b \<and> a = ?fin b)" for a
  proof -
    have "a \<in> set (im_affected im) \<longleftrightarrow> (\<exists>c b. (c, b) \<in> set (iw_reached ?w) \<and> a = ?fin b)" by (auto simp: aff)
    then show ?thesis unfolding map_of_wf_dict [OF wf] .
  qed
  have fin: "af_component (?fin b) = af_component b" "af_path (?fin b) = af_path b" "set (af_states (?fin b)) = set (af_states b)" for b
    by (simp_all add: finish_affected_def)
  show thesis
  proof (rule that [of ?seen dep])
    show "?seen = (carries g cn)\<^sup>* `` ?S" by (rule seen)
    show "(\<exists>a\<in>set (im_affected im). af_component a = c) \<longleftrightarrow> c \<noteq> cn \<and> (\<exists>s. (c, s) \<in> ?seen)" for c
    proof -
      have "(\<exists>a\<in>set (im_affected im). af_component a = c) \<longleftrightarrow> (\<exists>b. map_of (iw_reached ?w) c = Some b)"
        unfolding Bex_def set using fin(1) rec unfolding recorded_def by metis
      then show ?thesis using none [of c] by auto
    qed
    show "\<exists>b. recorded (carries g cn) ?S dep ?seen (af_component a) b \<and> af_path a = af_path b \<and> set (af_states a) = set (af_states b)"
      if a: "a \<in> set (im_affected im)" for a
    proof -
      from a obtain c b where b: "map_of (iw_reached ?w) c = Some b" "a = ?fin b" unfolding set by blast
      from rec [OF b(1)] have "recorded (carries g cn) ?S dep ?seen (af_component a) b"
        by (simp add: b(2) fin recorded_def)
      then show ?thesis using b(2) fin by metis
    qed
    show "Suc (dep (last ns)) \<le> length ns" if "chain_of (carries g cn) ns" "hd ns \<in> ?S" for ns
      using near that by blast
  qed
qed

text \<open>A component is marked as a symptom when nothing depends on it.\<close>

definition symptom_inv :: "failure_graph \<Rightarrow> impact_walk \<Rightarrow> bool" where
  "symptom_inv g w \<longleftrightarrow> (\<forall>c a. map_of (iw_reached w) c = Some a \<longrightarrow> af_component a = c \<and> af_symptom a = (links_of g c = []))"

lemma reach_states_symptom:
  "symptom_inv g w \<Longrightarrow> map_of g d = Some gd \<Longrightarrow> symptom_inv g (reach_states cur d gd dss w)"
proof (induction dss arbitrary: w)
  case (Cons ds dss)
  have "symptom_inv g (reach_node cur gd ds (d, x) w)" for x
    using Cons.prems
    by (auto simp: symptom_inv_def reach_node_def Let_def update_conv' links_of_def split: option.split)
  with Cons show ?case by simp
qed simp

lemma reach_links_symptom: "symptom_inv g w \<Longrightarrow> symptom_inv g (reach_links g root cur ls w)"
proof (induction ls arbitrary: w)
  case (Cons l ls)
  have "symptom_inv g (w\<lparr>iw_blocked := b\<rparr>)" for b using Cons.prems by (simp add: symptom_inv_def)
  then show ?case using Cons by (auto intro!: Cons.IH reach_states_symptom split: option.split)
qed simp

lemma impact_loop_symptom: "symptom_inv g w \<Longrightarrow> symptom_inv g (impact_loop g root w)"
proof (induction g root w rule: impact_loop.induct)
  case (1 g root w)
  have q: "symptom_inv g (w\<lparr>iw_queue := q\<rparr>)" for q using 1(2) by (simp add: symptom_inv_def)
  show ?case
  proof (cases "iw_queue w")
    case Nil
    with 1(2) show ?thesis by (subst impact_loop.simps) simp
  next
    case (Cons cur rest)
    from 1(1) [OF Cons reach_links_symptom [OF q]] Cons show ?thesis by (subst impact_loop.simps) simp
  qed
qed

lemma reported_symptom:
  assumes once: "named_once g" and run: "impact_of g m cn states0 = Inr im" and "a \<in> set (im_affected im)"
  shows "af_symptom a \<longleftrightarrow> links_of g (af_component a) = []"
proof -
  obtain gc w0 where gc: "map_of g cn = Some gc"
    and w0: "start_walk cn gc (im_states im) empty_walk = Inr w0"
    and aff: "im_affected im = sort_by affected_less (map (\<lambda>(n, a). finish_affected m cn
       (unguarded_reach m cn (iw_parent (impact_loop g cn w0))) (set (keys (iw_reached (impact_loop g cn w0)))) a)
       (iw_reached (impact_loop g cn w0)))"
    by (rule impact_of_Inr [OF run])
  have "symptom_inv g w0"
    using start_walk_inv [OF w0 gc] by (simp add: symptom_inv_def empty_walk_def state_inv_def)
  then have inv: "symptom_inv g (impact_loop g cn w0)" by (rule impact_loop_symptom)
  have wf: "wf_dict (iw_reached (impact_loop g cn w0))"
    using impact_search [OF once w0 gc] unfolding walk_inv_def by blast
  from assms(3) obtain c b where "(c, b) \<in> set (iw_reached (impact_loop g cn w0))"
    "af_component a = af_component b" "af_symptom a = af_symptom b"
    unfolding aff by (auto simp: finish_affected_def)
  then show ?thesis using inv unfolding symptom_inv_def map_of_wf_dict [OF wf] by auto
qed

text \<open>
  C8: The components reported as affected are exactly those the failure reaches over links that carry
  it, and the states reported of each are exactly those it can be driven into.
\<close>

theorem impact_affected_iff:
  assumes "named_once g" and "impact_of g m cn states0 = Inr im"
  shows "(\<forall>c. (\<exists>a\<in>set (im_affected im). af_component a = c) \<longleftrightarrow>
      c \<noteq> cn \<and> (\<exists>s0\<in>set (im_states im). \<exists>s. ((cn, s0), (c, s)) \<in> (carries g cn)\<^sup>*)) \<and>
    (\<forall>a\<in>set (im_affected im). set (af_states a) =
      {s. \<exists>s0\<in>set (im_states im). ((cn, s0), (af_component a, s)) \<in> (carries g cn)\<^sup>*})"
proof -
  obtain dep seen where r: "seen = (carries g cn)\<^sup>* `` ((\<lambda>s. (cn, s)) ` set (im_states im))"
    "\<And>c. (\<exists>a\<in>set (im_affected im). af_component a = c) \<longleftrightarrow> c \<noteq> cn \<and> (\<exists>s. (c, s) \<in> seen)"
    "\<And>a. a \<in> set (im_affected im) \<Longrightarrow> \<exists>b. recorded (carries g cn) ((\<lambda>s. (cn, s)) ` set (im_states im)) dep seen (af_component a) b \<and>
       af_path a = af_path b \<and> set (af_states a) = set (af_states b)"
    "\<And>ns. chain_of (carries g cn) ns \<Longrightarrow> hd ns \<in> (\<lambda>s. (cn, s)) ` set (im_states im) \<Longrightarrow> Suc (dep (last ns)) \<le> length ns"
    by (rule reported_iff [OF assms]) (rule that)
  have "(\<exists>a\<in>set (im_affected im). af_component a = c) \<longleftrightarrow>
      c \<noteq> cn \<and> (\<exists>s0\<in>set (im_states im). \<exists>s. ((cn, s0), (c, s)) \<in> (carries g cn)\<^sup>*)" for c
    unfolding r(2) by (auto simp: r(1))
  moreover have "\<forall>a\<in>set (im_affected im). set (af_states a) =
      {s. \<exists>s0\<in>set (im_states im). ((cn, s0), (af_component a, s)) \<in> (carries g cn)\<^sup>*}"
    using r(3) by (fastforce simp: recorded_def r(1))
  ultimately show ?thesis by blast
qed

text \<open>
  The path reported of an affected component is a chain of the failure from the failed component
  to it, and no chain to it is shorter.
\<close>

theorem impact_path_shortest:
  assumes "named_once g" and "impact_of g m cn states0 = Inr im" and "a \<in> set (im_affected im)"
  shows "\<exists>ns. af_path a = Some (map fst ns) \<and> chain_of (carries g cn) ns \<and>
    hd ns \<in> (\<lambda>s. (cn, s)) ` set (im_states im) \<and> fst (last ns) = af_component a \<and>
    (\<forall>ms. chain_of (carries g cn) ms \<and> hd ms \<in> (\<lambda>s. (cn, s)) ` set (im_states im) \<and> fst (last ms) = af_component a \<longrightarrow>
       length ns \<le> length ms)"
proof -
  let ?S = "(\<lambda>s. (cn, s)) ` set (im_states im)" and ?E = "carries g cn"
  obtain dep seen where r: "seen = (carries g cn)\<^sup>* `` ((\<lambda>s. (cn, s)) ` set (im_states im))"
    "\<And>c. (\<exists>a\<in>set (im_affected im). af_component a = c) \<longleftrightarrow> c \<noteq> cn \<and> (\<exists>s. (c, s) \<in> seen)"
    "\<And>a. a \<in> set (im_affected im) \<Longrightarrow> \<exists>b. recorded (carries g cn) ((\<lambda>s. (cn, s)) ` set (im_states im)) dep seen (af_component a) b \<and>
       af_path a = af_path b \<and> set (af_states a) = set (af_states b)"
    "\<And>ns. chain_of (carries g cn) ns \<Longrightarrow> hd ns \<in> (\<lambda>s. (cn, s)) ` set (im_states im) \<Longrightarrow> Suc (dep (last ns)) \<le> length ns"
    by (rule reported_iff [OF assms(1,2)]) (rule that)
  from r(3) [OF assms(3)] obtain ns where ns: "chain_of ?E ns" "hd ns \<in> ?S" "fst (last ns) = af_component a"
      "length ns = Suc (dep (last ns))" "af_path a = Some (map fst ns)"
      "\<And>s. (af_component a, s) \<in> seen \<Longrightarrow> dep (last ns) \<le> dep (af_component a, s)"
    by (auto simp: recorded_def)
  have "length ns \<le> length ms" if ms: "chain_of ?E ms" "hd ms \<in> ?S" "fst (last ms) = af_component a" for ms
  proof -
    have "(hd ms, last ms) \<in> ?E\<^sup>*" using ms(1)
    proof (induction ms rule: rev_induct)
      case (snoc x ms)
      then show ?case by (cases "ms = []") (auto simp: successively_append_iff intro: rtrancl_into_rtrancl)
    qed simp
    then have "last ms \<in> seen" using ms(2) r(1) by blast
    then have "(af_component a, snd (last ms)) \<in> seen" using ms(3) by (metis prod.collapse)
    then have "dep (last ns) \<le> dep (last ms)" using ns(6) ms(3) by (metis prod.collapse)
    with r(4) [OF ms(1,2)] ns(4) show ?thesis by simp
  qed
  with ns show ?thesis by blast
qed

subsection \<open>An example, and a guard that is not one\<close>

text \<open>The web needs the cache, and the database under load; the cache always needs the database.\<close>

definition ex_down_type :: ptype where
  "ex_down_type = (ex_type ''svc'' []
     [\<lparr>sd_name = ''down'', sd_when_raw = [], sd_when = None, sd_description = [], sd_triggered_by = [],
       sd_verdict = NoVerdict\<rparr>])\<lparr>ty_failure_modes := [(''down'', [''lost''])]\<rparr>"

definition ex_down_registry :: registry where
  "ex_down_registry = register new_registry (ex_provider ''p'' [(''svc'', ex_down_type)])"

definition ex_guarded :: model where
  "ex_guarded = ex_model
     [ex_component ''web'' ''svc'' [(ex_dep [''db''])\<lparr>dp_while_raw := ''load > 5''\<rparr>, ex_dep [''cache'']],
      ex_component ''cache'' ''svc'' [ex_dep [''db'']], ex_component ''db'' ''svc'' []]"

definition ex_spread :: "string list \<Rightarrow> graph_component" where
  "ex_spread ons =
     \<lparr>gc_unresolved = False, gc_observes = [],
      gc_states = [\<lparr>gs_name = ''down'', gs_emits = [''lost''], gs_triggered_by = []\<rparr>],
      gc_dependents = map (\<lambda>d. \<lparr>gl_to = d, gl_group = False, gl_roots = []\<rparr>) ons\<rparr>"

definition ex_guarded_graph :: failure_graph where
  "ex_guarded_graph = [(''cache'', ex_spread [''web'']), (''db'', ex_spread [''cache'', ''web'']), (''web'', ex_spread [])]"

lemma ex_guarded_built: "build_failure_graph ex_guarded ex_down_registry = ex_guarded_graph"
  by code_simp

lemma ex_guarded_impact:
  "impact_of ex_guarded_graph (Some ex_guarded) ''db'' [] =
     Inr \<lparr>im_component = ''db'', im_states = [''down''],
          im_affected =
            [\<lparr>af_component = ''cache'', af_states = [''down''], af_path = Some [''db'', ''cache''],
              af_symptom = False, af_conditions = []\<rparr>,
             \<lparr>af_component = ''web'', af_states = [''down''], af_path = Some [''db'', ''web''],
              af_symptom = True, af_conditions = [''web depends on db while load > 5'']\<rparr>],
          im_blocked = []\<rparr>"
  by code_simp

lemma ex_guarded_once: "named_once ex_guarded_graph"
  by (simp add: named_once_def ex_guarded_graph_def ex_spread_def)

lemma ex_guarded_steps:
  "((''db'', ''down''), (''cache'', ''down'')) \<in> carries ex_guarded_graph ''db''"
  "((''cache'', ''down''), (''web'', ''down'')) \<in> carries ex_guarded_graph ''db''"
proof -
  have "carried_to ''db'' (ex_spread ds) = ds" for ds
    by (induction ds) (simp_all add: carried_to_def ex_spread_def)
  moreover have "gc_states (ex_spread ds) = [\<lparr>gs_name = ''down'', gs_emits = [''lost''], gs_triggered_by = []\<rparr>]"
    "\<not> gc_unresolved (ex_spread ds)" for ds
    by (simp_all add: ex_spread_def)
  ultimately show "((''db'', ''down''), (''cache'', ''down'')) \<in> carries ex_guarded_graph ''db''"
    "((''cache'', ''down''), (''web'', ''down'')) \<in> carries ex_guarded_graph ''db''"
    by (simp_all add: carries_def ex_guarded_graph_def match_edge_label_def)
qed

theorem impact_affected_iff_witness: "\<exists>s. ((''db'', ''down''), (''web'', s)) \<in> (carries ex_guarded_graph ''db'')\<^sup>*"
  using impact_affected_iff [OF ex_guarded_once ex_guarded_impact, THEN conjunct1, THEN spec, of "''web''"] by simp

theorem impact_path_shortest_witness:
  "\<exists>ns. [''db'', ''web''] = map fst ns \<and> chain_of (carries ex_guarded_graph ''db'') ns"
proof -
  let ?a = "\<lparr>af_component = ''web'', af_states = [''down''], af_path = Some [''db'', ''web''],
      af_symptom = True, af_conditions = [''web depends on db while load > 5'']\<rparr>"
  obtain ns where "af_path ?a = Some (map fst ns)" "chain_of (carries ex_guarded_graph ''db'') ns"
    using impact_path_shortest [OF ex_guarded_once ex_guarded_impact, of ?a] by fastforce
  then show ?thesis by (intro exI [of _ ns]) simp
qed

text \<open>
  The conditions can claim too much. The web is reported to break only while the guard on its
  dependency on the database holds, although the failure also reaches it through the cache, along
  a chain without any guard: \<open>unguardedReach\<close> follows only the links the search found components by.
\<close>

theorem impact_conditions_overstated:
  "\<exists>im a ns. impact_of (build_failure_graph ex_guarded ex_down_registry) (Some ex_guarded) ''db'' [] = Inr im \<and>
     a \<in> set (im_affected im) \<and> af_component a = ''web'' \<and> af_conditions a = [''web depends on db while load > 5''] \<and>
     chain_of (carries (build_failure_graph ex_guarded ex_down_registry) ''db'') ns \<and>
     hd ns = (''db'', ''down'') \<and> last ns = (''web'', ''down'') \<and>
     successively (\<lambda>p n. guard (Some ex_guarded) (fst p) (fst n) = []) ns"
  unfolding ex_guarded_built
proof (intro exI conjI)
  show "impact_of ex_guarded_graph (Some ex_guarded) ''db'' [] =
     Inr \<lparr>im_component = ''db'', im_states = [''down''],
          im_affected =
            [\<lparr>af_component = ''cache'', af_states = [''down''], af_path = Some [''db'', ''cache''],
              af_symptom = False, af_conditions = []\<rparr>,
             \<lparr>af_component = ''web'', af_states = [''down''], af_path = Some [''db'', ''web''],
              af_symptom = True, af_conditions = [''web depends on db while load > 5'']\<rparr>],
          im_blocked = []\<rparr>"
    by (rule ex_guarded_impact)
  show "\<lparr>af_component = ''web'', af_states = [''down''], af_path = Some [''db'', ''web''],
      af_symptom = True, af_conditions = [''web depends on db while load > 5'']\<rparr> \<in>
    set (im_affected \<lparr>im_component = ''db'', im_states = [''down''],
          im_affected =
            [\<lparr>af_component = ''cache'', af_states = [''down''], af_path = Some [''db'', ''cache''],
              af_symptom = False, af_conditions = []\<rparr>,
             \<lparr>af_component = ''web'', af_states = [''down''], af_path = Some [''db'', ''web''],
              af_symptom = True, af_conditions = [''web depends on db while load > 5'']\<rparr>],
          im_blocked = []\<rparr>)" by simp
  show "successively (\<lambda>p n. (p, n) \<in> carries ex_guarded_graph ''db'') [(''db'', ''down''), (''cache'', ''down''), (''web'', ''down'')]"
    by (simp add: ex_guarded_steps)
  show "successively (\<lambda>p n. guard (Some ex_guarded) (fst p) (fst n) = []) [(''db'', ''down''), (''cache'', ''down''), (''web'', ''down'')]"
    by (simp add: guard_def ex_guarded_def ex_model_def ex_component_def ex_dep_def)
qed simp_all

end
