(* ===== verification/Model_Diff.thy ===== *)
theory Model_Diff
  imports Impact Graph_Count Validate
begin

text \<open>
  \<open>internal/modeldiff/diff.go\<close>: two revisions of a model compared by what they mean. \<open>Compare\<close> lists
  the components added, removed and changed, the components whose failure reaches other symptoms than
  before, and the number of scenarios of both.

  A change line is a value of \<open>change\<close> that holds what the line prints. The maps from components to
  symptoms are functions; where \<open>ImpactOf\<close> fails there is no entry, which reads as no symptoms.

  The lemmas show that a revision compared with itself is no change, when a component counts as changed,
  and that the symptoms compared are those the failure really reaches.
\<close>

subsection \<open>The comparison\<close>

datatype change =
    TypeFromTo string string
  | ResourceFromTo string string
  | DependsAdded string
  | DependsRemoved string
  | HealthyAdded string
  | HealthyDropped string
  | VarAdded string string
  | VarRemoved string string
  | VarFromTo string string string

record component_change =
  dc_name :: string
  dc_changes :: "change list"

record reach_change =
  rc_component :: string
  rc_gained :: "string list"
  rc_lost :: "string list"
  rc_old_all :: "string list"
  rc_new_all :: "string list"

record semantic_diff =
  md_added :: "string list"
  md_removed :: "string list"
  md_changed :: "component_change list"
  md_reach :: "reach_change list"
  md_old_scenarios :: "64 word"
  md_new_scenarios :: "64 word"

definition diff_empty :: "semantic_diff \<Rightarrow> bool" where
  "diff_empty d \<longleftrightarrow>
     length (md_added d) + length (md_removed d) + length (md_changed d) + length (md_reach d) = 0 \<and>
     md_old_scenarios d = md_new_scenarios d"

definition list_minus :: "string list \<Rightarrow> string list \<Rightarrow> string list" where
  "list_minus a b = sort (filter (\<lambda>x. x \<notin> set b) a)"

text \<open>One line per target, with the guard or group it depends through.\<close>

definition edge_line :: "dependency \<Rightarrow> string \<Rightarrow> string" where
  "edge_line dep on =
     on @ (if 0 < dp_need dep
           then '' (need '' @ itoa (dp_need dep) @ '' of ['' @ join '', '' (dp_on dep) @ ''])'' else []) @
     (if dp_while_raw dep \<noteq> [] then '' while '' @ dp_while_raw dep else [])"

definition edge_lines :: "component \<Rightarrow> string list" where
  "edge_lines c = concat (map (\<lambda>dep. map (edge_line dep) (dp_on dep)) (c_depends c))"

definition rules_by_key :: "model \<Rightarrow> registry \<Rightarrow> component \<Rightarrow> string dict" where
  "rules_by_key m r c =
     foldl (\<lambda>out rule. AList.update (squash rule) rule out) []
       (healthy_rules_raw c (case resolve_type c m r of Inl _ \<Rightarrow> None | Inr (t, _) \<Rightarrow> Some t))"

text \<open>\<open>sortedKeys\<close>: the keys of both maps once each.\<close>

definition sorted_keys :: "string dict \<Rightarrow> string dict \<Rightarrow> string list" where
  "sorted_keys a b = sort (remdups (keys a @ keys b))"

definition rule_at :: "string dict \<Rightarrow> string \<Rightarrow> string" where
  "rule_at rs k = (case map_of rs k of None \<Rightarrow> [] | Some rule \<Rightarrow> rule)"

definition var_change :: "string dict \<Rightarrow> string dict \<Rightarrow> string \<Rightarrow> change list" where
  "var_change ov nv k =
     (case (map_of ov k, map_of nv k) of
        (None, n) \<Rightarrow> [VarAdded k (case n of None \<Rightarrow> [] | Some v \<Rightarrow> v)]
      | (Some v, None) \<Rightarrow> [VarRemoved k v]
      | (Some v, Some w) \<Rightarrow> if v \<noteq> w then [VarFromTo k v w] else [])"

definition component_changes :: "model \<Rightarrow> model \<Rightarrow> registry \<Rightarrow> component \<Rightarrow> component \<Rightarrow> change list" where
  "component_changes old new r oc nc =
     (let oe = edge_lines oc; ne = edge_lines nc; ors = rules_by_key old r oc; nrs = rules_by_key new r nc
      in (if c_type oc \<noteq> c_type nc then [TypeFromTo (c_type oc) (c_type nc)] else []) @
         (if c_resource oc \<noteq> c_resource nc then [ResourceFromTo (c_resource oc) (c_resource nc)] else []) @
         map DependsAdded (list_minus ne oe) @
         map DependsRemoved (list_minus oe ne) @
         map (\<lambda>k. HealthyAdded (rule_at nrs k)) (list_minus (keys nrs) (keys ors)) @
         map (\<lambda>k. HealthyDropped (rule_at ors k)) (list_minus (keys ors) (keys nrs)) @
         concat (map (var_change (c_vars oc) (c_vars nc)) (sorted_keys (c_vars oc) (c_vars nc))))"

definition symptoms_reached :: "failure_graph \<Rightarrow> model \<Rightarrow> string \<Rightarrow> string list" where
  "symptoms_reached g m n =
     (if n \<notin> set (m_order m) then []
      else (case impact_of g (Some m) n [] of
              Inl _ \<Rightarrow> []
            | Inr im \<Rightarrow> sort (map af_component (filter af_symptom (im_affected im)))))"

definition compare_models :: "model \<Rightarrow> model \<Rightarrow> registry \<Rightarrow> semantic_diff" where
  "compare_models old new r =
     (let og = build_failure_graph old r; ng = build_failure_graph new r
      in \<lparr>md_added = filter (\<lambda>n. component_of old n = None) (m_order new),
          md_removed = filter (\<lambda>n. component_of new n = None) (m_order old),
          md_changed = concat (map (\<lambda>n.
            case (component_of old n, component_of new n) of
              (Some oc, Some nc) \<Rightarrow>
                (let ch = component_changes old new r oc nc in if ch = [] then [] else [\<lparr>dc_name = n, dc_changes = ch\<rparr>])
            | _ \<Rightarrow> []) (m_order old)),
          md_reach = concat (map (\<lambda>n.
            if component_of old n = None then []
            else let o_all = symptoms_reached og old n; n_all = symptoms_reached ng new n;
                     gained = list_minus n_all o_all; lost = list_minus o_all n_all
                 in if gained = [] \<and> lost = [] then []
                    else [\<lparr>rc_component = n, rc_gained = gained, rc_lost = lost, rc_old_all = o_all, rc_new_all = n_all\<rparr>])
            (m_order new)),
          md_old_scenarios = count_chains og, md_new_scenarios = count_chains ng\<rparr>)"

subsection \<open>What counts as a change\<close>

lemma set_list_minus [simp]: "set (list_minus a b) = set a - set b"
  by (auto simp: list_minus_def)

lemma list_minus_Nil_iff [simp]: "list_minus a b = [] \<longleftrightarrow> set a \<subseteq> set b"
proof -
  have "list_minus a b = [] \<longleftrightarrow> set (list_minus a b) = {}" by (rule set_empty [symmetric])
  then show ?thesis by auto
qed

lemma keys_rules_by_key:
  "set (keys (rules_by_key m r c)) =
     squash ` set (healthy_rules_raw c (case resolve_type c m r of Inl _ \<Rightarrow> None | Inr (t, _) \<Rightarrow> Some t))"
proof -
  have "set (keys (foldl (\<lambda>out rule. AList.update (squash rule) rule out) d rules)) = set (keys d) \<union> squash ` set rules" for d rules
    by (induction rules arbitrary: d) (auto simp: set_keys update_conv')
  then show ?thesis by (simp add: rules_by_key_def)
qed

text \<open>
  A component is reported as changed exactly when its type, its resource, the set of its
  dependencies with their guards and groups, its effective rules up to spacing, or its variables differ.
\<close>

theorem component_changes_Nil_iff:
  "component_changes old new r oc nc = [] \<longleftrightarrow>
     c_type oc = c_type nc \<and> c_resource oc = c_resource nc \<and> set (edge_lines oc) = set (edge_lines nc) \<and>
     squash ` set (healthy_rules_raw oc (case resolve_type oc old r of Inl _ \<Rightarrow> None | Inr (t, _) \<Rightarrow> Some t)) =
       squash ` set (healthy_rules_raw nc (case resolve_type nc new r of Inl _ \<Rightarrow> None | Inr (t, _) \<Rightarrow> Some t)) \<and>
     map_of (c_vars oc) = map_of (c_vars nc)"
proof -
  have "var_change ov nv k = [] \<longleftrightarrow> map_of ov k = map_of nv k \<and> map_of ov k \<noteq> None" for ov nv k
    by (auto simp: var_change_def split: option.split)
  then have vars: "concat (map (var_change ov nv) (sorted_keys ov nv)) = [] \<longleftrightarrow> map_of ov = map_of nv" for ov nv
    by (auto simp: sorted_keys_def set_keys fun_eq_iff)
  show ?thesis
    unfolding component_changes_def Let_def keys_rules_by_key [symmetric] append_is_Nil_conv vars
    by auto
qed

text \<open>A revision compared with itself is no change.\<close>

theorem compare_same:
  assumes "wf_model m"
  shows "diff_empty (compare_models m m r)"
proof -
  have there: "component_of m n \<noteq> None" if "n \<in> set (m_order m)" for n
    using assms that by (auto simp: wf_model_def set_keys)
  have "component_changes m m r c c = []" for c by (simp add: component_changes_Nil_iff)
  then show ?thesis
    using there by (auto simp: diff_empty_def compare_models_def Let_def filter_empty_conv split: option.split)
qed


subsection \<open>The symptoms compared\<close>

text \<open>The user-facing symptoms the failure of a component reaches: components nothing depends on.\<close>

definition symptoms_of :: "failure_graph \<Rightarrow> string \<Rightarrow> string set" where
  "symptoms_of g n =
     {c. c \<noteq> n \<and> links_of g c = [] \<and>
         (\<exists>gc s0 s. map_of g n = Some gc \<and> \<not> gc_unresolved gc \<and> s0 \<in> gs_name ` set (gc_states gc) \<and>
            ((n, s0), (c, s)) \<in> (carries g n)\<^sup>*)}"

lemma start_walk_own_states: "start_walk cn gc (map gs_name (gc_states gc)) w \<noteq> Inl e"
proof -
  have "start_walk cn gc ss w \<noteq> Inl e" if "set ss \<subseteq> gs_name ` set (gc_states gc)" for ss
    using that
  proof (induction ss arbitrary: w)
    case (Cons s ss)
    then have "state_by_name gc s \<noteq> None" by (auto simp: state_by_name_def find_last_None_iff)
    with Cons show ?case by auto
  qed simp
  then show ?thesis by simp
qed

lemma symptoms_reached_iff:
  assumes once: "named_once g" and n: "n \<in> set (m_order m)"
  shows "set (symptoms_reached g m n) = symptoms_of g n"
proof (cases "\<exists>gc. map_of g n = Some gc \<and> \<not> gc_unresolved gc")
  case False
  then have "\<exists>e. impact_of g (Some m) n [] = Inl e" by (auto simp: impact_of_def split: option.split)
  with False show ?thesis by (auto simp: symptoms_reached_def symptoms_of_def)
next
  case True
  then obtain gc where gc: "map_of g n = Some gc" "\<not> gc_unresolved gc" by blast
  obtain w0 where "start_walk n gc (map gs_name (gc_states gc)) empty_walk = Inr w0"
    using start_walk_own_states by (cases "start_walk n gc (map gs_name (gc_states gc)) empty_walk") blast+
  then obtain im where im: "impact_of g (Some m) n [] = Inr im" "im_states im = map gs_name (gc_states gc)"
    using gc by (simp add: impact_of_def Let_def)
  obtain dep seen where r: "seen = (carries g n)\<^sup>* `` ((\<lambda>s. (n, s)) ` set (im_states im))"
    "\<And>c. (\<exists>a\<in>set (im_affected im). af_component a = c) \<longleftrightarrow> c \<noteq> n \<and> (\<exists>s. (c, s) \<in> seen)"
    "\<And>a. a \<in> set (im_affected im) \<Longrightarrow> \<exists>b. recorded (carries g n) ((\<lambda>s. (n, s)) ` set (im_states im)) dep seen (af_component a) b \<and>
       af_path a = af_path b \<and> set (af_states a) = set (af_states b)"
    "\<And>ns. chain_of (carries g n) ns \<Longrightarrow> hd ns \<in> (\<lambda>s. (n, s)) ` set (im_states im) \<Longrightarrow> Suc (dep (last ns)) \<le> length ns"
    by (rule reported_iff [OF once im(1)]) (rule that)
  have "set (symptoms_reached g m n) = {c. c \<noteq> n \<and> (\<exists>s. (c, s) \<in> seen) \<and> links_of g c = []}"
  proof -
    have "set (symptoms_reached g m n) = af_component ` {a \<in> set (im_affected im). links_of g (af_component a) = []}"
      using n im(1) reported_symptom [OF once im(1)] by (auto simp: symptoms_reached_def)
    also have "\<dots> = {c. (\<exists>a\<in>set (im_affected im). af_component a = c) \<and> links_of g c = []}" by auto
    finally show ?thesis unfolding r(2) by blast
  qed
  then show ?thesis using gc by (auto simp: symptoms_of_def r(1) im(2))
qed

text \<open>
  C15: A component of both revisions is reported under changed reach exactly when its failure reaches
  other symptoms than before, over chains that carry it; the gained and lost symptoms are the differences.
\<close>

theorem compare_reach_iff:
  assumes "wf_model old" and "wf_model new"
    and "named_once (build_failure_graph old r)" and "named_once (build_failure_graph new r)"
  shows "((\<exists>rc\<in>set (md_reach (compare_models old new r)). rc_component rc = n) \<longleftrightarrow>
      n \<in> set (m_order old) \<inter> set (m_order new) \<and>
      symptoms_of (build_failure_graph old r) n \<noteq> symptoms_of (build_failure_graph new r) n) \<and>
    (\<forall>rc\<in>set (md_reach (compare_models old new r)).
      set (rc_gained rc) = symptoms_of (build_failure_graph new r) (rc_component rc) -
        symptoms_of (build_failure_graph old r) (rc_component rc) \<and>
      set (rc_lost rc) = symptoms_of (build_failure_graph old r) (rc_component rc) -
        symptoms_of (build_failure_graph new r) (rc_component rc))"
proof -
  let ?o = "symptoms_reached (build_failure_graph old r) old" and ?n = "symptoms_reached (build_failure_graph new r) new"
  have here: "component_of old n \<noteq> None \<longleftrightarrow> n \<in> set (m_order old)" for n
    using assms(1) by (auto simp: wf_model_def set_keys)
  define mk where "mk n = \<lparr>rc_component = n, rc_gained = list_minus (?n n) (?o n), rc_lost = list_minus (?o n) (?n n),
               rc_old_all = ?o n, rc_new_all = ?n n\<rparr>" for n
  have mk: "rc_component (mk n) = n" "rc_gained (mk n) = list_minus (?n n) (?o n)" "rc_lost (mk n) = list_minus (?o n) (?n n)" for n
    by (simp_all add: mk_def)
  have rc: "rc \<in> set (md_reach (compare_models old new r)) \<longleftrightarrow>
      (\<exists>n\<in>set (m_order old) \<inter> set (m_order new).
         (list_minus (?n n) (?o n) \<noteq> [] \<or> list_minus (?o n) (?n n) \<noteq> []) \<and> rc = mk n)" for rc
    by (auto simp: compare_models_def Let_def mk_def here [symmetric] simp del: list_minus_Nil_iff split: if_splits)
  have o: "set (?o n) = symptoms_of (build_failure_graph old r) n" if "n \<in> set (m_order old)" for n
    by (rule symptoms_reached_iff [OF assms(3) that])
  have n: "set (?n n) = symptoms_of (build_failure_graph new r) n" if "n \<in> set (m_order new)" for n
    by (rule symptoms_reached_iff [OF assms(4) that])
  have "(\<exists>rc\<in>set (md_reach (compare_models old new r)). rc_component rc = n) \<longleftrightarrow>
      n \<in> set (m_order old) \<inter> set (m_order new) \<and> set (?o n) \<noteq> set (?n n)"
  proof -
    have "(\<exists>rc\<in>set (md_reach (compare_models old new r)). rc_component rc = n) \<longleftrightarrow>
        n \<in> set (m_order old) \<inter> set (m_order new) \<and> (list_minus (?n n) (?o n) \<noteq> [] \<or> list_minus (?o n) (?n n) \<noteq> [])"
      unfolding Bex_def rc using mk(1) by metis
    then show ?thesis by auto
  qed
  moreover have "set (rc_gained rc) = symptoms_of (build_failure_graph new r) (rc_component rc) -
        symptoms_of (build_failure_graph old r) (rc_component rc) \<and>
      set (rc_lost rc) = symptoms_of (build_failure_graph old r) (rc_component rc) -
        symptoms_of (build_failure_graph new r) (rc_component rc)"
    if "rc \<in> set (md_reach (compare_models old new r))" for rc
    using that o n unfolding rc by (auto simp: mk)
  ultimately show ?thesis using o n by auto
qed

subsection \<open>An example\<close>

text \<open>The web stops depending on anything: it is no longer among the symptoms of the database.\<close>

definition ex_cut :: model where
  "ex_cut = ex_model
     [ex_component ''web'' ''svc'' [], ex_component ''cache'' ''svc'' [ex_dep [''db'']], ex_component ''db'' ''svc'' []]"

lemma named_once_list: "list_all (\<lambda>(n, gc). distinct (map gs_name (gc_states gc))) g \<Longrightarrow> named_once g"
  by (auto simp: named_once_def list_all_iff dest!: map_of_SomeD)

definition ex_cut_graph :: failure_graph where
  "ex_cut_graph = [(''cache'', ex_spread []), (''db'', ex_spread [''cache'']), (''web'', ex_spread [])]"

lemma ex_cut_built: "build_failure_graph ex_cut ex_down_registry = ex_cut_graph"
  by code_simp

lemma ex_cut_impact:
  "impact_of ex_cut_graph (Some ex_cut) ''db'' [] =
     Inr \<lparr>im_component = ''db'', im_states = [''down''],
          im_affected =
            [\<lparr>af_component = ''cache'', af_states = [''down''], af_path = Some [''db'', ''cache''],
              af_symptom = True, af_conditions = []\<rparr>],
          im_blocked = []\<rparr>"
  by code_simp

lemma ex_cut_once: "named_once (build_failure_graph ex_cut ex_down_registry)"
  unfolding ex_cut_built by (rule named_once_list) code_simp

lemma ex_wf: "wf_model ex_guarded" "wf_model ex_cut"
  by (auto simp: wf_model_def wf_dict_def ex_guarded_def ex_cut_def ex_model_def ex_component_def)

theorem compare_same_witness: "diff_empty (compare_models ex_guarded ex_guarded ex_down_registry)"
  by (rule compare_same) (rule ex_wf)

theorem compare_reach_iff_witness:
  "\<exists>rc\<in>set (md_reach (compare_models ex_guarded ex_cut ex_down_registry)). rc_component rc = ''db''"
proof -
  have once: "named_once (build_failure_graph ex_guarded ex_down_registry)"
    unfolding ex_guarded_built by (rule ex_guarded_once)
  have in_order: "''db'' \<in> set (m_order ex_guarded)" "''db'' \<in> set (m_order ex_cut)" by code_simp+
  have web: "symptoms_reached (build_failure_graph ex_guarded ex_down_registry) ex_guarded ''db'' = [''web'']"
    unfolding ex_guarded_built symptoms_reached_def ex_guarded_impact by (simp add: in_order)
  have cache: "symptoms_reached (build_failure_graph ex_cut ex_down_registry) ex_cut ''db'' = [''cache'']"
    unfolding ex_cut_built symptoms_reached_def ex_cut_impact by (simp add: in_order)
  have "symptoms_of (build_failure_graph ex_guarded ex_down_registry) ''db'' \<noteq>
      symptoms_of (build_failure_graph ex_cut ex_down_registry) ''db''"
    unfolding symptoms_reached_iff [OF once in_order(1), symmetric] symptoms_reached_iff [OF ex_cut_once in_order(2), symmetric]
      web cache by simp
  then show ?thesis
    using compare_reach_iff [OF ex_wf once ex_cut_once, THEN conjunct1] in_order by blast
qed

end
