(* ===== verification/Satisfy.thy ===== *)
theory Satisfy
  imports Health Consistency
begin

text \<open>
  \<open>internal/simulate\<close>, the synthesis of facts: a value for a comparison (satisfy.go), assignments for
  a predicate (\<open>deriveSatisfyingAssignments\<close> and what it calls in fromscenarios.go).

  A map of assignments is a \<open>dict\<close> in the order of insertion. The one error is a cross-state reference,
  beside which the map keeps what was bound before. Go leaves the conversion of a float outside the range
  of \<open>int64\<close> to the implementation; it is the parameter \<open>conv\<close>.

  The lemmas show that the value chosen makes a comparison come out as wanted, exactly up to where
  doubles stop telling integers apart, and that the assignments chosen make a predicate true.
\<close>

subsection \<open>satisfy.go\<close>

definition flip_if_not_want :: "cmp_op \<Rightarrow> bool \<Rightarrow> cmp_op" where
  "flip_if_not_want oper want = (if want then oper else negate_op oper)"

definition satisfy_both_refs :: "cmp_op \<Rightarrow> bool \<Rightarrow> val \<times> val" where
  "satisfy_both_refs oper want =
     (case flip_if_not_want oper want of
        OpEq \<Rightarrow> (VInt 1, VInt 1)
      | OpNeq \<Rightarrow> (VInt 0, VInt 1)
      | OpLt \<Rightarrow> (VInt 0, VInt 1)
      | OpLte \<Rightarrow> (VInt 0, VInt 1)
      | OpGt \<Rightarrow> (VInt 1, VInt 0)
      | OpGte \<Rightarrow> (VInt 1, VInt 0))"

definition satisfy_bool :: "cmp_op \<Rightarrow> bool \<Rightarrow> bool \<Rightarrow> val option" where
  "satisfy_bool oper target want =
     (case oper of OpEq \<Rightarrow> Some (VBool (target = want)) | OpNeq \<Rightarrow> Some (VBool (target \<noteq> want)) | _ \<Rightarrow> None)"

definition make_number :: "(f64 \<Rightarrow> int) \<Rightarrow> bool \<Rightarrow> f64 \<Rightarrow> val" where
  "make_number conv pref_int f =
     (if pref_int \<and> f64_eq f (f64_of_int (int64_of_f64 conv f)) then VInt (int64_of_f64 conv f) else VFloat64 f)"

definition satisfy_numeric :: "(f64 \<Rightarrow> int) \<Rightarrow> cmp_op \<Rightarrow> f64 \<Rightarrow> bool \<Rightarrow> bool \<Rightarrow> val" where
  "satisfy_numeric conv oper target want pref_int =
     (let mk = make_number conv pref_int
      in case flip_if_not_want oper want of
           OpEq \<Rightarrow> mk target
         | OpLte \<Rightarrow> mk target
         | OpGte \<Rightarrow> mk target
         | OpNeq \<Rightarrow> mk (f64_add target (f64_of_int 1))
         | OpGt \<Rightarrow> mk (f64_add target (f64_of_int 1))
         | OpLt \<Rightarrow> mk (f64_add target (f64_of_int (-1))))"

definition satisfy_string :: "cmp_op \<Rightarrow> string \<Rightarrow> bool \<Rightarrow> val option" where
  "satisfy_string oper target want =
     (case oper of
        OpEq \<Rightarrow> Some (VStr (if want then target else target @ ''-neg''))
      | OpNeq \<Rightarrow> Some (VStr (if want then target @ ''-neg'' else target))
      | _ \<Rightarrow> None)"

fun satisfy_cmp :: "(f64 \<Rightarrow> int) \<Rightarrow> cmp_op \<Rightarrow> val \<Rightarrow> bool \<Rightarrow> val option" where
  "satisfy_cmp conv oper (VBool b) want = satisfy_bool oper b want"
| "satisfy_cmp conv oper (VInt i) want = Some (satisfy_numeric conv oper (f64_of_int i) want True)"
| "satisfy_cmp conv oper (VInt64 i) want = Some (satisfy_numeric conv oper (f64_of_int i) want True)"
| "satisfy_cmp conv oper (VFloat32 f) want = Some (satisfy_numeric conv oper f want False)"
| "satisfy_cmp conv oper (VFloat64 f) want = Some (satisfy_numeric conv oper f want False)"
| "satisfy_cmp conv oper (VStr s) want = satisfy_string oper s want"
| "satisfy_cmp conv oper VOther want = None"

subsection \<open>Assignments for a predicate\<close>

text \<open>Two values of \<open>any\<close> compared with \<open>==\<close>: of one type and equal, and a NaN equals nothing.\<close>

fun any_eq :: "val \<Rightarrow> val \<Rightarrow> bool" where
  "any_eq (VFloat32 a) (VFloat32 b) = f64_eq a b"
| "any_eq (VFloat64 a) (VFloat64 b) = f64_eq a b"
| "any_eq a b = (a = b)"

definition bindings_conflict :: "val dict \<Rightarrow> val dict \<Rightarrow> bool" where
  "bindings_conflict candidate existing =
     list_ex (\<lambda>(k, cv). case map_of existing k of None \<Rightarrow> False | Some ev \<Rightarrow> \<not> any_eq ev cv) candidate"

definition bind_new :: "string \<Rightarrow> val \<Rightarrow> val dict \<Rightarrow> val dict" where
  "bind_new k v out = (if map_of out k = None then AList.update k v out else out)"

definition merge_into :: "val dict \<Rightarrow> val dict \<Rightarrow> val dict" where
  "merge_into dst src = foldl (\<lambda>d (k, v). bind_new k v d) dst src"

definition fact_ref_value :: "val \<Rightarrow> fact_spec dict \<Rightarrow> string \<Rightarrow> string option" where
  "fact_ref_value v known self =
     (case v of
        VStr s \<Rightarrow> if s = [] \<or> s = self \<or> map_of known s = None then None else Some s
      | _ \<Rightarrow> None)"

text \<open>The result is whether the error is \<open>ErrCrossStateRef\<close>, and the map after the call.\<close>

definition assign_from_cmp ::
    "(f64 \<Rightarrow> int) \<Rightarrow> fact_spec dict \<Rightarrow> string \<Rightarrow> cmp_op \<Rightarrow> val \<Rightarrow> bool \<Rightarrow> val dict \<Rightarrow> bool \<times> val dict" where
  "assign_from_cmp conv known fct oper v want out =
     (if fct = [] then (False, out)
      else if fct = ''state'' then (True, out)
      else (case fact_ref_value v known fct of
              Some rhs \<Rightarrow>
                (case satisfy_both_refs oper want of
                   (lv, rv) \<Rightarrow> (False, bind_new rhs rv (bind_new fct lv out)))
            | None \<Rightarrow>
                (case satisfy_cmp conv oper v want of
                   None \<Rightarrow> (False, out)
                 | Some x \<Rightarrow> (False, bind_new fct x out))))"

fun assign_from_node ::
    "(f64 \<Rightarrow> int) \<Rightarrow> fact_spec dict \<Rightarrow> node \<Rightarrow> bool \<Rightarrow> val dict \<Rightarrow> bool \<times> val dict" where
  "assign_from_node conv known (CmpNode cn fct oper v) want out = assign_from_cmp conv known fct oper v want out"
| "assign_from_node conv known (AndNode l r) want out =
     (case assign_from_node conv known l want out of
        (True, out1) \<Rightarrow> (True, out1)
      | (False, out1) \<Rightarrow> assign_from_node conv known r want out1)"
| "assign_from_node conv known (OrNode l r) want out =
     (let (lcross, left) = assign_from_node conv known l want [];
          (rcross, right) = assign_from_node conv known r want [];
          lok = (\<not> lcross \<and> left \<noteq> []); rok = (\<not> rcross \<and> right \<noteq> []);
          lconflict = (lok \<and> bindings_conflict left out); rconflict = (rok \<and> bindings_conflict right out)
      in if lok \<and> \<not> lconflict then (False, merge_into out left)
         else if rok \<and> \<not> rconflict then (False, merge_into out right)
         else if lok then (False, merge_into out left)
         else if rok then (False, merge_into out right)
         else (lcross \<and> rcross, out))"

definition derive_assignments :: "(f64 \<Rightarrow> int) \<Rightarrow> fact_spec dict \<Rightarrow> node \<Rightarrow> bool \<Rightarrow> val dict option" where
  "derive_assignments conv known n want =
     (case assign_from_node conv known n want [] of (True, _) \<Rightarrow> None | (False, out) \<Rightarrow> Some out)"

subsection \<open>Rounding stays close\<close>

lemma half_even_near: "0 < d \<Longrightarrow> 2 * (half_even q d * d) \<le> 2 * q + d \<and> 2 * q \<le> 2 * (half_even q d * d) + d"
proof -
  assume d: "0 < d"
  define h r where "h = q div d * d" and "r = q mod d"
  have q: "q = h + r" and r: "r < d" using d by (simp_all add: h_def r_def)
  have "half_even q d * d = (if d < 2 * r \<or> (2 * r = d \<and> odd (q div d)) then d + h else h)"
    by (simp add: half_even_def Let_def h_def r_def)
  then show ?thesis using q r by auto
qed

lemma half_even_cancel: "0 < d \<Longrightarrow> half_even (d * q) (d * e) = half_even q e"
  by (simp add: half_even_def Let_def mult.left_commute [of 2 d] flip: mult.assoc [of 2 d])

text \<open>The sum of two finite doubles is the exact sum, rounded once.\<close>

lemma f64_add_rounds:
  "f64_add (Fin m j) (Fin n k) =
     (let u = units m j + units n k
      in case round_mag (nat \<bar>u\<bar>) (2 ^ 1074) of
           None \<Rightarrow> Inf (u < 0)
         | Some r \<Rightarrow> Fin (u < 0 \<or> (u = 0 \<and> m \<and> n)) r)"
proof -
  define D :: nat where "D = 2 ^ 1074"
  define u where "u = units m j + units n k"
  have D: "0 < D" by (simp add: D_def)
  then have "q * D div D = q" for q by simp
  moreover have "half_even (q * D) (D * e) = half_even q e" for q e
    using half_even_cancel [OF D, of q e] by (simp add: mult.commute)
  ultimately have rm: "round_mag q D =
      (let r = half_even q (2 ^ (nbits q - 53)) * 2 ^ (nbits q - 53) in if 2 ^ 2098 \<le> r then None else Some r)" for q
    unfolding round_mag_def Let_def D_def [symmetric] by simp
  show ?thesis
  proof (cases "u = 0")
    case True
    then show ?thesis
      unfolding f64_add.simps Let_def u_def [symmetric] D_def [symmetric] rm by (simp add: half_even_def)
  next
    case False
    then show ?thesis
      unfolding f64_add.simps Let_def u_def [symmetric] D_def [symmetric] rm
      by (simp add: Consistency.round_units_def Let_def)
  qed
qed

text \<open>A magnitude already in units, rounded: at most half a unit in the last place away.\<close>

lemma rounded_near:
  assumes "n < 2 ^ (53 + u)" and "u \<le> 1074" and "0 < u"
  shows "\<exists>r. round_mag n (2 ^ 1074) = Some r \<and> 2 * r \<le> 2 * n + 2 ^ u \<and> 2 * n \<le> 2 * r + 2 ^ u"
proof -
  define D :: nat where "D = 2 ^ 1074"
  define s where "s = nbits n - 53"
  define r where "r = half_even n (2 ^ s) * 2 ^ s"
  have "nbits n \<le> 53 + u" using assms(1) by (rule nbits_le)
  then have s: "s \<le> u" by (simp add: s_def)
  then have pow: "(2::nat) ^ s \<le> 2 ^ u" by (simp add: power_increasing)
  have D: "0 < D" by (simp add: D_def)
  have "n * D div D = n" using D by simp
  moreover have "half_even (n * D) (D * 2 ^ s) = half_even n (2 ^ s)"
    using half_even_cancel [OF D, of n "2 ^ s"] by (simp add: mult.commute)
  ultimately have eq: "round_mag n D = (if 2 ^ 2098 \<le> r then None else Some r)"
    unfolding round_mag_def Let_def D_def [symmetric] r_def s_def by simp
  have near: "2 * r \<le> 2 * n + 2 ^ s" "2 * n \<le> 2 * r + 2 ^ s"
    using half_even_near [of "2 ^ s" n] by (simp_all add: r_def)
  have "2 * r \<le> 2 * n + 2 ^ u" using near(1) pow by linarith
  also have "\<dots> < 2 * 2 ^ (53 + u) + 2 * 2 ^ (53 + u)"
    using assms(1) power_increasing [of u "53 + u" "2::nat"] zero_less_power [of "2::nat" "53 + u"] by linarith
  also have "\<dots> \<le> 2 * 2 ^ (54 + 1074)"
    using power_increasing [of "54 + u" "54 + 1074" "2::nat"] assms(2) by (simp add: power_add)
  finally have "r < 2 ^ (54 + 1074)" by simp
  also have "\<dots> < 2 ^ 2098" by (intro power_strict_increasing) simp_all
  finally have "\<not> 2 ^ 2098 \<le> r" by simp
  with eq have "round_mag n D = Some r" by simp
  moreover have "2 * r \<le> 2 * n + 2 ^ u" "2 * n \<le> 2 * r + 2 ^ u" using near pow by linarith+
  ultimately show ?thesis unfolding D_def by blast
qed

definition small :: "f64 \<Rightarrow> bool" where
  "small f = (case f of Fin m k \<Rightarrow> k < (2 ^ 53 - 1) * 2 ^ 1074 | _ \<Rightarrow> False)"

text \<open>Below \<open>2 ^ 53\<close> adding and taking away one moves a double.\<close>

lemma f64_add_unit:
  assumes "small f" and "d = f64_of_int i" and "i = 1 \<or> i = -1"
  shows "if i = 1 then f64_lt f (f64_add f d) else f64_lt (f64_add f d) f"
proof -
  define D :: nat where "D = 2 ^ 1074"
  have D: "0 < D" "2 * D = 2 ^ 1075" by (simp_all add: D_def)
  obtain m k where f: "f = Fin m k" "k < (2 ^ 53 - 1) * D" using assms(1) by (auto simp: small_def D_def split: f64.splits)
  have one: "f64_of_int i = Fin (i < 0) D" using assms(3) f64_of_int_exact [of i] by (auto simp: D_def)
  define u where "u = units m k + units (i < 0) D"
  have k: "\<bar>units m k\<bar> = int k" by (simp add: units_def)
  have un: "units (i < 0) D = i * int D" using assms(3) by (auto simp: units_def)
  have "\<bar>u\<bar> \<le> int k + int D" unfolding u_def using k un assms(3) by auto
  then have "nat \<bar>u\<bar> \<le> k + D" by simp
  also have "\<dots> < 2 ^ 53 * D" using f(2) by (simp add: algebra_simps)
  also have "\<dots> = 2 ^ (53 + 1074)" by (simp only: D_def power_add)
  finally obtain r where r: "round_mag (nat \<bar>u\<bar>) (2 ^ 1074) = Some r"
      "2 * r \<le> 2 * nat \<bar>u\<bar> + 2 ^ 1074" "2 * nat \<bar>u\<bar> \<le> 2 * r + 2 ^ 1074"
    using rounded_near [of "nat \<bar>u\<bar>" 1074] by auto
  note near = r(2,3) [folded D_def]
  define neg where "neg \<longleftrightarrow> u < 0 \<or> (u = 0 \<and> m \<and> i < 0)"
  have sum: "f64_add f d = Fin neg r"
    using r(1) unfolding f(1) assms(2) one f64_add_rounds Let_def u_def [symmetric] neg_def by simp
  have "\<bar>units neg r - u\<bar> < int D"
  proof (cases "u < 0")
    case True
    then have "units neg r = - int r" "int (nat \<bar>u\<bar>) = - u" by (simp_all add: neg_def units_def)
    then show ?thesis using near D(1) by linarith
  next
    case False
    then have "int (nat \<bar>u\<bar>) = u" by simp
    moreover have "units neg r = int r \<or> (u = 0 \<and> units neg r = - int r)" using False by (auto simp: neg_def units_def)
    ultimately show ?thesis using near D(1) by linarith
  qed
  moreover have "f64_lt f (Fin neg r) \<longleftrightarrow> units m k < units neg r" "f64_lt (Fin neg r) f \<longleftrightarrow> units neg r < units m k"
    by (simp_all add: f(1))
  ultimately show ?thesis
    using assms(3) un unfolding sum u_def by auto
qed

subsection \<open>The value chosen makes the comparison come out as wanted\<close>

lemma f64_eq_trans: "f64_eq a b \<Longrightarrow> f64_eq b c \<Longrightarrow> f64_eq a c"
  by (cases a; cases b; cases c) auto

lemma compare_floats_cong: "f64_eq a b \<Longrightarrow> compare_floats oper a c = compare_floats oper b c"
  by (cases oper; cases a; cases b; cases c) auto

lemma f64_eq_refl: "f \<noteq> NaN \<Longrightarrow> f64_eq f f"
  by (cases f) auto

lemma small_not_NaN: "small f \<Longrightarrow> f \<noteq> NaN"
  by (auto simp: small_def)

lemma add_unit_not_NaN: "small f \<Longrightarrow> f64_add f (f64_of_int i) \<noteq> NaN"
proof -
  assume "small f"
  then obtain m k where f: "f = Fin m k" by (cases f) (simp_all add: small_def)
  show ?thesis
  proof (cases "f64_of_int i")
    case (Fin n j)
    then show ?thesis
      by (cases "round_mag (nat \<bar>units m k + units n j\<bar>) (2 ^ 1074)") (simp_all only: f f64_add_rounds Let_def option.case f64.distinct not_False_eq_True)
  qed (simp_all add: f f64_of_int_def split: option.splits)
qed

lemma make_number_value:
  "f \<noteq> NaN \<Longrightarrow> \<exists>g. to_numeric (make_number conv p f) = Some g \<and> f64_eq g f \<and>
     (\<forall>b. make_number conv p f \<noteq> VBool b) \<and> (\<forall>s. make_number conv p f \<noteq> VStr s)"
  by (auto simp: make_number_def f64_eq_refl f64_eq_sym)

lemma satisfy_numeric_sound:
  assumes "small f"
  shows "\<exists>g. to_numeric (satisfy_numeric conv oper f want p) = Some g \<and> compare_floats oper g f = want \<and>
     (\<forall>b. satisfy_numeric conv oper f want p \<noteq> VBool b) \<and> (\<forall>s. satisfy_numeric conv oper f want p \<noteq> VStr s)"
proof -
  let ?op = "flip_if_not_want oper want"
  let ?h = "case ?op of OpEq \<Rightarrow> f | OpLte \<Rightarrow> f | OpGte \<Rightarrow> f | OpNeq \<Rightarrow> f64_add f (f64_of_int 1)
      | OpGt \<Rightarrow> f64_add f (f64_of_int 1) | OpLt \<Rightarrow> f64_add f (f64_of_int (-1))"
  note nan = small_not_NaN [OF assms]
  have up: "f64_lt f (f64_add f (f64_of_int 1))" using f64_add_unit [OF assms refl, of 1] by simp
  have down: "f64_lt (f64_add f (f64_of_int (-1))) f" using f64_add_unit [OF assms refl, of "-1"] by simp
  have h: "?h \<noteq> NaN" using nan add_unit_not_NaN [OF assms] by (simp split: cmp_op.split)
  have eq: "satisfy_numeric conv oper f want p = make_number conv p ?h"
    by (simp add: satisfy_numeric_def split: cmp_op.split)
  obtain g where g: "to_numeric (make_number conv p ?h) = Some g" "f64_eq g ?h"
    "\<forall>b. make_number conv p ?h \<noteq> VBool b" "\<forall>s. make_number conv p ?h \<noteq> VStr s"
    using make_number_value [OF h] by blast
  have "compare_floats oper' (case oper' of OpEq \<Rightarrow> f | OpLte \<Rightarrow> f | OpGte \<Rightarrow> f | OpNeq \<Rightarrow> a | OpGt \<Rightarrow> a | OpLt \<Rightarrow> b) f"
    if "f64_eq f f" "f64_lt f a" "f64_lt b f" "\<not> f64_eq a f" for oper' a b
    using that by (cases oper') simp_all
  note this [OF f64_eq_refl [OF nan] up down]
  moreover have "\<not> f64_eq (f64_add f (f64_of_int 1)) f"
    using f64_lt_not_eq [OF up] by (simp only: f64_eq_sym not_False_eq_True)
  ultimately have "compare_floats ?op ?h f" by blast
  then have c: "compare_floats ?op g f" using compare_floats_cong [OF g(2)] by blast
  have "g \<noteq> NaN" using g(2) by auto
  then have "compare_floats oper g f = want"
    using c compare_floats_negate [of g f oper] nan by (cases want) (auto simp: flip_if_not_want_def)
  with g show ?thesis unfolding eq by blast
qed

text \<open>No number has a \<open>g\<close> in it.\<close>

lemma scan_mant_g: "CHR ''g'' \<in> set s \<Longrightarrow> CHR ''g'' \<in> set (snd (scan_mant hex a s))"
proof (induction hex a s rule: scan_mant.induct)
  case (2 hex a c cs)
  have "mant_digit hex (CHR ''g'') = None"
    by (simp add: mant_digit_def is_digit_def lower_code_def char_code_def)
  with 2 show ?case by (auto split: option.split)
qed simp

lemma scan_exp_g: "CHR ''g'' \<in> set s \<Longrightarrow> CHR ''g'' \<in> set (snd (snd (scan_exp e u s)))"
proof (induction e u s rule: scan_exp.induct)
  case (2 e u c cs)
  have "\<not> is_digit (CHR ''g'')" by (simp add: is_digit_def char_code_def)
  with 2 show ?case by auto
qed simp

lemma strip_sign_g: "CHR ''g'' \<in> set s \<Longrightarrow> CHR ''g'' \<in> set (snd (strip_sign s))"
  by (cases s) (auto simp: strip_sign_def)

lemma lower_is_g: "CHR ''g'' \<in> set s \<Longrightarrow> 103 \<notin> char_code ` set w \<Longrightarrow> \<not> lower_is s w"
proof -
  assume "CHR ''g'' \<in> set s" and w: "103 \<notin> char_code ` set w"
  moreover have "lower_code (CHR ''g'') = 103" by (simp add: lower_code_def char_code_def)
  ultimately have "103 \<in> set (map lower_code s)" by force
  with w show ?thesis unfolding lower_is_def by (metis set_map)
qed

lemma special_float_g: "CHR ''g'' \<in> set s \<Longrightarrow> special_float s = None"
proof -
  have word: "\<not> inf_word t \<and> \<not> lower_is t ''nan''" if "CHR ''g'' \<in> set t" for t
    using lower_is_g [OF that] by (simp add: inf_word_def char_code_def)
  assume g: "CHR ''g'' \<in> set s"
  then show ?thesis
    using word [OF g] word [of "tl s"] by (cases s) (auto simp: special_float_def)
qed

lemma read_float_g:
  assumes "CHR ''g'' \<in> set s"
  shows "read_float s = None"
proof -
  obtain neg t where t: "strip_sign s = (neg, t)" by (cases "strip_sign s")
  have tg: "CHR ''g'' \<in> set t" using strip_sign_g [OF assms] t by simp
  define hex where "hex = (case t of z # x # y # _ \<Rightarrow> z = CHR ''0'' \<and> lower_code x = 120 | _ \<Rightarrow> False)"
  have "CHR ''g'' \<in> set (if hex then drop 2 t else t)"
    using tg by (auto simp: hex_def lower_code_def char_code_def split: list.splits)
  then obtain a r where r: "scan_mant hex \<lparr>ms_mant = 0, ms_frac = 0, ms_dot = False, ms_digits = False, ms_under = False\<rparr>
       (if hex then drop 2 t else t) = (a, r)" and rg: "CHR ''g'' \<in> set r"
    by (metis prod.collapse scan_mant_g)
  obtain x r1 where x: "r = x # r1" using rg by (cases r) auto
  show ?thesis
  proof (cases "lower_code x = (if hex then 112 else 101)")
    case False
    then show ?thesis unfolding read_float_def Let_def t prod.case hex_def [symmetric] r x by simp
  next
    case True
    then have "x \<noteq> CHR ''g''" by (auto simp: lower_code_def char_code_def split: if_splits)
    then have r1g: "CHR ''g'' \<in> set r1" using rg x by simp
    obtain eneg r2 where r2: "strip_sign r1 = (eneg, r2)" by (cases "strip_sign r1")
    have "CHR ''g'' \<in> set r2" using strip_sign_g [OF r1g] r2 by simp
    then have "CHR ''g'' \<in> set (snd (snd (scan_exp 0 (ms_under a) r2)))" by (rule scan_exp_g)
    then have "snd (snd (scan_exp 0 (ms_under a) r2)) \<noteq> []" by auto
    then show ?thesis
      unfolding read_float_def Let_def t prod.case hex_def [symmetric] r x
      by (auto simp: r2 split: list.split prod.split)
  qed
qed

lemma parse_float_neg: "parse_float (s @ ''-neg'') = None"
  using special_float_g [of "s @ ''-neg''"] read_float_g [of "s @ ''-neg''"] by (simp add: parse_float_def)

lemma compare_number:
  "\<forall>b. x \<noteq> VBool b \<Longrightarrow> \<forall>s. x \<noteq> VStr s \<Longrightarrow> compare_fact_value oper x v cn c = compare_numeric_fact oper x v cn c"
  by (cases x) (auto simp: compare_fact_value_def)

fun tame :: "val \<Rightarrow> bool" where
  "tame (VBool b) = True"
| "tame (VInt i) = (\<bar>i\<bar> < 2 ^ 53 - 1)"
| "tame (VInt64 i) = (\<bar>i\<bar> < 2 ^ 53 - 1)"
| "tame (VFloat32 f) = small f"
| "tame (VFloat64 f) = small f"
| "tame (VStr s) = (parse_float s \<noteq> Some NaN)"
| "tame VOther = False"

lemma small_of_int: "\<bar>i\<bar> < 2 ^ 53 - 1 \<Longrightarrow> small (f64_of_int i)"
proof -
  assume i: "\<bar>i\<bar> < 2 ^ 53 - 1"
  define D :: nat where "D = 2 ^ 1074"
  have "nat \<bar>i\<bar> < 2 ^ 53 - 1" using i by simp
  then have "nat \<bar>i\<bar> * D < (2 ^ 53 - 1) * D" by (intro mult_strict_right_mono) (simp_all add: D_def)
  moreover have "f64_of_int i = Fin (i < 0) (nat \<bar>i\<bar> * D)"
    unfolding D_def using i by (intro f64_of_int_exact) simp
  ultimately show ?thesis by (simp only: small_def D_def f64.case)
qed

lemma compare_string_same:
  "parse_float s \<noteq> Some NaN \<Longrightarrow> compare_string_fact OpEq s (VStr s) cn = Inr True"
  "parse_float s \<noteq> Some NaN \<Longrightarrow> compare_string_fact OpNeq s (VStr s) cn = Inr False"
  by (cases "parse_float s"; simp add: compare_string_fact_def to_float_def compare_strings_def f64_eq_refl)+

lemma compare_string_neg:
  "compare_string_fact OpEq (s @ ''-neg'') (VStr s) cn = Inr False"
  "compare_string_fact OpNeq (s @ ''-neg'') (VStr s) cn = Inr True"
  by (simp_all add: compare_string_fact_def parse_float_neg compare_strings_def)

lemma satisfy_cmp_sound_lemma:
  assumes "tame v" and "satisfy_cmp conv oper v want = Some x"
  shows "compare_fact_value oper x v cn c = Inr want"
proof -
  have num: "compare_fact_value oper (satisfy_numeric conv oper f want p) v cn c = Inr want"
    if f: "to_numeric v = Some f" "small f" for f p
  proof -
    obtain g where g: "to_numeric (satisfy_numeric conv oper f want p) = Some g" "compare_floats oper g f = want"
      "\<forall>b. satisfy_numeric conv oper f want p \<noteq> VBool b" "\<forall>s. satisfy_numeric conv oper f want p \<noteq> VStr s"
      using satisfy_numeric_sound [OF f(2)] by blast
    have "to_float v = Some f" using f(1) by (simp add: to_float_def)
    then have "compare_numeric_fact oper (satisfy_numeric conv oper f want p) v cn c = Inr want"
      using g(1,2) by (simp add: compare_numeric_fact_def)
    then show ?thesis using compare_number [OF g(3,4)] by simp
  qed
  show ?thesis
  proof (cases v)
    case (VStr s)
    with assms show ?thesis
      by (cases oper; cases want)
        (auto simp: satisfy_string_def compare_fact_value_def compare_string_same compare_string_neg)
  next
    case (VBool b)
    with assms show ?thesis
      by (cases oper) (auto simp: satisfy_bool_def compare_fact_value_def compare_bool_fact_def)
  next
    case (VInt i)
    with assms num [of "f64_of_int i" True] small_of_int [of i] show ?thesis by simp
  next
    case (VInt64 i)
    with assms num [of "f64_of_int i" True] small_of_int [of i] show ?thesis by simp
  next
    case (VFloat32 f)
    with assms num [of f False] show ?thesis by simp
  next
    case (VFloat64 f)
    with assms num [of f False] show ?thesis by simp
  qed (use assms in simp)
qed

text \<open>
  The value chosen for a comparison makes it evaluate as wanted, for every operator and every kind
  of literal for which one is chosen at all; numbers must keep one below \<open>2 ^ 53\<close>.
\<close>

theorem satisfy_cmp_sound:
  assumes "tame v" and "satisfy_cmp conv oper v want = Some x"
  shows "compare_fact_value oper x v cn c = Inr want"
  using assms by (rule satisfy_cmp_sound_lemma)

theorem satisfy_cmp_sound_witness:
  "\<exists>x. satisfy_cmp conv OpLt (VInt 3) True = Some x \<and> compare_fact_value OpLt x (VInt 3) cn c = Inr True"
  using satisfy_cmp_sound [of "VInt 3" conv OpLt True _ cn c] by simp

text \<open>At \<open>2 ^ 53\<close> adding one rounds back.\<close>

lemma nbits_between: "2 ^ k \<le> n \<Longrightarrow> n < 2 ^ Suc k \<Longrightarrow> nbits n = Suc k"
proof (induction k arbitrary: n)
  case 0
  then have "n = 1" by simp
  then show ?case by (simp add: nbits.simps)
next
  case (Suc k)
  then have "2 ^ k \<le> n div 2" "n div 2 < 2 ^ Suc k" by auto
  then have "nbits (n div 2) = Suc k" by (rule Suc.IH)
  moreover have "n \<noteq> 0" using Suc.prems(1) by (metis not_less zero_less_numeral zero_less_power)
  ultimately show ?case by (subst nbits.simps) simp
qed

lemma half_even_multiple: "0 < d \<Longrightarrow> half_even (m * d) d = m"
  by (simp add: half_even_def)

lemma half_even_tie: "0 < e \<Longrightarrow> even m \<Longrightarrow> half_even (m * (2 * e) + e) (2 * e) = m"
  by (simp add: half_even_def Let_def)

lemma round_large:
  assumes "u = 1074"
  shows "round_mag (2 ^ 53) 1 = Some (2 ^ 53 * 2 ^ u)"
    and "round_mag (2 ^ 53 * 2 ^ u + 2 ^ u) (2 ^ u) = Some (2 ^ 53 * 2 ^ u)"
proof -
  define U :: nat where "U = 2 ^ u"
  have U: "0 < U" by (simp add: U_def)
  have big: "(2::nat) ^ 53 * U = 2 ^ (53 + u)" by (simp only: U_def power_add)
  have split: "(2::nat) ^ 53 * U = 2 ^ 52 * (2 * U)" by simp
  have n1: "nbits (2 ^ 53 * U) = Suc (53 + u)" unfolding big by (intro nbits_between) simp_all
  have "2 ^ 53 * U + U < 2 ^ Suc (53 + u)" using U unfolding big [symmetric] power_Suc by simp
  moreover have "2 ^ (53 + u) \<le> 2 ^ 53 * U + U" unfolding big [symmetric] by simp
  ultimately have n2: "nbits (2 ^ 53 * U + U) = Suc (53 + u)" by (intro nbits_between)
  have s: "(2::nat) ^ (Suc (53 + u) - 53) = 2 * U" by (simp add: U_def)
  have "(2::nat) ^ (53 + u) < 2 ^ 2098" using assms by (intro power_strict_increasing) simp_all
  then have fits: "\<not> 2 ^ 2098 \<le> 2 ^ 52 * (2 * U)" by (simp only: split [symmetric] big not_le)
  have K: "(2::nat) ^ 1074 = U" by (simp only: U_def assms)
  have h1: "half_even (2 ^ 53 * U) (2 * U) = 2 ^ 52" unfolding split using U by (intro half_even_multiple) simp
  have "round_mag (2 ^ 53) 1 = (if 2 ^ 2098 \<le> 2 ^ 52 * (2 * U) then None else Some (2 ^ 52 * (2 * U)))"
    unfolding round_mag_def Let_def K div_by_1 mult_1 n1 s h1 by (rule refl)
  then show "round_mag (2 ^ 53) 1 = Some (2 ^ 53 * 2 ^ u)"
    unfolding U_def [symmetric] split using fits by (simp only: if_False)
  have "half_even ((2 ^ 53 * U + U) * U) (U * (2 * U)) = half_even (2 ^ 53 * U + U) (2 * U)"
    using half_even_cancel [OF U, of "2 ^ 53 * U + U" "2 * U"] by (simp only: mult.commute [of _ U])
  also have "\<dots> = 2 ^ 52" unfolding split using U by (intro half_even_tie) simp_all
  finally have h: "half_even ((2 ^ 53 * U + U) * U) (U * (2 * U)) = 2 ^ 52" .
  have d: "(2 ^ 53 * U + U) * U div U = 2 ^ 53 * U + U" using U by (intro nonzero_mult_div_cancel_right) simp
  show "round_mag (2 ^ 53 * 2 ^ u + 2 ^ u) (2 ^ u) = Some (2 ^ 53 * 2 ^ u)"
    unfolding round_mag_def Let_def K U_def [symmetric] d n2 s h using fits by (simp only: split if_False)
qed

text \<open>
  For the integer \<open>2 ^ 53\<close> the value chosen to be greater than it is not: the comparison the
  synthesis wants true evaluates to false.
\<close>

theorem satisfy_cmp_large:
  "\<exists>x. satisfy_cmp conv OpGt (VInt (2 ^ 53)) True = Some x \<and> compare_fact_value OpGt x (VInt (2 ^ 53)) cn c = Inr False"
proof -
  define u :: nat where "u = 1074"
  define f where "f = Fin False (2 ^ 53 * 2 ^ u)"
  have f: "f64_of_int (2 ^ 53) = f"
  proof -
    have "nat \<bar>2 ^ 53\<bar> = 2 ^ 53" by (simp add: nat_power_eq)
    then show ?thesis by (simp only: f64_of_int_def f_def round_large(1) [OF u_def] option.case) simp
  qed
  have one: "f64_of_int 1 = Fin False (2 ^ u)" using f64_of_int_exact [of 1] by (simp add: u_def)
  have "nat \<bar>units False (2 ^ 53 * 2 ^ u) + units False (2 ^ u)\<bar> = 2 ^ 53 * 2 ^ u + 2 ^ u" by (simp add: units_def nat_add_distrib nat_mult_distrib nat_power_eq)
  then have add: "f64_add f (f64_of_int 1) = f"
    using round_large(2) [OF u_def] by (simp only: f_def one f64_add_rounds Let_def u_def [symmetric] option.case) (simp add: units_def)
  have nan: "f \<noteq> NaN" by (simp add: f_def)
  obtain g where g: "to_numeric (make_number conv True f) = Some g" "f64_eq g f"
    "\<forall>b. make_number conv True f \<noteq> VBool b" "\<forall>s. make_number conv True f \<noteq> VStr s"
    using make_number_value [OF nan] by blast
  have "satisfy_cmp conv OpGt (VInt (2 ^ 53)) True = Some (make_number conv True f)"
    unfolding satisfy_cmp.simps f by (simp add: satisfy_numeric_def flip_if_not_want_def add)
  moreover have "to_float (VInt (2 ^ 53)) = Some f" unfolding to_float_def to_numeric.simps f by simp
  then have "compare_numeric_fact OpGt (make_number conv True f) (VInt (2 ^ 53)) cn c = Inr (f64_lt f g)"
    using g(1) by (simp only: compare_numeric_fact_def option.case compare_floats.simps)
  then have "compare_fact_value OpGt (make_number conv True f) (VInt (2 ^ 53)) cn c = Inr (f64_lt f g)"
    by (simp only: compare_number [OF g(3,4)])
  moreover have "\<not> f64_lt f g" using g(2) f64_lt_not_eq [of f g] f64_eq_sym [of f g] by blast
  ultimately show ?thesis by simp
qed


subsection \<open>The assignments chosen make a predicate true\<close>

text \<open>The facts a comparison binds, and what lets it be satisfied: a literal the previous section covers,
  or the name of another fact that is no number itself.\<close>

definition bound_by :: "fact_spec dict \<Rightarrow> string \<Rightarrow> val \<Rightarrow> string list" where
  "bound_by known fct v = fct # (case fact_ref_value v known fct of None \<Rightarrow> [] | Some rhs \<Rightarrow> [rhs])"

fun bound_facts :: "fact_spec dict \<Rightarrow> node \<Rightarrow> string list" where
  "bound_facts known (AndNode l r) = bound_facts known l @ bound_facts known r"
| "bound_facts known (OrNode l r) = bound_facts known l @ bound_facts known r"
| "bound_facts known (CmpNode cn fct oper v) = bound_by known fct v"

definition can_satisfy :: "(f64 \<Rightarrow> int) \<Rightarrow> fact_spec dict \<Rightarrow> string \<Rightarrow> cmp_op \<Rightarrow> val \<Rightarrow> bool" where
  "can_satisfy conv known fct oper v \<longleftrightarrow>
     fct \<noteq> [] \<and> fct \<noteq> ''state'' \<and>
     (case fact_ref_value v known fct of
        Some rhs \<Rightarrow> to_float v = None
      | None \<Rightarrow> tame v \<and> satisfy_cmp conv oper v True \<noteq> None)"

fun synthesizable :: "(f64 \<Rightarrow> int) \<Rightarrow> fact_spec dict \<Rightarrow> node \<Rightarrow> bool" where
  "synthesizable conv known (AndNode l r) = (synthesizable conv known l \<and> synthesizable conv known r)"
| "synthesizable conv known (OrNode l r) = (synthesizable conv known l \<and> synthesizable conv known r)"
| "synthesizable conv known (CmpNode cn fct oper v) = (cn = [] \<and> can_satisfy conv known fct oper v)"

text \<open>A context that knows at least the facts of a map.\<close>

definition knows :: "ctx \<Rightarrow> val dict \<Rightarrow> bool" where
  "knows c out \<longleftrightarrow> (\<forall>k v. map_of out k = Some v \<longrightarrow> cx_facts c (cx_component c) k = Some v)"

lemma knows_append: "set (keys xs) \<inter> set (keys ys) = {} \<Longrightarrow> knows c (xs @ ys) \<longleftrightarrow> knows c xs \<and> knows c ys"
  by (auto simp: knows_def map_add_def set_keys split: option.splits)
    (metis disjoint_iff domI option.exhaust)+

lemma bind_new_fresh: "k \<notin> set (keys out) \<Longrightarrow> bind_new k v out = out @ [(k, v)]"
proof -
  assume "k \<notin> set (keys out)"
  then have "map_of out k = None" by (simp add: set_keys domIff)
  moreover from this have "AList.update k v out = out @ [(k, v)]" by (induction out) auto
  ultimately show ?thesis by (simp add: bind_new_def)
qed

lemma both_refs_true: "compare_floats oper (f64_of_int i) (f64_of_int j)"
  if "satisfy_both_refs oper True = (VInt i, VInt j)"
proof -
  have "\<bar>i\<bar> < 2 ^ 53" "\<bar>j\<bar> < 2 ^ 53" "int_compare oper i j"
    using that by (cases oper; auto simp: satisfy_both_refs_def flip_if_not_want_def)+
  then show ?thesis using compare_floats_int [of i j oper] by blast
qed

lemma both_refs_ints: obtains i j where "satisfy_both_refs oper want = (VInt i, VInt j)"
  by (cases "flip_if_not_want oper want") (auto simp: satisfy_both_refs_def)

text \<open>What one comparison adds to the map, and that a context with it makes the comparison true.\<close>

lemma assign_from_cmp_sound:
  assumes "can_satisfy conv known fct oper v" and "distinct (bound_by known fct v)"
    and "set (bound_by known fct v) \<inter> set (keys out) = {}"
  shows "\<exists>new. assign_from_cmp conv known fct oper v True out = (False, out @ new) \<and> new \<noteq> [] \<and>
    keys new = bound_by known fct v \<and>
    (\<forall>c. knows c new \<longrightarrow> eval c (CmpNode [] fct oper v) = Inr True)"
proof (cases "fact_ref_value v known fct")
  case None
  then obtain x where x: "satisfy_cmp conv oper v True = Some x" and t: "tame v"
    and f: "fct \<noteq> []" "fct \<noteq> ''state''"
    using assms(1) by (auto simp: can_satisfy_def)
  have "assign_from_cmp conv known fct oper v True out = (False, out @ [(fct, x)])"
    using None x f assms(3) by (simp add: assign_from_cmp_def bind_new_fresh bound_by_def)
  moreover have "eval c (CmpNode [] fct oper v) = Inr True" if "knows c [(fct, x)]" for c
  proof -
    have "cx_facts c (cx_component c) fct = Some x" using that by (simp add: knows_def)
    then show ?thesis using f satisfy_cmp_sound_lemma [OF t x] by (simp add: eval_cmp_def)
  qed
  ultimately show ?thesis using None by (intro exI [of _ "[(fct, x)]"]) (simp add: bound_by_def)
next
  case (Some rhs)
  then have v: "v = VStr rhs" and f: "fct \<noteq> []" "fct \<noteq> ''state''" and nf: "to_float v = None"
    using assms(1) by (auto simp: can_satisfy_def fact_ref_value_def split: val.splits if_splits)
  obtain i j where ij: "satisfy_both_refs oper True = (VInt i, VInt j)" by (rule both_refs_ints)
  let ?new = "[(fct, VInt i), (rhs, VInt j)]"
  have ne: "rhs \<noteq> fct" using assms(2) Some by (simp add: bound_by_def)
  have "assign_from_cmp conv known fct oper v True out = (False, out @ ?new)"
    using Some ij f ne assms(3) by (simp add: assign_from_cmp_def bind_new_fresh bound_by_def)
  moreover have "eval c (CmpNode [] fct oper v) = Inr True" if "knows c ?new" for c
  proof -
    have "cx_facts c (cx_component c) fct = Some (VInt i)" "cx_facts c (cx_component c) rhs = Some (VInt j)"
      using that ne by (auto simp: knows_def)
    then show ?thesis
      using f nf both_refs_true [OF ij]
      by (simp add: eval_cmp_def compare_fact_value_def compare_numeric_fact_def v)
  qed
  ultimately show ?thesis using Some by (intro exI [of _ ?new]) (simp add: bound_by_def)
qed

lemma merge_into_fresh:
  "distinct (keys new) \<Longrightarrow> set (keys new) \<inter> set (keys out) = {} \<Longrightarrow> merge_into out new = out @ new"
proof (induction new arbitrary: out)
  case (Cons a new)
  then show ?case by (cases a) (simp add: merge_into_def bind_new_fresh)
qed (simp add: merge_into_def)

lemma no_conflict: "set (keys new) \<inter> set (keys out) = {} \<Longrightarrow> \<not> bindings_conflict new out"
  by (auto simp: bindings_conflict_def list_ex_iff keys_def split: option.splits dest!: map_of_SomeD) force

definition sound_binding :: "fact_spec dict \<Rightarrow> node \<Rightarrow> val dict \<Rightarrow> bool" where
  "sound_binding known n new \<longleftrightarrow>
     new \<noteq> [] \<and> distinct (keys new) \<and> set (keys new) \<subseteq> set (bound_facts known n) \<and>
     (\<forall>c. knows c new \<longrightarrow> eval c n = Inr True)"

lemma assign_from_node_sound:
  "synthesizable conv known n \<Longrightarrow> distinct (bound_facts known n) \<Longrightarrow>
   set (bound_facts known n) \<inter> set (keys out) = {} \<Longrightarrow>
   \<exists>new. assign_from_node conv known n True out = (False, out @ new) \<and> sound_binding known n new"
proof (induction n arbitrary: out)
  case (CmpNode cn fct oper v)
  then obtain new where "assign_from_cmp conv known fct oper v True out = (False, out @ new)" "new \<noteq> []"
    "keys new = bound_by known fct v" "\<forall>c. knows c new \<longrightarrow> eval c (CmpNode [] fct oper v) = Inr True"
    using assign_from_cmp_sound [of conv known fct oper v out] by auto
  then show ?case using CmpNode.prems by (intro exI [of _ new]) (simp add: sound_binding_def)
next
  case (AndNode l r)
  from AndNode.IH(1) [of out] AndNode.prems obtain nl where
    l: "assign_from_node conv known l True out = (False, out @ nl)" "sound_binding known l nl" by auto
  then have kl: "set (keys nl) \<subseteq> set (bound_facts known l)" by (simp add: sound_binding_def)
  then have "set (bound_facts known r) \<inter> set (keys (out @ nl)) = {}" using AndNode.prems by auto
  with AndNode.IH(2) [of "out @ nl"] AndNode.prems obtain nr where
    r: "assign_from_node conv known r True (out @ nl) = (False, (out @ nl) @ nr)" "sound_binding known r nr" by auto
  have dis: "set (keys nl) \<inter> set (keys nr) = {}"
    using kl r(2) AndNode.prems(2) by (auto simp: sound_binding_def)
  have "sound_binding known (AndNode l r) (nl @ nr)"
    using l(2) r(2) dis by (auto simp: sound_binding_def knows_append [OF dis] eval_and_def)
  with l r show ?case by (intro exI [of _ "nl @ nr"]) simp
next
  case (OrNode l r)
  from OrNode.IH(1) [of "[]"] OrNode.prems obtain nl where
    l: "assign_from_node conv known l True [] = (False, nl)" "sound_binding known l nl" by auto
  from OrNode.IH(2) [of "[]"] OrNode.prems obtain nr where
    r: "assign_from_node conv known r True [] = (False, nr)" by auto
  have dis: "set (keys nl) \<inter> set (keys out) = {}" using l(2) OrNode.prems(3) by (auto simp: sound_binding_def)
  have "assign_from_node conv known (OrNode l r) True out = (False, merge_into out nl)"
    using l r no_conflict [OF dis] by (simp add: sound_binding_def)
  also have "\<dots> = (False, out @ nl)" using l(2) dis by (simp add: sound_binding_def merge_into_fresh)
  finally have "assign_from_node conv known (OrNode l r) True out = (False, out @ nl)" .
  moreover have "sound_binding known (OrNode l r) nl"
    using l(2) by (auto simp: sound_binding_def eval_or_def split: sum.split)
  ultimately show ?case by blast
qed

lemma derive_assignments_sound_lemma:
  assumes "synthesizable conv known n" and "distinct (bound_facts known n)"
  shows "\<exists>out. derive_assignments conv known n True = Some out \<and> distinct (keys out) \<and>
    (\<forall>c. knows c out \<longrightarrow> eval c n = Inr True)"
  using assign_from_node_sound [OF assms, of "[]"] by (auto simp: derive_assignments_def sound_binding_def)

text \<open>
  When every comparison of a predicate can be satisfied on its own and no fact is bound twice, the
  assignments derived for it exist, and every context that knows them evaluates the predicate to true.
\<close>

theorem derive_assignments_sound:
  assumes "synthesizable conv known n" and "distinct (bound_facts known n)"
  shows "\<exists>out. derive_assignments conv known n True = Some out \<and> distinct (keys out) \<and>
    (\<forall>c. knows c out \<longrightarrow> eval c n = Inr True)"
  using assms by (rule derive_assignments_sound_lemma)

text \<open>An \<open>or\<close> whose left side no assignment can serve, and an \<open>and\<close> of two facts.\<close>

definition ex_predicate :: node where
  "ex_predicate =
     AndNode (CmpNode [] ''ready'' OpLt (VStr ''wanted''))
       (OrNode (CmpNode [] ''up'' OpEq (VBool False)) (CmpNode [] ''phase'' OpNeq (VStr ''Running'')))"

definition ex_known :: "fact_spec dict" where
  "ex_known = map (\<lambda>k. (k, \<lparr>fs_type = [], fs_ttl = 0, fs_probe = \<lparr>pd_cmd = [], pd_parse = [], pd_cost = [], pd_access = [],
     pd_timeout = 0\<rparr>, fs_window = 0, fs_derive = []\<rparr>)) [''ready'', ''wanted'', ''up'', ''phase'']"

theorem derive_assignments_sound_witness:
  "\<exists>out. derive_assignments (\<lambda>_. 0) ex_known ex_predicate True = Some out \<and> (\<forall>c. knows c out \<longrightarrow> eval c ex_predicate = Inr True)"
proof -
  have "parse_float ''wanted'' = None" "atoi ''wanted'' = None" "parse_float ''Running'' = None" by code_simp+
  then have "synthesizable (\<lambda>_. 0) ex_known ex_predicate"
    by (simp add: ex_predicate_def ex_known_def can_satisfy_def fact_ref_value_def to_float_def
        satisfy_bool_def satisfy_string_def)
  moreover have "distinct (bound_facts ex_known ex_predicate)" by code_simp
  ultimately show ?thesis using derive_assignments_sound by blast
qed

end
