(* ===== verification/Simulate.thy ===== *)
theory Simulate
  imports Plan_Engine Satisfy "HOL-Library.Sublist"
begin

text \<open>
  \<open>internal/simulate\<close>: a scenario (types.go), the checks on a decoded one (load.go), running it and
  comparing the conclusion (run.go), and an incident's facts turned into a scenario (record.go).

  A value that YAML decodes to nil is \<open>None\<close>. \<open>time.Now()\<close> is the parameter \<open>now\<close>; the conversion of a
  float outside the range of \<open>int64\<close> is \<open>conv\<close>. Reading, writing and decoding files are left out.

  The lemmas say what the checks accept, what a comparison asks for, what a run's store holds, and
  that a recorded incident replays with the latest values it had.
\<close>

subsection \<open>Scenarios (types.go)\<close>

record expectation =
  ex_root_cause :: string
  ex_path :: "string list"
  ex_eliminated :: "string list"
  ex_not_eliminated :: "string list"
  ex_cannot_rule_out :: "string list"
  ex_degraded :: "string list"

definition no_expectation :: expectation where
  "no_expectation = \<lparr>ex_root_cause = [], ex_path = [], ex_eliminated = [], ex_not_eliminated = [],
     ex_cannot_rule_out = [], ex_degraded = []\<rparr>"

record sim_scenario =
  sn_name :: string
  sn_description :: string
  sn_entry :: string
  sn_inject :: "val option dict dict"
  sn_unresolved :: "string dict dict"
  sn_expect :: expectation
  sn_unenumerated :: bool

record sim_result =
  rs_scenario :: sim_scenario
  rs_actual :: expectation
  rs_pass :: bool
  rs_err :: "string option"

text \<open>A fact of a component in a map of maps.\<close>

definition entry_at :: "'v dict dict \<Rightarrow> string \<Rightarrow> string \<Rightarrow> 'v option" where
  "entry_at d c k = Option.bind (map_of d c) (\<lambda>kvs. map_of kvs k)"

definition put_at :: "string \<Rightarrow> string \<Rightarrow> 'v \<Rightarrow> 'v dict dict \<Rightarrow> 'v dict dict" where
  "put_at c k v d = AList.update c (AList.update k v (case map_of d c of None \<Rightarrow> [] | Some kvs \<Rightarrow> kvs)) d"

definition wf_dict2 :: "'v dict dict \<Rightarrow> bool" where
  "wf_dict2 d \<longleftrightarrow> wf_dict d \<and> (\<forall>(c, kvs)\<in>set d. wf_dict kvs)"

subsection \<open>Checking a decoded scenario (load.go)\<close>

definition normalise_value :: "(f64 \<Rightarrow> int) \<Rightarrow> val \<Rightarrow> val" where
  "normalise_value conv v =
     (case v of
        VFloat64 x \<Rightarrow> if f64_eq x (f64_of_int (int64_of_f64 conv x)) then VInt (int64_of_f64 conv x) else v
      | _ \<Rightarrow> v)"

definition unresolved_status :: "string \<Rightarrow> fact_status option" where
  "unresolved_status s =
     (if s = ''not_found'' then Some NotFound
      else if s = ''forbidden'' then Some Forbidden
      else if s = ''transient'' then Some Transient
      else None)"

datatype scenario_error =
    UnknownStatus string string string
  | InjectedAndUnresolved string string

fun check_statuses :: "val option dict dict \<Rightarrow> string \<Rightarrow> string dict \<Rightarrow> scenario_error option" where
  "check_statuses inject c [] = None"
| "check_statuses inject c ((fct, status) # kvs) =
     (if unresolved_status status = None then Some (UnknownStatus c fct status)
      else if entry_at inject c fct \<noteq> None then Some (InjectedAndUnresolved c fct)
      else check_statuses inject c kvs)"

fun check_components :: "val option dict dict \<Rightarrow> string dict dict \<Rightarrow> scenario_error option" where
  "check_components inject [] = None"
| "check_components inject ((c, kvs) # rest) =
     (case check_statuses inject c kvs of
        Some e \<Rightarrow> Some e
      | None \<Rightarrow> check_components inject rest)"

definition check_unresolved :: "sim_scenario \<Rightarrow> scenario_error option" where
  "check_unresolved sc = check_components (sn_inject sc) (sn_unresolved sc)"

definition normalise_inject :: "(f64 \<Rightarrow> int) \<Rightarrow> val option dict dict \<Rightarrow> val option dict dict" where
  "normalise_inject conv inject =
     map (\<lambda>(c, kvs). (c, map (\<lambda>(k, v). (k, map_option (normalise_value conv) v)) kvs)) inject"

definition finish_scenario :: "(f64 \<Rightarrow> int) \<Rightarrow> sim_scenario \<Rightarrow> scenario_error + sim_scenario" where
  "finish_scenario conv sc =
     (let sc' = sc\<lparr>sn_inject := normalise_inject conv (sn_inject sc)\<rparr>
      in case check_unresolved sc' of Some e \<Rightarrow> Inl e | None \<Rightarrow> Inr sc')"

subsection \<open>Running a scenario (run.go)\<close>

definition sim_fact :: "int \<Rightarrow> string \<Rightarrow> val option \<Rightarrow> fact_status \<Rightarrow> obs_fact" where
  "sim_fact now k v st = \<lparr>f_key = k, f_value = v, f_collector = ''simulate'', f_at = now, f_note = [], f_raw = [], f_status = st\<rparr>"

text \<open>The records \<open>Run\<close> appends, in order: what is injected, then what could not be read.\<close>

definition injected_facts :: "int \<Rightarrow> val option dict dict \<Rightarrow> (string \<times> obs_fact) list" where
  "injected_facts now inject = concat (map (\<lambda>(c, kvs). map (\<lambda>(k, v). (c, sim_fact now k v Normal)) kvs) inject)"

definition unresolved_facts :: "int \<Rightarrow> string dict dict \<Rightarrow> (string \<times> obs_fact) list" where
  "unresolved_facts now unresolved =
     concat (map (\<lambda>(c, kvs). map (\<lambda>(k, s). (c, sim_fact now k None
       (case unresolved_status s of None \<Rightarrow> Normal | Some st \<Rightarrow> st))) kvs) unresolved)"

definition scenario_store :: "int \<Rightarrow> sim_scenario \<Rightarrow> store" where
  "scenario_store now sc =
     foldl (\<lambda>s (c, f). append_fact s c f) new_in_memory
       (injected_facts now (sn_inject sc) @ unresolved_facts now (sn_unresolved sc))"

definition extract_conclusion :: "path_tree \<Rightarrow> expectation" where
  "extract_conclusion t =
     no_expectation
       \<lparr>ex_root_cause := (if tr_root_cause t = [] then ''none'' else tr_root_cause t),
        ex_path := (if tr_root_cause t = [] then []
                    else (case List.find (\<lambda>p. last (pt_components p) = tr_root_cause t) (tr_paths t) of
                            None \<Rightarrow> [] | Some p \<Rightarrow> pt_components p)),
        ex_eliminated := sort (eliminated_only t),
        ex_cannot_rule_out := map us_component (tr_cannot_rule_out t),
        ex_degraded := map dg_component (tr_degraded t)\<rparr>"

text \<open>\<open>isOrderedSubsequence\<close>: the index of the next element wanted.\<close>

fun ordered_loop :: "string list \<Rightarrow> nat \<Rightarrow> string list \<Rightarrow> bool" where
  "ordered_loop sub i [] = False"
| "ordered_loop sub i (s # seq) =
     (if s = sub ! i then (if i + 1 = length sub then True else ordered_loop sub (i + 1) seq)
      else ordered_loop sub i seq)"

definition is_ordered_subsequence :: "string list \<Rightarrow> string list \<Rightarrow> bool" where
  "is_ordered_subsequence sub seq = (if sub = [] then True else ordered_loop sub 0 seq)"

definition is_subset :: "string list \<Rightarrow> string list \<Rightarrow> bool" where
  "is_subset sub super = list_all (\<lambda>s. s \<in> set super) sub"

definition matches :: "expectation \<Rightarrow> expectation \<Rightarrow> bool" where
  "matches expected actual =
     (if ex_root_cause expected \<noteq> ex_root_cause actual then False
      else if \<not> is_ordered_subsequence (ex_path expected) (ex_path actual) then False
      else if \<not> is_subset (ex_eliminated expected) (ex_eliminated actual) then False
      else if \<not> is_subset (ex_degraded expected) (ex_degraded actual) then False
      else if \<not> is_subset (ex_cannot_rule_out expected) (ex_cannot_rule_out actual) then False
      else \<not> list_ex (\<lambda>c. c \<in> set (ex_eliminated actual)) (ex_not_eliminated expected))"

definition run_scenario :: "int \<Rightarrow> model \<Rightarrow> registry \<Rightarrow> sim_scenario \<Rightarrow> sim_result" where
  "run_scenario now m r sc =
     (if sn_entry sc \<noteq> [] \<and> component_of m (sn_entry sc) = None
      then \<lparr>rs_scenario = sc, rs_actual = no_expectation, rs_pass = False, rs_err = Some (sn_entry sc)\<rparr>
      else (let actual = extract_conclusion (conclude m r (scenario_store now sc) (sn_entry sc))
            in \<lparr>rs_scenario = sc, rs_actual = actual, rs_pass = matches (sn_expect sc) actual, rs_err = None\<rparr>))"

subsection \<open>An incident as a scenario (record.go)\<close>

definition latest_records :: "obs_fact list \<Rightarrow> obs_fact dict" where
  "latest_records fs = foldl (\<lambda>m f. AList.update (f_key f) f m) [] fs"

definition recorded :: "store \<Rightarrow> (string \<times> string \<times> obs_fact) list" where
  "recorded s = concat (map (\<lambda>c. map (Pair c) (latest_records (facts_for s c))) (all_components s))"

type_synonym observations = "val option dict dict \<times> string dict dict \<times> string list"

fun record_fact :: "observations \<Rightarrow> string \<times> string \<times> obs_fact \<Rightarrow> observations" where
  "record_fact (inject, unresolved, skipped) (c, k, f) =
     (if f_value f \<noteq> None then (put_at c k (f_value f) inject, unresolved, skipped)
      else if unresolved_status (status_text (f_status f)) \<noteq> None
      then (inject, put_at c k (status_text (f_status f)) unresolved, skipped)
      else (inject, unresolved, skipped @ [c @ ''.'' @ k]))"

definition last_observations :: "store option \<Rightarrow> observations" where
  "last_observations st =
     (case st of
        None \<Rightarrow> ([], [], [])
      | Some s \<Rightarrow>
          (case foldl record_fact ([], [], []) (recorded s) of
             (inject, unresolved, skipped) \<Rightarrow> (inject, unresolved, sort skipped)))"

text \<open>
  The scenario \<open>RecordIncident\<close> writes, and the facts it could not express; \<open>None\<close> is \<open>ErrNoFacts\<close>.
  Its description and the file around it are not modelled.
\<close>

definition record_incident ::
    "int \<Rightarrow> model \<Rightarrow> registry \<Rightarrow> string \<Rightarrow> string \<Rightarrow> store option \<Rightarrow> (sim_scenario \<times> string list) option" where
  "record_incident now m r ident description st =
     (case last_observations st of
        (inject, unresolved, skipped) \<Rightarrow>
          if inject = [] \<and> unresolved = [] \<and> skipped = [] then None
          else (let sc = \<lparr>sn_name = ident, sn_description = description, sn_entry = [], sn_inject = inject,
                          sn_unresolved = unresolved, sn_expect = no_expectation, sn_unenumerated = False\<rparr>;
                    actual = rs_actual (run_scenario now m r sc)
                in Some (sc\<lparr>sn_expect := no_expectation\<lparr>ex_root_cause := ex_root_cause actual,
                     ex_eliminated := ex_eliminated actual, ex_cannot_rule_out := ex_cannot_rule_out actual,
                     ex_degraded := ex_degraded actual\<rparr>\<rparr>, skipped)))"

subsection \<open>What a comparison asks for\<close>

lemma ordered_loop_subseq: "i < length sub \<Longrightarrow> ordered_loop sub i seq \<longleftrightarrow> subseq (drop i sub) seq"
proof (induction sub i seq rule: ordered_loop.induct)
  case (1 sub i)
  then show ?case by simp
next
  case (2 sub i s seq)
  have d: "drop i sub = sub ! i # drop (i + 1) sub" using 2(3) by (simp add: Cons_nth_drop_Suc)
  show ?case
  proof (cases "s = sub ! i")
    case True
    with 2 d show ?thesis by (cases "i + 1 = length sub") simp_all
  next
    case False
    with 2 d show ?thesis by simp
  qed
qed

lemma ordered_subsequence_iff: "is_ordered_subsequence sub seq \<longleftrightarrow> subseq sub seq"
  using ordered_loop_subseq [of 0 sub seq] by (auto simp: is_ordered_subsequence_def)

lemma is_subset_iff: "is_subset sub super \<longleftrightarrow> set sub \<subseteq> set super"
  by (auto simp: is_subset_def list_all_iff)

lemma matches_simp:
  "matches e a \<longleftrightarrow>
     ex_root_cause e = ex_root_cause a \<and> subseq (ex_path e) (ex_path a) \<and> set (ex_eliminated e) \<subseteq> set (ex_eliminated a) \<and>
     set (ex_degraded e) \<subseteq> set (ex_degraded a) \<and> set (ex_cannot_rule_out e) \<subseteq> set (ex_cannot_rule_out a) \<and>
     set (ex_not_eliminated e) \<inter> set (ex_eliminated a) = {}"
  by (auto simp: matches_def ordered_subsequence_iff is_subset_iff list_ex_iff)

lemma extract_eliminated:
  "c \<in> set (ex_eliminated (extract_conclusion t)) \<longleftrightarrow>
     (\<exists>p\<in>set (tr_eliminated t). c \<in> set (pt_components p)) \<and> (\<forall>p\<in>set (tr_paths t). c \<notin> set (pt_components p))"
  by (simp add: extract_conclusion_def eliminated_only_iff)

lemma extract_fields:
  "ex_root_cause (extract_conclusion t) = (if tr_root_cause t = [] then ''none'' else tr_root_cause t)"
  "set (ex_degraded (extract_conclusion t)) = dg_component ` set (tr_degraded t)"
  "set (ex_cannot_rule_out (extract_conclusion t)) = us_component ` set (tr_cannot_rule_out t)"
  by (simp_all add: extract_conclusion_def)

text \<open>
  C30: A scenario passes exactly when its entry, if it names one, is a component, and of what the engine
  concludes from its facts: the root cause is the one expected; the path expected lies along the first
  surviving path that ends there; what is expected eliminated lies on an eliminated path and on no
  surviving one, and nothing that must stay in play does; and the components expected degraded or
  undecided are reported.
\<close>

theorem run_passes_iff:
  "rs_pass (run_scenario now m r sc) \<longleftrightarrow>
     (sn_entry sc = [] \<or> component_of m (sn_entry sc) \<noteq> None) \<and>
     (let t = conclude m r (scenario_store now sc) (sn_entry sc); e = sn_expect sc;
          gone = (\<lambda>c. (\<exists>p\<in>set (tr_eliminated t). c \<in> set (pt_components p)) \<and>
                      (\<forall>p\<in>set (tr_paths t). c \<notin> set (pt_components p)))
      in ex_root_cause e = (if tr_root_cause t = [] then ''none'' else tr_root_cause t) \<and>
         subseq (ex_path e) (ex_path (extract_conclusion t)) \<and>
         (\<forall>c\<in>set (ex_eliminated e). gone c) \<and> (\<forall>c\<in>set (ex_not_eliminated e). \<not> gone c) \<and>
         set (ex_degraded e) \<subseteq> dg_component ` set (tr_degraded t) \<and>
         set (ex_cannot_rule_out e) \<subseteq> us_component ` set (tr_cannot_rule_out t))"
proof (cases "sn_entry sc \<noteq> [] \<and> component_of m (sn_entry sc) = None")
  case True
  then show ?thesis by (simp add: run_scenario_def)
next
  case False
  define t where "t = conclude m r (scenario_store now sc) (sn_entry sc)"
  have "rs_pass (run_scenario now m r sc) \<longleftrightarrow> matches (sn_expect sc) (extract_conclusion t)"
    unfolding run_scenario_def if_not_P [OF False] Let_def t_def by simp
  moreover have "sn_entry sc = [] \<or> component_of m (sn_entry sc) \<noteq> None" using False by auto
  ultimately show ?thesis
    unfolding Let_def t_def [symmetric] matches_simp extract_eliminated [symmetric] extract_fields by blast
qed

subsection \<open>Maps of maps\<close>

lemma entry_at_put: "entry_at (put_at c k v d) c' k' = (if c' = c \<and> k' = k then Some v else entry_at d c' k')"
  by (auto simp: entry_at_def put_at_def update_conv split: option.splits)

lemma wf_dict2_put: "wf_dict2 d \<Longrightarrow> wf_dict2 (put_at c k v d)"
proof -
  assume d: "wf_dict2 d"
  have "wf_dict (case map_of d c of None \<Rightarrow> [] | Some kvs \<Rightarrow> kvs)"
    using d by (auto simp: wf_dict2_def wf_dict_def split: option.splits dest: map_of_SomeD)
  then have inner: "wf_dict (AList.update k v (case map_of d c of None \<Rightarrow> [] | Some kvs \<Rightarrow> kvs))"
    by (simp add: wf_dict_def keys_def distinct_update)
  have outer: "wf_dict (put_at c k v d)"
    using d by (simp add: wf_dict2_def wf_dict_def keys_def put_at_def distinct_update)
  moreover have "wf_dict kvs" if "(c', kvs) \<in> set (put_at c k v d)" for c' kvs
  proof -
    have "map_of (put_at c k v d) c' = Some kvs" using that outer by (simp add: map_of_wf_dict)
    then show ?thesis
      using inner d by (auto simp: put_at_def update_conv wf_dict2_def split: if_splits dest: map_of_SomeD)
  qed
  ultimately show ?thesis by (auto simp: wf_dict2_def)
qed

lemma wf_dict2_Nil [simp]: "wf_dict2 []"
  by (simp add: wf_dict2_def wf_dict_def)

lemma entry_at_Nil [simp]: "entry_at [] c k = None"
  by (simp add: entry_at_def)

text \<open>The last record of a fact among those a well-formed map of maps appends.\<close>

lemma find_last_append: "find_last P (xs @ ys) = (case find_last P ys of None \<Rightarrow> find_last P xs | r \<Rightarrow> r)"
  by (auto simp: find_last_def find_append split: option.splits)

lemma find_last_entries:
  assumes "wf_dict kvs" and "\<And>k v. f_key (mk k v) = k"
  shows "find_last (\<lambda>(c', f). c' = c \<and> f_key f = k) (map (\<lambda>(k, v). (c0, mk k v)) kvs) =
     (if c0 = c then map_option (\<lambda>v. (c, mk k v)) (map_of kvs k) else None)"
  using assms(1)
proof (induction kvs rule: rev_induct)
  case Nil
  then show ?case by simp
next
  case (snoc p kvs)
  have "wf_dict kvs" "fst p \<notin> set (keys kvs)" using snoc(2) by (auto simp: wf_dict_def keys_def)
  moreover have "map_of kvs k = None" if "k = fst p" using that calculation(2) by (simp add: set_keys domIff)
  ultimately show ?case using snoc(1)
    by (cases p) (auto simp: assms(2) map_add_def split: option.splits)
qed

lemma find_last_entries2:
  assumes "wf_dict d" and "\<And>kvs. map_of d c = Some kvs \<Longrightarrow> wf_dict kvs" and key: "\<And>k v. f_key (mk k v) = k"
  shows "find_last (\<lambda>(c', f). c' = c \<and> f_key f = k) (concat (map (\<lambda>(c, kvs). map (\<lambda>(k, v). (c, mk k v)) kvs) d)) =
     map_option (\<lambda>v. (c, mk k v)) (entry_at d c k)"
  using assms(1,2)
proof (induction d)
  case Nil
  then show ?case by simp
next
  case (Cons p d)
  obtain c0 kvs where p: "p = (c0, kvs)" by (cases p)
  have wf: "wf_dict d" "map_of d c0 = None"
    using Cons(2) by (auto simp: p wf_dict_def keys_def map_of_eq_None_iff)
  show ?case
  proof (cases "c0 = c")
    case True
    then have "wf_dict kvs" using Cons(3) by (simp add: p)
    then show ?thesis
      using True Cons(1) [OF wf(1)] wf(2) find_last_entries [of kvs mk c k c0, OF _ key]
      by (auto simp: p find_last_append entry_at_def split: option.splits)
  next
    case False
    then have "find_last (\<lambda>(c', f). c' = c \<and> f_key f = k) (map (\<lambda>(k, v). (c0, mk k v)) kvs) = None"
      by (auto simp: find_last_None_iff)
    then show ?thesis
      using False Cons(1) [OF wf(1)] Cons(3)
      by (auto simp: p find_last_append entry_at_def split: option.splits)
  qed
qed

lemma wf_dict2D: "wf_dict2 d \<Longrightarrow> wf_dict d" "wf_dict2 d \<Longrightarrow> map_of d c = Some kvs \<Longrightarrow> wf_dict kvs"
  by (auto simp: wf_dict2_def dest: map_of_SomeD)

subsection \<open>What the checks accept\<close>

lemma check_statuses_None:
  "check_statuses inject c kvs = None \<longleftrightarrow>
     (\<forall>(k, status)\<in>set kvs. unresolved_status status \<noteq> None \<and> entry_at inject c k = None)"
  by (induction inject c kvs rule: check_statuses.induct) auto

lemma check_components_None:
  "check_components inject d = None \<longleftrightarrow> (\<forall>(c, kvs)\<in>set d. check_statuses inject c kvs = None)"
  by (induction inject d rule: check_components.induct) (auto split: option.splits)

lemma entry_at_normalised:
  "entry_at (normalise_inject conv d) c k = map_option (map_option (normalise_value conv)) (entry_at d c k)"
proof -
  have inner: "map_of (map (\<lambda>(k, v). (k, g v)) kvs) k = map_option g (map_of kvs k)" for kvs and g :: "'b \<Rightarrow> 'c"
    by (induction kvs) auto
  show ?thesis by (induction d) (auto simp: normalise_inject_def entry_at_def inner)
qed

definition well_stated :: "sim_scenario \<Rightarrow> bool" where
  "well_stated sc \<longleftrightarrow>
     (\<forall>(c, kvs)\<in>set (sn_unresolved sc). \<forall>(k, status)\<in>set kvs.
        status \<in> {''not_found'', ''forbidden'', ''transient''} \<and> entry_at (sn_inject sc) c k = None)"

lemma check_unresolved_None: "check_unresolved sc = None \<longleftrightarrow> well_stated sc"
proof -
  have "unresolved_status s \<noteq> None \<longleftrightarrow> s \<in> {''not_found'', ''forbidden'', ''transient''}" for s
    by (simp add: unresolved_status_def)
  then show ?thesis
    by (simp only: check_unresolved_def check_components_None check_statuses_None well_stated_def)
qed

lemma well_stated_normalised: "well_stated (sc\<lparr>sn_inject := normalise_inject conv (sn_inject sc)\<rparr>) = well_stated sc"
  by (simp add: well_stated_def entry_at_normalised)

text \<open>
  A decoded scenario is accepted exactly when every outcome it leaves unresolved is one a probe can
  have and no fact is given both a value and such an outcome; accepting it changes the injected values
  only, and of those only whole floats, which become integers.
\<close>

theorem finish_accepts_iff:
  "finish_scenario conv sc = Inr sc' \<longleftrightarrow>
     well_stated sc \<and> sc' = sc\<lparr>sn_inject := normalise_inject conv (sn_inject sc)\<rparr>"
  using check_unresolved_None [of "sc\<lparr>sn_inject := normalise_inject conv (sn_inject sc)\<rparr>"]
  unfolding well_stated_normalised finish_scenario_def Let_def by (auto split: option.splits)

subsection \<open>What a run's store holds\<close>

lemma key_sim_fact [simp]: "f_key (sim_fact now k v st) = k" "f_value (sim_fact now k v st) = v"
    "f_status (sim_fact now k v st) = st"
  by (simp_all add: sim_fact_def)

lemma latest_new [simp]: "latest new_in_memory c k = None"
  by (simp add: latest_def facts_for_def new_in_memory_def)

lemma scenario_store_eq:
  "scenario_store now sc =
     log.add_all new_in_memory (injected_facts now (sn_inject sc) @ unresolved_facts now (sn_unresolved sc))"
  by (simp add: scenario_store_def log.add_all_def)

lemma latest_scenario_store:
  assumes "wf_dict (sn_inject sc)" and "\<And>kvs. map_of (sn_inject sc) c = Some kvs \<Longrightarrow> wf_dict kvs"
    and "wf_dict2 (sn_unresolved sc)"
  shows "latest (scenario_store now sc) c k =
     (case entry_at (sn_unresolved sc) c k of
        Some s \<Rightarrow> Some (sim_fact now k None (case unresolved_status s of None \<Rightarrow> Normal | Some st \<Rightarrow> st))
      | None \<Rightarrow> map_option (\<lambda>v. sim_fact now k v Normal) (entry_at (sn_inject sc) c k))"
proof -
  let ?P = "\<lambda>(c', f). c' = c \<and> f_key f = k"
  have i: "find_last ?P (injected_facts now (sn_inject sc)) =
      map_option (\<lambda>v. (c, sim_fact now k v Normal)) (entry_at (sn_inject sc) c k)"
    unfolding injected_facts_def
    by (rule find_last_entries2 [where mk = "\<lambda>k v. sim_fact now k v Normal", OF assms(1,2)]) simp_all
  have u: "find_last ?P (unresolved_facts now (sn_unresolved sc)) =
      map_option (\<lambda>s. (c, sim_fact now k None (case unresolved_status s of None \<Rightarrow> Normal | Some st \<Rightarrow> st)))
        (entry_at (sn_unresolved sc) c k)"
    unfolding unresolved_facts_def
    by (rule find_last_entries2
          [where mk = "\<lambda>k s. sim_fact now k None (case unresolved_status s of None \<Rightarrow> Normal | Some st \<Rightarrow> st)", OF wf_dict2D [OF assms(3)]]) simp_all
  show ?thesis
    by (auto simp: scenario_store_eq log.newest_add_all find_last_append i u split: option.splits)
qed

subsection \<open>What a recording holds\<close>

lemma map_of_latest_records: "map_of (latest_records fs) k = find_last (\<lambda>f. f_key f = k) fs"
  by (induction fs rule: rev_induct) (auto simp: latest_records_def update_conv)

lemma wf_latest_records: "wf_dict (latest_records fs)"
proof -
  have "distinct (map fst (foldl (\<lambda>m f. AList.update (f_key f) f m) m fs))"
    if "distinct (map fst m)" for m :: "obs_fact dict"
    using that by (induction fs arbitrary: m) (auto simp: distinct_update)
  then show ?thesis by (simp add: wf_dict_def keys_def latest_records_def)
qed

definition place :: "string \<times> string \<times> obs_fact \<Rightarrow> string \<times> string" where
  "place p = (fst p, fst (snd p))"

lemma recorded_latest: "(c, k, f) \<in> set (recorded s) \<longleftrightarrow> latest s c k = Some f"
proof -
  have "(c, k, f) \<in> set (recorded s) \<longleftrightarrow> c \<in> set (all_components s) \<and> latest s c k = Some f"
    using map_of_wf_dict [OF wf_latest_records, of k f "facts_for s c"]
    by (auto simp: recorded_def map_of_latest_records latest_def)
  moreover have "c \<in> set (all_components s)" if "latest s c k = Some f"
    using that by (auto simp: latest_def facts_for_def all_components_def map_of_in_keys split: option.splits)
  ultimately show ?thesis by blast
qed

lemma recorded_distinct: "wf_dict (st_facts s) \<Longrightarrow> distinct (map place (recorded s))"
proof -
  assume "wf_dict (st_facts s)"
  then have "distinct (all_components s)" by (simp add: wf_dict_def all_components_def)
  moreover have "distinct (map place (concat (map (\<lambda>c. map (Pair c) (latest_records (facts_for s c))) cs)))"
    if "distinct cs" for cs
    using that
  proof (induction cs)
    case Nil
    then show ?case by simp
  next
    case (Cons c cs)
    have "map (place \<circ> Pair c) (latest_records (facts_for s c)) = map (Pair c) (keys (latest_records (facts_for s c)))"
      by (simp add: place_def keys_def)
    moreover have "distinct (map (Pair c) (keys (latest_records (facts_for s c))))"
      using wf_latest_records by (simp add: distinct_map wf_dict_def inj_on_def)
    moreover have "Pair c ` A \<inter> place ` (\<Union>c'\<in>set cs. Pair c' ` B c') = {}" for A and B :: "string \<Rightarrow> (string \<times> obs_fact) set"
      using Cons(2) by (auto simp: place_def)
    ultimately show ?case using Cons by simp
  qed
  ultimately show ?thesis by (simp add: recorded_def)
qed

definition recorded_status :: "obs_fact \<Rightarrow> fact_status option" where
  "recorded_status f = (if f_value f = None then unresolved_status (status_text (f_status f)) else None)"

lemma record_facts:
  assumes "distinct (map place L)"
  shows "\<exists>inject unresolved skipped. foldl record_fact ([], [], []) L = (inject, unresolved, skipped) \<and>
    wf_dict2 inject \<and> wf_dict2 unresolved \<and>
    (\<forall>c k v. entry_at inject c k = Some v \<longleftrightarrow> (\<exists>f. (c, k, f) \<in> set L \<and> f_value f \<noteq> None \<and> v = f_value f)) \<and>
    (\<forall>c k s. entry_at unresolved c k = Some s \<longleftrightarrow>
       (\<exists>f. (c, k, f) \<in> set L \<and> recorded_status f \<noteq> None \<and> s = status_text (f_status f))) \<and>
    set skipped = {c @ ''.'' @ k | c k f. (c, k, f) \<in> set L \<and> f_value f = None \<and> recorded_status f = None}"
  using assms
proof (induction L rule: rev_induct)
  case Nil
  then show ?case by simp
next
  case (snoc p L)
  obtain c0 k0 f0 where p: "p = (c0, k0, f0)" by (cases p)
  have fresh: "(c0, k0, f) \<notin> set L" for f
    using snoc(2) by (force simp: p place_def)
  obtain i u sk where IH: "foldl record_fact ([], [], []) L = (i, u, sk)" "wf_dict2 i" "wf_dict2 u"
    "\<And>c k v. entry_at i c k = Some v \<longleftrightarrow> (\<exists>f. (c, k, f) \<in> set L \<and> f_value f \<noteq> None \<and> v = f_value f)"
    "\<And>c k s. entry_at u c k = Some s \<longleftrightarrow>
       (\<exists>f. (c, k, f) \<in> set L \<and> recorded_status f \<noteq> None \<and> s = status_text (f_status f))"
    "set sk = {c @ ''.'' @ k | c k f. (c, k, f) \<in> set L \<and> f_value f = None \<and> recorded_status f = None}"
    using snoc by auto
  consider (val) "f_value f0 \<noteq> None" | (status) "f_value f0 = None" "recorded_status f0 \<noteq> None"
    | (none) "f_value f0 = None" "recorded_status f0 = None" by blast
  then show ?case
  proof cases
    case val
    then show ?thesis
      using IH fresh by (auto simp: p entry_at_put wf_dict2_put recorded_status_def)
  next
    case status
    then show ?thesis
      using IH fresh by (auto simp: p entry_at_put wf_dict2_put recorded_status_def)
  next
    case none
    then show ?thesis
      using IH fresh by (auto simp: p recorded_status_def)
  qed
qed

subsection \<open>A recorded incident replays\<close>

lemma last_observations_entries:
  assumes "wf_dict (st_facts s)" and "last_observations (Some s) = (inject, unresolved, skipped)"
  shows "wf_dict2 inject" and "wf_dict2 unresolved"
    and "entry_at inject c k = Some v \<longleftrightarrow> (\<exists>f. latest s c k = Some f \<and> f_value f \<noteq> None \<and> v = f_value f)"
    and "entry_at unresolved c k = Some t \<longleftrightarrow>
       (\<exists>f. latest s c k = Some f \<and> recorded_status f \<noteq> None \<and> t = status_text (f_status f))"
proof -
  obtain sk where loop: "foldl record_fact ([], [], []) (recorded s) = (inject, unresolved, sk)"
    using assms(2) by (auto simp: last_observations_def split: prod.splits)
  note all = record_facts [OF recorded_distinct [OF assms(1)]]
  show "wf_dict2 inject" "wf_dict2 unresolved" using all loop by auto
  show "entry_at inject c k = Some v \<longleftrightarrow> (\<exists>f. latest s c k = Some f \<and> f_value f \<noteq> None \<and> v = f_value f)"
    using all loop by (auto simp: recorded_latest)
  show "entry_at unresolved c k = Some t \<longleftrightarrow>
       (\<exists>f. latest s c k = Some f \<and> recorded_status f \<noteq> None \<and> t = status_text (f_status f))"
    using all loop by (auto simp: recorded_latest)
qed

lemma option_ext: "(\<And>v. x = Some v \<longleftrightarrow> y = Some v) \<Longrightarrow> x = y"
  by (cases x) (auto intro: sym)

lemma status_text_unresolved: "unresolved_status t = Some st \<Longrightarrow> status_text st = t"
  by (auto simp: unresolved_status_def split: if_splits)

text \<open>The latest record of a fact, as it comes back: \<open>None\<close> for one a scenario cannot express.\<close>

definition replayed :: "int \<Rightarrow> obs_fact \<Rightarrow> obs_fact option" where
  "replayed now f =
     (if f_value f \<noteq> None then Some (sim_fact now (f_key f) (f_value f) Normal)
      else map_option (sim_fact now (f_key f) None) (recorded_status f))"

lemma latest_replayed:
  assumes wf: "wf_dict (st_facts s)" and obs: "last_observations (Some s) = (sn_inject sc, sn_unresolved sc, skipped)"
  shows "latest (scenario_store now sc) c k = Option.bind (latest s c k) (replayed now)"
proof -
  note e = last_observations_entries [OF wf obs]
  have i: "entry_at (sn_inject sc) c k = (case latest s c k of None \<Rightarrow> None | Some f \<Rightarrow> if f_value f \<noteq> None then Some (f_value f) else None)"
    by (rule option_ext) (auto simp: e(3) split: option.splits if_splits)
  have u: "entry_at (sn_unresolved sc) c k = (case latest s c k of None \<Rightarrow> None | Some f \<Rightarrow>
      if recorded_status f \<noteq> None then Some (status_text (f_status f)) else None)"
    by (rule option_ext) (auto simp: e(4) split: option.splits if_splits)
  have key: "f_key f = k" if "latest s c k = Some f" for f
    using that by (auto simp: latest_def dest: find_last_SomeD)
  show ?thesis
    by (cases "latest s c k")
      (auto simp: latest_scenario_store [OF wf_dict2D [OF e(1)] e(2)] i u replayed_def recorded_status_def key split: option.splits)
qed

text \<open>
  C13: The scenario recorded from an incident passes when it is run, and in its store every fact has
  the value it last had in the incident; one that last had no value keeps the outcome of its probe,
  unless a scenario has no word for it.
\<close>

theorem record_incident_replays:
  assumes "wf_dict (st_facts s)" and "record_incident now m r ident description (Some s) = Some (sc, skipped)"
  shows "rs_pass (run_scenario now m r sc) \<and>
    lookup_value (scenario_store now sc) = lookup_value s \<and>
    latest (scenario_store now sc) c k = Option.bind (latest s c k) (replayed now)"
proof -
  obtain i u sk where obs: "last_observations (Some s) = (i, u, sk)" by (cases "last_observations (Some s)")
  define sc0 where "sc0 = \<lparr>sn_name = ident, sn_description = description, sn_entry = [], sn_inject = i,
     sn_unresolved = u, sn_expect = no_expectation, sn_unenumerated = False\<rparr>"
  define a where "a = rs_actual (run_scenario now m r sc0)"
  have eq: "sc = sc0\<lparr>sn_expect := no_expectation\<lparr>ex_root_cause := ex_root_cause a, ex_eliminated := ex_eliminated a,
      ex_cannot_rule_out := ex_cannot_rule_out a, ex_degraded := ex_degraded a\<rparr>\<rparr>" "sk = skipped"
    using assms(2) unfolding record_incident_def obs prod.case Let_def sc0_def [symmetric] a_def [symmetric]
    by (simp_all split: if_splits)
  have sc: "sn_inject sc = i" "sn_unresolved sc = u" "sn_entry sc = []" "sn_entry sc0 = []"
    unfolding eq(1) by (simp_all add: sc0_def)
  have store: "scenario_store now sc = scenario_store now sc0"
    unfolding eq(1) by (simp add: scenario_store_def)
  have latest: "latest (scenario_store now sc) c k = Option.bind (latest s c k) (replayed now)" for c k
    using latest_replayed [OF assms(1), of sc sk] obs sc by simp
  have "lookup_value (scenario_store now sc) c k = lookup_value s c k" for c k
    by (cases "latest s c k") (auto simp: lookup_value_def latest replayed_def split: option.splits)
  moreover have "rs_pass (run_scenario now m r sc)"
    unfolding run_scenario_def sc(3) store Let_def
    by (simp add: eq(1) a_def run_scenario_def sc(4) Let_def matches_simp no_expectation_def)
  ultimately show ?thesis using latest by auto
qed

text \<open>A database that answered once and whose resource is gone since.\<close>

definition ex_gone :: store where
  "ex_gone = foldl (\<lambda>s (v, st). append_fact s ''db'' (ex_fact ''up'' v st)) new_in_memory
     [(Some (VBool True), Normal), (None, NotFound)]"

definition ex_gone_scenario :: sim_scenario where
  "ex_gone_scenario = \<lparr>sn_name = ''inc'', sn_description = [], sn_entry = [], sn_inject = [],
     sn_unresolved = [(''db'', [(''up'', ''not_found'')])], sn_expect = no_expectation, sn_unenumerated = False\<rparr>"

lemma ex_gone_observed: "last_observations (Some ex_gone) = ([], [(''db'', [(''up'', ''not_found'')])], [])"
  by (simp add: last_observations_def recorded_def ex_gone_def append_fact_def facts_for_def new_in_memory_def
      all_components_def latest_records_def ex_fact_def unresolved_status_def put_at_def)

lemma ex_gone_recorded:
  "\<exists>e. record_incident now m r ''inc'' [] (Some ex_gone) = Some (ex_gone_scenario\<lparr>sn_expect := e\<rparr>, [])"
  by (simp add: record_incident_def ex_gone_observed Let_def ex_gone_scenario_def)

theorem record_incident_replays_witness:
  "\<exists>sc. record_incident 0 (ex_model []) ex_registry ''inc'' [] (Some ex_gone) = Some (sc, []) \<and>
     rs_pass (run_scenario 0 (ex_model []) ex_registry sc) \<and> lookup_value (scenario_store 0 sc) = lookup_value ex_gone"
proof -
  obtain e where e: "record_incident 0 (ex_model []) ex_registry ''inc'' [] (Some ex_gone) =
      Some (ex_gone_scenario\<lparr>sn_expect := e\<rparr>, [])"
    using ex_gone_recorded by blast
  have "wf_dict (st_facts ex_gone)"
    by (simp add: ex_gone_def append_fact_def facts_for_def new_in_memory_def wf_dict_def)
  from record_incident_replays [OF this e] e show ?thesis by blast
qed

text \<open>
  A recording keeps the latest record of each fact, and the engine reads more: that the fact had a
  value before keeps its component from counting as gone. So an incident in which the database's
  verdict is unknown is recorded as a scenario in which the database is broken.
\<close>

theorem recording_loses_history:
  "\<exists>sc. record_incident now m r ''inc'' [] (Some ex_gone) = Some (sc, []) \<and>
     component_verdict (ex_model [ex_component ''db'' ''svc'' []]) ex_registry (scenario_store now sc) ''db'' = Unhealthy \<and>
     component_verdict (ex_model [ex_component ''db'' ''svc'' []]) ex_registry ex_gone ''db'' = Unknown"
proof -
  obtain e where e: "record_incident now m r ''inc'' [] (Some ex_gone) = Some (ex_gone_scenario\<lparr>sn_expect := e\<rparr>, [])"
    using ex_gone_recorded by blast
  have "is_absent (scenario_store now (ex_gone_scenario\<lparr>sn_expect := e\<rparr>)) ''db''"
    by (simp add: is_absent_iff scenario_store_def injected_facts_def unresolved_facts_def ex_gone_scenario_def
        unresolved_status_def facts_for_def new_in_memory_def append_fact_def)
  then have 1: "component_verdict (ex_model [ex_component ''db'' ''svc'' []]) ex_registry
      (scenario_store now (ex_gone_scenario\<lparr>sn_expect := e\<rparr>)) ''db'' = Unhealthy"
    by (simp add: component_verdict_def ex_model_def ex_component_def)
  have "\<not> is_absent ex_gone ''db''" "lookup_value ex_gone ''db'' ''up'' = None"
    by (simp_all add: ex_gone_def ex_store_simps)
  moreover have "component_of (ex_model [ex_component ''db'' ''svc'' []]) ''db'' = Some (ex_component ''db'' ''svc'' [])"
    by (simp add: ex_model_def ex_component_def)
  ultimately have 2: "component_verdict (ex_model [ex_component ''db'' ''svc'' []]) ex_registry ex_gone ''db'' = Unknown"
    by (simp add: ex_verdict eval_predicate_def engine_ctx_def eval_cmp_def)
  from e 1 2 show ?thesis by blast
qed

text \<open>The scenario recorded from it, expecting the database as the root cause and \<open>web\<close> out of play.\<close>

definition ex_db_gone :: sim_scenario where
  "ex_db_gone = ex_gone_scenario\<lparr>sn_expect := no_expectation\<lparr>ex_root_cause := ''db'', ex_path := [''db''],
     ex_not_eliminated := [''db'']\<rparr>\<rparr>"

theorem run_passes_iff_witness:
  "let t = conclude (ex_model [ex_component ''db'' ''svc'' []]) ex_registry (scenario_store 0 ex_db_gone) []
   in tr_root_cause t = ''db'' \<and> ex_path (extract_conclusion t) = [''db'']"
proof -
  define t where "t = conclude (ex_model [ex_component ''db'' ''svc'' []]) ex_registry (scenario_store 0 ex_db_gone) []"
  have entry: "sn_entry ex_db_gone = []" by (simp add: ex_db_gone_def ex_gone_scenario_def)
  have expect: "ex_root_cause (sn_expect ex_db_gone) = ''db''" by (simp add: ex_db_gone_def)
  have "rs_pass (run_scenario 0 (ex_model [ex_component ''db'' ''svc'' []]) ex_registry ex_db_gone)" by code_simp
  then have "tr_root_cause t = ''db''"
    using run_passes_iff [of 0 "ex_model [ex_component ''db'' ''svc'' []]" ex_registry ex_db_gone]
    unfolding entry Let_def t_def [symmetric] expect by (auto split: if_splits)
  moreover have "ex_path (extract_conclusion t) = [''db'']" unfolding t_def by code_simp
  ultimately show ?thesis unfolding Let_def t_def by blast
qed

theorem finish_accepts_iff_witness:
  "finish_scenario (\<lambda>_. 0) ex_db_gone = Inr ex_db_gone"
proof -
  have "well_stated ex_db_gone" by code_simp
  moreover have "ex_db_gone\<lparr>sn_inject := normalise_inject (\<lambda>_. 0) (sn_inject ex_db_gone)\<rparr> = ex_db_gone"
    by (simp add: ex_db_gone_def ex_gone_scenario_def normalise_inject_def)
  ultimately show ?thesis by (simp only: finish_accepts_iff)
qed

end
