(* ===== verification/Synth.thy ===== *)
theory Synth
  imports Simulate
begin

text \<open>
  \<open>internal/simulate\<close>: facts that put every step of a chain in its state (synth.go), the runs that ask
  whether the strategy finds each scenario's root from them (fromscenarios.go), and the same on
  random prefixes of chains (fuzz.go).

  A store that the code updates in place is passed on; where it returns an error other than a
  cross-state reference the store is unchanged. A message is the value of \<open>sim_outcome\<close> it prints. The
  generator of fuzz.go is the parameter \<open>intn\<close> with its own state.

  The lemmas show that the facts written make each step's predicate true, so that the scenario they
  come from stays live, and that the runs come to an end with a verdict for each scenario.
\<close>

subsection \<open>Facts for a step (synth.go)\<close>

datatype synth_error =
    NotInModel string
  | StepType string resolve_error
  | CrossStateRef

definition resolve_step_type :: "model \<Rightarrow> registry \<Rightarrow> string \<Rightarrow> synth_error + ptype" where
  "resolve_step_type m r cn =
     (case component_of m cn of
        None \<Rightarrow> Inl (NotInModel cn)
      | Some c \<Rightarrow> (case resolve_type c m r of Inl e \<Rightarrow> Inl (StepType cn e) | Inr (t, _) \<Rightarrow> Inr t))"

definition synth_fact :: "string \<Rightarrow> string \<Rightarrow> val \<Rightarrow> obs_fact" where
  "synth_fact collector k v =
     \<lparr>f_key = k, f_value = Some v, f_collector = collector, f_at = 0, f_note = [], f_raw = [], f_status = Normal\<rparr>"

definition write_synth_facts :: "string \<Rightarrow> val dict \<Rightarrow> string \<Rightarrow> store \<Rightarrow> store" where
  "write_synth_facts cn out collector s = foldl (\<lambda>s (k, v). append_fact s cn (synth_fact collector k v)) s out"

definition synthesize_step :: "(f64 \<Rightarrow> int) \<Rightarrow> model \<Rightarrow> registry \<Rightarrow> step \<Rightarrow> store \<Rightarrow> synth_error + store" where
  "synthesize_step conv m r st s =
     (case resolve_step_type m r (sp_component st) of
        Inl e \<Rightarrow> Inl e
      | Inr t \<Rightarrow>
          (case List.find (\<lambda>d. sd_name d = sp_state st) (ty_states t) of
             None \<Rightarrow> Inr s
           | Some d \<Rightarrow>
               (case sd_when d of
                  None \<Rightarrow> Inr s
                | Some n \<Rightarrow>
                    (case derive_assignments conv (ty_facts t) n True of
                       None \<Rightarrow> Inl CrossStateRef
                     | Some out \<Rightarrow> Inr (write_synth_facts (sp_component st) out ''simulate-synth'' s)))))"

text \<open>Only a cross-state reference ends the loop; another error skips the step.\<close>

fun synthesize_facts_for_steps ::
    "(f64 \<Rightarrow> int) \<Rightarrow> model \<Rightarrow> registry \<Rightarrow> step list \<Rightarrow> store \<Rightarrow> synth_error + store" where
  "synthesize_facts_for_steps conv m r [] s = Inr s"
| "synthesize_facts_for_steps conv m r (st # sts) s =
     (case synthesize_step conv m r st s of
        Inr s' \<Rightarrow> synthesize_facts_for_steps conv m r sts s'
      | Inl CrossStateRef \<Rightarrow> Inl CrossStateRef
      | Inl _ \<Rightarrow> synthesize_facts_for_steps conv m r sts s)"

definition synthesize_facts_for_scenario ::
    "(f64 \<Rightarrow> int) \<Rightarrow> model \<Rightarrow> registry \<Rightarrow> scenario \<Rightarrow> store \<Rightarrow> synth_error + store" where
  "synthesize_facts_for_scenario conv m r sc s = synthesize_facts_for_steps conv m r (sc_chain sc) s"

definition synthesize_probe_answer ::
    "(f64 \<Rightarrow> int) \<Rightarrow> model \<Rightarrow> registry \<Rightarrow> scenario \<Rightarrow> probe \<Rightarrow> store \<Rightarrow> synth_error + store" where
  "synthesize_probe_answer conv m r sc p s =
     (case List.find (\<lambda>st. sp_component st = pb_component p) (sc_chain sc) of
        Some st \<Rightarrow> synthesize_step conv m r st s
      | None \<Rightarrow> Inr (append_fact s (pb_component p) (synth_fact ''simulate-synth'' (pb_fact p) (VStr ''synth-default''))))"

text \<open>One component of \<open>synthesizeActiveStatesForNonChain\<close>.\<close>

definition synthesize_active_state :: "(f64 \<Rightarrow> int) \<Rightarrow> model \<Rightarrow> registry \<Rightarrow> string set \<Rightarrow> store \<Rightarrow> string \<Rightarrow> store" where
  "synthesize_active_state conv m r on_chain s cn =
     (if cn \<in> on_chain then s
      else (case resolve_step_type m r cn of
              Inl _ \<Rightarrow> s
            | Inr t \<Rightarrow>
                if ty_default t = [] then s
                else (case List.find (\<lambda>d. sd_name d = ty_default t \<and> sd_when d \<noteq> None) (ty_states t) of
                        None \<Rightarrow> s
                      | Some d \<Rightarrow>
                          (case Option.bind (sd_when d) (\<lambda>n. derive_assignments conv (ty_facts t) n True) of
                             None \<Rightarrow> s
                           | Some out \<Rightarrow> write_synth_facts cn out ''simulate-synth-active'' s))))"

definition synthesize_active_states :: "(f64 \<Rightarrow> int) \<Rightarrow> model \<Rightarrow> registry \<Rightarrow> scenario \<Rightarrow> store \<Rightarrow> store" where
  "synthesize_active_states conv m r sc s =
     foldl (synthesize_active_state conv m r (sp_component ` set (sc_chain sc))) s (keys (m_components m))"

subsection \<open>Running every scenario (fromscenarios.go)\<close>

datatype sim_outcome =
    Passed
  | WrongRoot "root_ref option"
  | StuckBecause string
  | NoProbe
  | SynthesisFailed synth_error
  | AnswerFailed synth_error
  | NotConverged

text \<open>\<open>Inl\<close> ends the loop; \<open>Inr\<close> is the store with the answer to the probe.\<close>

definition check_scenario_decision ::
    "(f64 \<Rightarrow> int) \<Rightarrow> model \<Rightarrow> registry \<Rightarrow> scenario \<Rightarrow> store \<Rightarrow> decision \<Rightarrow> sim_outcome + store" where
  "check_scenario_decision conv m r sc s d =
     (if dc_done d then
        (case dc_root_cause d of
           None \<Rightarrow> Inl (WrongRoot None)
         | Some found \<Rightarrow>
             if rr_component (sc_root found) \<noteq> rr_component (sc_root sc) \<or> rr_state (sc_root found) \<noteq> rr_state (sc_root sc)
             then Inl (WrongRoot (Some (sc_root found))) else Inl Passed)
      else if dc_stuck d then Inl (StuckBecause (dc_reason d))
      else (case dc_probe d of
              None \<Rightarrow> Inl NoProbe
            | Some p \<Rightarrow>
                (case synthesize_probe_answer conv m r sc p s of
                   Inl e \<Rightarrow> Inl (AnswerFailed e)
                 | Inr s' \<Rightarrow> Inr s')))"

definition sim_input :: "model \<Rightarrow> registry \<Rightarrow> scenario list \<Rightarrow> store \<Rightarrow> strategy_input" where
  "sim_input m r scs s = \<lparr>in_model = m, in_registry = r, in_store = s, in_scenarios = scs, in_graph = None, in_suspects = []\<rparr>"

fun scenario_rounds ::
    "nat \<Rightarrow> (f64 \<Rightarrow> int) \<Rightarrow> model \<Rightarrow> registry \<Rightarrow> scenario list \<Rightarrow> scenario \<Rightarrow> store \<Rightarrow> sim_outcome option" where
  "scenario_rounds 0 conv m r scs sc s = Some NotConverged"
| "scenario_rounds (Suc n) conv m r scs sc s =
     (case suggest_probe Occam (sim_input m r scs s) of
        None \<Rightarrow> None
      | Some d \<Rightarrow>
          (case check_scenario_decision conv m r sc s d of
             Inl res \<Rightarrow> Some res
           | Inr s' \<Rightarrow> scenario_rounds n conv m r scs sc s'))"

definition run_one_scenario ::
    "(f64 \<Rightarrow> int) \<Rightarrow> model \<Rightarrow> registry \<Rightarrow> scenario list \<Rightarrow> scenario \<Rightarrow> sim_outcome option" where
  "run_one_scenario conv m r scs sc =
     (case synthesize_facts_for_scenario conv m r sc new_in_memory of
        Inl e \<Rightarrow> Some (SynthesisFailed e)
      | Inr s \<Rightarrow> scenario_rounds 50 conv m r scs sc (synthesize_active_states conv m r sc s))"

text \<open>The outcome of each scenario, from which the code counts and prints.\<close>

fun run_each ::
    "(f64 \<Rightarrow> int) \<Rightarrow> model \<Rightarrow> registry \<Rightarrow> scenario list \<Rightarrow> scenario list \<Rightarrow> (string \<times> sim_outcome) list option" where
  "run_each conv m r scs [] = Some []"
| "run_each conv m r scs (sc # rest) =
     (case run_one_scenario conv m r scs sc of
        None \<Rightarrow> None
      | Some res \<Rightarrow> map_option (\<lambda>details. (sc_id sc, res) # details) (run_each conv m r scs rest))"

definition run_from_scenarios ::
    "(f64 \<Rightarrow> int) \<Rightarrow> model \<Rightarrow> registry \<Rightarrow> scenario list \<Rightarrow> (nat \<times> nat \<times> (string \<times> sim_outcome) list) option" where
  "run_from_scenarios conv m r scs =
     map_option (\<lambda>details. (length (filter (\<lambda>(i, res). res = Passed) details),
                            length (filter (\<lambda>(i, res). res \<noteq> Passed) details), details))
       (run_each conv m r scs scs)"

subsection \<open>Random prefixes (fuzz.go)\<close>

datatype fuzz_outcome = FuzzPassed | FuzzSynth synth_error | FuzzStuck string

definition fuzz_once ::
    "(f64 \<Rightarrow> int) \<Rightarrow> model \<Rightarrow> registry \<Rightarrow> scenario list \<Rightarrow> scenario \<Rightarrow> nat \<Rightarrow> fuzz_outcome option" where
  "fuzz_once conv m r scs sc truncation =
     (case synthesize_facts_for_steps conv m r (take truncation (sc_chain sc)) new_in_memory of
        Inl e \<Rightarrow> Some (FuzzSynth e)
      | Inr s \<Rightarrow>
          map_option (\<lambda>d. if dc_stuck d then FuzzStuck (dc_reason d) else FuzzPassed)
            (suggest_probe Occam (sim_input m r scs s)))"

fun fuzz_rounds ::
    "('g \<Rightarrow> nat \<Rightarrow> nat \<times> 'g) \<Rightarrow> (f64 \<Rightarrow> int) \<Rightarrow> model \<Rightarrow> registry \<Rightarrow> scenario list \<Rightarrow> nat \<Rightarrow> 'g \<Rightarrow>
     (string \<times> nat \<times> fuzz_outcome) list option" where
  "fuzz_rounds intn conv m r scs 0 g = Some []"
| "fuzz_rounds intn conv m r scs (Suc n) g =
     (let (i, g1) = intn g (length scs); sc = scs ! i;
          (truncation, g2) = (if 0 < length (sc_chain sc) then intn g1 (length (sc_chain sc) + 1) else (0, g1))
      in case fuzz_once conv m r scs sc truncation of
           None \<Rightarrow> None
         | Some res \<Rightarrow>
             map_option (\<lambda>details. (sc_id sc, truncation, res) # details) (fuzz_rounds intn conv m r scs n g2))"

text \<open>No scenario to fuzz is no iteration. The generator comes seeded.\<close>

definition fuzz ::
    "('g \<Rightarrow> nat \<Rightarrow> nat \<times> 'g) \<Rightarrow> (f64 \<Rightarrow> int) \<Rightarrow> model \<Rightarrow> registry \<Rightarrow> scenario list \<Rightarrow> nat \<Rightarrow> 'g \<Rightarrow>
     (nat \<times> nat \<times> (string \<times> nat \<times> fuzz_outcome) list) option" where
  "fuzz intn conv m r scs iterations g =
     (if scs = [] then Some (0, 0, [])
      else map_option (\<lambda>details. (length (filter (\<lambda>(i, n, res). res = FuzzPassed) details),
                                  length (filter (\<lambda>(i, n, res). res \<noteq> FuzzPassed) details), details))
             (fuzz_rounds intn conv m r scs iterations g))"

subsection \<open>What is written\<close>

lemma facts_for_written:
  "facts_for (write_synth_facts cn out col s) c =
     facts_for s c @ (if c = cn then map (\<lambda>(k, v). synth_fact col k v) out else [])"
proof (induction out rule: rev_induct)
  case Nil
  then show ?case by (simp add: write_synth_facts_def)
next
  case (snoc p out)
  then show ?case by (cases p; cases "c = cn") (simp_all add: write_synth_facts_def facts_for_append)
qed

lemma find_last_written:
  "distinct (keys out) \<Longrightarrow>
   find_last (\<lambda>f. f_key f = k) (map (\<lambda>(k, v). synth_fact col k v) out) = map_option (synth_fact col k) (map_of out k)"
proof (induction out rule: rev_induct)
  case Nil
  then show ?case by simp
next
  case (snoc p out)
  then have "distinct (keys out)" "fst p \<notin> set (keys out)" by simp_all
  moreover have "map_of out k = None" if "k = fst p" using that calculation(2) by (simp add: set_keys domIff)
  ultimately show ?case using snoc(1)
    by (cases p) (auto simp: synth_fact_def map_add_def split: option.splits)
qed

lemma knows_written:
  "distinct (keys out) \<Longrightarrow> knows (engine_ctx m r (write_synth_facts cn out col s) states cn) out"
  by (auto simp: knows_def engine_ctx_def lookup_value_def latest_def facts_for_written find_last_append
      find_last_written synth_fact_def)

subsection \<open>The scenario a chain's facts come from stays live\<close>

text \<open>A step whose predicate, if its state has one, can be made true.\<close>

definition step_synthesizable :: "(f64 \<Rightarrow> int) \<Rightarrow> model \<Rightarrow> registry \<Rightarrow> step \<Rightarrow> bool" where
  "step_synthesizable conv m r st \<longleftrightarrow>
     (\<exists>c t owner. component_of m (sp_component st) = Some c \<and> resolve_type c m r = Inr (t, owner) \<and>
        (case Option.bind (List.find (\<lambda>d. sd_name d = sp_state st) (ty_states t)) sd_when of
           None \<Rightarrow> True
         | Some n \<Rightarrow> synthesizable conv (ty_facts t) n \<and> distinct (bound_facts (ty_facts t) n)))"

text \<open>What a store holds of a component after its step: only values, and they make the predicate true.\<close>

definition shows_step :: "model \<Rightarrow> registry \<Rightarrow> step \<Rightarrow> store \<Rightarrow> bool" where
  "shows_step m r st s \<longleftrightarrow>
     (\<forall>f\<in>set (facts_for s (sp_component st)). f_value f \<noteq> None) \<and>
     (\<forall>c t owner d n. component_of m (sp_component st) = Some c \<longrightarrow> resolve_type c m r = Inr (t, owner) \<longrightarrow>
        List.find (\<lambda>d. sd_name d = sp_state st) (ty_states t) = Some d \<longrightarrow> sd_when d = Some n \<longrightarrow>
        eval_predicate m r s (sp_component st) n = Inr True)"

lemma synthesize_step_shows:
  assumes "step_synthesizable conv m r st" and "facts_for s (sp_component st) = []"
  shows "\<exists>s'. synthesize_step conv m r st s = Inr s' \<and> shows_step m r st s' \<and>
    (\<forall>c. c \<noteq> sp_component st \<longrightarrow> facts_for s' c = facts_for s c)"
proof -
  obtain c t owner where c: "component_of m (sp_component st) = Some c" "resolve_type c m r = Inr (t, owner)"
    and pred: "case Option.bind (List.find (\<lambda>d. sd_name d = sp_state st) (ty_states t)) sd_when of
       None \<Rightarrow> True | Some n \<Rightarrow> synthesizable conv (ty_facts t) n \<and> distinct (bound_facts (ty_facts t) n)"
    using assms(1) by (auto simp: step_synthesizable_def)
  show ?thesis
  proof (cases "Option.bind (List.find (\<lambda>d. sd_name d = sp_state st) (ty_states t)) sd_when")
    case None
    then show ?thesis
      using c assms(2) by (auto simp: synthesize_step_def resolve_step_type_def shows_step_def bind_eq_None_conv split: option.splits)
  next
    case (Some n)
    then obtain d where d: "List.find (\<lambda>d. sd_name d = sp_state st) (ty_states t) = Some d" "sd_when d = Some n"
      by (auto simp: bind_eq_Some_conv)
    have "synthesizable conv (ty_facts t) n \<and> distinct (bound_facts (ty_facts t) n)" using pred Some by simp
    then obtain out where out: "derive_assignments conv (ty_facts t) n True = Some out" "distinct (keys out)"
      "\<And>x. knows x out \<Longrightarrow> eval x n = Inr True"
      using derive_assignments_sound_lemma by blast
    let ?s = "write_synth_facts (sp_component st) out ''simulate-synth'' s"
    have "synthesize_step conv m r st s = Inr ?s"
      using c d out(1) by (simp add: synthesize_step_def resolve_step_type_def)
    moreover have "shows_step m r st ?s"
      using c d out(3) [OF knows_written [OF out(2)]] assms(2)
      by (auto simp: shows_step_def facts_for_written synth_fact_def eval_predicate_def)
    ultimately show ?thesis by (auto simp: facts_for_written)
  qed
qed

lemma shows_step_cong:
  assumes "shows_step m r st s" and "facts_for s' (sp_component st) = facts_for s (sp_component st)"
    and "step_synthesizable conv m r st"
  shows "shows_step m r st s'"
proof -
  have "eval_predicate m r s' (sp_component st) n = eval_predicate m r s (sp_component st) n"
    if "synthesizable conv known n" for n known
  proof -
    have own: "fact_reads cn n \<subseteq> {cn} \<times> UNIV" for cn
      using that by (induction n) (auto split: val.splits)
    have "eval ((engine_ctx m r s Map.empty (sp_component st))\<lparr>cx_facts := lookup_value s'\<rparr>) n =
        eval (engine_ctx m r s Map.empty (sp_component st)) n"
      using own [of "sp_component st"] assms(2) by (intro eval_reads_only) (force simp: engine_ctx_def lookup_value_def latest_def)
    then show ?thesis by (simp add: eval_predicate_def engine_ctx_def)
  qed
  with assms show ?thesis
    by (fastforce simp: shows_step_def step_synthesizable_def)
qed

lemma synthesize_steps_show:
  assumes "distinct (map sp_component sts)" and "\<forall>st\<in>set sts. step_synthesizable conv m r st \<and> facts_for s (sp_component st) = []"
  shows "\<exists>s'. synthesize_facts_for_steps conv m r sts s = Inr s' \<and> (\<forall>st\<in>set sts. shows_step m r st s') \<and>
    (\<forall>c. c \<notin> sp_component ` set sts \<longrightarrow> facts_for s' c = facts_for s c)"
  using assms
proof (induction sts arbitrary: s)
  case Nil
  then show ?case by simp
next
  case (Cons st sts)
  obtain s1 where s1: "synthesize_step conv m r st s = Inr s1" "shows_step m r st s1"
      "\<And>c. c \<noteq> sp_component st \<Longrightarrow> facts_for s1 c = facts_for s c"
    using synthesize_step_shows [of conv m r st s] Cons.prems(2) by auto
  have "\<forall>x\<in>set sts. step_synthesizable conv m r x \<and> facts_for s1 (sp_component x) = []"
  proof
    fix x assume x: "x \<in> set sts"
    then have "sp_component x \<noteq> sp_component st" using Cons.prems(1) by (auto simp: image_iff)
    with x show "step_synthesizable conv m r x \<and> facts_for s1 (sp_component x) = []"
      using Cons.prems(2) s1(3) by simp
  qed
  with Cons.IH [of s1] Cons.prems(1) obtain s' where s': "synthesize_facts_for_steps conv m r sts s1 = Inr s'"
      "\<forall>st\<in>set sts. shows_step m r st s'" "\<And>c. c \<notin> sp_component ` set sts \<Longrightarrow> facts_for s' c = facts_for s1 c"
    by auto
  have "facts_for s' (sp_component st) = facts_for s1 (sp_component st)"
    using s'(3) Cons.prems(1) by simp
  then have "shows_step m r st s'"
    using shows_step_cong [OF s1(2), of s' conv] Cons.prems(2) by simp
  then show ?case using s1 s' by (simp add: exI [of _ s'])
qed

lemma shows_step_consistent: "shows_step m r st s \<Longrightarrow> step_consistent m r s st"
proof -
  assume shown: "shows_step m r st s"
  then have "\<not> is_absent s (sp_component st)" if "facts_for s (sp_component st) \<noteq> []"
    using that by (auto simp: is_absent_iff shows_step_def neq_Nil_conv)
  with shown show ?thesis
    by (auto simp: step_consistent_def matched_step_consistent_def shows_step_def split: option.splits sum.splits eval_error.splits)
qed

text \<open>A model without redundancy groups.\<close>

definition no_groups :: "model \<Rightarrow> bool" where
  "no_groups m \<longleftrightarrow> (\<forall>(n, c)\<in>set (m_components m). \<forall>dep\<in>set (c_depends c). dp_need dep \<le> 0)"

lemma no_groups_hold: "no_groups m \<Longrightarrow> satisfied_group m r s parent child = None"
proof -
  assume none: "no_groups m"
  have "group_loop m r s parent child deps = None" if "\<forall>dep\<in>set deps. dp_need dep \<le> 0" for deps
    using that by (induction deps) auto
  with none show ?thesis
    by (auto simp: satisfied_group_def no_groups_def split: option.splits dest!: map_of_SomeD)
qed

lemma live_steps_consistent:
  "no_groups m \<Longrightarrow> \<forall>st\<in>set sts. step_consistent m r s st \<Longrightarrow> live_steps m r s sts"
  by (induction m r s sts rule: live_steps.induct) (simp_all add: no_groups_hold)

lemma prefix_live:
  assumes "distinct (map sp_component (sc_chain sc))" and "\<forall>st\<in>set (sc_chain sc). step_synthesizable conv m r st"
    and "no_groups m"
  shows "\<exists>s. synthesize_facts_for_steps conv m r (take k (sc_chain sc)) new_in_memory = Inr s \<and> is_live m r s sc"
proof -
  have "distinct (map sp_component (take k (sc_chain sc)))" using assms(1) by (simp flip: take_map)
  moreover have "\<forall>st\<in>set (take k (sc_chain sc)). step_synthesizable conv m r st \<and> facts_for new_in_memory (sp_component st) = []"
    using assms(2) by (auto simp: facts_for_def new_in_memory_def dest: in_set_takeD)
  ultimately obtain s where s: "synthesize_facts_for_steps conv m r (take k (sc_chain sc)) new_in_memory = Inr s"
    "\<forall>st\<in>set (take k (sc_chain sc)). shows_step m r st s"
    "\<And>c. c \<notin> sp_component ` set (take k (sc_chain sc)) \<Longrightarrow> facts_for s c = facts_for new_in_memory c"
    using synthesize_steps_show by blast
  have "step_consistent m r s st" if st: "st \<in> set (sc_chain sc)" for st
  proof (cases "st \<in> set (take k (sc_chain sc))")
    case True
    then show ?thesis using s(2) shows_step_consistent by blast
  next
    case False
    have "st \<in> set (drop k (sc_chain sc))"
      using st False by (metis Un_iff append_take_drop_id set_append)
    moreover have "set (map sp_component (take k (sc_chain sc))) \<inter> set (map sp_component (drop k (sc_chain sc))) = {}"
      using assms(1) by (metis append_take_drop_id distinct_append map_append)
    ultimately have "sp_component st \<notin> sp_component ` set (take k (sc_chain sc))" by auto
    then have "facts_for s (sp_component st) = []" using s(3) by (simp add: facts_for_def new_in_memory_def)
    then show ?thesis by (simp add: step_consistent_def)
  qed
  with s(1) assms(3) show ?thesis by (auto simp: is_live_def intro: live_steps_consistent)
qed

text \<open>
  C21: In a model without redundancy groups, a chain that passes through no component twice and whose
  predicates can all be made true is not contradicted by the facts of any of its prefixes: the
  synthesis succeeds and its scenario is live, so the strategy never answers that none is.
\<close>

theorem fuzz_never_contradicts:
  assumes "distinct (map sp_component (sc_chain sc))" and "\<forall>st\<in>set (sc_chain sc). step_synthesizable conv m r st"
    and "no_groups m" and "sc \<in> set scs"
  shows "(\<exists>s. synthesize_facts_for_steps conv m r (take k (sc_chain sc)) new_in_memory = Inr s \<and> is_live m r s sc) \<and>
    fuzz_once conv m r scs sc k \<in> {Some FuzzPassed, Some (FuzzStuck ''chosen scenario fully verified but live set has multiple'')}"
proof -
  obtain s where s: "synthesize_facts_for_steps conv m r (take k (sc_chain sc)) new_in_memory = Inr s" "is_live m r s sc"
    using prefix_live [OF assms(1-3)] by blast
  have "filter_live m r s scs \<noteq> []" using s(2) assms(4) by (auto simp: filter_live_def filter_empty_conv)
  then have "dc_stuck (occam_on_list (sim_input m r scs s)) \<longrightarrow>
      dc_reason (occam_on_list (sim_input m r scs s)) = ''chosen scenario fully verified but live set has multiple''"
    by (auto simp: occam_on_list_def sim_input_def Let_def decision_simps split: list.splits option.splits)
  then show ?thesis
    using s by (auto simp: fuzz_once_def suggest_probe_def occam_suggest_def sim_input_def)
qed

subsection \<open>The runs come to an end\<close>

lemma suggest_on_list: "suggest_probe Occam (sim_input m r scs s) = Some (occam_on_list (sim_input m r scs s))"
  by (simp add: suggest_probe_def occam_suggest_def sim_input_def)

lemma scenario_rounds_end: "\<exists>res. scenario_rounds n conv m r scs sc s = Some res"
  by (induction n arbitrary: s) (auto simp: suggest_on_list split: sum.splits)

lemma run_one_ends: "\<exists>res. run_one_scenario conv m r scs sc = Some res"
  using scenario_rounds_end by (auto simp: run_one_scenario_def split: sum.splits)

lemma run_each_ends: "\<exists>details. run_each conv m r scs rest = Some details \<and> map fst details = map sc_id rest"
proof (induction rest)
  case Nil
  then show ?case by simp
next
  case (Cons sc rest)
  then show ?case using run_one_ends [of conv m r scs sc] by auto
qed

lemma filter_parts: "length (filter P xs) + length (filter (\<lambda>x. \<not> P x) xs) = length xs"
  by (induction xs) auto

text \<open>Running the scenarios ends, with one outcome for each in their order, and counts every one once.\<close>

theorem run_from_scenarios_ends:
  "\<exists>passed failed details. run_from_scenarios conv m r scs = Some (passed, failed, details) \<and>
     passed + failed = length scs \<and> map fst details = map sc_id scs"
proof -
  obtain details where d: "run_each conv m r scs scs = Some details" "map fst details = map sc_id scs"
    using run_each_ends by blast
  have "length details = length scs" using d(2) by (metis length_map)
  then show ?thesis
    using d filter_parts [of "\<lambda>(i, res). res = Passed" details] by (simp add: run_from_scenarios_def split_def)
qed

text \<open>A database whose failure takes its one caller down.\<close>

definition ex_pair :: model where
  "ex_pair = ex_model [ex_component ''web'' ''svc'' [ex_dep [''db'']], ex_component ''db'' ''svc'' []]"

definition ex_pair_chain :: scenario where
  "ex_pair_chain = \<lparr>sc_id = ''s'', sc_root = \<lparr>rr_component = ''db'', rr_state = ''down''\<rparr>,
     sc_chain = [plain_step ''db'' ''down'', plain_step ''web'' ''down'']\<rparr>"

theorem fuzz_never_contradicts_witness:
  "fuzz_once (\<lambda>_. 0) ex_pair ex_registry [ex_pair_chain] ex_pair_chain 1
     \<in> {Some FuzzPassed, Some (FuzzStuck ''chosen scenario fully verified but live set has multiple'')}"
proof -
  have "step_synthesizable (\<lambda>_. 0) ex_pair ex_registry st" if "st \<in> set (sc_chain ex_pair_chain)" for st
  proof -
    have cs: "component_of ex_pair ''db'' = Some (ex_component ''db'' ''svc'' [])"
      "component_of ex_pair ''web'' = Some (ex_component ''web'' ''svc'' [ex_dep [''db'']])"
      by (simp_all add: ex_pair_def ex_model_def ex_component_def)
    have "resolve_type (ex_component n ''svc'' deps) ex_pair ex_registry =
        Inr (ex_type ''svc'' [CmpNode [] ''up'' OpEq (VBool True)]
        [ex_state ''live'' (Some (CmpNode [] ''up'' OpEq (VBool True))) NoVerdict,
         ex_state ''down'' (Some (CmpNode [] ''up'' OpEq (VBool False))) NoVerdict], ''p'')" for n deps
      unfolding ex_pair_def by (rule ex_resolve_type)
    with cs that show ?thesis
      by (auto simp: ex_pair_chain_def step_synthesizable_def plain_step_def ex_type_def ex_state_def can_satisfy_def
          fact_ref_value_def satisfy_bool_def bound_by_def)
  qed
  moreover have "no_groups ex_pair" by code_simp
  moreover have "distinct (map sp_component (sc_chain ex_pair_chain))" by code_simp
  ultimately show ?thesis
    using fuzz_never_contradicts [of ex_pair_chain "\<lambda>_. 0" ex_pair ex_registry "[ex_pair_chain]" 1] by simp
qed

end
