(* ===== verification/Drafts.thy ===== *)
theory Drafts
  imports Simulate
begin

text \<open>
  \<open>internal/simulate/suggest.go\<close>: scenarios drafted from a model's own failure chains, one with every
  component healthy and one per root and root state.

  The memo of \<open>witnesses.find\<close> only spares searches. The generator of the sampled search is the
  parameter \<open>intn\<close> of \<open>Consistency\<close>, \<open>now\<close> the clock of a run. The iteration order of the injected map
  is its order of insertion. Writing a draft as YAML is left out.

  The lemmas show how the chains are grouped and which one is drafted from, that a draft passes when
  it is run, and that in its store the component the failure is rooted at is broken.
\<close>

subsection \<open>Classes of chains\<close>

definition better :: "scenario \<Rightarrow> scenario \<Rightarrow> string \<Rightarrow> bool" where
  "better a b entry =
     (let a_entry = (terminal a = entry); b_entry = (terminal b = entry)
      in if a_entry \<noteq> b_entry then a_entry
         else if a_entry then length (sc_chain a) < length (sc_chain b)
         else length (sc_chain b) < length (sc_chain a))"

record chain_class =
  cl_rep :: scenario
  cl_count :: nat
  cl_reach :: "string set"

fun add_chain :: "string \<Rightarrow> chain_class list \<Rightarrow> scenario \<Rightarrow> chain_class list" where
  "add_chain entry [] s = [\<lparr>cl_rep = s, cl_count = 1, cl_reach = sp_component ` set (sc_chain s)\<rparr>]"
| "add_chain entry (c # cs) s =
     (if sc_root (cl_rep c) = sc_root s
      then \<lparr>cl_rep = (if better s (cl_rep c) entry then s else cl_rep c), cl_count = cl_count c + 1,
            cl_reach = cl_reach c \<union> sp_component ` set (sc_chain s)\<rparr> # cs
      else c # add_chain entry cs s)"

definition classify :: "scenario list \<Rightarrow> string \<Rightarrow> chain_class list" where
  "classify all entry = foldl (add_chain entry) [] all"

text \<open>\<open>below\<close>: what the entry reaches, each component queued when first seen.\<close>

function below_loop :: "model \<Rightarrow> string list \<Rightarrow> string set \<Rightarrow> string set" where
  "below_loop m [] seen = seen"
| "below_loop m (c # queue) seen =
     (let new = dedup_by (\<lambda>d. d) seen (dependencies_of m c)
      in below_loop m (queue @ new) (seen \<union> set new))"
  by pat_completeness auto

termination below_loop
proof (relation "measures [\<lambda>(m, queue, seen). card (all_targets m - seen), \<lambda>(m, queue, seen). length queue]", goal_cases)
  case (2 m c queue seen new)
  have "set new = set (dependencies_of m c) - seen" using 2 by (simp add: set_dedup)
  then have sub: "set new \<subseteq> all_targets m - seen"
    using next_of_subset [of m "\<lambda>_ _. True" c] by (auto simp: dependencies_of_eq)
  show ?case
  proof (cases "new = []")
    case True
    then show ?thesis by simp
  next
    case False
    then obtain x where "x \<in> set new" by (cases new) auto
    with sub have "all_targets m - (seen \<union> set new) \<subset> all_targets m - seen" by blast
    then have "card (all_targets m - (seen \<union> set new)) < card (all_targets m - seen)"
      by (intro psubset_card_mono) simp_all
    then show ?thesis by simp
  qed
qed simp

definition below :: "model \<Rightarrow> string \<Rightarrow> string set" where
  "below m entry = below_loop m [entry] {entry}"

subsection \<open>Facts that show a state\<close>

definition type_of :: "model \<Rightarrow> registry \<Rightarrow> string \<Rightarrow> ptype option" where
  "type_of m r cn =
     (case component_of m cn of
        None \<Rightarrow> None
      | Some c \<Rightarrow> (case resolve_type c m r of Inl _ \<Rightarrow> None | Inr (t, _) \<Rightarrow> Some t))"

type_synonym sampler = "nat list \<Rightarrow> nat \<Rightarrow> nat"

definition find_witness :: "sampler \<Rightarrow> model \<Rightarrow> registry \<Rightarrow> string \<Rightarrow> string \<Rightarrow> bool \<Rightarrow> val dict option" where
  "find_witness intn m r cn st healthy =
     (case (type_of m r cn, component_of m cn) of
        (Some t, Some c) \<Rightarrow> witness intn (healthy_rules c (Some t)) t cn (model_var m (Some r)) st healthy
      | _ \<Rightarrow> None)"

definition failing_facts :: "sampler \<Rightarrow> model \<Rightarrow> registry \<Rightarrow> string \<Rightarrow> string \<Rightarrow> val dict option" where
  "failing_facts intn m r cn st = find_witness intn m r cn st False"

definition healthy_facts :: "sampler \<Rightarrow> model \<Rightarrow> registry \<Rightarrow> string \<Rightarrow> val dict option" where
  "healthy_facts intn m r cn =
     (case type_of m r cn of
        None \<Rightarrow> None
      | Some t \<Rightarrow> if ty_default t = [] then None else find_witness intn m r cn (ty_default t) True)"

subsection \<open>Drafts\<close>

record draft_scenario =
  df_scenario :: sim_scenario
  df_chain :: "scenario option"
  df_count :: nat
  df_review :: string

record drafts =
  dr_drafts :: "draft_scenario list"
  dr_chains :: nat
  dr_unshowable :: "string list"

text \<open>\<open>RenderChain\<close>: the steps joined by arrows.\<close>

definition render_chain :: "scenario \<Rightarrow> string" where
  "render_chain s = join ('' '' @ utf8 8594 @ '' '') (map (\<lambda>st. sp_component st @ ''.'' @ sp_state st) (sc_chain s))"

text \<open>Facts put under a component's name, where there are some.\<close>

definition inject_into :: "string \<Rightarrow> val dict option \<Rightarrow> val option dict dict \<Rightarrow> val option dict dict" where
  "inject_into cn found inject =
     (case found of None \<Rightarrow> inject | Some facts \<Rightarrow> AList.update cn (map (\<lambda>(k, v). (k, Some v)) facts) inject)"

definition plain_scenario :: "string \<Rightarrow> string \<Rightarrow> string \<Rightarrow> val option dict dict \<Rightarrow> sim_scenario" where
  "plain_scenario name desc entry inject =
     \<lparr>sn_name = name, sn_description = desc, sn_entry = entry, sn_inject = inject, sn_unresolved = [],
      sn_expect = no_expectation, sn_unenumerated = False\<rparr>"

definition draft :: "int \<Rightarrow> model \<Rightarrow> registry \<Rightarrow> sim_scenario \<Rightarrow> sim_scenario" where
  "draft now m r sc =
     (let got = rs_actual (run_scenario now m r sc)
      in sc\<lparr>sn_expect := no_expectation\<lparr>ex_root_cause := ex_root_cause got, ex_path := ex_path got,
           ex_eliminated := ex_eliminated got, ex_degraded := ex_degraded got\<rparr>\<rparr>)"

definition review :: "string \<Rightarrow> expectation \<Rightarrow> string" where
  "review root got =
     (if ex_root_cause got = root \<or> root \<in> set (ex_degraded got) then []
      else ''the engine names '' @ ex_root_cause got @ '' from these facts, not '' @ root)"

definition healthy_draft :: "sampler \<Rightarrow> int \<Rightarrow> model \<Rightarrow> registry \<Rightarrow> draft_scenario" where
  "healthy_draft intn now m r =
     (let inject = foldl (\<lambda>inj name. inject_into name (healthy_facts intn m r name) inj) [] (m_order m);
          sc = draft now m r (plain_scenario ''all healthy'' ''Every component healthy: no root cause.'' [] inject);
          got = ex_root_cause (sn_expect sc)
      in \<lparr>df_scenario = sc, df_chain = None, df_count = 0,
          df_review = (if got \<noteq> ''none'' then ''a healthy system reads as broken: the engine names '' @ got else [])\<rparr>)"

definition failing_inject :: "sampler \<Rightarrow> model \<Rightarrow> registry \<Rightarrow> step list \<Rightarrow> val option dict dict" where
  "failing_inject intn m r chain =
     foldl (\<lambda>inj st. inject_into (sp_component st) (failing_facts intn m r (sp_component st) (sp_state st)) inj) [] chain"

definition class_inject :: "sampler \<Rightarrow> model \<Rightarrow> registry \<Rightarrow> chain_class \<Rightarrow> val option dict dict" where
  "class_inject intn m r c =
     foldl (\<lambda>inj name. if name \<in> cl_reach c then inj else inject_into name (healthy_facts intn m r name) inj)
       (failing_inject intn m r (sc_chain (cl_rep c))) (m_order m)"

text \<open>The draft for a class, or the failure's name when no facts show it.\<close>

definition class_draft :: "sampler \<Rightarrow> int \<Rightarrow> model \<Rightarrow> registry \<Rightarrow> string set \<Rightarrow> chain_class \<Rightarrow> string + draft_scenario" where
  "class_draft intn now m r seen c =
     (let root = sc_root (cl_rep c); cn = rr_component root; st = rr_state root
      in if map_of (failing_inject intn m r (sc_chain (cl_rep c))) cn = None then Inl (cn @ ''.'' @ st)
         else (let entry = (if terminal (cl_rep c) \<in> seen then [] else terminal (cl_rep c));
                   desc = ''From the failure chain '' @ render_chain (cl_rep c) @ '', one of '' @ itoa (int (cl_count c)) @
                     '' rooted at '' @ cn @ ''.'' @ st @ ''.'';
                   name = cn @ '' '' @ map (\<lambda>ch. if ch = CHR ''_'' then CHR '' '' else ch) st;
                   sc = draft now m r (plain_scenario name desc entry (class_inject intn m r c))
               in Inr \<lparr>df_scenario = sc, df_chain = Some (cl_rep c), df_count = cl_count c,
                       df_review = review cn (sn_expect sc)\<rparr>))"

text \<open>\<open>Suggest\<close>; \<open>None\<close> is the error for a component that is not in the model.\<close>

definition suggest :: "sampler \<Rightarrow> int \<Rightarrow> model \<Rightarrow> registry \<Rightarrow> string \<Rightarrow> drafts option" where
  "suggest intn now m r only =
     (if only \<noteq> [] \<and> component_of m only = None then None
      else (let all = enumerate_scenarios m r; entry = entry_point m;
                classes = filter (\<lambda>c. only = [] \<or> rr_component (sc_root (cl_rep c)) = only) (classify all entry);
                made = map (class_draft intn now m r (below m entry)) classes
            in Some \<lparr>dr_drafts = (if only = [] then [healthy_draft intn now m r] else []) @
                       List.map_filter (\<lambda>x. case x of Inl _ \<Rightarrow> None | Inr d \<Rightarrow> Some d) made,
                     dr_chains = length all,
                     dr_unshowable = List.map_filter (\<lambda>x. case x of Inl u \<Rightarrow> Some u | Inr _ \<Rightarrow> None) made\<rparr>))"

subsection \<open>How the chains are grouped\<close>

abbreviation class_root :: "chain_class \<Rightarrow> root_ref" where
  "class_root c \<equiv> sc_root (cl_rep c)"

text \<open>A class over some scenarios: their number, their components, and one none of them is better than.\<close>

definition class_over :: "string \<Rightarrow> scenario list \<Rightarrow> chain_class \<Rightarrow> bool" where
  "class_over entry all c \<longleftrightarrow>
     (let own = filter (\<lambda>s. sc_root s = class_root c) all
      in cl_rep c \<in> set own \<and> cl_count c = length own \<and> cl_reach c = (\<Union>s\<in>set own. sp_component ` set (sc_chain s)) \<and>
         (\<forall>s\<in>set own. \<not> better s (cl_rep c) entry))"

lemma better_irrefl [simp]: "\<not> better s s entry"
  by (simp add: better_def)

lemma better_neg_trans: "\<not> better s rep entry \<Longrightarrow> better s' rep entry \<Longrightarrow> \<not> better s s' entry"
  by (auto simp: better_def Let_def split: if_splits)

lemma add_chain_other:
  "sc_root s \<notin> class_root ` set cs \<Longrightarrow>
   add_chain entry cs s = cs @ [\<lparr>cl_rep = s, cl_count = 1, cl_reach = sp_component ` set (sc_chain s)\<rparr>]"
  by (induction cs) auto

lemma add_chain_same:
  assumes "distinct (map class_root cs)" and "sc_root s \<in> class_root ` set cs"
  shows "add_chain entry cs s = map (\<lambda>c. if class_root c = sc_root s
      then \<lparr>cl_rep = (if better s (cl_rep c) entry then s else cl_rep c), cl_count = cl_count c + 1,
            cl_reach = cl_reach c \<union> sp_component ` set (sc_chain s)\<rparr> else c) cs"
  using assms
proof (induction cs)
  case (Cons c cs)
  show ?case
  proof (cases "class_root c = sc_root s")
    case True
    then have "class_root c' \<noteq> sc_root s" if "c' \<in> set cs" for c' using Cons(2) that by force
    then have "map (\<lambda>c. if class_root c = sc_root s
      then \<lparr>cl_rep = (if better s (cl_rep c) entry then s else cl_rep c), cl_count = cl_count c + 1,
            cl_reach = cl_reach c \<union> sp_component ` set (sc_chain s)\<rparr> else c) cs = cs"
      by (intro map_idI) simp
    with True show ?thesis by simp
  next
    case False
    with Cons show ?thesis by auto
  qed
qed simp

lemma class_over_join:
  assumes "class_over entry all c"
  shows "class_over entry (all @ [s]) (if class_root c = sc_root s
      then \<lparr>cl_rep = (if better s (cl_rep c) entry then s else cl_rep c), cl_count = cl_count c + 1,
            cl_reach = cl_reach c \<union> sp_component ` set (sc_chain s)\<rparr> else c)"
proof (cases "class_root c = sc_root s")
  case False
  with assms show ?thesis by (simp add: class_over_def Let_def)
next
  case True
  show ?thesis
  proof (cases "better s (cl_rep c) entry")
    case better: True
    have "\<not> better x s entry" if "x \<in> set all" "sc_root x = sc_root s" for x
      using that assms True better_neg_trans [OF _ better, of x] by (auto simp: class_over_def Let_def)
    with assms True better show ?thesis by (auto simp: class_over_def Let_def)
  next
    case False
    with assms True show ?thesis by (auto simp: class_over_def Let_def)
  qed
qed

lemma classify_inv:
  "distinct (map class_root (classify all entry)) \<and> class_root ` set (classify all entry) = sc_root ` set all \<and>
   (\<forall>c\<in>set (classify all entry). class_over entry all c)"
proof (induction all rule: rev_induct)
  case Nil
  then show ?case by (simp add: classify_def)
next
  case (snoc s all)
  let ?cs = "classify all entry"
  have step: "classify (all @ [s]) entry = add_chain entry ?cs s" by (simp add: classify_def)
  show ?case
  proof (cases "sc_root s \<in> class_root ` set ?cs")
    case True
    let ?j = "\<lambda>c. if class_root c = sc_root s
      then \<lparr>cl_rep = (if better s (cl_rep c) entry then s else cl_rep c), cl_count = cl_count c + 1,
            cl_reach = cl_reach c \<union> sp_component ` set (sc_chain s)\<rparr> else c"
    have eq: "classify (all @ [s]) entry = map ?j ?cs"
      unfolding step using add_chain_same True snoc by blast
    have root: "class_root (?j c) = class_root c" for c by auto
    then have "map class_root (map ?j ?cs) = map class_root ?cs" by simp
    moreover have "class_over entry (all @ [s]) (?j c)" if "c \<in> set ?cs" for c
      using class_over_join snoc that by blast
    moreover have "class_root ` set (map ?j ?cs) = class_root ` set ?cs"
      by (simp only: set_map image_image root)
    moreover have "sc_root ` set (all @ [s]) = class_root ` set ?cs" using snoc True by auto
    ultimately show ?thesis using snoc unfolding eq by (metis (no_types, lifting) imageE set_map)
  next
    case False
    have "class_over entry (all @ [s]) \<lparr>cl_rep = s, cl_count = 1, cl_reach = sp_component ` set (sc_chain s)\<rparr>"
    proof -
      have "filter (\<lambda>x. sc_root x = sc_root s) all = []"
        using False snoc by (auto simp: filter_empty_conv image_iff)
      then show ?thesis by (simp add: class_over_def)
    qed
    moreover have "class_over entry (all @ [s]) c" if "c \<in> set ?cs" for c
    proof -
      have "class_root c \<noteq> sc_root s" using that False by (auto simp: image_iff)
      then show ?thesis using class_over_join [of entry all c s] snoc that by simp
    qed
    ultimately show ?thesis
      using snoc False unfolding step add_chain_other [OF False] by auto
  qed
qed

text \<open>
  The chains are grouped by root and root state, one class each; a class counts its chains and every
  component they touch, and is drafted from a chain of its own that no other of them beats: one
  that ends at the entry point, the shortest such, or else the longest.
\<close>

theorem classify_correct:
  "distinct (map class_root (classify all entry)) \<and> class_root ` set (classify all entry) = sc_root ` set all \<and>
   (\<forall>c\<in>set (classify all entry).
      let own = filter (\<lambda>s. sc_root s = class_root c) all
      in cl_rep c \<in> set own \<and> cl_count c = length own \<and> cl_reach c = (\<Union>s\<in>set own. sp_component ` set (sc_chain s)) \<and>
         (\<forall>s\<in>set own. \<not> better s (cl_rep c) entry))"
  using classify_inv unfolding class_over_def .

subsection \<open>Where a diagnosis can look\<close>

lemma below_loop_seen: "seen \<subseteq> below_loop m queue seen"
  by (induction m queue seen rule: below_loop.induct) (auto simp: Let_def)

lemma below_loop_closed:
  assumes "\<And>a b. a \<in> seen \<Longrightarrow> a \<notin> set queue \<Longrightarrow> b \<in> set (dependencies_of m a) \<Longrightarrow> b \<in> seen"
  shows "a \<in> below_loop m queue seen \<Longrightarrow> b \<in> set (dependencies_of m a) \<Longrightarrow> b \<in> below_loop m queue seen"
  using assms
proof (induction m queue seen rule: below_loop.induct)
  case (1 m seen)
  then show ?case by auto
next
  case (2 m c queue seen)
  let ?new = "dedup_by (\<lambda>d. d) seen (dependencies_of m c)"
  have "b' \<in> seen \<union> set ?new" if "a' \<in> seen \<union> set ?new" "a' \<notin> set (queue @ ?new)" "b' \<in> set (dependencies_of m a')" for a' b'
    using that 2(4) [of a' b'] by (cases "a' = c") (auto simp: set_dedup)
  with 2(1) [OF refl] 2(2,3) show ?case by (simp add: Let_def)
qed

lemma below_loop_reached:
  "b \<in> below_loop m queue seen \<Longrightarrow> b \<in> seen \<or> (\<exists>a\<in>set queue. (a, b) \<in> (edges (dependencies_of m))\<^sup>*)"
proof (induction m queue seen rule: below_loop.induct)
  case (1 m seen)
  then show ?case by simp
next
  case (2 m c queue seen)
  let ?new = "dedup_by (\<lambda>d. d) seen (dependencies_of m c)"
  from 2(1) [OF refl] 2(2) have "b \<in> seen \<union> set ?new \<or> (\<exists>a\<in>set (queue @ ?new). (a, b) \<in> (edges (dependencies_of m))\<^sup>*)"
    by (simp add: Let_def)
  then show ?case by (auto simp: set_dedup intro: converse_rtrancl_into_rtrancl)
qed

interpretation below: search "dependencies_of m" entry "below m entry" for m entry
proof (unfold_locales, goal_cases)
  case 1
  show ?case using below_loop_seen [of "{entry}" m "[entry]"] by (simp add: below_def)
next
  case (2 a b)
  then show ?case unfolding below_def by (rule below_loop_closed [rotated]) auto
next
  case (3 b)
  then show ?case using below_loop_reached [of b m "[entry]" "{entry}"] by (auto simp: below_def)
qed

subsection \<open>A draft passes\<close>

lemma draft_passes:
  assumes "sn_entry sc = [] \<or> component_of m (sn_entry sc) \<noteq> None"
  shows "rs_pass (run_scenario now m r (draft now m r sc))"
proof -
  have ok: "\<not> (sn_entry sc \<noteq> [] \<and> component_of m (sn_entry sc) = None)" using assms by auto
  define got where "got = extract_conclusion (conclude m r (scenario_store now sc) (sn_entry sc))"
  have actual: "rs_actual (run_scenario now m r sc) = got"
    unfolding run_scenario_def if_not_P [OF ok] Let_def got_def by simp
  define sc' where "sc' = draft now m r sc"
  have same: "scenario_store now sc' = scenario_store now sc" "sn_entry sc' = sn_entry sc"
    by (simp_all add: sc'_def draft_def Let_def scenario_store_def)
  have "rs_pass (run_scenario now m r sc') = matches (sn_expect sc') got"
    unfolding run_scenario_def same if_not_P [OF ok] Let_def got_def by simp
  also have "matches (sn_expect sc') got"
    by (simp add: matches_simp sc'_def draft_def Let_def actual no_expectation_def)
  finally show ?thesis by (simp add: sc'_def)
qed

lemma failure_chain_last: "failure_chain g root visited name st chain \<Longrightarrow> map_of g (sp_component (last chain)) \<noteq> None"
proof (induction rule: failure_chain.induct)
  case (alone name visited st)
  then show ?case by (auto simp: carried_nowhere_def last_step_def)
next
  case (stops name visited st d ds label)
  then show ?case by (auto simp: passes_to_def last_step_def)
next
  case (goes_on name visited st d ds label suffix)
  then show ?case by (cases suffix) auto
qed

lemma failure_chain_nonempty: "failure_chain g root visited name st chain \<Longrightarrow> chain \<noteq> []"
  by (induction rule: failure_chain.induct) auto

lemma expand_in: "s \<in> set (expand g) \<Longrightarrow> listed g (sc_root s) (sc_chain s)"
proof -
  let ?pair = "\<lambda>s. (sc_root s, sc_chain s)"
  assume "s \<in> set (expand g)"
  then have "?pair s \<in> set (map ?pair (expand g))" by auto
  then have "?pair s \<in> ?pair ` set (drop_duplicate_chains (all_chains g))"
    by (simp add: expand_def assign_ids_pairs sort_scenarios_def)
  also have "\<dots> \<subseteq> ?pair ` set (all_chains g)"
    using set_dedup_by_subset unfolding drop_duplicate_chains_def by (intro image_mono)
  finally show ?thesis unfolding all_chains_listed by simp
qed

lemma listed_last: "listed g R chain \<Longrightarrow> chain \<noteq> [] \<and> map_of g (sp_component (last chain)) \<noteq> None"
  by (auto simp: listed_def last_step_def dest: failure_chain_last failure_chain_nonempty)

lemma failure_graph_components: "map_of (build_failure_graph m r) n \<noteq> None \<Longrightarrow> component_of m n \<noteq> None"
proof -
  assume "map_of (build_failure_graph m r) n \<noteq> None"
  then obtain gc where "(n, gc) \<in> set (build_failure_graph m r)" by (auto dest: map_of_SomeD)
  then show ?thesis by (auto simp: build_failure_graph_def Let_def set_map_filter)
qed

lemma terminal_component: "s \<in> set (enumerate_scenarios m r) \<Longrightarrow> component_of m (terminal s) \<noteq> None"
  using listed_last [OF expand_in, of s "build_failure_graph m r"] failure_graph_components [of m r]
  by (auto simp: enumerate_scenarios_def terminal_def)

lemma classify_rep: "c \<in> set (classify all entry) \<Longrightarrow> cl_rep c \<in> set all"
  using classify_inv [of all entry] by (auto simp: class_over_def Let_def)

lemma class_draft_passes:
  assumes "c \<in> set (classify (enumerate_scenarios m r) entry)" and "class_draft intn now m r seen c = Inr d"
  shows "rs_pass (run_scenario now m r (df_scenario d))"
proof -
  have "component_of m (terminal (cl_rep c)) \<noteq> None" using assms(1) classify_rep terminal_component by blast
  then have "sn_entry sc = [] \<or> component_of m (sn_entry sc) \<noteq> None"
    if "sc = plain_scenario name desc (if terminal (cl_rep c) \<in> seen then [] else terminal (cl_rep c)) inject" for sc name desc inject
    by (simp add: that plain_scenario_def)
  then show ?thesis
    using assms(2) draft_passes [of _ m now r] by (auto simp: class_draft_def Let_def split: if_splits)
qed

lemma in_rights: "d \<in> set (List.map_filter (\<lambda>x. case x of Inl _ \<Rightarrow> None | Inr d \<Rightarrow> Some d) xs) \<longleftrightarrow> Inr d \<in> set xs"
  by (induction xs) (auto simp: List.map_filter_def split: sum.splits)

lemma in_lefts: "u \<in> set (List.map_filter (\<lambda>x. case x of Inl u \<Rightarrow> Some u | Inr _ \<Rightarrow> None) xs) \<longleftrightarrow> Inl u \<in> set xs"
  by (induction xs) (auto simp: List.map_filter_def split: sum.splits)

lemma suggest_drafts:
  assumes "suggest intn now m r only = Some ds"
  shows "d \<in> set (dr_drafts ds) \<longleftrightarrow>
    (only = [] \<and> d = healthy_draft intn now m r) \<or>
    (\<exists>c\<in>set (classify (enumerate_scenarios m r) (entry_point m)). (only = [] \<or> rr_component (class_root c) = only) \<and>
       class_draft intn now m r (below m (entry_point m)) c = Inr d)"
    and "u \<in> set (dr_unshowable ds) \<longleftrightarrow>
    (\<exists>c\<in>set (classify (enumerate_scenarios m r) (entry_point m)). (only = [] \<or> rr_component (class_root c) = only) \<and>
       class_draft intn now m r (below m (entry_point m)) c = Inl u)"
proof -
  define made where "made = map (class_draft intn now m r (below m (entry_point m)))
    (filter (\<lambda>c. only = [] \<or> rr_component (class_root c) = only) (classify (enumerate_scenarios m r) (entry_point m)))"
  have eq: "ds = \<lparr>dr_drafts = (if only = [] then [healthy_draft intn now m r] else []) @
        List.map_filter (\<lambda>x. case x of Inl _ \<Rightarrow> None | Inr d \<Rightarrow> Some d) made,
      dr_chains = length (enumerate_scenarios m r),
      dr_unshowable = List.map_filter (\<lambda>x. case x of Inl u \<Rightarrow> Some u | Inr _ \<Rightarrow> None) made\<rparr>"
    using assms unfolding suggest_def Let_def made_def [symmetric] by (simp split: if_splits)
  have in_made: "x \<in> set made \<longleftrightarrow>
      (\<exists>c\<in>set (classify (enumerate_scenarios m r) (entry_point m)). (only = [] \<or> rr_component (class_root c) = only) \<and>
         class_draft intn now m r (below m (entry_point m)) c = x)" for x
    by (auto simp: made_def)
  show "d \<in> set (dr_drafts ds) \<longleftrightarrow>
    (only = [] \<and> d = healthy_draft intn now m r) \<or>
    (\<exists>c\<in>set (classify (enumerate_scenarios m r) (entry_point m)). (only = [] \<or> rr_component (class_root c) = only) \<and>
       class_draft intn now m r (below m (entry_point m)) c = Inr d)"
    unfolding in_made [symmetric] eq by (auto simp: in_rights)
  show "u \<in> set (dr_unshowable ds) \<longleftrightarrow>
    (\<exists>c\<in>set (classify (enumerate_scenarios m r) (entry_point m)). (only = [] \<or> rr_component (class_root c) = only) \<and>
       class_draft intn now m r (below m (entry_point m)) c = Inl u)"
    unfolding in_made [symmetric] eq by (simp add: in_lefts)
qed

text \<open>C14: Every draft passes when it is run as written.\<close>

theorem suggest_drafts_pass:
  assumes "suggest intn now m r only = Some ds" and "d \<in> set (dr_drafts ds)"
  shows "rs_pass (run_scenario now m r (df_scenario d))"
proof -
  have "rs_pass (run_scenario now m r (df_scenario (healthy_draft intn now m r)))"
    by (simp add: healthy_draft_def Let_def draft_passes plain_scenario_def)
  then show ?thesis using assms(2) class_draft_passes unfolding suggest_drafts(1) [OF assms(1)] by blast
qed

subsection \<open>A draft shows the failure it is for\<close>

definition as_injected :: "val dict \<Rightarrow> val option dict" where
  "as_injected facts = map (\<lambda>(k, v). (k, Some v)) facts"

lemma map_of_as_injected: "map_of (as_injected facts) k = map_option Some (map_of facts k)"
  by (induction facts) (auto simp: as_injected_def)

lemma keys_as_injected [simp]: "keys (as_injected facts) = keys facts"
  by (simp add: as_injected_def keys_def split_def comp_def)

lemma map_of_inject_into:
  "map_of (inject_into cn found acc) n =
     (if n = cn \<and> found \<noteq> None then map_option as_injected found else map_of acc n)"
  by (cases found) (auto simp: inject_into_def update_conv as_injected_def)

lemma wf_inject_into: "wf_dict acc \<Longrightarrow> wf_dict (inject_into cn found acc)"
  by (cases found) (simp_all add: inject_into_def wf_dict_def keys_def distinct_update)

lemma failing_inject_snoc:
  "failing_inject intn m r (chain @ [x]) =
     inject_into (sp_component x) (failing_facts intn m r (sp_component x) (sp_state x)) (failing_inject intn m r chain)"
  by (simp add: failing_inject_def)

lemma failing_inject_none: "n \<notin> sp_component ` set chain \<Longrightarrow> map_of (failing_inject intn m r chain) n = None"
proof (induction chain rule: rev_induct)
  case Nil
  then show ?case by (simp add: failing_inject_def)
next
  case (snoc x chain)
  then show ?case by (auto simp: failing_inject_snoc map_of_inject_into)
qed

lemma failing_inject_at:
  "distinct (map sp_component chain) \<Longrightarrow> st \<in> set chain \<Longrightarrow> map_of (failing_inject intn m r chain) (sp_component st) =
      map_option as_injected (failing_facts intn m r (sp_component st) (sp_state st))"
proof (induction chain rule: rev_induct)
  case Nil
  then show ?case by simp
next
  case (snoc x chain)
  show ?case
  proof (cases "st = x")
    case True
    have "map_of (failing_inject intn m r chain) (sp_component x) = None"
      using snoc(2) by (intro failing_inject_none) simp
    then show ?thesis unfolding failing_inject_snoc map_of_inject_into True by auto
  next
    case False
    with snoc have st: "st \<in> set chain" by auto
    with snoc have "sp_component st \<noteq> sp_component x" by (auto simp: image_iff)
    with st snoc show ?thesis unfolding failing_inject_snoc map_of_inject_into by auto
  qed
qed

lemma healthy_inject_at:
  "n \<in> reach \<Longrightarrow>
   map_of (foldl (\<lambda>acc name. if name \<in> reach then acc else inject_into name (found name) acc) acc names) n = map_of acc n"
  by (induction names arbitrary: acc) (auto simp: map_of_inject_into)

lemma wf_class_inject: "wf_dict (class_inject intn m r c)"
proof -
  have "wf_dict (failing_inject intn m r chain)" for chain
    unfolding failing_inject_def by (induction chain rule: rev_induct) (simp_all add: wf_inject_into, simp add: wf_dict_def)
  moreover have "wf_dict (foldl (\<lambda>acc name. if name \<in> cl_reach c then acc else inject_into name (healthy_facts intn m r name) acc) acc names)"
    if "wf_dict acc" for acc names
    using that by (induction names arbitrary: acc) (simp_all add: wf_inject_into)
  ultimately show ?thesis by (simp add: class_inject_def)
qed

lemma keys_assignment: "a \<in> set (assignments intn cands) \<Longrightarrow> keys a = keys (by_name cands)"
proof -
  have "keys (pick_at cs i) = keys cs" for cs i
    by (induction cs i rule: pick_at.induct) auto
  moreover have "keys (draw_at calls cs k) = keys cs" for calls cs k
    by (induction calls cs k rule: draw_at.induct) auto
  ultimately show "a \<in> set (assignments intn cands) \<Longrightarrow> keys a = keys (by_name cands)"
    by (auto simp: assignments_def Let_def split: if_splits)
qed

lemma distinct_witness:
  assumes "wf_dict (ty_facts t)" and "witness intn rules t cn vars st h = Some a"
  shows "wf_dict a" and "health_of rules t (assign_ctx cn vars a) = (st, h, True)"
proof -
  have a: "a \<in> set (assignments intn (witness_cands rules t cn vars))"
    "health_of rules t (assign_ctx cn vars a) = (st, h, True)"
    using assms(2) unfolding witness_alt by (auto dest: find_Some_in)
  then show "health_of rules t (assign_ctx cn vars a) = (st, h, True)" by simp
  have "distinct (keys (witness_cands rules t cn vars))"
  proof -
    have same: "map fst (map (\<lambda>(n, x). (n, g n x)) xs) = map fst xs" for g :: "string \<Rightarrow> 'x \<Rightarrow> 'y" and xs
      by (induction xs) auto
    have "distinct (map fst (fst (candidates rules t cn vars)))"
      using assms(1) unfolding candidates_def Let_def fst_conv
      by (intro distinct_map_filter) (simp only: same wf_dict_def keys_def)
    then show ?thesis by (simp add: witness_cands_def keys_def same split_def Let_def comp_def)
  qed
  moreover have "distinct (keys (by_name cands)) = distinct (keys cands)" for cands :: "val list dict"
    unfolding by_name_def keys_def by (rule distinct_map_sort_by)
  ultimately show "wf_dict a" using keys_assignment [OF a(1)] by (simp add: wf_dict_def)
qed

text \<open>What the rules and states say of a component depends on the facts they read.\<close>

lemma health_of_cong:
  assumes "\<And>n. n \<in> set rules \<union> set (state_whens t) \<Longrightarrow> eval c n = eval d n"
  shows "health_of rules t c = health_of rules t d"
proof -
  have "state_loop c sts = state_loop d sts" if "\<And>st n. st \<in> set sts \<Longrightarrow> sd_when st = Some n \<Longrightarrow> eval c n = eval d n" for sts
    using that
  proof (induction sts)
    case (Cons st sts)
    have "state_loop c sts = state_loop d sts" by (rule Cons.IH) (rule Cons.prems; simp)
    then show ?case using Cons.prems [of st] by (cases "sd_when st") simp_all
  qed simp
  moreover have "eval c n = eval d n" if "st \<in> set (ty_states t)" "sd_when st = Some n" for st n
    using assms that by (auto simp: state_whens_def set_map_filter)
  ultimately have "state_loop c (ty_states t) = state_loop d (ty_states t)" by blast
  moreover have "all_true c ns h = all_true d ns h" if "set ns \<subseteq> set rules" for ns h
    using that assms by (induction ns arbitrary: h) (auto split: sum.splits)
  then have "all_true c rules True = all_true d rules True" by blast
  ultimately show ?thesis by (simp add: health_of_def Consistency.state_of_def split: prod.split state_verdict.split)
qed

lemma state_loop_first:
  "state_loop c sts = (case first_true_state (eval c) sts of None \<Rightarrow> ([], NoVerdict) | Some d \<Rightarrow> (sd_name d, sd_verdict d))"
  by (induction sts) (auto split: option.splits)

lemma all_true_false: "all_true c ns h = (False, True) \<Longrightarrow> h \<Longrightarrow> \<exists>n\<in>set ns. eval c n = Inr False"
  by (induction ns arbitrary: h) (auto split: sum.splits)

lemma shown_failure_unhealthy:
  assumes "component_of m cn = Some c" and "resolve_type c m r = Inr (t, owner)"
    and "health_of (healthy_rules c (Some t)) t (engine_ctx m r s Map.empty cn) = (st, False, True)"
  shows "component_verdict m r s cn = Unhealthy"
proof -
  let ?ctx = "engine_ctx m r s Map.empty cn"
  have ev: "eval_predicate m r s cn = eval ?ctx" by (rule ext) (simp add: eval_predicate_def)
  have sv: "state_verdict_of m r s c cn = snd (Consistency.state_of t ?ctx)"
    by (simp add: state_verdict_of_def assms(2) ev Consistency.state_of_def state_loop_first split: option.splits)
  have rules: "effective_healthy_for m r c = healthy_rules c (Some t)" by (simp add: effective_healthy_for_def assms(2))
  show ?thesis
  proof (cases "snd (Consistency.state_of t ?ctx)")
    case NoVerdict
    then have "all_true ?ctx (healthy_rules c (Some t)) True = (False, True)"
      using assms(3) by (simp add: health_of_def split_def Let_def)
    then obtain n where "n \<in> set (healthy_rules c (Some t))" "eval ?ctx n = Inr False"
      using all_true_false by blast
    then have "rules_verdict (eval ?ctx) (healthy_rules c (Some t)) Healthy = Unhealthy" "healthy_rules c (Some t) \<noteq> []"
      by (auto simp: rules_verdict_Unhealthy)
    then show ?thesis using NoVerdict by (simp add: component_verdict_def assms(1) sv rules ev)
  qed (use assms(1,3) sv in \<open>simp_all add: component_verdict_def health_of_def split_def Let_def\<close>)
qed

lemma listed_head:
  "listed g R chain \<Longrightarrow> \<exists>st\<in>set chain. sp_component st = rr_component R \<and> sp_state st = rr_state R"
proof -
  have "\<exists>x\<in>set chain. sp_component x = name \<and> sp_state x = gs_name st" if "failure_chain g root visited name st chain"
    for root visited name st
    using that by (cases rule: failure_chain.cases) (auto simp: head_step_def last_step_def)
  then show "listed g R chain \<Longrightarrow> ?thesis" by (fastforce simp: listed_def last_step_def)
qed

text \<open>A component whose rules and state predicates read no facts but its own.\<close>

definition reads_own :: "string \<Rightarrow> node list \<Rightarrow> ptype \<Rightarrow> bool" where
  "reads_own cn rules t \<longleftrightarrow> (\<forall>n\<in>set rules \<union> set (state_whens t). fact_reads cn n \<subseteq> {cn} \<times> UNIV)"

lemma class_draft_shows:
  assumes c: "c \<in> set (classify (enumerate_scenarios m r) entry)" and d: "class_draft intn now m r seen c = Inr d"
    and dist: "distinct (map sp_component (sc_chain (cl_rep c)))"
    and comp: "component_of m (rr_component (class_root c)) = Some cp" and res: "resolve_type cp m r = Inr (t, owner)"
    and facts: "wf_dict (ty_facts t)" and own: "reads_own (rr_component (class_root c)) (healthy_rules cp (Some t)) t"
  shows "health_of (healthy_rules cp (Some t)) t
      (engine_ctx m r (scenario_store now (df_scenario d)) Map.empty (rr_component (class_root c))) = (rr_state (class_root c), False, True)"
proof -
  let ?cn = "rr_component (class_root c)" and ?sn = "rr_state (class_root c)" and ?rules = "healthy_rules cp (Some t)"
  let ?store = "scenario_store now (df_scenario d)"
  have rep: "cl_rep c \<in> set (enumerate_scenarios m r)" using c by (rule classify_rep)
  then obtain st where st: "st \<in> set (sc_chain (cl_rep c))" "sp_component st = ?cn" "sp_state st = ?sn"
    using listed_head [OF expand_in] by (auto simp: enumerate_scenarios_def)
  have reach: "?cn \<in> cl_reach c"
    using classify_inv [of "enumerate_scenarios m r" entry] c rep st by (force simp: class_over_def Let_def)
  have at: "map_of (failing_inject intn m r (sc_chain (cl_rep c))) ?cn = map_option as_injected (failing_facts intn m r ?cn ?sn)"
    using failing_inject_at [OF dist st(1)] st(2,3) by simp
  have inject: "sn_inject (df_scenario d) = class_inject intn m r c" "sn_unresolved (df_scenario d) = []"
    using d by (auto simp: class_draft_def Let_def draft_def plain_scenario_def split: if_splits)
  have "map_of (failing_inject intn m r (sc_chain (cl_rep c))) ?cn \<noteq> None"
    using d by (auto simp: class_draft_def Let_def split: if_splits)
  then obtain a where a: "failing_facts intn m r ?cn ?sn = Some a" using at by auto
  have w: "witness intn ?rules t ?cn (model_var m (Some r)) ?sn False = Some a"
    using a comp res by (simp add: failing_facts_def find_witness_def type_of_def)
  note wf = distinct_witness [OF facts w]
  have got: "map_of (class_inject intn m r c) ?cn = Some (as_injected a)"
    using at a healthy_inject_at [OF reach] by (simp add: class_inject_def)
  have "latest ?store ?cn k = map_option (\<lambda>v. sim_fact now k v Normal) (entry_at (class_inject intn m r c) ?cn k)" for k
    using latest_scenario_store [of "df_scenario d" ?cn now k] wf_class_inject got wf(1)
    by (simp add: inject wf_dict_def)
  then have vals: "lookup_value ?store ?cn k = map_of a k" for k
    by (simp add: lookup_value_def entry_at_def got map_of_as_injected split: option.split)
  have "eval (engine_ctx m r ?store Map.empty ?cn) n = eval (assign_ctx ?cn (model_var m (Some r)) a) n"
    if "n \<in> set ?rules \<union> set (state_whens t)" for n
  proof -
    have "fact_reads ?cn n \<subseteq> {?cn} \<times> UNIV" using own that by (auto simp: reads_own_def)
    then have "eval ((assign_ctx ?cn (model_var m (Some r)) a)\<lparr>cx_facts := lookup_value ?store\<rparr>) n =
        eval (assign_ctx ?cn (model_var m (Some r)) a) n"
      by (intro eval_reads_only) (auto simp: assign_ctx_def vals)
    then show ?thesis by (simp add: assign_ctx_def engine_ctx_def)
  qed
  then show ?thesis using health_of_cong [of ?rules t] wf(2) by metis
qed

text \<open>
  C11: In the facts of a draft for a failure, the component it is rooted at is in the state the failure
  names and its verdict is unhealthy, as long as the component's rules and states read its own
  facts and the chain drafted from passes through no component twice.
\<close>

theorem draft_shows_failure:
  assumes "suggest intn now m r only = Some ds" and "d \<in> set (dr_drafts ds)" and "df_chain d = Some ch"
    and "distinct (map sp_component (sc_chain ch))"
    and "component_of m (rr_component (sc_root ch)) = Some cp" and "resolve_type cp m r = Inr (t, owner)"
    and "wf_dict (ty_facts t)" and "reads_own (rr_component (sc_root ch)) (healthy_rules cp (Some t)) t"
  shows "component_verdict m r (scenario_store now (df_scenario d)) (rr_component (sc_root ch)) = Unhealthy \<and>
    fst (Consistency.state_of t (engine_ctx m r (scenario_store now (df_scenario d)) Map.empty (rr_component (sc_root ch)))) =
      rr_state (sc_root ch)"
proof -
  have "d \<noteq> healthy_draft intn now m r" using assms(3) by (auto simp: healthy_draft_def Let_def)
  then obtain c where c: "c \<in> set (classify (enumerate_scenarios m r) (entry_point m))"
      "class_draft intn now m r (below m (entry_point m)) c = Inr d"
    using assms(2) unfolding suggest_drafts(1) [OF assms(1)] by auto
  then have ch: "ch = cl_rep c" using assms(3) by (auto simp: class_draft_def Let_def split: if_splits)
  note shown = class_draft_shows [OF c assms(4-8) [unfolded ch]]
  then have "fst (Consistency.state_of t (engine_ctx m r (scenario_store now (df_scenario d)) Map.empty (rr_component (class_root c)))) =
      rr_state (class_root c)"
    by (auto simp: health_of_def split_def Let_def split: state_verdict.splits)
  with shown_failure_unhealthy [OF assms(5,6) [unfolded ch] shown] show ?thesis unfolding ch by simp
qed

text \<open>One database, with a type that declares its fact.\<close>

definition ex_db_type :: ptype where
  "ex_db_type = (ex_type ''svc'' [CmpNode [] ''up'' OpEq (VBool True)]
     [ex_state ''live'' (Some (CmpNode [] ''up'' OpEq (VBool True))) NoVerdict,
      ex_state ''down'' (Some (CmpNode [] ''up'' OpEq (VBool False))) NoVerdict])\<lparr>ty_facts := [(''up'', ex_bool_fact)]\<rparr>"

definition ex_db_registry :: registry where
  "ex_db_registry = register new_registry (ex_provider ''p'' [(''svc'', ex_db_type)])"

definition ex_lone :: model where
  "ex_lone = ex_model [ex_component ''db'' ''svc'' []]"

definition ex_lone_chain :: "root_ref \<times> step list" where
  "ex_lone_chain = (\<lparr>rr_component = ''db'', rr_state = ''down''\<rparr>,
     [\<lparr>sp_component = ''db'', sp_state = ''down'', sp_emits = [], sp_observes = [''up'']\<rparr>])"

lemma ex_lone_scenarios:
  "(\<lambda>s. (sc_root s, sc_chain s)) ` set (enumerate_scenarios ex_lone ex_db_registry) = {ex_lone_chain}"
proof -
  let ?pair = "\<lambda>s. (sc_root s, sc_chain s)"
  have "map ?pair (sort_scenarios (drop_duplicate_chains (all_chains (build_failure_graph ex_lone ex_db_registry)))) = [ex_lone_chain]"
    by code_simp
  then have "map ?pair (enumerate_scenarios ex_lone ex_db_registry) = [ex_lone_chain]"
    by (simp add: enumerate_scenarios_def expand_def assign_ids_pairs)
  then have "set (map ?pair (enumerate_scenarios ex_lone ex_db_registry)) = {ex_lone_chain}" by simp
  then show ?thesis by simp
qed

lemma ex_lone_resolves: "resolve_type (ex_component ''db'' ''svc'' []) ex_lone ex_db_registry = Inr (ex_db_type, ''p'')"
  by code_simp

lemma ex_lone_drafted:
  "\<exists>ds d ch. suggest (\<lambda>_ _. 0) 0 ex_lone ex_db_registry [] = Some ds \<and> d \<in> set (dr_drafts ds) \<and> df_chain d = Some ch \<and>
     (sc_root ch, sc_chain ch) = ex_lone_chain"
proof -
  let ?all = "enumerate_scenarios ex_lone ex_db_registry" and ?entry = "entry_point ex_lone"
  have "class_root ` set (classify ?all ?entry) = sc_root ` set ?all" using classify_inv by blast
  also have "\<dots> = fst ` (\<lambda>s. (sc_root s, sc_chain s)) ` set ?all" by (simp add: image_image)
  also have "\<dots> = {fst ex_lone_chain}" unfolding ex_lone_scenarios by simp
  finally obtain c where c: "c \<in> set (classify ?all ?entry)" by (metis image_empty insert_not_empty list.set(1) list.set_intros(1) neq_Nil_conv)
  have rep: "(sc_root (cl_rep c), sc_chain (cl_rep c)) = ex_lone_chain"
    using classify_rep [OF c] ex_lone_scenarios by blast
  have "map_of (failing_inject (\<lambda>_ _. 0) ex_lone ex_db_registry (snd ex_lone_chain)) ''db'' \<noteq> None" by code_simp
  then have "map_of (failing_inject (\<lambda>_ _. 0) ex_lone ex_db_registry (sc_chain (cl_rep c))) (rr_component (class_root c)) \<noteq> None"
    using rep by (auto simp: ex_lone_chain_def)
  then obtain d where d: "class_draft (\<lambda>_ _. 0) 0 ex_lone ex_db_registry (below ex_lone ?entry) c = Inr d" "df_chain d = Some (cl_rep c)"
    unfolding class_draft_def Let_def by (auto simp del: not_None_eq split: if_splits)
  obtain ds where ds: "suggest (\<lambda>_ _. 0) 0 ex_lone ex_db_registry [] = Some ds" by (simp add: suggest_def Let_def)
  then have "d \<in> set (dr_drafts ds)" using suggest_drafts(1) [OF ds] c d(1) by blast
  with ds d(2) rep show ?thesis by blast
qed

theorem suggest_drafts_pass_witness:
  "\<exists>ds d ch. suggest (\<lambda>_ _. 0) 0 ex_lone ex_db_registry [] = Some ds \<and> d \<in> set (dr_drafts ds) \<and> df_chain d = Some ch \<and>
     rs_pass (run_scenario 0 ex_lone ex_db_registry (df_scenario d))"
  using ex_lone_drafted suggest_drafts_pass by blast

theorem draft_shows_failure_witness:
  "\<exists>ds d. suggest (\<lambda>_ _. 0) 0 ex_lone ex_db_registry [] = Some ds \<and> d \<in> set (dr_drafts ds) \<and>
     component_verdict ex_lone ex_db_registry (scenario_store 0 (df_scenario d)) ''db'' = Unhealthy"
proof -
  obtain ds d ch where ds: "suggest (\<lambda>_ _. 0) 0 ex_lone ex_db_registry [] = Some ds" "d \<in> set (dr_drafts ds)"
    "df_chain d = Some ch" "(sc_root ch, sc_chain ch) = ex_lone_chain" using ex_lone_drafted by blast
  have root: "rr_component (sc_root ch) = ''db''" using ds(4) by (simp add: ex_lone_chain_def)
  have chain: "distinct (map sp_component (sc_chain ch))" using ds(4) by (simp add: ex_lone_chain_def)
  have comp: "component_of ex_lone (rr_component (sc_root ch)) = Some (ex_component ''db'' ''svc'' [])"
    unfolding root by (simp add: ex_lone_def ex_model_def ex_component_def)
  have facts: "wf_dict (ty_facts ex_db_type)" by (simp add: ex_db_type_def wf_dict_def)
  have own: "reads_own (rr_component (sc_root ch)) (healthy_rules (ex_component ''db'' ''svc'' []) (Some ex_db_type)) ex_db_type"
    unfolding root by (simp add: reads_own_def healthy_rules_def effective_rules_def ex_component_def ex_db_type_def ex_type_def
        ex_state_def state_whens_def List.map_filter_def)
  from draft_shows_failure [OF ds(1-3) chain comp ex_lone_resolves facts own] ds(1,2)
  show ?thesis unfolding root by blast
qed

text \<open>Two chains of one failure, the second of which ends at the entry point.\<close>

definition ex_inner_chain :: scenario where
  "ex_inner_chain = \<lparr>sc_id = ''a'', sc_root = \<lparr>rr_component = ''db'', rr_state = ''down''\<rparr>,
     sc_chain = [plain_step ''db'' ''down'', plain_step ''job'' ''down'', plain_step ''batch'' ''down'']\<rparr>"

definition ex_entry_chain :: scenario where
  "ex_entry_chain = \<lparr>sc_id = ''b'', sc_root = \<lparr>rr_component = ''db'', rr_state = ''down''\<rparr>,
     sc_chain = [plain_step ''db'' ''down'', plain_step ''web'' ''down'']\<rparr>"

theorem classify_correct_witness:
  "\<exists>c\<in>set (classify [ex_inner_chain, ex_entry_chain] ''web''). cl_rep c = ex_entry_chain \<and> cl_count c = 2"
proof -
  let ?all = "[ex_inner_chain, ex_entry_chain]"
  have "class_root ` set (classify ?all ''web'') = sc_root ` set ?all" using classify_correct by blast
  then have "sc_root ex_entry_chain \<in> class_root ` set (classify ?all ''web'')" by simp
  then obtain c where c: "c \<in> set (classify ?all ''web'')" "class_root c = sc_root ex_entry_chain"
    by (rule imageE) (rule that, simp_all)
  have own: "filter (\<lambda>s. sc_root s = class_root c) ?all = ?all"
    unfolding c(2) by (simp add: ex_inner_chain_def ex_entry_chain_def)
  have "let own = filter (\<lambda>s. sc_root s = class_root c) ?all
      in cl_rep c \<in> set own \<and> cl_count c = length own \<and>
        cl_reach c = (\<Union>s\<in>set own. sp_component ` set (sc_chain s)) \<and> (\<forall>s\<in>set own. \<not> better s (cl_rep c) ''web'')"
    using classify_correct [of ?all "''web''"] c(1) by blast
  then have "cl_rep c = ex_inner_chain \<or> cl_rep c = ex_entry_chain" "cl_count c = 2" "\<not> better ex_entry_chain (cl_rep c) ''web''"
    unfolding own Let_def by simp_all
  moreover have "better ex_entry_chain ex_inner_chain ''web''" by code_simp
  ultimately have "cl_rep c = ex_entry_chain \<and> cl_count c = 2" by auto
  with c(1) show ?thesis by blast
qed

end
