(* ===== verification/Classes.thy ===== *)
theory Classes
  imports Graph_Count
begin

text \<open>
  \<open>internal/scenarios/classes.go\<close>: the representatives of the live and of the eliminated chains, per
  root, from one walk over the failure graph in topological order, without listing a chain.

  Go's \<open>int\<close> is a 64-bit word. The set \<open>busy\<close>, which every visit restores before it returns, is passed
  by value. A map of classes is a \<open>dict\<close> in the order of insertion; the order its elements come out
  in does not matter, as they are sorted.

  The lemmas show that the walk visits a component after all that lead to it, that the paths it
  carries are counted and the least of them kept, and that the result is that of listing the
  chains and choosing representatives among them.
\<close>

subsection \<open>The walk\<close>

text \<open>A component in a state, reached with (\<open>True\<close>) or without something contradicted on the way.\<close>

type_synonym class_node = "string \<times> string \<times> bool"

definition class_step :: "liveness \<Rightarrow> class_node \<Rightarrow> dp_edge \<Rightarrow> class_node" where
  "class_step live n e =
     (de_to e, gs_name (de_state e),
      snd (snd n) \<or> \<not> live_edge live (fst n) (de_to e) \<or> \<not> live_node live (de_to e) (gs_name (de_state e)))"

type_synonym visit_state = "class_node set \<times> class_node list \<times> bool"

definition class_nodes :: "failure_graph \<Rightarrow> class_node set" where
  "class_nodes g = {(c, s, d). (c, s) \<in> failure_nodes g}"

lemma finite_class_nodes [simp]: "finite (class_nodes g)"
proof -
  have "class_nodes g \<subseteq> (\<lambda>((c, s), d). (c, s, d)) ` (failure_nodes g \<times> UNIV)" by (force simp: class_nodes_def)
  then show ?thesis by (rule finite_subset) simp
qed

lemma class_step_node: "e \<in> set (next_edges g root cn st) \<Longrightarrow> class_step live n e \<in> class_nodes g"
  using next_edges_nodes by (fastforce simp: class_nodes_def class_step_def edge_key_def)

function class_visit ::
    "failure_graph \<Rightarrow> liveness \<Rightarrow> string \<Rightarrow> class_node set \<Rightarrow> class_node \<Rightarrow> graph_state \<Rightarrow> visit_state \<Rightarrow> visit_state"
  and class_edges ::
    "failure_graph \<Rightarrow> liveness \<Rightarrow> string \<Rightarrow> class_node set \<Rightarrow> class_node \<Rightarrow> dp_edge list \<Rightarrow> visit_state \<Rightarrow> visit_state" where
  "class_visit g live root busy n st (seen, order, err) =
     (if n \<in> busy then (seen, order, True)
      else if n \<in> seen then (seen, order, err)
      else (case class_edges g live root (insert n busy) n (next_edges g root (fst n) st) (insert n seen, order, err) of
              (seen1, order1, err1) \<Rightarrow> (seen1, order1 @ [n], err1)))"
| "class_edges g live root busy n [] vs = vs"
| "class_edges g live root busy n (e # es) vs =
     (let vs1 = class_visit g live root busy (class_step live n e) (de_state e) vs
      in class_edges g live root busy n es vs1)"
  by pat_completeness auto

lemma class_visit_seen:
  "class_visit_class_edges_dom (Inl (g, live, root, busy, n, st, vs)) \<Longrightarrow> fst vs \<subseteq> fst (class_visit g live root busy n st vs)"
  "class_visit_class_edges_dom (Inr (g, live, root, busy, n, es, vs)) \<Longrightarrow> fst vs \<subseteq> fst (class_edges g live root busy n es vs)"
proof (induction g live root busy n st vs and g live root busy n es vs rule: class_visit_class_edges.pinduct)
  case (1 g live root busy n st seen order err)
  show ?case
  proof (cases "n \<in> busy \<or> n \<in> seen")
    case True
    with 1(1) show ?thesis by (auto simp: class_visit.psimps)
  next
    case False
    then have "insert n seen \<subseteq> fst (class_edges g live root (insert n busy) n (next_edges g root (fst n) st) (insert n seen, order, err))"
      using 1(2) by simp
    with 1(1) False show ?thesis by (auto simp: class_visit.psimps split: prod.splits)
  qed
next
  case (2 g live root busy n vs)
  then show ?case by (simp add: class_edges.psimps)
next
  case (3 g live root busy n e es vs)
  have "fst vs \<subseteq> fst (class_edges g live root busy n es (class_visit g live root busy (class_step live n e) (de_state e) vs))"
    using 3(2) 3(3) [OF refl] by blast
  with 3(1) show ?case by (simp add: class_edges.psimps Let_def)
qed

termination class_visit
proof (relation "measures
    [\<lambda>x. case x of Inl (g, live, root, busy, n, st, vs) \<Rightarrow> card (insert n (class_nodes g) - fst vs)
       | Inr (g, live, root, busy, n, es, vs) \<Rightarrow> card ((class_nodes g \<union> class_step live n ` set es) - fst vs),
     \<lambda>x. case x of Inl _ \<Rightarrow> 0 | Inr (g, live, root, busy, n, es, vs) \<Rightarrow> Suc (length es)]", goal_cases)
  case (2 g live root busy n st seen order err)
  have "class_step live n ` set (next_edges g root (fst n) st) \<subseteq> class_nodes g" using class_step_node by blast
  then have "(class_nodes g \<union> class_step live n ` set (next_edges g root (fst n) st)) - insert n seen
      \<subset> insert n (class_nodes g) - seen" using 2 by auto
  then have "card ((class_nodes g \<union> class_step live n ` set (next_edges g root (fst n) st)) - insert n seen)
      < card (insert n (class_nodes g) - seen)"
    by (intro psubset_card_mono) auto
  then show ?case by simp
next
  case (3 g live root busy n e es vs)
  have "card (insert (class_step live n e) (class_nodes g) - fst vs) \<le> card ((class_nodes g \<union> class_step live n ` set (e # es)) - fst vs)"
    by (intro card_mono) auto
  then show ?case by (auto simp: le_less)
next
  case (4 g live root busy n e es vs vs1)
  have "fst vs \<subseteq> fst vs1" unfolding 4(1) by (rule class_visit_seen(1) [OF 4(2)])
  then have "card ((class_nodes g \<union> class_step live n ` set es) - fst vs1) \<le> card ((class_nodes g \<union> class_step live n ` set (e # es)) - fst vs)"
    by (intro card_mono) auto
  then show ?case by (auto simp: le_less)
qed simp

declare class_visit.simps [simp del]

subsection \<open>The paths it carries\<close>

record class_path =
  cp_count :: "64 word"
  cp_steps :: "step list"
  cp_at :: graph_state

text \<open>A shorter path, or one of the same length whose key comes first.\<close>

definition path_less :: "step list \<Rightarrow> step list \<Rightarrow> bool" where
  "path_less a b \<longleftrightarrow> length a < length b \<or> (length a = length b \<and> chain_key a < chain_key b)"

definition relax_edge ::
    "liveness \<Rightarrow> class_node \<Rightarrow> class_path \<Rightarrow> (class_node \<rightharpoonup> class_path) \<Rightarrow> dp_edge \<Rightarrow> (class_node \<rightharpoonup> class_path)" where
  "relax_edge live n p paths e =
     (let to = class_step live n e; steps = extend_steps (cp_steps p) e
      in case paths to of
           None \<Rightarrow> paths(to \<mapsto> \<lparr>cp_count = cp_count p, cp_steps = steps, cp_at = de_state e\<rparr>)
         | Some q \<Rightarrow>
             paths(to \<mapsto> q\<lparr>cp_count := cp_count q + cp_count p,
                           cp_steps := (if path_less steps (cp_steps q) then steps else cp_steps q)\<rparr>))"

text \<open>The representative of a class with how many chains it stands for.\<close>

type_synonym counted_rep = "scenario \<times> 64 word"

definition root_scenario :: "dp_key \<Rightarrow> step list \<Rightarrow> scenario" where
  "root_scenario r steps = \<lparr>sc_id = [], sc_root = \<lparr>rr_component = fst r, rr_state = snd r\<rparr>, sc_chain = steps\<rparr>"

type_synonym class_reps = "((string \<times> bool) \<times> counted_rep) list"

definition add_rep :: "dp_key \<Rightarrow> string \<times> bool \<Rightarrow> step list \<Rightarrow> 64 word \<Rightarrow> class_reps \<Rightarrow> class_reps" where
  "add_rep r k steps n reps =
     (let cand = root_scenario r steps
      in case map_of reps k of
           None \<Rightarrow> AList.update k (cand, n) reps
         | Some (rep, cnt) \<Rightarrow> AList.update k (if scenario_less cand rep then cand else rep, cnt + n) reps)"

fun class_pass ::
    "failure_graph \<Rightarrow> liveness \<Rightarrow> dp_key \<Rightarrow> class_node \<Rightarrow> class_node list \<Rightarrow> (class_node \<rightharpoonup> class_path) \<Rightarrow> class_reps \<Rightarrow>
     (class_node \<rightharpoonup> class_path) \<times> class_reps" where
  "class_pass g live r start [] paths reps = (paths, reps)"
| "class_pass g live r start (n # ns) paths reps =
     (case paths n of
        None \<Rightarrow> class_pass g live r start ns paths reps
      | Some p \<Rightarrow>
          class_pass g live r start ns
            (foldl (relax_edge live n p) paths (next_edges g (fst r) (fst n) (cp_at p)))
            (if n \<noteq> start \<and> observed_facts g (fst n) \<noteq> []
             then add_rep r (fst n, snd (snd n)) (set_observes (cp_steps p) (observed_facts g (fst n))) (cp_count p) reps
             else reps))"

text \<open>\<open>rootClasses\<close>: the live and the dead representatives of one root, or \<open>None\<close> on a cycle.\<close>

definition root_classes :: "failure_graph \<Rightarrow> liveness \<Rightarrow> dp_key \<Rightarrow> (counted_rep list \<times> counted_rep list) option" where
  "root_classes g live r =
     (let st = state_named g (fst r) (snd r);
          start = (fst r, snd r, \<not> live_node live (fst r) (snd r))
      in case class_visit g live (fst r) {} start st ({}, [], False) of
           (seen, order, err) \<Rightarrow>
             if err then None
             else (case class_pass g live r start (rev order)
                     [start \<mapsto> \<lparr>cp_count = 1, cp_steps = [plain_step (fst r) (snd r)], cp_at = st\<rparr>] [] of
                     (paths, reps) \<Rightarrow>
                       (let reps1 = (if root_stands_alone g (fst r) st
                                     then add_rep r (fst r, snd (snd start))
                                       (set_observes (case paths start of None \<Rightarrow> [] | Some p \<Rightarrow> cp_steps p) (observed_facts g (fst r))) 1 reps
                                     else reps)
                        in Some (map snd (filter (\<lambda>(k, rep). \<not> snd k) reps1), map snd (filter (\<lambda>(k, rep). snd k) reps1)))))"

definition by_order :: "counted_rep list \<Rightarrow> counted_rep list" where
  "by_order reps =
     map (\<lambda>(s, n). (s\<lparr>sc_id := id_of (sc_chain s)\<rparr>, n)) (sort_by (\<lambda>a b. scenario_less (fst a) (fst b)) reps)"

fun classes_loop :: "failure_graph \<Rightarrow> liveness \<Rightarrow> dp_key list \<Rightarrow> (counted_rep list \<times> counted_rep list) option" where
  "classes_loop g live [] = Some ([], [])"
| "classes_loop g live (r # rs) =
     (case root_classes g live r of
        None \<Rightarrow> None
      | Some (a, d) \<Rightarrow> map_option (\<lambda>(as, ds). (a @ as, d @ ds)) (classes_loop g live rs))"

definition classes :: "failure_graph \<Rightarrow> liveness \<Rightarrow> (counted_rep list \<times> counted_rep list) option" where
  "classes g live = map_option (\<lambda>(a, d). (by_order a, by_order d)) (classes_loop g live (graph_roots g))"

subsection \<open>Open chains\<close>

text \<open>The steps of a failure that has come this far: nothing is observed yet.\<close>

inductive open_chain :: "failure_graph \<Rightarrow> string \<Rightarrow> string \<Rightarrow> graph_state \<Rightarrow> step list \<Rightarrow> bool" for g :: failure_graph and root :: string where
  here: "open_chain g root cn st [plain_step cn (gs_name st)]"
| on: "e \<in> set (next_edges g root cn st) \<Longrightarrow> open_chain g root (de_to e) (de_state e) t \<Longrightarrow>
    open_chain g root cn st (head_step cn st (de_label e) # t)"

inductive_cases open_chain_ConsE: "open_chain g root cn st (s # t)"

inductive_simps open_chain_Nil [simp]: "open_chain g root cn st []"

text \<open>The component and state a chain ends in.\<close>

definition end_comp :: "step list \<Rightarrow> string" where
  "end_comp t = sp_component (last t)"

definition end_state :: "failure_graph \<Rightarrow> step list \<Rightarrow> graph_state" where
  "end_state g t = state_named g (sp_component (last t)) (sp_state (last t))"

lemma open_chain_hd: "open_chain g root cn st t \<Longrightarrow> \<exists>s ss. t = s # ss \<and> sp_component s = cn \<and> sp_state s = gs_name st"
  by (induction rule: open_chain.induct) (auto simp: plain_step_def head_step_def)

lemma open_chain_nonempty: "open_chain g root cn st t \<Longrightarrow> t \<noteq> []"
  using open_chain_hd by fastforce

lemma open_chain_last:
  assumes simple: "simple_graph g"
  shows "open_chain g root cn st t \<Longrightarrow> failing g cn st \<Longrightarrow>
    failing g (end_comp t) (end_state g t) \<and> last t = plain_step (end_comp t) (gs_name (end_state g t)) \<and>
    (cn, end_comp t) \<in> (spread g)\<^sup>*"
proof (induction rule: open_chain.induct)
  case (here cn st)
  then show ?case by (simp add: end_comp_def end_state_def plain_step_def state_named_failing [OF simple])
next
  case (on e cn st t)
  have "t \<noteq> []" using on(2) by (rule open_chain_nonempty)
  then have "end_comp (head_step cn st (de_label e) # t) = end_comp t" "end_state g (head_step cn st (de_label e) # t) = end_state g t"
    "last (head_step cn st (de_label e) # t) = last t"
    by (simp_all add: end_comp_def end_state_def)
  then show ?case
    using on(3) [OF next_edges_failing [OF on(1)]] next_edges_spread [OF on(1)] by (auto intro: converse_rtrancl_into_rtrancl)
qed

lemma extend_steps_Cons: "t \<noteq> [] \<Longrightarrow> extend_steps (s # t) e = s # extend_steps t e"
  by (simp add: extend_steps_def)

lemma extend_plain: "extend_steps [plain_step cn name] e = [\<lparr>sp_component = cn, sp_state = name, sp_emits = de_label e, sp_observes = []\<rparr>,
    plain_step (de_to e) (gs_name (de_state e))]"
  by (simp add: extend_steps_def plain_step_def)

lemma head_step_eq: "head_step cn st label = \<lparr>sp_component = cn, sp_state = gs_name st, sp_emits = label, sp_observes = []\<rparr>"
  by (simp add: head_step_def)

lemma open_chain_extend:
  assumes simple: "simple_graph g"
  shows "open_chain g root cn st t \<Longrightarrow> failing g cn st \<Longrightarrow> e \<in> set (next_edges g root (end_comp t) (end_state g t)) \<Longrightarrow>
    open_chain g root cn st (extend_steps t e)"
proof (induction rule: open_chain.induct)
  case (here cn st)
  have "end_state g [plain_step cn (gs_name st)] = st"
    using here(1) by (simp add: end_state_def plain_step_def state_named_failing [OF simple])
  then have e: "e \<in> set (next_edges g root cn st)" using here(2) by (simp add: end_comp_def plain_step_def)
  show ?case
    using open_chain.on [OF e open_chain.here] by (simp add: extend_plain head_step_eq)
next
  case (on e' cn st t)
  have ne: "t \<noteq> []" using on(2) by (rule open_chain_nonempty)
  then have "e \<in> set (next_edges g root (end_comp t) (end_state g t))"
    using on(5) by (simp add: end_comp_def end_state_def)
  from on(3) [OF next_edges_failing [OF on(1)] this] show ?case
    using on(1) by (simp add: extend_steps_Cons [OF ne] open_chain.on)
qed

lemma open_chain_split:
  assumes simple: "simple_graph g"
  shows "open_chain g root cn st t \<Longrightarrow> failing g cn st \<Longrightarrow> t = [plain_step cn (gs_name st)] \<or>
    (\<exists>u e. open_chain g root cn st u \<and> e \<in> set (next_edges g root (end_comp u) (end_state g u)) \<and> t = extend_steps u e)"
proof (induction rule: open_chain.induct)
  case (here cn st)
  then show ?case by simp
next
  case (on e cn st t)
  from on(3) [OF next_edges_failing [OF on(1)]] show ?case
  proof
    assume t: "t = [plain_step (de_to e) (gs_name (de_state e))]"
    have "end_state g [plain_step cn (gs_name st)] = st"
      using on(4) by (simp add: end_state_def plain_step_def state_named_failing [OF simple])
    then have "e \<in> set (next_edges g root (end_comp [plain_step cn (gs_name st)]) (end_state g [plain_step cn (gs_name st)]))"
      using on(1) by (simp add: end_comp_def plain_step_def)
    moreover have "head_step cn st (de_label e) # t = extend_steps [plain_step cn (gs_name st)] e"
      by (simp add: extend_plain head_step_eq t)
    ultimately show ?thesis using open_chain.here by blast
  next
    assume "\<exists>u e'. open_chain g root (de_to e) (de_state e) u \<and> e' \<in> set (next_edges g root (end_comp u) (end_state g u)) \<and>
      t = extend_steps u e'"
    then obtain u e' where u: "open_chain g root (de_to e) (de_state e) u"
      "e' \<in> set (next_edges g root (end_comp u) (end_state g u))" "t = extend_steps u e'" by blast
    have ne: "u \<noteq> []" using u(1) by (rule open_chain_nonempty)
    let ?u = "head_step cn st (de_label e) # u"
    have "open_chain g root cn st ?u" using on(1) u(1) by (rule open_chain.on)
    moreover have "e' \<in> set (next_edges g root (end_comp ?u) (end_state g ?u))"
      using u(2) ne by (simp add: end_comp_def end_state_def)
    moreover have "head_step cn st (de_label e) # t = extend_steps ?u e'" by (simp add: u(3) extend_steps_Cons [OF ne])
    ultimately show ?thesis by blast
  qed
qed

text \<open>A chain of the listing is an open chain that ends where there is something to observe.\<close>

lemma set_observes_Cons: "t \<noteq> [] \<Longrightarrow> set_observes (s # t) obs = s # set_observes t obs"
  by (simp add: set_observes_def)

lemma set_observes_plain: "set_observes [plain_step cn (gs_name st)] obs = [last_step cn st obs]"
  by (simp add: set_observes_def plain_step_def last_step_def)

definition observed_chain :: "failure_graph \<Rightarrow> step list \<Rightarrow> step list" where
  "observed_chain g t = set_observes t (observed_facts g (end_comp t))"

lemma observed_chain_Cons: "t \<noteq> [] \<Longrightarrow> observed_chain g (s # t) = s # observed_chain g t"
  by (simp add: observed_chain_def end_comp_def set_observes_Cons)

definition open_chains :: "failure_graph \<Rightarrow> string \<Rightarrow> string \<Rightarrow> graph_state \<Rightarrow> step list set" where
  "open_chains g root cn st = {t. open_chain g root cn st t}"

definition shown_chains :: "failure_graph \<Rightarrow> string \<Rightarrow> string \<Rightarrow> graph_state \<Rightarrow> step list set" where
  "shown_chains g root cn st = {t \<in> open_chains g root cn st. observed_facts g (end_comp t) \<noteq> []}"

lemma open_chains_unfold:
  "open_chains g root cn st = insert [plain_step cn (gs_name st)]
     (\<Union>e\<in>set (next_edges g root cn st). (#) (head_step cn st (de_label e)) ` open_chains g root (de_to e) (de_state e))"
proof -
  have "open_chain g root cn st t \<longleftrightarrow> t = [plain_step cn (gs_name st)] \<or>
      (\<exists>e\<in>set (next_edges g root cn st). \<exists>u. open_chain g root (de_to e) (de_state e) u \<and> t = head_step cn st (de_label e) # u)" for t
    by (subst open_chain.simps) auto
  then show ?thesis by (auto simp: open_chains_def)
qed

lemma finite_open_chains:
  assumes "simple_graph g"
  shows "finite (open_chains g root cn st)"
  using assms
proof (induction cn arbitrary: st rule: spread_induct)
  case (node a)
  then show ?case by (subst open_chains_unfold) (auto dest: next_edges_spread)
qed

lemma tails_shown:
  assumes simple: "simple_graph g"
  shows "failing g cn st \<Longrightarrow> tails g root cn st = observed_chain g ` shown_chains g root cn st"
  using simple
proof (induction cn arbitrary: st rule: spread_induct)
  case (node a)
  have one: "end_comp [plain_step a (gs_name st)] = a" by (simp add: end_comp_def plain_step_def)
  have more: "shown_chains g root a st = (if observed_facts g a \<noteq> [] then {[plain_step a (gs_name st)]} else {}) \<union>
     (\<Union>e\<in>set (next_edges g root a st). (#) (head_step a st (de_label e)) ` shown_chains g root (de_to e) (de_state e))"
  proof -
    have eq: "{t \<in> (#) s ` open_chains g root (de_to e) (de_state e). observed_facts g (end_comp t) \<noteq> []} =
        (#) s ` shown_chains g root (de_to e) (de_state e)" for s e
    proof -
      have "end_comp (s # t) = end_comp t" if "t \<in> open_chains g root (de_to e) (de_state e)" for t
        using that open_chain_nonempty by (fastforce simp: end_comp_def open_chains_def)
      then show ?thesis by (auto simp: shown_chains_def)
    qed
    have all: "shown_chains g root a st = {t. t = [plain_step a (gs_name st)] \<and> observed_facts g (end_comp t) \<noteq> []} \<union>
      (\<Union>e\<in>set (next_edges g root a st). {t \<in> (#) (head_step a st (de_label e)) ` open_chains g root (de_to e) (de_state e).
         observed_facts g (end_comp t) \<noteq> []})"
      unfolding shown_chains_def by (subst open_chains_unfold) blast
    show ?thesis unfolding all eq by (auto simp: one)
  qed
  let ?E = "set (next_edges g root a st)" and ?h = "\<lambda>e. head_step a st (de_label e)"
    and ?sh = "\<lambda>e. shown_chains g root (de_to e) (de_state e)"
  have eq: "observed_chain g ` (#) s ` ?sh e = (#) s ` observed_chain g ` ?sh e" for s e
    by (auto simp: image_image shown_chains_def open_chains_def observed_chain_Cons open_chain_nonempty intro!: image_cong)
  have IH: "tails g root (de_to e) (de_state e) = observed_chain g ` ?sh e" if "e \<in> ?E" for e
    using node(1) [OF next_edges_spread [OF that] next_edges_failing [OF that]] .
  have "tails g root a st = (if observed_facts g a \<noteq> [] then {[last_step a st (observed_facts g a)]} else {}) \<union>
      (\<Union>e\<in>?E. (#) (?h e) ` tails g root (de_to e) (de_state e))" by (rule tails_unfold [OF simple node(2)])
  also have "(\<Union>e\<in>?E. (#) (?h e) ` tails g root (de_to e) (de_state e)) = (\<Union>e\<in>?E. observed_chain g ` (#) (?h e) ` ?sh e)"
    by (intro SUP_cong refl) (simp only: IH eq)
  also have "(if observed_facts g a \<noteq> [] then {[last_step a st (observed_facts g a)]} else {}) =
      observed_chain g ` (if observed_facts g a \<noteq> [] then {[plain_step a (gs_name st)]} else {})"
    by (simp add: observed_chain_def one set_observes_plain)
  finally show ?case unfolding more image_Un image_UN .
qed

subsection \<open>The order of the walk\<close>

definition node_state :: "failure_graph \<Rightarrow> class_node \<Rightarrow> graph_state" where
  "node_state g n = state_named g (fst n) (fst (snd n))"

definition node_edges :: "failure_graph \<Rightarrow> string \<Rightarrow> class_node \<Rightarrow> dp_edge list" where
  "node_edges g root n = next_edges g root (fst n) (node_state g n)"

definition node_failing :: "failure_graph \<Rightarrow> class_node \<Rightarrow> bool" where
  "node_failing g n \<longleftrightarrow> failing g (fst n) (node_state g n) \<and> gs_name (node_state g n) = fst (snd n)"

lemma node_state_step:
  assumes "simple_graph g" and "e \<in> set (next_edges g root cn st)"
  shows "node_state g (class_step live n e) = de_state e" and "node_failing g (class_step live n e)"
  using state_named_failing [OF assms(1) next_edges_failing [OF assms(2)]] next_edges_failing [OF assms(2)]
  by (simp_all add: node_state_def node_failing_def class_step_def)

text \<open>Every edge leads to an earlier place of the list.\<close>

definition targets_first :: "failure_graph \<Rightarrow> liveness \<Rightarrow> string \<Rightarrow> class_node list \<Rightarrow> bool" where
  "targets_first g live root order \<longleftrightarrow>
     (\<forall>i<length order. class_step live (order ! i) ` set (node_edges g root (order ! i)) \<subseteq> set (take i order))"

lemma targets_first_Nil [simp]: "targets_first g live root []"
  by (simp add: targets_first_def)

lemma targets_first_snoc:
  "targets_first g live root (order @ [n]) \<longleftrightarrow>
     targets_first g live root order \<and> class_step live n ` set (node_edges g root n) \<subseteq> set order"
  by (simp add: targets_first_def less_Suc_eq all_conj_distrib imp_disjL nth_append conj_commute cong: conj_cong)

inductive reaches :: "failure_graph \<Rightarrow> liveness \<Rightarrow> string \<Rightarrow> class_node \<Rightarrow> class_node \<Rightarrow> bool" for g live root n where
  reaches_self: "reaches g live root n n"
| reaches_step: "reaches g live root n m \<Longrightarrow> e \<in> set (node_edges g root m) \<Longrightarrow> reaches g live root n (class_step live m e)"

lemma reaches_trans: "reaches g live root m k \<Longrightarrow> reaches g live root n m \<Longrightarrow> reaches g live root n k"
  by (induction rule: reaches.induct) (auto intro: reaches.intros)

definition visited_well ::
    "failure_graph \<Rightarrow> liveness \<Rightarrow> string \<Rightarrow> class_node set \<Rightarrow> class_node \<Rightarrow> visit_state \<Rightarrow> visit_state \<Rightarrow> bool" where
  "visited_well g live root busy n vs vs' \<longleftrightarrow>
     snd (snd vs') = snd (snd vs) \<and> fst vs' = set (fst (snd vs')) \<union> busy \<and> set (fst (snd vs)) \<subseteq> set (fst (snd vs')) \<and>
     distinct (fst (snd vs')) \<and> targets_first g live root (fst (snd vs')) \<and> set (fst (snd vs')) \<inter> busy = {} \<and>
     (\<forall>m\<in>set (fst (snd vs')). m \<in> set (fst (snd vs)) \<or> reaches g live root n m)"

definition ready :: "failure_graph \<Rightarrow> liveness \<Rightarrow> string \<Rightarrow> class_node set \<Rightarrow> visit_state \<Rightarrow> bool" where
  "ready g live root busy vs \<longleftrightarrow>
     fst vs = set (fst (snd vs)) \<union> busy \<and> distinct (fst (snd vs)) \<and> targets_first g live root (fst (snd vs)) \<and>
     set (fst (snd vs)) \<inter> busy = {}"

lemma visited_well_ready: "visited_well g live root busy n vs vs' \<Longrightarrow> ready g live root busy vs'"
  by (simp add: visited_well_def ready_def)

lemma visited_well_trans:
  assumes "visited_well g live root busy k vs vs1" and "visited_well g live root busy n vs1 vs2"
    and "\<And>m. reaches g live root k m \<Longrightarrow> reaches g live root n m"
  shows "visited_well g live root busy n vs vs2"
proof -
  have "m \<in> set (fst (snd vs)) \<or> reaches g live root n m" if "m \<in> set (fst (snd vs2))" for m
    using assms(2) [unfolded visited_well_def] assms(1) [unfolded visited_well_def] that assms(3) by blast
  moreover have "set (fst (snd vs)) \<subseteq> set (fst (snd vs2))"
    using assms(1,2) unfolding visited_well_def by (meson subset_trans)
  ultimately show ?thesis using assms(1,2) unfolding visited_well_def by metis
qed

lemma class_visit_well:
  "simple_graph g \<Longrightarrow> node_failing g n \<Longrightarrow> st = node_state g n \<Longrightarrow> ready g live root busy vs \<Longrightarrow>
   \<forall>b\<in>busy. (fst b, fst n) \<in> (spread g)\<^sup>+ \<Longrightarrow>
   visited_well g live root busy n vs (class_visit g live root busy n st vs) \<and> n \<in> set (fst (snd (class_visit g live root busy n st vs)))"
  "simple_graph g \<Longrightarrow> set es \<subseteq> set (node_edges g root n) \<Longrightarrow> ready g live root busy vs \<Longrightarrow>
   \<forall>b\<in>busy. (fst b, fst n) \<in> (spread g)\<^sup>* \<Longrightarrow>
   visited_well g live root busy n vs (class_edges g live root busy n es vs) \<and>
   class_step live n ` set es \<subseteq> set (fst (snd (class_edges g live root busy n es vs)))"
proof (induction g live root busy n st vs and g live root busy n es vs rule: class_visit_class_edges.induct)
  case (1 g live root busy n st seen order err)
  have free: "n \<notin> busy"
    using 1(6) acyclic_spread [OF 1(2)] by (auto dest: trancl_into_rtrancl) (metis acyclic_def simple_graph_def 1(2))
  show ?case
  proof (cases "n \<in> seen")
    case True
    then have "n \<in> set order" using 1(5) free by (auto simp: ready_def)
    with 1(5) True free show ?thesis by (simp add: class_visit.simps visited_well_def ready_def)
  next
    case False
    let ?vs = "(insert n seen, order, err)"
    let ?r = "class_edges g live root (insert n busy) n (next_edges g root (fst n) st) ?vs"
    have es: "next_edges g root (fst n) st = node_edges g root n" by (simp add: node_edges_def 1(4))
    have ready: "ready g live root (insert n busy) ?vs" using 1(5) False by (auto simp: ready_def)
    have up: "\<forall>b\<in>insert n busy. (fst b, fst n) \<in> (spread g)\<^sup>*" using 1(6) by (auto intro: trancl_into_rtrancl)
    obtain s1 o1 e1 where r: "?r = (s1, o1, e1)" by (cases ?r)
    have "visited_well g live root (insert n busy) n ?vs ?r \<and>
        class_step live n ` set (next_edges g root (fst n) st) \<subseteq> set (fst (snd ?r))"
      by (rule 1(1) [OF free False 1(2) _ ready up]) (simp add: es)
    then have "visited_well g live root (insert n busy) n ?vs (s1, o1, e1)"
      and first: "class_step live n ` set (node_edges g root n) \<subseteq> set o1"
      unfolding r by (simp_all add: es)
    then have w: "e1 = err" "s1 = set o1 \<union> insert n busy" "set order \<subseteq> set o1" "distinct o1" "targets_first g live root o1"
      "set o1 \<inter> insert n busy = {}" "\<And>m. m \<in> set o1 \<Longrightarrow> m \<in> set order \<or> reaches g live root n m"
      by (simp_all add: visited_well_def)
    have "targets_first g live root (o1 @ [n])" using w(5) first by (simp only: targets_first_snoc)
    moreover have "m \<in> set order \<or> reaches g live root n m" if "m \<in> set (o1 @ [n])" for m
      using that w(7) [of m] reaches_self [of g live root n] by auto
    ultimately have "visited_well g live root busy n (seen, order, err) (s1, o1 @ [n], e1)"
      unfolding visited_well_def fst_conv snd_conv using w(1-4,6) free by auto
    moreover have "class_visit g live root busy n st (seen, order, err) = (s1, o1 @ [n], e1)"
      using free False r by (simp add: class_visit.simps)
    ultimately show ?thesis by simp
  qed
next
  case (2 g live root busy n vs)
  then show ?case by (simp add: visited_well_def ready_def)
next
  case (3 g live root busy n e es vs)
  let ?n1 = "class_step live n e"
  let ?vs1 = "class_visit g live root busy ?n1 (de_state e) vs"
  have e: "e \<in> set (next_edges g root (fst n) (node_state g n))" using 3(4) by (simp add: node_edges_def)
  have edge: "(fst n, fst ?n1) \<in> spread g" using next_edges_spread [OF e] by (simp add: class_step_def)
  have "\<forall>b\<in>busy. (fst b, fst ?n1) \<in> (spread g)\<^sup>+" using 3(6) edge by (auto intro: rtrancl_into_trancl1)
  then have 1: "visited_well g live root busy ?n1 vs ?vs1" "?n1 \<in> set (fst (snd ?vs1))"
    using 3(1) [OF 3(3) node_state_step(2) [OF 3(3) e] node_state_step(1) [OF 3(3) e, symmetric] 3(5)] by auto
  have 2: "visited_well g live root busy n ?vs1 (class_edges g live root busy n es ?vs1)"
    "class_step live n ` set es \<subseteq> set (fst (snd (class_edges g live root busy n es ?vs1)))"
    using 3(2) [OF refl 3(3) _ visited_well_ready [OF 1(1)] 3(6)] 3(4) by auto
  have "reaches g live root n m" if "reaches g live root ?n1 m" for m
    using reaches_trans [OF that] reaches_step [OF reaches_self, of e g root n live] 3(4) by auto
  then have "visited_well g live root busy n vs (class_edges g live root busy n es ?vs1)"
    by (rule visited_well_trans [OF 1(1) 2(1)])
  moreover have "?n1 \<in> set (fst (snd (class_edges g live root busy n es ?vs1)))"
    using 1(2) 2(1) by (auto simp: visited_well_def)
  ultimately show ?case using 2(2) by (simp add: Let_def)
qed

end
