(* ===== verification/Class_Reps.thy ===== *)
theory Class_Reps
  imports Classes
begin

text \<open>
  What the walk of \<open>internal/scenarios/classes.go\<close> carries: the count and the least of the open chains
  that reach each node, in an order where every edge leads to a later node; from it, that the classes
  are the representatives of the listed chains.
\<close>

subsection \<open>Where a chain ends\<close>

definition node_of :: "liveness \<Rightarrow> step list \<Rightarrow> class_node" where
  "node_of live t = (end_comp t, sp_state (last t), \<not> chain_live live t)"

lemma node_of_start [simp]: "node_of live [plain_step cn name] = (cn, name, \<not> live_node live cn name)"
  by (simp add: node_of_def end_comp_def plain_step_def)

lemma end_extend [simp]:
  "end_comp (extend_steps t e) = de_to e" "sp_state (last (extend_steps t e)) = gs_name (de_state e)"
  by (simp_all add: end_comp_def extend_steps_def plain_step_def)

lemma chain_live_cons: "u \<noteq> [] \<Longrightarrow> chain_live live (s # u) \<longleftrightarrow>
    live_node live (sp_component s) (sp_state s) \<and> live_edge live (sp_component s) (sp_component (hd u)) \<and> chain_live live u"
  by (cases u) auto

lemma hd_extend: "t \<noteq> [] \<Longrightarrow> sp_component (hd (extend_steps t e)) = sp_component (hd t)"
  by (cases t rule: rev_cases) (auto simp: extend_steps_def hd_append)

lemma extend_nonempty [simp]: "extend_steps t e \<noteq> []"
  by (simp add: extend_steps_def)

lemma chain_live_extend:
  "t \<noteq> [] \<Longrightarrow> chain_live live (extend_steps t e) \<longleftrightarrow>
     chain_live live t \<and> live_edge live (end_comp t) (de_to e) \<and> live_node live (de_to e) (gs_name (de_state e))"
proof (induction t)
  case (Cons s t)
  show ?case
  proof (cases "t = []")
    case True
    then show ?thesis by (auto simp: extend_steps_def end_comp_def plain_step_def)
  next
    case False
    then show ?thesis
      using Cons.IH by (simp add: extend_steps_Cons chain_live_cons hd_extend end_comp_def)
  qed
qed simp

lemma node_of_extend: "t \<noteq> [] \<Longrightarrow> node_of live (extend_steps t e) = class_step live (node_of live t) e"
  by (simp add: node_of_def class_step_def chain_live_extend)

subsection \<open>Chains and their keys\<close>

lemma chain_key_extend:
  assumes "t \<noteq> []"
  shows "chain_key (extend_steps t e) = chain_key t @ chain_key [plain_step (de_to e) (gs_name (de_state e))]"
  using assms by (cases t rule: rev_cases) (simp_all add: extend_steps_def chain_key_def plain_step_def)

lemma length_extend [simp]: "t \<noteq> [] \<Longrightarrow> length (extend_steps t e) = Suc (length t)"
  by (cases t rule: rev_cases) (simp_all add: extend_steps_def)

definition clean_steps :: "step list \<Rightarrow> bool" where
  "clean_steps t \<longleftrightarrow> (\<forall>s\<in>set t. CHR '':'' \<notin> set (sp_component s) \<and> CHR ''>'' \<notin> set (sp_state s))"

lemma chain_key_Cons: "chain_key (s # t) = sp_component s @ CHR '':'' # sp_state s @ CHR ''>'' # chain_key t"
  by (simp add: chain_key_def)

lemma chain_key_prefix_free:
  "length xs = length ys \<Longrightarrow> clean_steps xs \<Longrightarrow> clean_steps ys \<Longrightarrow> chain_key xs @ u = chain_key ys @ v \<Longrightarrow>
   map step_key xs = map step_key ys \<and> u = v"
proof (induction xs ys rule: list_induct2)
  case Nil
  then show ?case by (simp add: chain_key_def)
next
  case (Cons x xs y ys)
  have clean: "CHR '':'' \<notin> set (sp_component x)" "CHR '':'' \<notin> set (sp_component y)"
      "CHR ''>'' \<notin> set (sp_state x)" "CHR ''>'' \<notin> set (sp_state y)" "clean_steps xs" "clean_steps ys"
    using Cons.prems by (auto simp: clean_steps_def)
  have "sp_component x @ CHR '':'' # (sp_state x @ CHR ''>'' # chain_key xs @ u) =
      sp_component y @ CHR '':'' # (sp_state y @ CHR ''>'' # chain_key ys @ v)"
    using Cons.prems(3) by (simp add: chain_key_Cons)
  from cut_same [OF clean(1,2) this] have "sp_component x = sp_component y"
      "sp_state x @ CHR ''>'' # (chain_key xs @ u) = sp_state y @ CHR ''>'' # (chain_key ys @ v)" by simp_all
  moreover from cut_same [OF clean(3,4) this(2)] have "sp_state x = sp_state y" "chain_key xs @ u = chain_key ys @ v" by simp_all
  ultimately show ?case using Cons.IH [OF clean(5,6)] by (simp add: step_key_def)
qed

lemma string_less_append: "(a :: string) < b \<Longrightarrow> (\<exists>z. b = a @ z) \<or> a @ x < b @ y"
proof (induction a arbitrary: b)
  case Nil
  then show ?case by simp
next
  case (Cons c a)
  from Cons.prems obtain d b' where b: "b = d # b'" by (cases b) auto
  with Cons.prems consider "c < d" | "c = d" "a < b'" by auto
  then show ?case
  proof cases
    case 1
    then show ?thesis by (simp add: b)
  next
    case 2
    with Cons.IH [OF 2(2)] show ?thesis by (auto simp: b)
  qed
qed

lemma path_less_extend:
  assumes "\<not> path_less t p" and "clean_steps t" "clean_steps p" "t \<noteq> []" "p \<noteq> []"
  shows "\<not> path_less (extend_steps t e) (extend_steps p e)"
proof
  assume less: "path_less (extend_steps t e) (extend_steps p e)"
  let ?x = "chain_key [plain_step (de_to e) (gs_name (de_state e))]"
  from less assms have len: "length t = length p" and keys: "chain_key t @ ?x < chain_key p @ ?x"
    and "\<not> chain_key t < chain_key p"
    by (auto simp: path_less_def chain_key_extend)
  then have "chain_key p < chain_key t \<or> chain_key p = chain_key t" by auto
  then show False
  proof
    assume "chain_key p < chain_key t"
    from string_less_append [OF this, of ?x ?x] consider z where "chain_key t = chain_key p @ z" | "chain_key p @ ?x < chain_key t @ ?x" by blast
    then show False
    proof cases
      case 1
      then have "z = []" using chain_key_prefix_free [OF len assms(2,3), of "[]" z] by simp
      with 1 \<open>chain_key p < chain_key t\<close> show False by simp
    next
      case 2
      with keys show False by simp
    qed
  next
    assume "chain_key p = chain_key t"
    with keys show False by simp
  qed
qed

subsection \<open>The paths to each node\<close>

lemma strict_weak_path_less: "strict_weak path_less"
proof -
  have "path_less = (\<lambda>a b. if length a \<noteq> length b then length a < length b else chain_key a < chain_key b)"
    by (auto simp: fun_eq_iff path_less_def)
  then show ?thesis by (rule ssubst) (intro strict_weak_lex strict_weak_key)
qed

lemma open_chain_clean:
  assumes "clean_names g"
  shows "open_chain g root cn st t \<Longrightarrow> failing g cn st \<Longrightarrow> clean_steps t"
proof (induction rule: open_chain.induct)
  case (here cn st)
  then show ?case using assms by (auto simp: clean_steps_def clean_names_def plain_step_def)
next
  case (on e cn st t)
  then show ?case using assms next_edges_failing [OF on(1)]
    by (auto simp: clean_steps_def clean_names_def head_step_def)
qed

lemma extend_steps_inj:
  assumes simple: "simple_graph g" and ok: "failing g cn st"
    and t: "open_chain g root cn st t" "open_chain g root cn st t'"
    and e: "e \<in> set (next_edges g root (end_comp t) (end_state g t))" "e' \<in> set (next_edges g root (end_comp t') (end_state g t'))"
    and eq: "extend_steps t e = extend_steps t' e'"
  shows "t = t' \<and> e = e'"
proof -
  have last: "last t = plain_step (end_comp t) (gs_name (end_state g t))" "last t' = plain_step (end_comp t') (gs_name (end_state g t'))"
    using open_chain_last [OF simple t(1) ok] open_chain_last [OF simple t(2) ok] by auto
  have ne: "t \<noteq> []" "t' \<noteq> []" using t open_chain_nonempty by auto
  from eq have b: "butlast t = butlast t'" and l: "last t\<lparr>sp_emits := de_label e\<rparr> = last t'\<lparr>sp_emits := de_label e'\<rparr>"
    and k: "plain_step (de_to e) (gs_name (de_state e)) = plain_step (de_to e') (gs_name (de_state e'))"
    by (simp_all add: extend_steps_def)
  from l last have "last t = last t'" by (simp add: plain_step_def)
  with b have "t = t'" using append_butlast_last_id [OF ne(1)] append_butlast_last_id [OF ne(2)] by metis
  moreover have "edge_key e = edge_key e'" using k by (simp add: edge_key_def plain_step_def)
  moreover from \<open>t = t'\<close> e(2) have "e' \<in> set (next_edges g root (end_comp t) (end_state g t))" by simp
  moreover have "inj_on edge_key (set (next_edges g root (end_comp t) (end_state g t)))"
    using distinct_next_edges [OF simple] by (simp add: distinct_map)
  ultimately show ?thesis using inj_onD [of edge_key _ e e'] e(1) by blast
qed

definition ends :: "liveness \<Rightarrow> class_node \<Rightarrow> step list set \<Rightarrow> step list set" where
  "ends live n S = {t \<in> S. node_of live t = n}"

text \<open>A count and a chain for a set of chains: their number and the least of them.\<close>

definition least_of :: "step list set \<Rightarrow> 64 word \<Rightarrow> step list \<Rightarrow> bool" where
  "least_of S n c \<longleftrightarrow> finite S \<and> n = of_nat (card S) \<and> c \<in> S \<and> (\<forall>t\<in>S. \<not> path_less t c)"

definition carries :: "step list set \<Rightarrow> class_path \<Rightarrow> bool" where
  "carries S p \<longleftrightarrow> least_of S (cp_count p) (cp_steps p)"

definition tracked_at :: "failure_graph \<Rightarrow> class_node \<Rightarrow> step list set \<Rightarrow> class_path option \<Rightarrow> bool" where
  "tracked_at g n S po \<longleftrightarrow> (case po of None \<Rightarrow> S = {} | Some p \<Rightarrow> carries S p \<and> cp_at p = node_state g n)"

definition tracked :: "failure_graph \<Rightarrow> liveness \<Rightarrow> step list set \<Rightarrow> (class_node \<rightharpoonup> class_path) \<Rightarrow> bool" where
  "tracked g live S paths \<longleftrightarrow> (\<forall>n. tracked_at g n (ends live n S) (paths n))"

lemma trackedI: "(\<And>n. tracked_at g n (ends live n S) (paths n)) \<Longrightarrow> tracked g live S paths"
  unfolding tracked_def by blast

lemma trackedD: "tracked g live S paths \<Longrightarrow> tracked_at g n (ends live n S) (paths n)"
  unfolding tracked_def by blast

lemma ends_same:
  assumes "\<And>t. t \<in> X \<Longrightarrow> node_of live t = k"
  shows "ends live n X = (if n = k then X else {})"
proof (rule set_eqI)
  fix t
  show "t \<in> ends live n X \<longleftrightarrow> t \<in> (if n = k then X else {})" using assms [of t] by (cases "t \<in> X") (simp_all add: ends_def)
qed

lemma ends_Un: "ends live n (S \<union> T) = ends live n S \<union> ends live n T"
  by (auto simp: ends_def)

lemma least_of_join:
  assumes "least_of S n c" and "least_of X m x" and "S \<inter> X = {}"
  shows "least_of (S \<union> X) (n + m) (if path_less x c then x else c)"
proof -
  have S: "finite S" "n = of_nat (card S)" "c \<in> S" "\<forall>t\<in>S. \<not> path_less t c"
    using assms(1) by (auto simp: least_of_def)
  have X: "finite X" "m = of_nat (card X)" "x \<in> X" "\<forall>t\<in>X. \<not> path_less t x"
    using assms(2) by (auto simp: least_of_def)
  let ?m = "if path_less x c then x else c"
  have "\<not> path_less t ?m" if "t \<in> S \<union> X" for t
  proof (cases "path_less x c")
    case True
    then have "\<not> path_less t x" using that S(4) X(4) strict_weak_trans [OF strict_weak_path_less, of t x c] by blast
    with True show ?thesis by simp
  next
    case False
    then have "\<not> path_less t c" using that S(4) X(4) strict_weak_neg_trans [OF strict_weak_path_less, of t x c] by blast
    with False show ?thesis by simp
  qed
  moreover have "of_nat (card (S \<union> X)) = n + m" using S(1,2) X(1,2) assms(3) by (simp add: card_Un_disjoint)
  moreover have "?m \<in> S \<union> X" using S(3) X(3) by simp
  ultimately show ?thesis using S(1) X(1) unfolding least_of_def by simp
qed

lemma relax_tracked:
  assumes paths: "tracked g live S paths" and p: "carries N p"
    and N: "\<forall>t\<in>N. node_of live t = n \<and> clean_steps t \<and> t \<noteq> []" and inj: "inj_on (\<lambda>t. extend_steps t e) N"
    and fresh: "S \<inter> (\<lambda>t. extend_steps t e) ` N = {}" and at: "node_state g (class_step live n e) = de_state e"
  shows "tracked g live (S \<union> (\<lambda>t. extend_steps t e) ` N) (relax_edge live n p paths e)"
proof -
  let ?X = "(\<lambda>t. extend_steps t e) ` N" and ?to = "class_step live n e" and ?s = "extend_steps (cp_steps p) e"
  have to: "node_of live t = ?to" if "t \<in> ?X" for t
  proof -
    from that obtain u where u: "u \<in> N" "t = extend_steps u e" by blast
    with N have ne: "u \<noteq> []" and n: "node_of live u = n" by blast+
    show ?thesis unfolding u(2) node_of_extend [OF ne] n ..
  qed
  have X: "ends live m ?X = (if m = ?to then ?X else {})" for m
    by (rule ends_same) (rule to)
  have least: "least_of ?X (cp_count p) ?s"
    unfolding least_of_def
  proof (intro conjI ballI)
    show "finite ?X" "cp_count p = of_nat (card ?X)" "?s \<in> ?X"
      using p by (auto simp: carries_def least_of_def card_image [OF inj])
    fix t assume "t \<in> ?X"
    then obtain u where u: "u \<in> N" "t = extend_steps u e" by blast
    have s: "cp_steps p \<in> N" "\<not> path_less u (cp_steps p)" using p u(1) unfolding carries_def least_of_def by blast+
    show "\<not> path_less t ?s" unfolding u(2)
      by (rule path_less_extend [OF s(2)]) (use N u(1) s(1) in blast)+
  qed
  have other: "tracked_at g m (ends live m (S \<union> ?X)) (relax_edge live n p paths e m)" if "m \<noteq> ?to" for m
    using trackedD [OF paths, of m] that by (simp add: relax_edge_def Let_def ends_Un X split: option.split)
  have "tracked_at g ?to (ends live ?to (S \<union> ?X)) (relax_edge live n p paths e ?to)"
  proof (cases "paths ?to")
    case None
    then have "ends live ?to S = {}" using trackedD [OF paths, of ?to] by (simp add: tracked_at_def)
    then show ?thesis
      using least at None by (simp add: ends_Un X carries_def tracked_at_def relax_edge_def Let_def)
  next
    case (Some q)
    then have q: "carries (ends live ?to S) q" "cp_at q = node_state g ?to"
      using trackedD [OF paths, of ?to] by (simp_all add: tracked_at_def)
    have disj: "ends live ?to S \<inter> ?X = {}" using fresh by (auto simp: ends_def)
    from least_of_join [OF q(1) [unfolded carries_def] least disj]
    show ?thesis using q(2) Some by (simp add: ends_Un X tracked_at_def carries_def relax_edge_def Let_def)
  qed
  with other show ?thesis by (intro trackedI) metis
qed

subsection \<open>The pass in topological order\<close>

text \<open>The chains whose last but one component has been handled.\<close>

definition settled :: "failure_graph \<Rightarrow> liveness \<Rightarrow> string \<Rightarrow> string \<Rightarrow> graph_state \<Rightarrow> class_node set \<Rightarrow> step list set" where
  "settled g live root cn st D =
     {t \<in> open_chains g root cn st. t = [plain_step cn (gs_name st)] \<or>
        (\<exists>u e. u \<in> open_chains g root cn st \<and> node_of live u \<in> D \<and> e \<in> set (node_edges g root (node_of live u)) \<and>
           t = extend_steps u e)}"

lemma node_of_simps [simp]:
  "fst (node_of live t) = end_comp t" "snd (snd (node_of live t)) = (\<not> chain_live live t)"
  by (simp_all add: node_of_def)

lemma node_state_of [simp]: "node_state g (node_of live t) = end_state g t"
  by (simp add: node_state_def node_of_def end_state_def end_comp_def)

lemma node_edges_of: "node_edges g root (node_of live u) = next_edges g root (end_comp u) (end_state g u)"
  by (simp add: node_edges_def)

lemma open_chains_extend:
  "simple_graph g \<Longrightarrow> failing g cn st \<Longrightarrow> u \<in> open_chains g root cn st \<Longrightarrow> e \<in> set (node_edges g root (node_of live u)) \<Longrightarrow>
   extend_steps u e \<in> open_chains g root cn st"
  unfolding open_chains_def mem_Collect_eq node_edges_of by (rule open_chain_extend)

lemma open_chains_inj:
  assumes "simple_graph g" and "failing g cn st" and "u \<in> open_chains g root cn st" "v \<in> open_chains g root cn st"
    and "e \<in> set (node_edges g root (node_of live u))" "f \<in> set (node_edges g root (node_of live v))"
    and "extend_steps u e = extend_steps v f"
  shows "u = v \<and> e = f"
  using assms extend_steps_inj [OF assms(1,2)] unfolding open_chains_def mem_Collect_eq node_edges_of by blast

lemma open_chains_nonempty: "t \<in> open_chains g root cn st \<Longrightarrow> t \<noteq> []"
  unfolding open_chains_def mem_Collect_eq by (rule open_chain_nonempty)

lemma extend_not_plain: "u \<noteq> [] \<Longrightarrow> extend_steps u e \<noteq> [s]"
  by (rule notI) (use length_extend [of u e] in \<open>simp del: length_extend\<close>)

lemma settled_insert:
  assumes simple: "simple_graph g" and ok: "failing g cn st"
  shows "settled g live root cn st (insert n D) = settled g live root cn st D \<union>
    (\<Union>e\<in>set (node_edges g root n). (\<lambda>t. extend_steps t e) ` ends live n (open_chains g root cn st))"
proof (rule set_eqI)
  fix t
  show "t \<in> settled g live root cn st (insert n D) \<longleftrightarrow> t \<in> settled g live root cn st D \<union>
    (\<Union>e\<in>set (node_edges g root n). (\<lambda>t. extend_steps t e) ` ends live n (open_chains g root cn st))" (is "?l \<longleftrightarrow> ?r")
  proof
    assume ?l
    then show ?r unfolding settled_def ends_def by blast
  next
    assume ?r
    then show ?l
    proof
      assume "t \<in> settled g live root cn st D"
      then show ?l unfolding settled_def by blast
    next
      assume "t \<in> (\<Union>e\<in>set (node_edges g root n). (\<lambda>t. extend_steps t e) ` ends live n (open_chains g root cn st))"
      then obtain e u where e: "e \<in> set (node_edges g root n)" "u \<in> open_chains g root cn st" "node_of live u = n" "t = extend_steps u e"
        unfolding ends_def by blast
      then have "t \<in> open_chains g root cn st" using open_chains_extend [OF simple ok] by blast
      then show ?l using e unfolding settled_def by blast
    qed
  qed
qed

lemma settled_fresh:
  assumes simple: "simple_graph g" and ok: "failing g cn st" and "n \<notin> D" and e: "e \<in> set (node_edges g root n)"
  shows "settled g live root cn st D \<inter> (\<lambda>t. extend_steps t e) ` ends live n (open_chains g root cn st) = {}"
proof (rule equals0I)
  fix t assume "t \<in> settled g live root cn st D \<inter> (\<lambda>t. extend_steps t e) ` ends live n (open_chains g root cn st)"
  then obtain u where u: "u \<in> open_chains g root cn st" "node_of live u = n" "t = extend_steps u e" and "t \<in> settled g live root cn st D"
    unfolding ends_def by blast
  moreover have "t \<noteq> [plain_step cn (gs_name st)]" unfolding u(3) by (rule extend_not_plain [OF open_chains_nonempty [OF u(1)]])
  ultimately obtain v f where v: "v \<in> open_chains g root cn st" "node_of live v \<in> D" "f \<in> set (node_edges g root (node_of live v))"
    "t = extend_steps v f" unfolding settled_def by blast
  have "u = v" using open_chains_inj [OF simple ok u(1) v(1) _ v(3)] e u(2,3) v(4) by blast
  with v(2) u(2) assms(3) show False by simp
qed

lemma ends_open: "u \<in> ends live n (open_chains g root cn st) \<longleftrightarrow> u \<in> open_chains g root cn st \<and> node_of live u = n"
  by (simp add: ends_def)

lemma ends_open_inj:
  assumes "simple_graph g" and "failing g cn st" and u: "u \<in> ends live n (open_chains g root cn st)"
    and v: "v \<in> ends live n (open_chains g root cn st)"
    and e: "e \<in> set (node_edges g root n)" and f: "f \<in> set (node_edges g root n)" and eq: "extend_steps u e = extend_steps v f"
  shows "u = v \<and> e = f"
proof (rule open_chains_inj [OF assms(1,2) _ _ _ _ eq])
  show "u \<in> open_chains g root cn st" "v \<in> open_chains g root cn st" using u v by (simp_all only: ends_open)
  show "e \<in> set (node_edges g root (node_of live u))" "f \<in> set (node_edges g root (node_of live v))"
    using u v e f by (simp_all only: ends_open)
qed

lemma targets_firstD:
  assumes "targets_first g live root order" and "n \<in> set order" and "e \<in> set (node_edges g root n)"
  obtains i where "i < length order" "order ! i = n" "class_step live n e \<in> set (take i order)"
proof -
  from assms(2) obtain i where i: "i < length order" "order ! i = n" unfolding in_set_conv_nth by blast
  with assms(1) have "class_step live n ` set (node_edges g root n) \<subseteq> set (take i order)" unfolding targets_first_def by blast
  with assms(3) have "class_step live n e \<in> set (take i order)" by blast
  with i show thesis by (rule that)
qed

lemma relax_edges_tracked:
  assumes simple: "simple_graph g" and clean: "clean_names g" and ok: "failing g cn st"
    and p: "carries (ends live n (open_chains g root cn st)) p"
  shows "tracked g live S paths \<Longrightarrow> set es \<subseteq> set (node_edges g root n) \<Longrightarrow> distinct es \<Longrightarrow>
    \<forall>e\<in>set es. S \<inter> (\<lambda>t. extend_steps t e) ` ends live n (open_chains g root cn st) = {} \<Longrightarrow>
    tracked g live (S \<union> (\<Union>e\<in>set es. (\<lambda>t. extend_steps t e) ` ends live n (open_chains g root cn st)))
      (foldl (relax_edge live n p) paths es)"
proof (induction es arbitrary: S paths)
  case Nil
  then show ?case by simp
next
  case (Cons e es)
  let ?N = "ends live n (open_chains g root cn st)" and ?x = "\<lambda>e. (\<lambda>t. extend_steps t e) ` ends live n (open_chains g root cn st)"
  have e: "e \<in> set (node_edges g root n)" using Cons.prems(2) by simp
  have N: "\<forall>t\<in>?N. node_of live t = n \<and> clean_steps t \<and> t \<noteq> []"
    using open_chain_clean [OF clean _ ok] open_chain_nonempty unfolding ends_def open_chains_def by blast
  have inj: "inj_on (\<lambda>t. extend_steps t e) ?N"
    by (rule inj_onI) (rule conjunct1 [OF ends_open_inj [OF simple ok _ _ e e]])
  have fresh: "S \<inter> ?x e = {}" using Cons.prems(4) by simp
  have "tracked g live (S \<union> ?x e) (relax_edge live n p paths e)"
    by (rule relax_tracked [OF Cons.prems(1) p N inj fresh])
      (rule node_state_step(1) [OF simple e [unfolded node_edges_def]])
  moreover have "\<forall>f\<in>set es. (S \<union> ?x e) \<inter> ?x f = {}"
  proof
    fix f assume f: "f \<in> set es"
    have "?x e \<inter> ?x f = {}"
    proof (rule equals0I)
      fix t assume "t \<in> ?x e \<inter> ?x f"
      then obtain u v where "u \<in> ?N" "v \<in> ?N" "t = extend_steps u e" "t = extend_steps v f" by blast
      moreover have "f \<in> set (node_edges g root n)" using f Cons.prems(2) by auto
      ultimately have "e = f" using ends_open_inj [OF simple ok _ _ e] by metis
      with f Cons.prems(3) show False by simp
    qed
    moreover have "S \<inter> ?x f = {}" using Cons.prems(4) f by (simp only: list.set insert_iff ball_simps)
    ultimately show "(S \<union> ?x e) \<inter> ?x f = {}" by (simp only: Int_Un_distrib2 Un_empty)
  qed
  ultimately have "tracked g live ((S \<union> ?x e) \<union> (\<Union>f\<in>set es. ?x f)) (foldl (relax_edge live n p) (relax_edge live n p paths e) es)"
    using Cons.prems by (intro Cons.IH) auto
  then show ?case by (simp add: Un_assoc)
qed

lemma distinct_node_edges: "simple_graph g \<Longrightarrow> distinct (node_edges g root n)"
  using distinct_next_edges by (auto simp: node_edges_def distinct_map)

lemma chain_node_in_order:
  assumes simple: "simple_graph g" and ok: "failing g cn st" and order: "targets_first g live root order"
    and start: "node_of live [plain_step cn (gs_name st)] \<in> set order"
  shows "t \<in> open_chains g root cn st \<Longrightarrow> node_of live t \<in> set order"
proof (induction "length t" arbitrary: t rule: less_induct)
  case less
  from less.prems have t: "open_chain g root cn st t" by (simp add: open_chains_def)
  from open_chain_split [OF simple this ok] show ?case
  proof
    assume "t = [plain_step cn (gs_name st)]"
    with start show ?thesis by simp
  next
    assume "\<exists>u e. open_chain g root cn st u \<and> e \<in> set (next_edges g root (end_comp u) (end_state g u)) \<and> t = extend_steps u e"
    then obtain u e where u: "u \<in> open_chains g root cn st" "e \<in> set (node_edges g root (node_of live u))" "t = extend_steps u e"
      unfolding open_chains_def mem_Collect_eq node_edges_of by blast
    have ne: "u \<noteq> []" by (rule open_chains_nonempty [OF u(1)])
    have "node_of live u \<in> set order" by (rule less.hyps [OF _ u(1)]) (simp add: u(3) ne)
    then obtain i where "class_step live (node_of live u) e \<in> set (take i order)"
      using targets_firstD [OF order _ u(2)] by metis
    then show ?thesis unfolding u(3) node_of_extend [OF ne] by (rule in_set_takeD)
  qed
qed

lemma take_later: "distinct (xs @ x # ys) \<Longrightarrow> x \<in> set (take i (xs @ x # ys)) \<Longrightarrow> length xs < i"
  by (rule ccontr) (auto simp: not_less dest: in_set_takeD)

lemma nth_later: "length xs < i \<Longrightarrow> i < length (xs @ x # ys) \<Longrightarrow> (xs @ x # ys) ! i \<in> set ys"
  by (simp add: nth_append nth_Cons')

lemma ends_settled:
  assumes simple: "simple_graph g" and ok: "failing g cn st" and order: "targets_first g live root (rev ns @ n # order)"
    and dist: "distinct (rev ns @ n # order)"
    and start: "node_of live [plain_step cn (gs_name st)] \<in> set (rev ns @ n # order)"
  shows "ends live n (settled g live root cn st (set order)) = ends live n (open_chains g root cn st)"
proof (rule equalityI)
  show "ends live n (settled g live root cn st (set order)) \<subseteq> ends live n (open_chains g root cn st)"
    unfolding ends_def settled_def by blast
  show "ends live n (open_chains g root cn st) \<subseteq> ends live n (settled g live root cn st (set order))"
  proof
    fix t assume t: "t \<in> ends live n (open_chains g root cn st)"
    then have tc: "open_chain g root cn st t" and tn: "node_of live t = n" by (simp_all add: ends_def open_chains_def)
    have "t \<in> settled g live root cn st (set order)"
    proof (cases "t = [plain_step cn (gs_name st)]")
      case True
      with tc show ?thesis by (simp add: settled_def open_chains_def)
    next
      case False
      with open_chain_split [OF simple tc ok] obtain u e where
        u: "u \<in> open_chains g root cn st" "e \<in> set (node_edges g root (node_of live u))" "t = extend_steps u e"
        unfolding open_chains_def mem_Collect_eq node_edges_of by blast
      have step: "class_step live (node_of live u) e = n"
        using tn unfolding u(3) node_of_extend [OF open_chains_nonempty [OF u(1)]] .
      have "node_of live u \<in> set (rev ns @ n # order)" by (rule chain_node_in_order [OF simple ok order start u(1)])
      then obtain i where i: "i < length (rev ns @ n # order)" "(rev ns @ n # order) ! i = node_of live u"
        "n \<in> set (take i (rev ns @ n # order))"
        using targets_firstD [OF order _ u(2)] step by metis
      have "node_of live u \<in> set order"
        using nth_later [OF take_later [OF dist i(3)] i(1)] unfolding i(2) .
      with tc u show ?thesis unfolding settled_def open_chains_def by blast
    qed
    with tn show "t \<in> ends live n (settled g live root cn st (set order))" by (simp add: ends_def)
  qed
qed

subsection \<open>The representatives of a root\<close>

lemma scenario_less_root: "scenario_less (root_scenario r a) (root_scenario r b) \<longleftrightarrow> path_less a b"
  by (simp add: scenario_less_def scenario_length_def root_scenario_def path_less_def)

text \<open>For each class the number and the least of the chains in it.\<close>

definition rep_at :: "dp_key \<Rightarrow> step list set \<Rightarrow> counted_rep option \<Rightarrow> bool" where
  "rep_at r S ro \<longleftrightarrow>
     (case ro of None \<Rightarrow> S = {}
      | Some sn \<Rightarrow> fst sn = root_scenario r (sc_chain (fst sn)) \<and> least_of S (snd sn) (sc_chain (fst sn)))"

definition reps_ok :: "dp_key \<Rightarrow> class_reps \<Rightarrow> (string \<times> bool \<Rightarrow> step list set) \<Rightarrow> bool" where
  "reps_ok r reps C \<longleftrightarrow> distinct (map fst reps) \<and> (\<forall>k. rep_at r (C k) (map_of reps k))"

lemma reps_okD: "reps_ok r reps C \<Longrightarrow> rep_at r (C k) (map_of reps k)"
  unfolding reps_ok_def by blast

lemma chain_root_scenario [simp]: "sc_chain (root_scenario r c) = c"
  by (simp add: root_scenario_def)

lemma map_of_update: "map_of (AList.update k v xs) j = (if j = k then Some v else map_of xs j)"
  by (simp add: update_conv)

lemma add_rep_ok:
  assumes reps: "reps_ok r reps C" and X: "least_of X n steps" and disj: "C k \<inter> X = {}"
  shows "reps_ok r (add_rep r k steps n reps) (C(k := C k \<union> X))"
proof -
  have "\<exists>sn. add_rep r k steps n reps = AList.update k sn reps \<and> rep_at r (C k \<union> X) (Some sn)"
  proof (cases "map_of reps k")
    case None
    then have "C k = {}" using reps_okD [OF reps, of k] by (simp add: rep_at_def)
    with X None show ?thesis by (intro exI [of _ "(root_scenario r steps, n)"]) (simp add: rep_at_def add_rep_def)
  next
    case (Some sn)
    obtain sc m where sn: "sn = (sc, m)" by (cases sn)
    have sc: "sc = root_scenario r (sc_chain sc)" "least_of (C k) m (sc_chain sc)"
      using reps_okD [OF reps, of k] Some sn by (simp_all add: rep_at_def)
    have less: "scenario_less (root_scenario r steps) sc \<longleftrightarrow> path_less steps (sc_chain sc)"
      by (subst sc(1)) (rule scenario_less_root)
    let ?new = "(if scenario_less (root_scenario r steps) sc then root_scenario r steps else sc, m + n)"
    have "fst ?new = root_scenario r (sc_chain (fst ?new))" using sc(1) by simp
    moreover have "sc_chain (fst ?new) = (if path_less steps (sc_chain sc) then steps else sc_chain sc)" by (simp add: less)
    ultimately have "rep_at r (C k \<union> X) (Some ?new)"
      using least_of_join [OF sc(2) X disj] by (simp add: rep_at_def)
    moreover have "add_rep r k steps n reps = AList.update k ?new reps" using Some sn by (simp add: add_rep_def)
    ultimately show ?thesis by blast
  qed
  then obtain sn where sn: "add_rep r k steps n reps = AList.update k sn reps" "rep_at r (C k \<union> X) (Some sn)" by blast
  have "rep_at r ((C(k := C k \<union> X)) j) (if j = k then Some sn else map_of reps j)" for j
    using sn(2) reps_okD [OF reps, of j] by simp
  moreover have "distinct (map fst (AList.update k sn reps))" using reps by (simp add: reps_ok_def distinct_update)
  ultimately show ?thesis unfolding reps_ok_def sn(1) map_of_update by blast
qed

text \<open>The chains that end at a handled node where there is something to observe.\<close>

definition class_chains ::
    "failure_graph \<Rightarrow> liveness \<Rightarrow> string \<Rightarrow> string \<Rightarrow> graph_state \<Rightarrow> class_node set \<Rightarrow> string \<times> bool \<Rightarrow> step list set" where
  "class_chains g live root cn st D k =
     observed_chain g ` {t \<in> open_chains g root cn st. node_of live t \<in> D \<and> t \<noteq> [plain_step cn (gs_name st)] \<and>
       observed_facts g (end_comp t) \<noteq> [] \<and> (end_comp t, \<not> chain_live live t) = k}"

lemma chain_key_observed [simp]: "t \<noteq> [] \<Longrightarrow> chain_key (observed_chain g t) = chain_key t"
  by (cases t rule: rev_cases) (simp_all add: observed_chain_def set_observes_def chain_key_def)

lemma length_observed [simp]: "t \<noteq> [] \<Longrightarrow> length (observed_chain g t) = length t"
  by (cases t rule: rev_cases) (simp_all add: observed_chain_def set_observes_def)

lemma observed_inj:
  assumes simple: "simple_graph g" and ok: "failing g cn st"
    and t: "t \<in> open_chains g root cn st" "u \<in> open_chains g root cn st" and eq: "observed_chain g t = observed_chain g u"
  shows "t = u"
proof -
  have ne: "t \<noteq> []" "u \<noteq> []" using t open_chains_nonempty by blast+
  have plain: "last t = plain_step (end_comp t) (gs_name (end_state g t))" "last u = plain_step (end_comp u) (gs_name (end_state g u))"
    using open_chain_last [OF simple _ ok] t unfolding open_chains_def by blast+
  have o: "butlast (observed_chain g x) = butlast x" "sp_component (last (observed_chain g x)) = sp_component (last x)"
      "sp_state (last (observed_chain g x)) = sp_state (last x)" if "x \<noteq> []" for x
    using that by (simp_all add: observed_chain_def set_observes_def)
  have "last t = last u" using o(2,3) [OF ne(1)] o(2,3) [OF ne(2)] eq plain by (simp add: plain_step_def)
  moreover have "butlast t = butlast u" using o(1) [OF ne(1)] o(1) [OF ne(2)] eq by simp
  ultimately show ?thesis using append_butlast_last_id [OF ne(1)] append_butlast_last_id [OF ne(2)] by metis
qed

lemma only_start_ends_there:
  assumes simple: "simple_graph g" and ok: "failing g cn st" and t: "t \<in> open_chains g root cn st"
  shows "end_comp t = cn \<longleftrightarrow> t = [plain_step cn (gs_name st)]"
proof
  assume "end_comp t = cn"
  show "t = [plain_step cn (gs_name st)]"
  proof (rule ccontr)
    assume ne: "t \<noteq> [plain_step cn (gs_name st)]"
    have tc: "open_chain g root cn st t" using t by (simp add: open_chains_def)
    from open_chain_split [OF simple tc ok] ne obtain u e where
      u: "open_chain g root cn st u" "e \<in> set (next_edges g root (end_comp u) (end_state g u))" "t = extend_steps u e" by blast
    have "(cn, end_comp u) \<in> (spread g)\<^sup>*" using open_chain_last [OF simple u(1) ok] by blast
    moreover have "(end_comp u, cn) \<in> spread g" using next_edges_spread [OF u(2)] \<open>end_comp t = cn\<close> u(3) by simp
    ultimately show False using acyclic_spread [OF simple] by blast
  qed
qed (simp add: end_comp_def plain_step_def)

lemma start_node_iff:
  assumes "simple_graph g" and "failing g cn st" and "t \<in> open_chains g root cn st"
  shows "node_of live t = node_of live [plain_step cn (gs_name st)] \<longleftrightarrow> t = [plain_step cn (gs_name st)]"
proof
  assume "node_of live t = node_of live [plain_step cn (gs_name st)]"
  then have "end_comp t = cn" by (simp add: node_of_def end_comp_def plain_step_def)
  then show "t = [plain_step cn (gs_name st)]" using only_start_ends_there [OF assms] by blast
qed simp

lemma least_observed:
  assumes simple: "simple_graph g" and ok: "failing g cn st" and S: "S \<subseteq> open_chains g root cn st" and least: "least_of S n c"
  shows "least_of (observed_chain g ` S) n (observed_chain g c)"
proof -
  have "inj_on (observed_chain g) S" by (rule inj_onI) (use observed_inj [OF simple ok] S in blast)
  moreover have "\<not> path_less (observed_chain g t) (observed_chain g c)" if "t \<in> S" for t
  proof -
    have "t \<noteq> []" "c \<noteq> []" using that S least open_chains_nonempty unfolding least_of_def by blast+
    then show ?thesis using least that by (simp add: path_less_def least_of_def)
  qed
  ultimately show ?thesis using least by (simp add: least_of_def card_image)
qed

lemma class_chains_insert:
  assumes simple: "simple_graph g" and ok: "failing g cn st"
  shows "class_chains g live root cn st (insert n D) =
    (if n \<noteq> node_of live [plain_step cn (gs_name st)] \<and> observed_facts g (fst n) \<noteq> []
     then (class_chains g live root cn st D)
       ((fst n, snd (snd n)) := class_chains g live root cn st D (fst n, snd (snd n)) \<union> observed_chain g ` ends live n (open_chains g root cn st))
     else class_chains g live root cn st D)"
proof -
  let ?here = "\<lambda>k. {t \<in> open_chains g root cn st. node_of live t = n \<and> t \<noteq> [plain_step cn (gs_name st)] \<and>
       observed_facts g (end_comp t) \<noteq> [] \<and> (end_comp t, \<not> chain_live live t) = k}"
  have split: "class_chains g live root cn st (insert n D) k = class_chains g live root cn st D k \<union> observed_chain g ` ?here k" for k
    unfolding class_chains_def by (simp only: insert_iff image_Un [symmetric]) (rule arg_cong [where f = "\<lambda>X. observed_chain g ` X"], blast)
  have key: "(end_comp t, \<not> chain_live live t) = (fst n, snd (snd n))" if "node_of live t = n" for t
    using that by (simp add: node_of_def prod_eq_iff)
  show ?thesis
  proof (cases "n \<noteq> node_of live [plain_step cn (gs_name st)] \<and> observed_facts g (fst n) \<noteq> []")
    case True
    have "?here k = (if k = (fst n, snd (snd n)) then ends live n (open_chains g root cn st) else {})" for k
    proof (rule set_eqI)
      fix t
      show "t \<in> ?here k \<longleftrightarrow> t \<in> (if k = (fst n, snd (snd n)) then ends live n (open_chains g root cn st) else {})"
      proof (cases "t \<in> open_chains g root cn st \<and> node_of live t = n")
        case here: True
        have "t \<noteq> [plain_step cn (gs_name st)]" using True here by metis
        moreover have "observed_facts g (end_comp t) \<noteq> []" using True key [of t] here by simp
        ultimately show ?thesis using here key [of t] by (simp only: mem_Collect_eq ends_open if_split_mem2) auto
      next
        case False
        then have "t \<notin> ?here k" "t \<notin> ends live n (open_chains g root cn st)" unfolding ends_open by blast+
        then show ?thesis by (simp only: if_split_mem2 empty_iff) simp
      qed
    qed
    then have at: "class_chains g live root cn st (insert n D) k =
        class_chains g live root cn st D k \<union> observed_chain g ` (if k = (fst n, snd (snd n)) then ends live n (open_chains g root cn st) else {})" for k
      by (simp only: split)
    have "class_chains g live root cn st (insert n D) =
       (class_chains g live root cn st D)
       ((fst n, snd (snd n)) := class_chains g live root cn st D (fst n, snd (snd n)) \<union> observed_chain g ` ends live n (open_chains g root cn st))"
    proof (rule ext)
      fix k
      show "class_chains g live root cn st (insert n D) k = ((class_chains g live root cn st D)
       ((fst n, snd (snd n)) := class_chains g live root cn st D (fst n, snd (snd n)) \<union> observed_chain g ` ends live n (open_chains g root cn st))) k"
        unfolding at by (cases "k = (fst n, snd (snd n))") simp_all
    qed
    then show ?thesis unfolding if_P [OF True] .
  next
    case False
    have "?here k = {}" for k
    proof (rule equals0I)
      fix t assume t: "t \<in> ?here k"
      then have u: "t \<in> open_chains g root cn st" "node_of live t = n" "t \<noteq> [plain_step cn (gs_name st)]"
        and obs: "observed_facts g (end_comp t) \<noteq> []" by blast+
      have "n \<noteq> node_of live [plain_step cn (gs_name st)]"
        using start_node_iff [OF simple ok u(1), of live] u(3) unfolding u(2) by blast
      moreover have "observed_facts g (fst n) \<noteq> []" using obs unfolding u(2) [symmetric] by simp
      ultimately show False using False by blast
    qed
    then have "class_chains g live root cn st (insert n D) k = class_chains g live root cn st D k" for k
      by (simp only: split image_empty Un_empty_right)
    then have "class_chains g live root cn st (insert n D) = class_chains g live root cn st D" by (rule ext)
    then show ?thesis unfolding if_not_P [OF False] .
  qed
qed

lemma class_pass_ok:
  assumes simple: "simple_graph g" and clean: "clean_names g" and ok: "failing g cn st"
    and r: "fst r = cn" and start: "start = node_of live [plain_step cn (gs_name st)]"
  shows "tracked g live (settled g live cn cn st (set ds)) paths \<Longrightarrow>
    reps_ok r reps (class_chains g live cn cn st (set ds)) \<Longrightarrow>
    targets_first g live cn (rev ns @ ds) \<Longrightarrow> distinct (rev ns @ ds) \<Longrightarrow> start \<in> set (rev ns @ ds) \<Longrightarrow>
    tracked g live (settled g live cn cn st (set ns \<union> set ds)) (fst (class_pass g live r start ns paths reps)) \<and>
    reps_ok r (snd (class_pass g live r start ns paths reps)) (class_chains g live cn cn st (set ns \<union> set ds))"
proof (induction ns arbitrary: ds paths reps)
  case Nil
  then show ?case by simp
next
  case (Cons n ns)
  let ?U = "open_chains g cn cn st"
  let ?key = "(fst n, snd (snd n))"
  have order: "targets_first g live cn (rev ns @ n # ds)" "distinct (rev ns @ n # ds)" "start \<in> set (rev ns @ n # ds)"
    using Cons.prems(3-5) by simp_all
  have free: "n \<notin> set ds" using order(2) by simp
  have at: "tracked_at g n (ends live n ?U) (paths n)"
    using trackedD [OF Cons.prems(1), of n] unfolding ends_settled [OF simple ok order(1,2) order(3) [unfolded start]] .
  have sets: "set (n # ns) \<union> set ds = set ns \<union> set (n # ds)" by auto
  have after: "tracked g live (settled g live cn cn st (set ns \<union> set (n # ds))) (fst (class_pass g live r start ns paths' reps')) \<and>
    reps_ok r (snd (class_pass g live r start ns paths' reps')) (class_chains g live cn cn st (set ns \<union> set (n # ds)))"
    if "tracked g live (settled g live cn cn st (set (n # ds))) paths'" "reps_ok r reps' (class_chains g live cn cn st (set (n # ds)))"
    for paths' reps'
    using Cons.IH [OF that] order by simp
  show ?case
  proof (cases "paths n")
    case None
    then have none: "ends live n ?U = {}" using at by (simp add: tracked_at_def)
    have "settled g live cn cn st (set (n # ds)) = settled g live cn cn st (set ds)"
      unfolding list.set settled_insert [OF simple ok] none by simp
    moreover have "class_chains g live cn cn st (set (n # ds)) = class_chains g live cn cn st (set ds)"
      unfolding list.set class_chains_insert [OF simple ok] none by (simp only: image_empty Un_empty_right fun_upd_triv if_cancel)
    ultimately show ?thesis using after [of paths reps] Cons.prems(1,2) None unfolding sets by simp
  next
    case (Some p)
    then have p: "carries (ends live n ?U) p" "cp_at p = node_state g n" using at by (simp_all add: tracked_at_def)
    let ?es = "node_edges g cn n"
    have "tracked g live (settled g live cn cn st (set (n # ds))) (foldl (relax_edge live n p) paths ?es)"
      unfolding list.set settled_insert [OF simple ok]
      by (rule relax_edges_tracked [OF simple clean ok p(1) Cons.prems(1) subset_refl distinct_node_edges [OF simple]])
        (intro ballI settled_fresh [OF simple ok free])
    moreover have es: "next_edges g (fst r) (fst n) (cp_at p) = ?es" by (simp only: node_edges_def p(2) r)
    let ?reps = "if n \<noteq> start \<and> observed_facts g (fst n) \<noteq> []
             then add_rep r ?key (set_observes (cp_steps p) (observed_facts g (fst n))) (cp_count p) reps else reps"
    have "reps_ok r ?reps (class_chains g live cn cn st (set (n # ds)))"
    proof (cases "n \<noteq> start \<and> observed_facts g (fst n) \<noteq> []")
      case True
      have steps: "set_observes (cp_steps p) (observed_facts g (fst n)) = observed_chain g (cp_steps p)"
        using p(1) node_of_simps(1) [of live "cp_steps p"] by (auto simp: carries_def least_of_def ends_def observed_chain_def)
      have "least_of (observed_chain g ` ends live n ?U) (cp_count p) (observed_chain g (cp_steps p))"
        by (rule least_observed [where root = cn, OF simple ok _ p(1) [unfolded carries_def]]) (use ends_open in blast)
      moreover have "class_chains g live cn cn st (set ds) ?key \<inter> observed_chain g ` ends live n ?U = {}"
      proof (rule equals0I)
        fix x assume "x \<in> class_chains g live cn cn st (set ds) ?key \<inter> observed_chain g ` ends live n ?U"
        then obtain t u where "t \<in> ?U" "node_of live t \<in> set ds" "u \<in> ?U" "node_of live u = n" "observed_chain g t = observed_chain g u"
          unfolding class_chains_def ends_def by blast
        with observed_inj [OF simple ok] free show False by metis
      qed
      ultimately show ?thesis
        using add_rep_ok [OF Cons.prems(2)] True unfolding list.set class_chains_insert [OF simple ok] start [symmetric] steps
        by (simp only: if_True simp_thms)
    next
      case False
      then show ?thesis
        using Cons.prems(2) unfolding list.set class_chains_insert [OF simple ok] start [symmetric] by (simp only: if_False)
    qed
    ultimately have "tracked g live (settled g live cn cn st (set ns \<union> set (n # ds)))
        (fst (class_pass g live r start ns (foldl (relax_edge live n p) paths ?es) ?reps)) \<and>
      reps_ok r (snd (class_pass g live r start ns (foldl (relax_edge live n p) paths ?es) ?reps))
        (class_chains g live cn cn st (set ns \<union> set (n # ds)))"
      by (rule after)
    then show ?thesis unfolding sets by (simp add: Some es)
  qed
qed

lemma root_walk:
  assumes simple: "simple_graph g" and ok: "failing g cn st" and start: "start = node_of live [plain_step cn (gs_name st)]"
  obtains seen order where "class_visit g live cn {} start st ({}, [], False) = (seen, order, False)" "distinct order"
    "targets_first g live cn order" "start \<in> set order"
proof -
  have st: "node_state g start = st"
    using state_named_failing [OF simple ok] by (simp add: start node_state_def)
  have failing: "node_failing g start" using ok by (simp add: node_failing_def st) (simp add: start)
  obtain seen order err where v: "class_visit g live cn {} start st ({}, [], False) = (seen, order, err)" by (metis prod.exhaust)
  have "ready g live cn {} ({}, [], False)" by (simp add: ready_def)
  from class_visit_well(1) [OF simple failing st [symmetric] this]
  have w: "visited_well g live cn {} start ({}, [], False) (seen, order, err)" "start \<in> set order" unfolding v by simp_all
  then have "\<not> err" "distinct order" "targets_first g live cn order" by (simp_all add: visited_well_def)
  with v w(2) that show thesis by simp
qed

lemma end_comp_observed [simp]: "end_comp (observed_chain g t) = end_comp t"
  by (simp add: end_comp_def observed_chain_def set_observes_def)

lemma chain_live_observed [simp]: "t \<noteq> [] \<Longrightarrow> chain_live live (observed_chain g t) = chain_live live t"
proof (induction t)
  case (Cons s t)
  show ?case
  proof (cases "t = []")
    case True
    then show ?thesis by (simp add: observed_chain_def set_observes_def)
  next
    case False
    have "sp_component (hd (observed_chain g t)) = sp_component (hd t)"
      using False by (cases t rule: rev_cases) (auto simp: observed_chain_def set_observes_def hd_append)
    moreover have "observed_chain g t \<noteq> []" by (simp add: observed_chain_def set_observes_def)
    ultimately show ?thesis using False Cons.IH by (simp add: observed_chain_Cons chain_live_cons)
  qed
qed simp

lemma open_chain_length_one:
  assumes "t \<in> open_chains g root cn st"
  shows "length t = 1 \<longleftrightarrow> t = [plain_step cn (gs_name st)]"
proof -
  have "open_chain g root cn st t" using assms by (simp add: open_chains_def)
  then show ?thesis
  proof (cases rule: open_chain.cases)
    case (on e u)
    then show ?thesis using open_chain_nonempty [OF on(3)] by auto
  qed simp
qed

lemma edge_chains_observed:
  assumes simple: "simple_graph g" and ok: "failing g cn st"
  shows "edge_chains all_live g root cn st =
    observed_chain g ` {t \<in> shown_chains g root cn st. t \<noteq> [plain_step cn (gs_name st)]}"
proof -
  have long: "length x \<noteq> 1" if "x \<in> edge_chains all_live g root cn st" for x
    using that by (auto simp: edge_chains_def dest: tails_hd)
  have "tails g root cn st = (if observed_facts g cn \<noteq> [] then {[last_step cn st (observed_facts g cn)]} else {}) \<union> edge_chains all_live g root cn st"
    unfolding edge_chains_def live_tails_all using tails_unfold [OF simple ok] by simp
  then have "edge_chains all_live g root cn st = {x \<in> tails g root cn st. length x \<noteq> 1}"
    using long by (auto split: if_splits)
  also have "\<dots> = observed_chain g ` {t \<in> shown_chains g root cn st. length t \<noteq> 1}"
    unfolding tails_shown [OF simple ok] using open_chains_nonempty [of _ g root cn st] by (auto simp: shown_chains_def)
  also have "{t \<in> shown_chains g root cn st. length t \<noteq> 1} = {t \<in> shown_chains g root cn st. t \<noteq> [plain_step cn (gs_name st)]}"
    using open_chain_length_one [of _ g root cn st] by (auto simp: shown_chains_def)
  finally show ?thesis .
qed

text \<open>The chains of a root in one class.\<close>

definition root_class :: "failure_graph \<Rightarrow> liveness \<Rightarrow> string \<Rightarrow> graph_state \<Rightarrow> string \<times> bool \<Rightarrow> step list set" where
  "root_class g live cn st k = {x \<in> root_set g cn st. (end_comp x, \<not> chain_live live x) = k}"

lemma class_chains_all:
  assumes simple: "simple_graph g" and ok: "failing g cn st"
    and all: "\<And>t. t \<in> open_chains g cn cn st \<Longrightarrow> node_of live t \<in> D"
  shows "class_chains g live cn cn st D k = {x \<in> edge_chains all_live g cn cn st. (end_comp x, \<not> chain_live live x) = k}"
proof (rule set_eqI)
  fix x
  have ne: "t \<noteq> []" if "t \<in> open_chains g cn cn st" for t using open_chains_nonempty [OF that] .
  have "x \<in> class_chains g live cn cn st D k \<longleftrightarrow>
      (\<exists>t. t \<in> open_chains g cn cn st \<and> t \<noteq> [plain_step cn (gs_name st)] \<and> observed_facts g (end_comp t) \<noteq> [] \<and>
         (end_comp t, \<not> chain_live live t) = k \<and> x = observed_chain g t)"
    unfolding class_chains_def using all by blast
  also have "\<dots> \<longleftrightarrow> (\<exists>t. t \<in> open_chains g cn cn st \<and> t \<noteq> [plain_step cn (gs_name st)] \<and> observed_facts g (end_comp t) \<noteq> [] \<and>
         (end_comp x, \<not> chain_live live x) = k \<and> x = observed_chain g t)"
  proof (rule ex_cong1)
    fix t
    show "(t \<in> open_chains g cn cn st \<and> t \<noteq> [plain_step cn (gs_name st)] \<and> observed_facts g (end_comp t) \<noteq> [] \<and>
         (end_comp t, \<not> chain_live live t) = k \<and> x = observed_chain g t) \<longleftrightarrow>
      (t \<in> open_chains g cn cn st \<and> t \<noteq> [plain_step cn (gs_name st)] \<and> observed_facts g (end_comp t) \<noteq> [] \<and>
         (end_comp x, \<not> chain_live live x) = k \<and> x = observed_chain g t)"
      using ne [of t] by (cases "x = observed_chain g t \<and> t \<in> open_chains g cn cn st") auto
  qed
  also have "\<dots> \<longleftrightarrow> x \<in> {x \<in> edge_chains all_live g cn cn st. (end_comp x, \<not> chain_live live x) = k}"
    unfolding edge_chains_observed [OF simple ok] shown_chains_def by blast
  finally show "x \<in> class_chains g live cn cn st D k \<longleftrightarrow> x \<in> {x \<in> edge_chains all_live g cn cn st. (end_comp x, \<not> chain_live live x) = k}" .
qed

lemma edge_chains_end:
  assumes simple: "simple_graph g" and ok: "failing g cn st" and "x \<in> edge_chains all_live g cn cn st"
  shows "end_comp x \<noteq> cn"
proof -
  obtain t where t: "t \<in> open_chains g cn cn st" "t \<noteq> [plain_step cn (gs_name st)]" "x = observed_chain g t"
    using assms(3) unfolding edge_chains_observed [OF simple ok] shown_chains_def by blast
  with only_start_ends_there [OF simple ok t(1)] show ?thesis by simp
qed

lemma root_classes_ok:
  assumes simple: "simple_graph g" and clean: "clean_names g" and ok: "failing g cn st"
    and small: "card (root_set g cn st) < 2 ^ 63"
  shows "\<exists>reps. root_classes g live (cn, gs_name st) =
      Some (map snd (filter (\<lambda>(k, rep). \<not> snd k) reps), map snd (filter (\<lambda>(k, rep). snd k) reps)) \<and>
    reps_ok (cn, gs_name st) reps (root_class g live cn st)"
proof -
  let ?r = "(cn, gs_name st)" and ?plain = "[plain_step cn (gs_name st)]"
  let ?start = "(cn, gs_name st, \<not> live_node live cn (gs_name st))"
  have start: "?start = node_of live ?plain" by simp
  have st: "state_named g cn (gs_name st) = st" by (rule state_named_failing [OF simple ok])
  obtain seen order where v: "class_visit g live cn {} ?start st ({}, [], False) = (seen, order, False)"
    and order: "distinct order" "targets_first g live cn order" "?start \<in> set order"
    by (rule root_walk [OF simple ok start])
  let ?init = "[?start \<mapsto> \<lparr>cp_count = 1, cp_steps = ?plain, cp_at = st\<rparr>]"
  obtain paths reps where pass: "class_pass g live ?r ?start (rev order) ?init [] = (paths, reps)" by (metis prod.exhaust)
  have settled0: "settled g live cn cn st (set []) = {?plain}"
    using open_chain.here by (auto simp: settled_def open_chains_def)
  have here: "node_state g (node_of live ?plain) = st" unfolding node_state_of using st by (simp add: end_state_def plain_step_def)
  have "tracked g live (settled g live cn cn st (set [])) ?init"
  proof (rule trackedI)
    fix n
    have e: "ends live m {?plain} = (if m = ?start then {?plain} else {})" for m by (rule ends_same) simp
    show "tracked_at g n (ends live n (settled g live cn cn st (set []))) (?init n)"
    proof (cases "n = ?start")
      case True
      have "tracked_at g ?start {?plain} (Some \<lparr>cp_count = 1, cp_steps = ?plain, cp_at = st\<rparr>)"
        using here unfolding start by (simp add: tracked_at_def carries_def least_of_def path_less_def del: node_state_of node_of_start)
      moreover have "ends live ?start {?plain} = {?plain}" unfolding e [of ?start] by (rule if_P) (rule refl)
      ultimately show ?thesis unfolding settled0 True by simp
    next
      case False
      then show ?thesis unfolding settled0 e by (simp add: tracked_at_def)
    qed
  qed
  moreover have "reps_ok ?r [] (class_chains g live cn cn st (set []))"
    by (simp add: reps_ok_def rep_at_def class_chains_def)
  ultimately have inv: "tracked g live (settled g live cn cn st (set order)) paths"
      "reps_ok ?r reps (class_chains g live cn cn st (set order))"
    using class_pass_ok [OF simple clean ok _ start, of ?r "[]" ?init "[]" "rev order"] order by (simp_all add: pass)
  have all: "node_of live t \<in> set order" if "t \<in> open_chains g cn cn st" for t
    using chain_node_in_order [OF simple ok order(2) _ that] order(3) unfolding start by blast
  have chains: "class_chains g live cn cn st (set order) k = {x \<in> edge_chains all_live g cn cn st. (end_comp x, \<not> chain_live live x) = k}" for k
    by (rule class_chains_all [OF simple ok all])
  define reps1 where "reps1 = (if root_stands_alone g cn st
     then add_rep ?r (cn, snd (snd ?start))
       (set_observes (case paths ?start of None \<Rightarrow> [] | Some p \<Rightarrow> cp_steps p) (observed_facts g cn)) 1 reps
     else reps)"
  have res: "root_classes g live ?r = Some (map snd (filter (\<lambda>(k, rep). \<not> snd k) reps1), map snd (filter (\<lambda>(k, rep). snd k) reps1))"
    by (simp add: root_classes_def st v pass reps1_def Let_def)
  have "reps_ok ?r reps1 (root_class g live cn st)"
  proof (cases "root_stands_alone g cn st")
    case False
    then have "root_set g cn st = edge_chains all_live g cn cn st"
      using root_stands_alone_iff [OF simple ok small] root_set_eq [OF simple ok] by auto
    then have "root_class g live cn st k = class_chains g live cn cn st (set order) k" for k
      by (simp only: root_class_def chains)
    then have "root_class g live cn st = class_chains g live cn cn st (set order)" by (rule ext)
    with inv(2) False show ?thesis by (simp only: reps1_def if_False)
  next
    case True
    then have alone: "observed_facts g cn \<noteq> []" "edge_chains all_live g cn cn st = {}"
      using root_stands_alone_iff [OF simple ok small] by auto
    let ?last = "[last_step cn st (observed_facts g cn)]" and ?k = "(cn, snd (snd ?start))"
    have none: "class_chains g live cn cn st (set order) k = {}" for k unfolding chains alone(2) by simp
    have only: "t = ?plain" if "t \<in> ends live ?start (settled g live cn cn st (set order))" for t
      using that start_node_iff [OF simple ok, of t cn live] unfolding start ends_def settled_def by blast
    have "?plain \<in> ends live ?start (settled g live cn cn st (set order))"
      using open_chain.here by (simp add: ends_def settled_def open_chains_def)
    then have "ends live ?start (settled g live cn cn st (set order)) \<noteq> {}" by blast
    then obtain p where p: "paths ?start = Some p" "carries (ends live ?start (settled g live cn cn st (set order))) p"
      using trackedD [OF inv(1), of ?start] by (cases "paths ?start") (simp_all add: tracked_at_def)
    then have "cp_steps p = ?plain" using only unfolding carries_def least_of_def by blast
    note p = p(1) this
    have steps: "set_observes (case paths ?start of None \<Rightarrow> [] | Some p \<Rightarrow> cp_steps p) (observed_facts g cn) = ?last"
      by (simp add: p set_observes_plain)
    have least: "least_of {?last} 1 ?last" by (simp add: least_of_def path_less_def)
    have "root_class g live cn st k = (if k = ?k then {?last} else {})" for k
      unfolding root_class_def root_set_eq [OF simple ok] using alone by (auto simp: end_comp_def last_step_def)
    then have "root_class g live cn st k = ((class_chains g live cn cn st (set order))(?k := class_chains g live cn cn st (set order) ?k \<union> {?last})) k" for k
      unfolding none fun_upd_apply Un_empty_left by simp
    then have "root_class g live cn st = (class_chains g live cn cn st (set order))(?k := class_chains g live cn cn st (set order) ?k \<union> {?last})"
      by (rule ext)
    moreover have "reps1 = add_rep ?r ?k ?last 1 reps" unfolding reps1_def if_P [OF True] steps ..
    ultimately show ?thesis using add_rep_ok [OF inv(2) least, of ?k] none by simp
  qed
  with res show ?thesis by blast
qed

subsection \<open>Representatives of a sorted listing\<close>

lemma representatives_sorted:
  "sorted_wrt scenario_less scs \<Longrightarrow>
     sorted_wrt (\<lambda>a b. scenario_less (rp_scenario a) (rp_scenario b)) (representatives scs) \<and>
     (\<forall>rp\<in>set (representatives scs). \<forall>s\<in>set scs. class_of s = rep_class rp \<longrightarrow> \<not> scenario_less s (rp_scenario rp))"
proof (induction scs rule: rev_induct)
  case Nil
  then show ?case by (simp add: representatives_def)
next
  case (snoc s scs)
  let ?rps = "representatives scs"
  have sorted: "sorted_wrt scenario_less scs" "\<forall>x\<in>set scs. scenario_less x s"
    using snoc.prems by (simp_all add: sorted_wrt_append)
  have IH: "sorted_wrt (\<lambda>a b. scenario_less (rp_scenario a) (rp_scenario b)) ?rps"
     "\<forall>rp\<in>set ?rps. \<forall>s\<in>set scs. class_of s = rep_class rp \<longrightarrow> \<not> scenario_less s (rp_scenario rp)"
    using snoc.IH [OF sorted(1)] by simp_all
  have inv: "distinct (map rep_class ?rps)" "\<forall>rp\<in>set ?rps. rp_scenario rp \<in> set scs"
    using representatives_inv [of scs] by (simp_all add: represents_def)
  have eq: "representatives (scs @ [s]) = add_to_class ?rps s" by (simp add: representatives_def)
  have later: "scenario_less (rp_scenario rp) s" "\<not> scenario_less s (rp_scenario rp)" if "rp \<in> set ?rps" for rp
    using that inv(2) sorted(2) strict_weak_asym [OF strict_weak_scenario_less] by blast+
  have irrefl: "\<not> scenario_less x x" for x using strict_weak_scenario_less by (simp add: strict_weak_def)
  show ?case
  proof (cases "class_of s \<in> rep_class ` set ?rps")
    case True
    let ?f = "\<lambda>rp. if rep_class rp = class_of s then join_class s rp else rp"
    have reps: "representatives (scs @ [s]) = map ?f ?rps" by (simp add: eq add_to_class_eq [OF inv(1)] True)
    have same: "rp_scenario (?f rp) = rp_scenario rp \<and> rep_class (?f rp) = rep_class rp" if "rp \<in> set ?rps" for rp
    proof -
      have "\<not> length (sc_chain s) < length (sc_chain (rp_scenario rp))"
        using later(1) [OF that] by (auto simp: scenario_less_def scenario_length_def split: if_splits)
      then show ?thesis by (simp add: join_class_def rep_class_def)
    qed
    have "sorted_wrt (\<lambda>a b. scenario_less (rp_scenario a) (rp_scenario b)) (map ?f ?rps)"
      unfolding sorted_wrt_map by (rule sorted_wrt_mono_rel [OF _ IH(1)]) (simp only: same)
    moreover have "\<not> scenario_less x (rp_scenario (?f rp))"
      if "rp \<in> set ?rps" "x \<in> set (scs @ [s])" "class_of x = rep_class (?f rp)" for rp x
      using that IH(2) later(2) [OF that(1)] same [OF that(1)] by auto
    ultimately show ?thesis unfolding reps set_map by (intro conjI ballI impI) blast+
  next
    case False
    then have reps: "representatives (scs @ [s]) = ?rps @ [\<lparr>rp_scenario = s, rp_count = 1\<rparr>]"
      by (simp add: eq add_to_class_eq [OF inv(1)])
    have "class_of x \<noteq> class_of s" if "x \<in> set scs" for x
      using that False representatives_inv [of scs] by (metis imageI)
    moreover have "class_of s \<noteq> rep_class rp" if "rp \<in> set ?rps" for rp using that False by (metis imageI)
    ultimately show ?thesis unfolding reps using IH later irrefl by (auto simp: sorted_wrt_append)
  qed
qed

lemma distinct_mapI: "distinct (map f xs) \<Longrightarrow> distinct xs"
  by (simp add: distinct_map)

lemma sorted_wrt_unique:
  "strict_weak lt \<Longrightarrow> sorted_wrt lt xs \<Longrightarrow> sorted_wrt lt ys \<Longrightarrow> set xs = set ys \<Longrightarrow> xs = ys"
proof (induction xs arbitrary: ys)
  case Nil
  then show ?case by simp
next
  case (Cons x xs)
  note irrefl = Cons.prems(1) [unfolded strict_weak_def, THEN conjunct1, rule_format]
  obtain y ys' where ys: "ys = y # ys'" using Cons.prems(4) by (cases ys) auto
  have "x = y"
  proof (rule ccontr)
    assume ne: "x \<noteq> y"
    have "y \<in> set (x # xs)" "x \<in> set (y # ys')" using Cons.prems(4) ys by auto
    with ne have "y \<in> set xs" "x \<in> set ys'" by auto
    then have "lt x y" "lt y x" using Cons.prems(2,3) ys by auto
    then show False using strict_weak_asym [OF Cons.prems(1)] by blast
  qed
  moreover have "x \<notin> set xs" "y \<notin> set ys'" using Cons.prems(2,3) ys irrefl by auto
  ultimately have "set xs = set ys'" using Cons.prems(4) ys by auto
  then show ?case using Cons.IH [OF Cons.prems(1)] Cons.prems(2,3) ys \<open>x = y\<close> by simp
qed

subsection \<open>Classes are representatives\<close>

text \<open>What is kept for a class of the chains that are live, or of those that are dead.\<close>

definition class_rep :: "failure_graph \<Rightarrow> liveness \<Rightarrow> bool \<Rightarrow> dp_key \<Rightarrow> counted_rep \<Rightarrow> bool" where
  "class_rep g live b r sn \<longleftrightarrow>
     fst sn = root_scenario r (sc_chain (fst sn)) \<and>
     (\<exists>c. least_of (root_class g live (fst r) (state_named g (fst r) (snd r)) (c, b)) (snd sn) (sc_chain (fst sn)))"

lemma least_unique:
  assumes inj: "inj_on chain_key S" and c: "least_of S n c" and d: "least_of S m d"
  shows "n = m \<and> c = d"
proof -
  have "c \<in> S" "d \<in> S" "\<not> path_less c d" "\<not> path_less d c" and n: "n = m" using c d by (simp_all add: least_of_def)
  moreover from this have "chain_key c = chain_key d" by (auto simp: path_less_def)
  ultimately show ?thesis using inj_onD [OF inj] by blast
qed

lemma root_class_inj:
  assumes simple: "simple_graph g" and clean: "clean_names g" and r: "r \<in> set (graph_roots g)"
  shows "inj_on chain_key (root_class g live (fst r) (state_named g (fst r) (snd r)) k)"
proof (rule inj_onI)
  let ?R = "\<lparr>rr_component = fst r, rr_state = snd r\<rparr>"
  fix x y assume "x \<in> root_class g live (fst r) (state_named g (fst r) (snd r)) k" "y \<in> root_class g live (fst r) (state_named g (fst r) (snd r)) k"
    and eq: "chain_key x = chain_key y"
  then have "listed g ?R x" "listed g ?R y" using r unfolding listed_root [OF simple] root_class_def by simp_all
  from listed_inj [OF simple clean this eq] show "x = y" by blast
qed

lemma root_class_reps:
  assumes simple: "simple_graph g" and clean: "clean_names g" and r: "r \<in> set (graph_roots g)"
    and reps: "reps_ok r reps (root_class g live (fst r) (state_named g (fst r) (snd r)))"
  shows "set (map snd (filter (\<lambda>(k, rep). snd k = b) reps)) = {sn. class_rep g live b r sn}"
    and "distinct (map (sc_chain \<circ> fst \<circ> snd) reps)"
proof -
  note assms = reps
  let ?C = "root_class g live (fst r) (state_named g (fst r) (snd r))"
  have dist: "distinct (map fst reps)" using assms by (simp add: reps_ok_def)
  have at: "fst sn = root_scenario r (sc_chain (fst sn)) \<and> least_of (?C k) (snd sn) (sc_chain (fst sn))" if "(k, sn) \<in> set reps" for k sn
    using reps_okD [OF assms, of k] map_of_is_SomeI [OF dist that] by (simp add: rep_at_def)
  have key: "k = (end_comp (sc_chain (fst sn)), \<not> chain_live live (sc_chain (fst sn)))" if "(k, sn) \<in> set reps" for k sn
    using at [OF that] by (auto simp: least_of_def root_class_def)
  show "distinct (map (sc_chain \<circ> fst \<circ> snd) reps)"
    unfolding distinct_map
  proof (intro conjI inj_onI)
    show "distinct reps" using dist by (simp add: distinct_map)
    fix x y assume x: "x \<in> set reps" and y: "y \<in> set reps" and eq: "(sc_chain \<circ> fst \<circ> snd) x = (sc_chain \<circ> fst \<circ> snd) y"
    have "fst x = fst y" using key [of "fst x" "snd x"] key [of "fst y" "snd y"] x y eq by simp
    with x y dist show "x = y" by (simp add: distinct_map inj_on_def)
  qed
  show "set (map snd (filter (\<lambda>(k, rep). snd k = b) reps)) = {sn. class_rep g live b r sn}"
  proof (intro equalityI subsetI)
    fix sn assume "sn \<in> set (map snd (filter (\<lambda>(k, rep). snd k = b) reps))"
    then obtain c where "((c, b), sn) \<in> set reps" by (auto simp: split_def)
    from at [OF this] show "sn \<in> {sn. class_rep g live b r sn}" unfolding class_rep_def by blast
  next
    fix sn assume "sn \<in> {sn. class_rep g live b r sn}"
    then obtain c where sn: "fst sn = root_scenario r (sc_chain (fst sn))" "least_of (?C (c, b)) (snd sn) (sc_chain (fst sn))"
      unfolding class_rep_def by blast
    then have "?C (c, b) \<noteq> {}" by (auto simp: least_of_def)
    then obtain sn' where sn': "map_of reps (c, b) = Some sn'" using reps_okD [OF assms, of "(c, b)"] by (auto simp: rep_at_def split: option.splits)
    then have mem: "((c, b), sn') \<in> set reps" by (rule map_of_SomeD)
    have "snd sn = snd sn' \<and> sc_chain (fst sn) = sc_chain (fst sn')"
      by (rule least_unique [OF root_class_inj [OF simple clean r] sn(2)]) (use at [OF mem] in blast)
    then have "sn = sn'" using sn(1) at [OF mem] by (metis prod_eqI)
    with mem show "sn \<in> set (map snd (filter (\<lambda>(k, rep). snd k = b) reps))" by force
  qed
qed

lemma root_class_reps_ok:
  assumes simple: "simple_graph g" and clean: "clean_names g" and r: "r \<in> set (graph_roots g)"
    and small: "card (root_set g (fst r) (state_named g (fst r) (snd r))) < 2 ^ 63"
  obtains a d where "root_classes g live r = Some (a, d)"
    "set a = {sn. class_rep g live False r sn}" "set d = {sn. class_rep g live True r sn}"
    "distinct (map (sc_chain \<circ> fst) a)" "distinct (map (sc_chain \<circ> fst) d)"
proof -
  obtain st where st: "failing g (fst r) st" "snd r = gs_name st" using r graph_roots_set [of "fst r" "snd r" g] by auto
  have named: "state_named g (fst r) (snd r) = st" using state_named_failing [OF simple st(1)] st(2) by simp
  have re: "(fst r, gs_name st) = r" using st(2) by (cases r) simp
  from root_classes_ok [OF simple clean st(1) small [unfolded named], of live] obtain reps where
    res: "root_classes g live r = Some (map snd (filter (\<lambda>(k, rep). \<not> snd k) reps), map snd (filter (\<lambda>(k, rep). snd k) reps))"
    and ok: "reps_ok r reps (root_class g live (fst r) (state_named g (fst r) (snd r)))"
    unfolding re named by blast
  note sets = root_class_reps [OF simple clean r ok]
  have "distinct (map (sc_chain \<circ> fst) (map snd (filter P reps)))" for P
    using sets(2) by (simp add: distinct_map_filter o_assoc [symmetric] comp_def)
  then show thesis using that [OF res] sets(1) [of False] sets(1) [of True] by simp
qed

lemma classes_loop_ok:
  assumes simple: "simple_graph g" and clean: "clean_names g"
    and small: "\<forall>r\<in>set (graph_roots g). card (root_set g (fst r) (state_named g (fst r) (snd r))) < 2 ^ 63"
  shows "set rs \<subseteq> set (graph_roots g) \<Longrightarrow> distinct rs \<Longrightarrow>
    \<exists>a d. classes_loop g live rs = Some (a, d) \<and>
      set a = {sn. \<exists>r\<in>set rs. class_rep g live False r sn} \<and> set d = {sn. \<exists>r\<in>set rs. class_rep g live True r sn} \<and>
      distinct (map fst a) \<and> distinct (map fst d)"
proof (induction rs)
  case Nil
  then show ?case by simp
next
  case (Cons r rs)
  then obtain as ds where IH: "classes_loop g live rs = Some (as, ds)"
    "set as = {sn. \<exists>r\<in>set rs. class_rep g live False r sn}" "set ds = {sn. \<exists>r\<in>set rs. class_rep g live True r sn}"
    "distinct (map fst as)" "distinct (map fst ds)" by auto
  have r: "r \<in> set (graph_roots g)" using Cons.prems(1) by simp
  obtain a d where ad: "root_classes g live r = Some (a, d)"
    "set a = {sn. class_rep g live False r sn}" "set d = {sn. class_rep g live True r sn}"
    "distinct (map (sc_chain \<circ> fst) a)" "distinct (map (sc_chain \<circ> fst) d)"
    by (rule root_class_reps_ok [OF simple clean r bspec [OF small r]])
  have root: "sc_root (fst sn) = \<lparr>rr_component = fst r, rr_state = snd r\<rparr>" if "class_rep g live b r sn" for b r sn
  proof -
    from that have "fst sn = root_scenario r (sc_chain (fst sn))" unfolding class_rep_def by (rule conjunct1)
    then have "sc_root (fst sn) = sc_root (root_scenario r (sc_chain (fst sn)))" by (rule arg_cong)
    then show ?thesis by (simp add: root_scenario_def)
  qed
  have apart: "fst ` {sn. class_rep g live b r sn} \<inter> fst ` {sn. \<exists>r\<in>set rs. class_rep g live b r sn} = {}" for b
  proof (rule equals0I)
    fix s assume "s \<in> fst ` {sn. class_rep g live b r sn} \<inter> fst ` {sn. \<exists>r\<in>set rs. class_rep g live b r sn}"
    then obtain sn sn' r' where "class_rep g live b r sn" "r' \<in> set rs" "class_rep g live b r' sn'" "fst sn = fst sn'" by auto
    then have "r = r'" using root [of b r sn] root [of b r' sn'] by (simp add: prod_eq_iff)
    with \<open>r' \<in> set rs\<close> Cons.prems(2) show False by simp
  qed
  have "distinct (map fst (a @ as))"
    using distinct_mapI [of sc_chain "map fst a"] ad(4) IH(4) apart [of False] by (simp add: ad(2) IH(2))
  moreover have "distinct (map fst (d @ ds))"
    using distinct_mapI [of sc_chain "map fst d"] ad(5) IH(5) apart [of True] by (simp add: ad(3) IH(3))
  moreover have "set (a @ as) = {sn. \<exists>r\<in>set (r # rs). class_rep g live False r sn}"
    "set (d @ ds) = {sn. \<exists>r\<in>set (r # rs). class_rep g live True r sn}"
    by (auto simp: ad(2,3) IH(2,3))
  ultimately show ?case by (simp add: ad(1) IH(1))
qed

text \<open>The listed chains of one side, and a representative as \<open>Classes\<close> gives it.\<close>

definition listing :: "failure_graph \<Rightarrow> liveness \<Rightarrow> bool \<Rightarrow> scenario list" where
  "listing g live b = filter (\<lambda>s. (\<not> chain_live live (sc_chain s)) = b) (expand g)"

definition bare :: "representative \<Rightarrow> counted_rep" where
  "bare rp = (\<lparr>sc_id = [], sc_root = sc_root (rp_scenario rp), sc_chain = sc_chain (rp_scenario rp)\<rparr>, of_nat (rp_count rp))"

definition counted :: "representative \<Rightarrow> counted_rep" where
  "counted rp = ((rp_scenario rp)\<lparr>sc_id := id_of (sc_chain (rp_scenario rp))\<rparr>, of_nat (rp_count rp))"

definition root_key :: "scenario \<Rightarrow> dp_key" where
  "root_key s = (rr_component (sc_root s), rr_state (sc_root s))"

lemma root_key_iff: "root_key s = r \<longleftrightarrow> sc_root s = \<lparr>rr_component = fst r, rr_state = snd r\<rparr>"
  by (cases r; cases "sc_root s") (simp add: root_key_def)

lemma filtered_image:
  "(\<exists>s\<in>{x \<in> A. P (f x) = b}. h s = R \<and> f s = t) \<longleftrightarrow> (\<exists>x\<in>A. R = h x \<and> t = f x) \<and> P t = b"
  by auto

lemma in_listing:
  assumes simple: "simple_graph g" and clean: "clean_names g"
  shows "(\<exists>s\<in>set (listing g live b). root_key s = r \<and> sc_chain s = t) \<longleftrightarrow>
    r \<in> set (graph_roots g) \<and> t \<in> root_set g (fst r) (state_named g (fst r) (snd r)) \<and> (\<not> chain_live live t) = b"
proof -
  let ?R = "\<lparr>rr_component = fst r, rr_state = snd r\<rparr>"
  have "(\<exists>s\<in>set (listing g live b). root_key s = r \<and> sc_chain s = t) \<longleftrightarrow>
      (?R, t) \<in> (\<lambda>s. (sc_root s, sc_chain s)) ` set (expand g) \<and> (\<not> chain_live live t) = b"
    unfolding listing_def root_key_iff set_filter image_iff prod.inject by (rule filtered_image)
  then show ?thesis unfolding expand_pairs(1) [OF simple clean] mem_Collect_eq prod.case listed_root [OF simple] by simp
qed

lemma root_class_listing:
  assumes simple: "simple_graph g" and clean: "clean_names g" and r: "r \<in> set (graph_roots g)"
  shows "root_class g live (fst r) (state_named g (fst r) (snd r)) (c, b) =
    sc_chain ` {s \<in> set (listing g live b). class_of s = (fst r, snd r, c)}"
proof -
  have end_of: "terminal s = end_comp (sc_chain s)" if s: "s \<in> set (listing g live b)" for s
  proof -
    have "root_key s \<in> set (graph_roots g)" and t: "sc_chain s \<in> root_set g (fst (root_key s)) (state_named g (fst (root_key s)) (snd (root_key s)))"
      using in_listing [OF simple clean, of live b "root_key s" "sc_chain s"] s by blast+
    then obtain st where "failing g (fst (root_key s)) st" "snd (root_key s) = gs_name st"
      using graph_roots_set [of "fst (root_key s)" "snd (root_key s)" g] by auto
    then have "sc_chain s \<noteq> []" using root_set_start [OF simple _ t] state_named_failing [OF simple] by fastforce
    then show ?thesis by (simp add: terminal_def end_comp_def)
  qed
  have "t \<in> root_class g live (fst r) (state_named g (fst r) (snd r)) (c, b) \<longleftrightarrow>
      (\<exists>s\<in>set (listing g live b). root_key s = r \<and> sc_chain s = t) \<and> end_comp t = c" for t
    unfolding in_listing [OF simple clean] root_class_def using r by auto
  also have "\<dots> t \<longleftrightarrow> t \<in> sc_chain ` {s \<in> set (listing g live b). class_of s = (fst r, snd r, c)}" for t
    using end_of by (cases r) (auto simp: class_of_def root_key_def image_iff)
  finally show ?thesis by blast
qed

lemma listing_least:
  assumes simple: "simple_graph g" and clean: "clean_names g" and rp: "rp \<in> set (representatives (listing g live b))"
    and r: "rep_class rp = (fst r, snd r, c)" and root: "r \<in> set (graph_roots g)"
  shows "least_of (root_class g live (fst r) (state_named g (fst r) (snd r)) (c, b)) (of_nat (rp_count rp)) (sc_chain (rp_scenario rp))"
proof -
  let ?L = "listing g live b" and ?s = "rp_scenario rp"
  let ?S = "{s \<in> set ?L. class_of s = (fst r, snd r, c)}"
  have rep: "?s \<in> set ?L" "rp_count rp = length (filter (\<lambda>s. class_of s = rep_class rp) ?L)"
    using representatives_inv [of ?L] rp by (simp_all add: represents_def)
  have sorted: "sorted_wrt scenario_less ?L"
    unfolding listing_def using expand_ordered_lemma [of g] by (simp add: sorted_wrt_filter)
  have pairs: "distinct (map (\<lambda>s. (sc_root s, sc_chain s)) ?L)"
    unfolding listing_def using expand_pairs(2) [OF simple clean] by (rule distinct_map_filter)
  have inj: "inj_on sc_chain ?S"
  proof (rule inj_onI)
    fix x y assume "x \<in> ?S" "y \<in> ?S" "sc_chain x = sc_chain y"
    moreover from this have "sc_root x = sc_root y" by (simp add: class_of_def)
    ultimately show "x = y" using pairs by (simp add: distinct_map inj_on_def)
  qed
  have "card ?S = rp_count rp"
    using distinct_card [OF distinct_filter [OF distinct_mapI [OF pairs]], of "\<lambda>s. class_of s = (fst r, snd r, c)"] rep(2) by (simp add: r)
  moreover have "\<not> path_less (sc_chain x) (sc_chain ?s)" if x: "x \<in> ?S" for x
  proof -
    have "\<not> scenario_less x ?s" using representatives_sorted [OF sorted] rp x r by simp
    moreover have "sc_root x = sc_root ?s" using x r by (simp add: class_of_def rep_class_def)
    ultimately show ?thesis by (auto simp: scenario_less_def scenario_length_def path_less_def split: if_splits)
  qed
  moreover have "?s \<in> ?S" using rep(1) r by (simp add: rep_class_def)
  ultimately show ?thesis unfolding root_class_listing [OF simple clean root] least_of_def by (simp add: card_image [OF inj])
qed

lemma class_reps_listing:
  assumes simple: "simple_graph g" and clean: "clean_names g"
  shows "bare ` set (representatives (listing g live b)) = {sn. \<exists>r\<in>set (graph_roots g). class_rep g live b r sn}"
proof (intro equalityI subsetI)
  let ?L = "listing g live b"
  fix sn assume "sn \<in> bare ` set (representatives ?L)"
  then obtain rp where rp: "rp \<in> set (representatives ?L)" "sn = bare rp" by blast
  let ?s = "rp_scenario rp" and ?r = "root_key (rp_scenario rp)"
  have "?s \<in> set ?L" using representatives_inv [of ?L] rp(1) by (simp add: represents_def)
  then have r: "?r \<in> set (graph_roots g)" using in_listing [OF simple clean, of live b ?r "sc_chain ?s"] by blast
  have cls: "rep_class rp = (fst ?r, snd ?r, terminal ?s)" by (simp add: rep_class_def class_of_def root_key_def)
  have "fst sn = root_scenario ?r (sc_chain (fst sn))" by (simp add: rp(2) bare_def root_scenario_def root_key_def)
  moreover have "sc_chain (fst sn) = sc_chain ?s" "snd sn = of_nat (rp_count rp)" by (simp_all add: rp(2) bare_def)
  ultimately have "class_rep g live b ?r sn"
    using listing_least [OF simple clean rp(1) cls r] unfolding class_rep_def by metis
  with r show "sn \<in> {sn. \<exists>r\<in>set (graph_roots g). class_rep g live b r sn}" by blast
next
  let ?L = "listing g live b"
  fix sn assume "sn \<in> {sn. \<exists>r\<in>set (graph_roots g). class_rep g live b r sn}"
  then obtain r c where r: "r \<in> set (graph_roots g)" and sn: "fst sn = root_scenario r (sc_chain (fst sn))"
    "least_of (root_class g live (fst r) (state_named g (fst r) (snd r)) (c, b)) (snd sn) (sc_chain (fst sn))"
    unfolding class_rep_def by blast
  then obtain x where x: "x \<in> set ?L" "class_of x = (fst r, snd r, c)"
    unfolding root_class_listing [OF simple clean r] least_of_def by blast
  then obtain rp where rp: "rp \<in> set (representatives ?L)" "rep_class rp = (fst r, snd r, c)"
  proof -
    have "class_of x \<in> rep_class ` set (representatives ?L)" using representatives_inv [of ?L] x(1) by simp
    with that x(2) show thesis by auto
  qed
  have "snd sn = of_nat (rp_count rp) \<and> sc_chain (fst sn) = sc_chain (rp_scenario rp)"
    by (rule least_unique [OF root_class_inj [OF simple clean r] sn(2) listing_least [OF simple clean rp r]])
  moreover have "sc_root (rp_scenario rp) = \<lparr>rr_component = fst r, rr_state = snd r\<rparr>"
    using rp(2) by (cases "sc_root (rp_scenario rp)") (simp add: rep_class_def class_of_def)
  ultimately have "sn = bare rp" using sn(1) by (cases sn) (auto simp: bare_def root_scenario_def)
  with rp(1) show "sn \<in> bare ` set (representatives ?L)" by blast
qed

lemma strict_weak_fst: "strict_weak lt \<Longrightarrow> strict_weak (\<lambda>a b. lt (f a) (f b))"
  unfolding strict_weak_def by blast

lemma sorted_wrt_strict:
  "sorted_wrt P xs \<Longrightarrow> distinct xs \<Longrightarrow> (\<And>x y. x \<in> set xs \<Longrightarrow> y \<in> set xs \<Longrightarrow> x \<noteq> y \<Longrightarrow> P x y \<Longrightarrow> Q x y) \<Longrightarrow> sorted_wrt Q xs"
  by (induction xs) auto

lemma by_order_listing:
  assumes simple: "simple_graph g" and clean: "clean_names g"
    and X: "set X = {sn. \<exists>r\<in>set (graph_roots g). class_rep g live b r sn}" and dist: "distinct (map fst X)"
  shows "by_order X = map counted (representatives (listing g live b))"
proof -
  let ?L = "listing g live b" and ?lt = "\<lambda>a b :: counted_rep. scenario_less (fst a) (fst b)"
  have weak: "strict_weak ?lt" by (rule strict_weak_fst [OF strict_weak_scenario_less])
  have bare: "bare ` set (representatives ?L) = set X" unfolding X by (rule class_reps_listing [OF simple clean])
  have sortL: "sorted_wrt scenario_less ?L"
    unfolding listing_def using expand_ordered_lemma [of g] by (simp add: sorted_wrt_filter)
  have 1: "sorted_wrt ?lt (map bare (representatives ?L))"
    unfolding sorted_wrt_map using conjunct1 [OF representatives_sorted [OF sortL]]
    by (rule sorted_wrt_mono_rel [rotated]) (simp add: bare_def cong: scenario_less_cong)
  have listed: "listed g (sc_root (fst sn)) (sc_chain (fst sn))" if "sn \<in> set X" for sn
  proof -
    from that bare obtain rp where rp: "rp \<in> set (representatives ?L)" "sn = bare rp" by blast
    have "rp_scenario rp \<in> set ?L" using representatives_inv [of ?L] rp(1) by (simp add: represents_def)
    then have "(sc_root (rp_scenario rp), sc_chain (rp_scenario rp)) \<in> {(R, t). listed g R t}"
      unfolding expand_pairs(1) [OF simple clean, symmetric] listing_def by auto
    then show ?thesis by (simp add: rp(2) bare_def)
  qed
  have bare_id: "fst sn = \<lparr>sc_id = [], sc_root = sc_root (fst sn), sc_chain = sc_chain (fst sn)\<rparr>" if "sn \<in> set X" for sn
    using that unfolding bare [symmetric] bare_def by auto
  have 2: "sorted_wrt ?lt (sort_by ?lt X)"
  proof (rule sorted_wrt_strict [OF sorted_sort_by [OF weak]])
    have "distinct (map fst (sort_by ?lt X))" using dist by simp
    then show "distinct (sort_by ?lt X)" by (rule distinct_mapI)
    fix x y assume xy: "x \<in> set (sort_by ?lt X)" "y \<in> set (sort_by ?lt X)" "x \<noteq> y" "\<not> ?lt y x"
    then have mem: "x \<in> set X" "y \<in> set X" by simp_all
    have "fst x \<noteq> fst y" using mem xy(3) dist by (auto simp: distinct_map inj_on_def)
    then have "chain_key (sc_chain (fst x)) \<noteq> chain_key (sc_chain (fst y))"
      using listed_inj [OF simple clean listed [OF mem(1)] listed [OF mem(2)]] bare_id [OF mem(1)] bare_id [OF mem(2)] by metis
    with xy(4) show "?lt x y" by (rule scenario_less_total)
  qed
  have eq: "sort_by ?lt X = map bare (representatives ?L)"
    by (rule sorted_wrt_unique [OF weak 2 1]) (simp add: bare)
  show ?thesis unfolding by_order_def eq by (simp add: bare_def counted_def)
qed

text \<open>
  C26: The classes of the walk are, on an acyclic failure graph whose states are named once (with fewer
  than 2 to the 63 scenarios, none of whose names holds a separator of the chain key), the
  representatives chosen among the live and among the eliminated scenarios of the expansion: the same
  chains, in the same order, with the same counts. Only the identifiers can differ, where the
  expansion numbers those whose digests collide.
\<close>

theorem classes_are_representatives:
  assumes "simple_graph g" and "clean_names g" and "length (expand g) < 2 ^ 63"
  shows "classes g live =
    Some (map counted (representatives (filter (\<lambda>s. chain_live live (sc_chain s)) (expand g))),
          map counted (representatives (filter (\<lambda>s. \<not> chain_live live (sc_chain s)) (expand g))))"
proof -
  note simple = assms(1) and clean = assms(2)
  have small: "\<forall>r\<in>set (graph_roots g). card (root_set g (fst r) (state_named g (fst r) (snd r))) < 2 ^ 63"
  proof
    fix r assume r: "r \<in> set (graph_roots g)"
    have "card (root_live g all_live r) \<le> card (live_listed g all_live)"
      using member_le_sum_list [of "card (root_live g all_live r)" "map (\<lambda>k. card (root_live g all_live k)) (graph_roots g)"] r
      by (simp add: card_live_listed [OF simple])
    also have "\<dots> = length (expand g)" using expand_live_card [OF simple clean, of all_live] by (simp add: chain_live_all)
    finally show "card (root_set g (fst r) (state_named g (fst r) (snd r))) < 2 ^ 63"
      using assms(3) by (simp add: root_live_def chain_live_all)
  qed
  obtain a d where loop: "classes_loop g live (graph_roots g) = Some (a, d)"
    and a: "set a = {sn. \<exists>r\<in>set (graph_roots g). class_rep g live False r sn}" "distinct (map fst a)"
    and d: "set d = {sn. \<exists>r\<in>set (graph_roots g). class_rep g live True r sn}" "distinct (map fst d)"
    using classes_loop_ok [OF simple clean small subset_refl distinct_graph_roots [OF simple]] by blast
  have "listing g live False = filter (\<lambda>s. chain_live live (sc_chain s)) (expand g)"
    "listing g live True = filter (\<lambda>s. \<not> chain_live live (sc_chain s)) (expand g)" by (simp_all add: listing_def)
  then show ?thesis
    using by_order_listing [OF simple clean a] by_order_listing [OF simple clean d] by (simp add: classes_def loop)
qed

theorem classes_are_representatives_witness:
  "classes ex_graph all_live = Some (map counted (representatives (expand ex_graph)), [])"
  using classes_are_representatives [OF ex_graph_simple ex_graph_clean, of all_live]
  by (simp add: ex_graph_expand chain_live_all representatives_def)

end
