(* ===== verification/Duration.thy ===== *)
theory Duration
  imports Go_Num
begin

text \<open>
  Durations as the code writes and reads them: \<open>time.ParseDuration\<close>, \<open>Duration.String\<close>, and
  \<open>ShortDuration\<close> of \<open>internal/providersupport/probe/runner.go\<close>. A duration is a number of
  nanoseconds in the range of Go's \<open>int64\<close>.

  The parser keeps Go's arithmetic: the unsigned sum wraps, a fraction is scaled in doubles. The
  lemmas show that the text written for whole seconds is read back as the same duration.
\<close>

subsection \<open>Reading\<close>

text \<open>\<open>leadingInt\<close>: digits while the value stays within \<open>1<<63\<close>.\<close>

fun leading_int :: "nat \<Rightarrow> string \<Rightarrow> (nat \<times> string) option" where
  "leading_int x [] = Some (x, [])"
| "leading_int x (c # cs) =
     (if \<not> is_digit c then Some (x, c # cs)
      else if 2 ^ 63 div 10 < x then None
      else if 2 ^ 63 < 10 * x + digit_val c then None
      else leading_int (10 * x + digit_val c) cs)"

text \<open>\<open>leadingFraction\<close>: digits beyond the range are skipped.\<close>

fun leading_fraction :: "bool \<Rightarrow> nat \<Rightarrow> nat \<Rightarrow> string \<Rightarrow> nat \<times> nat \<times> string" where
  "leading_fraction over x scale [] = (x, scale, [])"
| "leading_fraction over x scale (c # cs) =
     (if \<not> is_digit c then (x, scale, c # cs)
      else if over then leading_fraction over x scale cs
      else if (2 ^ 63 - 1) div 10 < x then leading_fraction True x scale cs
      else if 2 ^ 63 < 10 * x + digit_val c then leading_fraction True x scale cs
      else leading_fraction False (10 * x + digit_val c) (scale * 10) cs)"

text \<open>The unit map; the two signs for micro are the bytes of U+00B5 and U+03BC.\<close>

definition micro_sign :: string where
  "micro_sign = [char_of (194 :: nat), char_of (181 :: nat)]"

definition greek_mu :: string where
  "greek_mu = [char_of (206 :: nat), char_of (188 :: nat)]"

definition unit_of :: "string \<Rightarrow> nat option" where
  "unit_of u =
     (if u = ''ns'' then Some 1
      else if u = ''us'' \<or> u = micro_sign @ ''s'' \<or> u = greek_mu @ ''s'' then Some 1000
      else if u = ''ms'' then Some 1000000
      else if u = ''s'' then Some 1000000000
      else if u = ''m'' then Some 60000000000
      else if u = ''h'' then Some 3600000000000
      else None)"

text \<open>\<open>uint64(float64(f) * (float64(unit) / scale))\<close>, every operation rounded.\<close>

definition scale_fraction :: "nat \<Rightarrow> nat \<Rightarrow> nat \<Rightarrow> nat" where
  "scale_fraction f unit scale =
     (case (round_mag f 1, round_mag unit scale) of
        (Some a, Some b) \<Rightarrow>
          (case round_mag (a * b) (2 ^ 2148) of Some k \<Rightarrow> k div 2 ^ 1074 | None \<Rightarrow> 0)
      | _ \<Rightarrow> 0)"

definition digit_or_dot :: "char \<Rightarrow> bool" where
  "digit_or_dot c \<longleftrightarrow> is_digit c \<or> c = CHR ''.''"

text \<open>One number with its unit: the nanoseconds and what is left.\<close>

definition duration_part :: "string \<Rightarrow> (nat \<times> string) option" where
  "duration_part s =
     (if s = [] \<or> \<not> digit_or_dot (hd s) then None
      else (case leading_int 0 s of
              None \<Rightarrow> None
            | Some (v, s1) \<Rightarrow>
                (let pre = length s1 \<noteq> length s;
                     dot = s1 \<noteq> [] \<and> hd s1 = CHR ''.'';
                     (f, scale, s2) = (if dot then leading_fraction False 0 1 (tl s1) else (0, 1, s1));
                     post = dot \<and> length s2 \<noteq> length (tl s1);
                     u = takeWhile (\<lambda>c. \<not> digit_or_dot c) s2;
                     rest = dropWhile (\<lambda>c. \<not> digit_or_dot c) s2
                 in if \<not> pre \<and> \<not> post then None
                    else if u = [] then None
                    else (case unit_of u of
                            None \<Rightarrow> None
                          | Some unit \<Rightarrow>
                              if 2 ^ 63 div unit < v then None
                              else if 0 < f \<and> 2 ^ 63 < v * unit + scale_fraction f unit scale then None
                              else Some (v * unit + (if 0 < f then scale_fraction f unit scale else 0), rest)))))"

lemma leading_int_length: "leading_int x s = Some (v, r) \<Longrightarrow> length r \<le> length s"
  by (induction x s arbitrary: v r rule: leading_int.induct) (force split: if_splits)+

lemma leading_fraction_length: "leading_fraction over x sc s = (f, scale, r) \<Longrightarrow> length r \<le> length s"
  by (induction over x sc s arbitrary: f scale r rule: leading_fraction.induct) (force split: if_splits)+

lemma duration_part_shorter: "duration_part s = Some (v, r) \<Longrightarrow> length r < length s"
proof -
  assume part: "duration_part s = Some (v, r)"
  then obtain w s1 where w: "leading_int 0 s = Some (w, s1)"
    by (auto simp: duration_part_def split: if_splits option.splits)
  let ?dot = "s1 \<noteq> [] \<and> hd s1 = CHR ''.''"
  obtain f scale s2 where f: "(if ?dot then leading_fraction False 0 1 (tl s1) else (0, 1, s1)) = (f, scale, s2)"
    by (metis prod.exhaust)
  have "length s2 \<le> length s1"
    using f leading_fraction_length [of False 0 1 "tl s1" f scale s2] by (auto split: if_splits)
  moreover have "length s1 \<le> length s" by (rule leading_int_length [OF w])
  moreover have u: "takeWhile (\<lambda>c. \<not> digit_or_dot c) s2 \<noteq> []" "r = dropWhile (\<lambda>c. \<not> digit_or_dot c) s2"
    using part f by (auto simp: duration_part_def w Let_def split: if_splits option.splits)
  moreover have "length (takeWhile (\<lambda>c. \<not> digit_or_dot c) s2) + length (dropWhile (\<lambda>c. \<not> digit_or_dot c) s2) = length s2"
    by (metis length_append takeWhile_dropWhile_id)
  ultimately show ?thesis by (cases "takeWhile (\<lambda>c. \<not> digit_or_dot c) s2") auto
qed

text \<open>The unsigned sum wraps at \<open>2 ^ 64\<close>, before the check against \<open>1<<63\<close>.\<close>

function duration_sum :: "string \<Rightarrow> nat \<Rightarrow> nat option" where
  "duration_sum s d =
     (if s = [] then Some d
      else (case duration_part s of
              None \<Rightarrow> None
            | Some (v, rest) \<Rightarrow>
                (let d1 = (d + v) mod 2 ^ 64 in if 2 ^ 63 < d1 then None else duration_sum rest d1)))"
  by pat_completeness auto

termination duration_sum
  by (relation "measure (\<lambda>(s, d). length s)") (auto dest: duration_part_shorter)

declare duration_sum.simps [simp del]

definition parse_duration :: "string \<Rightarrow> int option" where
  "parse_duration orig =
     (let (neg, s) = strip_sign orig
      in if s = ''0'' then Some 0
         else if s = [] then None
         else (case duration_sum s 0 of
                 None \<Rightarrow> None
               | Some d \<Rightarrow>
                   if neg then Some (- int d)
                   else if 2 ^ 63 - 1 < d then None
                   else Some (int d)))"

subsection \<open>Writing\<close>

text \<open>\<open>fmtFrac\<close>: up to \<open>prec\<close> digits after the point, without trailing zeros.\<close>

fun frac_digits :: "nat \<Rightarrow> nat \<Rightarrow> string" where
  "frac_digits 0 v = []"
| "frac_digits (Suc prec) v = frac_digits prec (v div 10) @ [digit_char (v mod 10)]"

definition fmt_frac :: "nat \<Rightarrow> nat \<Rightarrow> string" where
  "fmt_frac prec v =
     (let ds = rev (dropWhile (\<lambda>c. c = CHR ''0'') (rev (frac_digits prec v)))
      in if ds = [] then [] else CHR ''.'' # ds)"

definition duration_string :: "int \<Rightarrow> string" where
  "duration_string d =
     (let u = nat \<bar>d\<bar>;
          text = (if u = 0 then ''0s''
             else if u < 1000 then nat_to_dec u @ ''ns''
             else if u < 1000000 then nat_to_dec (u div 1000) @ fmt_frac 3 u @ micro_sign @ ''s''
             else if u < 1000000000 then nat_to_dec (u div 1000000) @ fmt_frac 6 u @ ''ms''
             else (let sec = u div 1000000000; mins = sec div 60; hrs = mins div 60
                   in (if 0 < hrs then nat_to_dec hrs @ ''h'' else []) @
                      (if 0 < mins then nat_to_dec (mins mod 60) @ ''m'' else []) @
                      nat_to_dec (sec mod 60) @ fmt_frac 9 u @ ''s''))
      in if d < 0 then CHR ''-'' # text else text)"

text \<open>\<open>strings.HasSuffix\<close> and \<open>strings.TrimSuffix\<close>.\<close>

definition has_suffix :: "string \<Rightarrow> string \<Rightarrow> bool" where
  "has_suffix s p = has_prefix (rev s) (rev p)"

definition trim_suffix :: "string \<Rightarrow> string \<Rightarrow> string" where
  "trim_suffix s p = (if has_suffix s p then take (length s - length p) s else s)"

definition short_duration :: "int \<Rightarrow> string" where
  "short_duration d =
     (let s = duration_string d;
          s1 = (if has_suffix s ''m0s'' then trim_suffix s ''0s'' else s)
      in if has_suffix s1 ''h0m'' then trim_suffix s1 ''0m'' else s1)"

subsection \<open>What is written is read back\<close>

lemma dec_value_ge: "acc \<le> dec_value ds acc"
proof (induction ds arbitrary: acc)
  case (Cons c ds)
  have "acc \<le> 10 * acc + digit_val c" by simp
  also have "\<dots> \<le> dec_value ds (10 * acc + digit_val c)" by (rule Cons.IH)
  finally show ?case by simp
qed simp

lemma leading_int_digits:
  "list_all is_digit ds \<Longrightarrow> dec_value ds x \<le> 2 ^ 63 \<Longrightarrow> r = [] \<or> \<not> is_digit (hd r) \<Longrightarrow>
   leading_int x (ds @ r) = Some (dec_value ds x, r)"
proof (induction ds arbitrary: x)
  case Nil
  then show ?case by (cases r) auto
next
  case (Cons c ds)
  have "10 * x + digit_val c \<le> 2 ^ 63" using dec_value_ge [of "10 * x + digit_val c" ds] Cons.prems(2) by simp
  then show ?case using Cons by simp
qed

lemma leading_int_nat: "n \<le> 2 ^ 63 \<Longrightarrow> r = [] \<or> \<not> is_digit (hd r) \<Longrightarrow> leading_int 0 (nat_to_dec n @ r) = Some (n, r)"
  using leading_int_digits [OF nat_to_dec_digits [of n], of 0 r] by (simp add: dec_value_nat_to_dec)

definition unit_text :: "string \<Rightarrow> bool" where
  "unit_text u \<longleftrightarrow> u \<noteq> [] \<and> list_all (\<lambda>c. \<not> digit_or_dot c) u"

lemma duration_part_whole:
  assumes n: "n \<le> 2 ^ 63 div k" and unit: "unit_of u = Some k" and u: "unit_text u"
    and rest: "rest = [] \<or> digit_or_dot (hd rest)"
  shows "duration_part (nat_to_dec n @ u @ rest) = Some (n * k, rest)"
proof -
  obtain c cs where cs: "nat_to_dec n = c # cs" by (cases "nat_to_dec n") simp_all
  have d: "digit_or_dot c" using hd_nat_to_dec [OF cs] by (simp add: digit_or_dot_def)
  obtain a as where a: "u = a # as" "\<not> digit_or_dot a" using u by (cases u) (auto simp: unit_text_def)
  have small: "n \<le> 2 ^ 63" using n div_le_dividend order_trans by blast
  have i: "leading_int 0 (nat_to_dec n @ u @ rest) = Some (n, u @ rest)"
    using a by (intro leading_int_nat [OF small]) (auto simp: digit_or_dot_def)
  have t: "takeWhile (\<lambda>c. \<not> digit_or_dot c) (u @ rest) = u" "dropWhile (\<lambda>c. \<not> digit_or_dot c) (u @ rest) = rest"
    using u rest by (auto simp: unit_text_def list_all_iff takeWhile_append dropWhile_append takeWhile_eq_all_conv
      dropWhile_eq_Nil_conv takeWhile_eq_Nil_iff dropWhile_eq_self_iff)
  have a': "hd (u @ rest) \<noteq> CHR ''.''" using a by (auto simp: digit_or_dot_def)
  have "length (u @ rest) \<noteq> length (nat_to_dec n @ u @ rest)" by (simp add: cs)
  then show ?thesis
    unfolding duration_part_def i using d t a' a n unit by (simp add: cs Let_def)
qed

lemma duration_sum_whole:
  assumes "n \<le> 2 ^ 63 div k" and "unit_of u = Some k" and "unit_text u" and "rest = [] \<or> digit_or_dot (hd rest)"
    and "d + n * k \<le> 2 ^ 63"
  shows "duration_sum (nat_to_dec n @ u @ rest) d = duration_sum rest (d + n * k)"
proof -
  have "(d + n * k) mod 2 ^ 64 = d + n * k" using assms(5) by (intro mod_less) simp
  moreover have "nat_to_dec n @ u @ rest \<noteq> []" by simp
  ultimately show ?thesis
    using assms(5) duration_part_whole [OF assms(1-4)] by (subst duration_sum.simps) (simp add: Let_def del: append_is_Nil_conv)
qed

lemma duration_units [simp]: "unit_of ''s'' = Some 1000000000" "unit_of ''m'' = Some 60000000000" "unit_of ''h'' = Some 3600000000000"
  by (simp_all add: unit_of_def micro_sign_def greek_mu_def)

lemma unit_texts [simp]: "unit_text ''s''" "unit_text ''m''" "unit_text ''h''"
  by (simp_all add: unit_text_def digit_or_dot_def is_digit_def char_code_def)

lemma nat_to_dec_hd_digit: "digit_or_dot (hd (nat_to_dec n @ r))"
  using hd_nat_to_dec [of n] by (cases "nat_to_dec n") (auto simp: digit_or_dot_def)

lemma digit_char_zero [simp]: "digit_char 0 = CHR ''0''"
  by code_simp

lemma frac_digits_zero: "v mod 10 ^ p = 0 \<Longrightarrow> frac_digits p v = replicate p CHR ''0''"
proof (induction p arbitrary: v)
  case (Suc p)
  then obtain q where v: "v = 10 * (10 ^ p * q)" by (auto simp: mod_eq_0_iff_dvd mult.assoc elim!: dvdE)
  then have "v div 10 = 10 ^ p * q" "v mod 10 = 0" by simp_all
  moreover have "frac_digits p (10 ^ p * q) = replicate p CHR ''0''" by (rule Suc.IH) simp
  ultimately show ?case by (simp add: replicate_append_same)
qed simp

lemma has_suffix_iff: "has_suffix s p \<longleftrightarrow> (\<exists>t. s = t @ p)"
  unfolding has_suffix_def has_prefix_iff by (metis rev_append rev_rev_ident)

lemma trim_suffix_append [simp]: "trim_suffix (s @ p) p = s"
  by (auto simp: trim_suffix_def has_suffix_iff)

lemma two_digits: "n < 60 \<Longrightarrow> nat_to_dec n = (if n < 10 then [digit_char n] else [digit_char (n div 10), digit_char (n mod 10)])"
proof -
  assume "n < 60"
  then have "n div 10 < 10" by simp
  then show ?thesis using nat_to_dec.simps [of n] nat_to_dec.simps [of "n div 10"] by simp
qed

lemma digit_char_inj: "m < 10 \<Longrightarrow> n < 10 \<Longrightarrow> digit_char m = digit_char n \<Longrightarrow> m = n"
  using char_code_digit_char [of m] char_code_digit_char [of n] by (metis add_left_cancel)

lemma digit_char_letter: "n < 10 \<Longrightarrow> \<not> is_digit c \<Longrightarrow> digit_char n \<noteq> c"
  using is_digit_digit_char by auto

text \<open>A text that ends in a number below sixty and a unit ends in a zero of that unit only when it is zero.\<close>

lemma ends_in_zero:
  assumes "n < 60" and "\<not> is_digit a"
  shows "has_suffix (x @ [a] @ nat_to_dec n @ [u]) [a, CHR ''0'', u] \<longleftrightarrow> n = 0"
proof
  assume "has_suffix (x @ [a] @ nat_to_dec n @ [u]) [a, CHR ''0'', u]"
  then obtain t where "x @ [a] @ nat_to_dec n @ [u] = t @ [a, CHR ''0'', u]" unfolding has_suffix_iff by blast
  then have eq: "x @ [a] @ nat_to_dec n = t @ [a, CHR ''0'']" by simp
  show "n = 0"
  proof (cases "n < 10")
    case True
    then have "digit_char n = digit_char 0" using eq assms(1) by (simp add: two_digits)
    with True show ?thesis using digit_char_inj [of n 0] by simp
  next
    case False
    then have "digit_char (n div 10) = a" using eq assms(1) by (simp add: two_digits)
    moreover have "n div 10 < 10" using assms(1) by simp
    ultimately show ?thesis using digit_char_letter assms(2) by blast
  qed
next
  assume "n = 0"
  then have "x @ [a] @ nat_to_dec n @ [u] = x @ [a, CHR ''0'', u]" by (simp add: two_digits)
  then show "has_suffix (x @ [a] @ nat_to_dec n @ [u]) [a, CHR ''0'', u]" unfolding has_suffix_iff by blast
qed

lemma no_suffix: "last s \<noteq> last p \<Longrightarrow> s \<noteq> [] \<Longrightarrow> p \<noteq> [] \<Longrightarrow> \<not> has_suffix s p"
  unfolding has_suffix_iff by auto

lemma no_letter_suffix: "c \<notin> set s \<Longrightarrow> c \<in> set p \<Longrightarrow> \<not> has_suffix s p"
  unfolding has_suffix_iff by auto

lemma not_digit_letters [simp]: "\<not> is_digit CHR ''m''" "\<not> is_digit CHR ''h''" "\<not> is_digit CHR ''s''"
  by (simp_all add: is_digit_def char_code_def)

lemma letter_not_in_dec: "\<not> is_digit c \<Longrightarrow> c \<notin> set (nat_to_dec n)"
  using nat_to_dec_digits [of n] by (auto simp: list_all_iff)

text \<open>Whole seconds in hours, minutes and seconds.\<close>

definition hours_text :: "nat \<Rightarrow> string" where
  "hours_text h = (if 0 < h then nat_to_dec h @ ''h'' else [])"

lemma duration_string_whole:
  assumes "0 < n"
  shows "duration_string (int n * 1000000000) = hours_text (n div 3600) @
    (if 60 \<le> n then nat_to_dec (n div 60 mod 60) @ ''m'' else []) @ nat_to_dec (n mod 60) @ ''s''"
proof -
  have u: "nat \<bar>int n * 1000000000\<bar> = n * 1000000000" by (simp add: nat_mult_distrib abs_mult)
  have frac: "fmt_frac 9 (n * 1000000000) = []"
    using frac_digits_zero [of "n * 1000000000" 9] by (simp add: fmt_frac_def Let_def dropWhile_eq_Nil_conv)
  have "\<not> n * 1000000000 < 1000000000" "n * 1000000000 \<noteq> 0" "\<not> n * 1000000000 < 1000" "\<not> n * 1000000000 < 1000000"
    using assms by auto
  moreover have "n * 1000000000 div 1000000000 = n" by simp
  moreover have "n div 60 div 60 = n div 3600" by (simp add: div_mult2_eq [symmetric])
  moreover have "(0 < n div 60) = (60 \<le> n)" by (simp add: div_greater_zero_iff)
  ultimately show ?thesis
    unfolding duration_string_def u by (simp add: Let_def frac hours_text_def del: mult_less_cancel2 mult_is_0)
qed

lemma short_duration_whole:
  assumes "0 < n"
  shows "short_duration (int n * 1000000000) =
    (if n < 60 then nat_to_dec n @ ''s''
     else if n mod 60 \<noteq> 0 then hours_text (n div 3600) @ nat_to_dec (n div 60 mod 60) @ ''m'' @ nat_to_dec (n mod 60) @ ''s''
     else if n div 60 mod 60 \<noteq> 0 then hours_text (n div 3600) @ nat_to_dec (n div 60 mod 60) @ ''m''
     else hours_text (n div 3600))"
proof (cases "n < 60")
  case True
  then have s: "duration_string (int n * 1000000000) = nat_to_dec n @ ''s''"
    using duration_string_whole [OF assms] by (simp add: hours_text_def)
  have "\<not> has_suffix (nat_to_dec n @ ''s'') ''m0s''" by (rule no_letter_suffix [of "CHR ''m''"]) (simp_all add: letter_not_in_dec)
  moreover have "\<not> has_suffix (nat_to_dec n @ ''s'') ''h0m''" by (rule no_suffix) simp_all
  ultimately show ?thesis using True by (simp add: short_duration_def s Let_def)
next
  case False
  let ?h = "hours_text (n div 3600)" and ?m = "n div 60 mod 60" and ?s = "n mod 60"
  have str: "duration_string (int n * 1000000000) = (?h @ nat_to_dec ?m) @ [CHR ''m''] @ nat_to_dec ?s @ ''s''"
    using duration_string_whole [OF assms] False by simp
  have z: "has_suffix (duration_string (int n * 1000000000)) ''m0s'' \<longleftrightarrow> ?s = 0"
    unfolding str by (rule ends_in_zero) simp_all
  show ?thesis
  proof (cases "?s = 0")
    case s: False
    then have "\<not> has_suffix (duration_string (int n * 1000000000)) ''m0s''" using z by simp
    moreover have "\<not> has_suffix (duration_string (int n * 1000000000)) ''h0m''" unfolding str by (rule no_suffix) simp_all
    ultimately have "short_duration (int n * 1000000000) = duration_string (int n * 1000000000)"
      by (simp add: short_duration_def Let_def)
    with s False show ?thesis by (simp add: str)
  next
    case s: True
    have split: "duration_string (int n * 1000000000) = (?h @ nat_to_dec ?m @ ''m'') @ ''0s''"
      unfolding str by (simp add: s two_digits)
    have s1: "(if has_suffix (duration_string (int n * 1000000000)) ''m0s''
        then trim_suffix (duration_string (int n * 1000000000)) ''0s'' else duration_string (int n * 1000000000)) =
        ?h @ nat_to_dec ?m @ ''m''"
      using z s trim_suffix_append [of "?h @ nat_to_dec ?m @ ''m''" "''0s''"] by (simp add: split)
    show ?thesis
    proof (cases "n div 3600 = 0")
      case True
      then have "?h = []" by (simp add: hours_text_def)
      moreover have "\<not> has_suffix (nat_to_dec ?m @ ''m'') ''h0m''"
        by (rule no_letter_suffix [of "CHR ''h''"]) (simp_all add: letter_not_in_dec)
      moreover have "?m \<noteq> 0" using True False s by (simp add: div_eq_0_iff)
      ultimately show ?thesis using False s by (simp add: short_duration_def Let_def s1 del: split)
    next
      case h: False
      then have ht: "?h = nat_to_dec (n div 3600) @ ''h''" by (simp add: hours_text_def)
      have "has_suffix (?h @ nat_to_dec ?m @ ''m'') ''h0m'' \<longleftrightarrow> ?m = 0"
        using ends_in_zero [of ?m "CHR ''h''" "nat_to_dec (n div 3600)" "CHR ''m''"] by (simp add: ht)
      moreover have "trim_suffix (?h @ nat_to_dec ?m @ ''m'') ''0m'' = ?h" if "?m = 0"
        using trim_suffix_append [of ?h "''0m''"] that by (simp add: two_digits)
      ultimately show ?thesis using False s by (simp add: short_duration_def Let_def s1)
    qed
  qed
qed

lemma sign_first: "digit_or_dot c \<Longrightarrow> strip_sign (c # cs) = (False, c # cs)"
  by (auto simp: strip_sign_def digit_or_dot_def is_digit_def char_code_def)

lemma duration_sum_unitless: "duration_sum ''0'' 0 = None"
  by (simp add: duration_sum.simps [of "''0''"] duration_part_def digit_or_dot_def is_digit_def char_code_def digit_val_def)

lemma parse_duration_parts:
  assumes "digit_or_dot (hd s)" and "s \<noteq> []" and sum: "duration_sum s 0 = Some d" and "d < 2 ^ 63"
  shows "parse_duration s = Some (int d)"
proof -
  obtain c cs where s: "s = c # cs" using assms(2) by (cases s) auto
  have "s \<noteq> ''0''" using sum duration_sum_unitless by auto
  then show ?thesis using assms s by (auto simp: parse_duration_def sign_first)
qed

text \<open>A duration of whole seconds that is written as a fact spec would is read back as the same.\<close>

lemma short_duration_parses_lemma:
  assumes n: "0 < n" and small: "n * 1000000000 < 2 ^ 63"
  shows "parse_duration (short_duration (int n * 1000000000)) = Some (int n * 1000000000)"
proof -
  let ?h = "n div 3600" and ?m = "n div 60 mod 60" and ?s = "n mod 60"
  have n_eq: "?h * 3600 + ?m * 60 + ?s = n"
  proof -
    have "n div 3600 = n div 60 div 60" by (simp add: div_mult2_eq [symmetric])
    then show ?thesis using div_mult_mod_eq [of n 60] div_mult_mod_eq [of "n div 60" 60] by linarith
  qed
  have hours: "duration_sum (hours_text ?h @ r) 0 = duration_sum r (?h * 3600000000000)" if "r = [] \<or> digit_or_dot (hd r)" for r
  proof (cases "?h = 0")
    case False
    have "?h * 3600000000000 \<le> 2 ^ 63" using small n_eq by linarith
    then have "duration_sum (nat_to_dec ?h @ ''h'' @ r) 0 = duration_sum r (0 + ?h * 3600000000000)"
      using that by (intro duration_sum_whole) (simp_all add: less_eq_div_iff_mult_less_eq)
    with False show ?thesis by (simp add: hours_text_def)
  qed (simp add: hours_text_def)
  have mins: "duration_sum (nat_to_dec ?m @ ''m'' @ r) (?h * 3600000000000) =
      duration_sum r (?h * 3600000000000 + ?m * 60000000000)" if "r = [] \<or> digit_or_dot (hd r)" for r
  proof (rule duration_sum_whole [OF _ duration_units(2) unit_texts(2) that])
    have "?m < 60" by simp
    also have "(60 :: nat) \<le> 2 ^ 63 div 60000000000" by simp
    finally show "?m \<le> 2 ^ 63 div 60000000000" by simp
    show "?h * 3600000000000 + ?m * 60000000000 \<le> 2 ^ 63" using small n_eq by linarith
  qed
  have secs: "duration_sum (nat_to_dec k @ ''s'') d = Some (d + k * 1000000000)" if "d + k * 1000000000 \<le> 2 ^ 63" for k d
    using duration_sum_whole [of k 1000000000 "''s''" "[]" d] that
    by (simp add: less_eq_div_iff_mult_less_eq duration_sum.simps [of "[]"])
  have none: "duration_sum [] d = Some d" for d by (simp add: duration_sum.simps)
  have "duration_sum (short_duration (int n * 1000000000)) 0 = Some (n * 1000000000)"
  proof -
    consider "n < 60" | "60 \<le> n" "?s \<noteq> 0" | "60 \<le> n" "?s = 0" "?m \<noteq> 0" | "60 \<le> n" "?s = 0" "?m = 0" by linarith
    then show ?thesis
    proof cases
      case 1
      then show ?thesis using secs [of 0 n] small by (simp add: short_duration_whole [OF n])
    next
      case 2
      have "duration_sum (hours_text ?h @ nat_to_dec ?m @ ''m'' @ nat_to_dec ?s @ ''s'') 0 =
          Some (?h * 3600000000000 + ?m * 60000000000 + ?s * 1000000000)"
        using hours [of "nat_to_dec ?m @ ''m'' @ nat_to_dec ?s @ ''s''"] mins [of "nat_to_dec ?s @ ''s''"]
          secs [of "?h * 3600000000000 + ?m * 60000000000" ?s] small n_eq nat_to_dec_hd_digit by simp
      then show ?thesis using 2 n_eq by (simp add: short_duration_whole [OF n])
    next
      case 3
      have "duration_sum (hours_text ?h @ nat_to_dec ?m @ ''m'') 0 = Some (?h * 3600000000000 + ?m * 60000000000)"
        using hours [of "nat_to_dec ?m @ ''m''"] mins [of "[]"] none nat_to_dec_hd_digit by simp
      then show ?thesis using 3 n_eq by (simp add: short_duration_whole [OF n])
    next
      case 4
      have "duration_sum (hours_text ?h) 0 = Some (?h * 3600000000000)" using hours [of "[]"] none by simp
      then show ?thesis using 4 n_eq by (simp add: short_duration_whole [OF n])
    qed
  qed
  moreover have "short_duration (int n * 1000000000) \<noteq> [] \<and> digit_or_dot (hd (short_duration (int n * 1000000000)))"
    using nat_to_dec_hd_digit by (auto simp: short_duration_whole [OF n] hours_text_def)
  ultimately show ?thesis using parse_duration_parts small by fastforce
qed

end
