(* ===== verification/Probing.thy ===== *)
theory Probing
  imports Duration Facts System_Model
begin

text \<open>
  Running a probe (\<open>internal/providersupport/probe\<close>: errors.go, types.go, substitute.go, parse.go,
  runner.go; its \<open>exec\<close>, \<open>fixture\<close> and \<open>dispatch\<close> packages): the command with its variables filled in,
  the argument list of a provider's runner, the classification of what it returns, and the fact
  recorded from it.

  What runs outside the program is a parameter: a runner's process, the shell, the decoders of
  \<open>encoding/json\<close>, \<open>regexp\<close> and the clock's \<open>time.Parse\<close>. An error carries the values its message
  prints. The tracer only writes lines and is left out.

  The lemmas show which substituted values the injection guard lets through, what a probe's outcome
  records, and that only a value the probe established is recorded as one.
\<close>

subsection \<open>Errors\<close>

text \<open>The sentinels of the SDK, which \<open>errors.Is\<close> finds; \<open>ErrOther\<close> wraps none of them.\<close>

datatype error_kind = ErrUsage | ErrEnv | ErrForbidden | ErrTransient | ErrProtocol | ErrUnknown | ErrNotFound | ErrOther

fun sentinel_text :: "error_kind \<Rightarrow> string" where
  "sentinel_text ErrUsage = ''provider: usage error''"
| "sentinel_text ErrEnv = ''provider: environment error''"
| "sentinel_text ErrForbidden = ''provider: forbidden''"
| "sentinel_text ErrTransient = ''provider: transient error''"
| "sentinel_text ErrProtocol = ''provider: protocol error''"
| "sentinel_text ErrUnknown = ''provider: unknown error''"
| "sentinel_text ErrNotFound = ''provider: not found''"
| "sentinel_text ErrOther = []"

datatype parse_failure =
    UnknownMode string
  | NotInt string
  | NotFloat string
  | NotBool string
  | NotTime string
  | NotJson
  | KeyMissing string
  | NotIndex string
  | IndexOutOfBounds int nat
  | NotTraversable string
  | LengthOfNonArray
  | BadPattern string
  | NoMatch string string

text \<open>An error of a run: its kind, with the text after the sentinel, or what else went wrong.\<close>

datatype run_error =
    Wrapped error_kind string
  | KeyConflict string
  | ReservedKey string
  | ParseFailed parse_failure
  | FixtureMissing "string list"
  | ExecFailed
  | Injection string

fun kind_of :: "run_error \<Rightarrow> error_kind" where
  "kind_of (Wrapped k msg) = k"
| "kind_of (KeyConflict k) = ErrUsage"
| "kind_of (ReservedKey k) = ErrUsage"
| "kind_of _ = ErrOther"

definition first_line :: "string \<Rightarrow> string" where
  "first_line s = trim_space (takeWhile (\<lambda>c. c \<noteq> CHR 0x0A) s)"

definition classify_exit :: "int \<Rightarrow> string \<Rightarrow> run_error" where
  "classify_exit code stderr =
     (let msg = first_line stderr
      in if code = 1 then Wrapped ErrUsage msg
         else if code = 2 then Wrapped ErrEnv msg
         else if code = 3 then Wrapped ErrForbidden msg
         else if code = 4 then Wrapped ErrTransient msg
         else if code = 5 then Wrapped ErrProtocol msg
         else Wrapped ErrUnknown (''exit '' @ itoa code @ '': '' @ msg))"

text \<open>\<open>err.Error()\<close> of a wrapped sentinel, which is what \<open>Record\<close> writes down.\<close>

definition error_text :: "error_kind \<Rightarrow> string \<Rightarrow> string" where
  "error_text k msg = sentinel_text k @ '': '' @ msg"

subsection \<open>Parsing a probe's output\<close>

datatype json = JNull | JBool bool | JNum f64 | JStr string | JArr "json list" | JObj "(string \<times> json) list"

fun value_of_json :: "json \<Rightarrow> val option" where
  "value_of_json JNull = None"
| "value_of_json (JBool b) = Some (VBool b)"
| "value_of_json (JNum f) = Some (VFloat64 f)"
| "value_of_json (JStr s) = Some (VStr s)"
| "value_of_json _ = Some VOther"

text \<open>The decoders and the clock: \<open>json.Unmarshal\<close>, the age of an RFC 3339 time in whole seconds,
  the submatches of a pattern (\<open>None\<close> where it does not compile), the conversion of a double beyond
  \<open>int\<close>.\<close>

record parse_env =
  pe_json :: "string \<Rightarrow> json option"
  pe_age :: "string \<Rightarrow> int option"
  pe_match :: "string \<Rightarrow> string \<Rightarrow> string list option option"
  pe_conv :: "f64 \<Rightarrow> int"

definition parse_int_mode :: "string \<Rightarrow> parse_failure + val option" where
  "parse_int_mode stdout =
     (let s = trim_space stdout
      in if s = [] then Inr (Some (VInt 0))
         else (case atoi s of None \<Rightarrow> Inl (NotInt s) | Some v \<Rightarrow> Inr (Some (VInt v))))"

definition parse_float_mode :: "string \<Rightarrow> parse_failure + val option" where
  "parse_float_mode stdout =
     (case parse_float (trim_space stdout) of
        None \<Rightarrow> Inl (NotFloat (trim_space stdout))
      | Some f \<Rightarrow> Inr (Some (VFloat64 f)))"

definition parse_bool_mode :: "string \<Rightarrow> parse_failure + val option" where
  "parse_bool_mode stdout =
     (let s = to_lower (trim_space stdout)
      in if s \<in> {''true'', ''1'', ''yes''} then Inr (Some (VBool True))
         else if s \<in> {''false'', ''0'', ''no''} then Inr (Some (VBool False))
         else Inl (NotBool (trim_space stdout)))"

definition parse_age_seconds :: "parse_env \<Rightarrow> string \<Rightarrow> parse_failure + val option" where
  "parse_age_seconds env stdout =
     (let s = trim_space stdout
      in if s = [] then Inr (Some (VInt 0))
         else (case pe_age env s of None \<Rightarrow> Inl (NotTime s) | Some n \<Rightarrow> Inr (Some (VInt n))))"

definition strip_length_suffix :: "string \<Rightarrow> string \<times> bool" where
  "strip_length_suffix path =
     (if has_suffix path ''|length'' then (trim_suffix path ''|length'', True) else (path, False))"

definition descend_json :: "json \<Rightarrow> string \<Rightarrow> parse_failure + json" where
  "descend_json current seg =
     (case current of
        JObj kvs \<Rightarrow> (case map_of kvs seg of None \<Rightarrow> Inl (KeyMissing seg) | Some v \<Rightarrow> Inr v)
      | JArr xs \<Rightarrow>
          (case atoi seg of
             None \<Rightarrow> Inl (NotIndex seg)
           | Some i \<Rightarrow>
               if i < 0 \<or> int (length xs) \<le> i then Inl (IndexOutOfBounds i (length xs)) else Inr (xs ! nat i))
      | _ \<Rightarrow> Inl (NotTraversable seg))"

fun walk_segments :: "json \<Rightarrow> string list \<Rightarrow> parse_failure + json" where
  "walk_segments current [] = Inr current"
| "walk_segments current (seg # segs) =
     (if seg = [] then walk_segments current segs
      else (case descend_json current seg of Inl e \<Rightarrow> Inl e | Inr v \<Rightarrow> walk_segments v segs))"

definition walk_json_path :: "json \<Rightarrow> string \<Rightarrow> parse_failure + json" where
  "walk_json_path root path = (if path = [] then Inr root else walk_segments root (split_on CHR ''.'' path))"

text \<open>A number without fraction is an integer again.\<close>

definition coerce_json_number :: "(f64 \<Rightarrow> int) \<Rightarrow> json \<Rightarrow> val option" where
  "coerce_json_number conv v =
     (case v of
        JNum f \<Rightarrow> (if f64_eq f (f64_of_int (int64_of_f64 conv f)) then Some (VInt (int64_of_f64 conv f)) else Some (VFloat64 f))
      | _ \<Rightarrow> value_of_json v)"

definition parse_json :: "parse_env \<Rightarrow> string \<Rightarrow> string \<Rightarrow> parse_failure + val option" where
  "parse_json env path0 stdout =
     (case pe_json env stdout of
        None \<Rightarrow> Inl NotJson
      | Some root \<Rightarrow>
          (case strip_length_suffix path0 of
             (path, length_mode) \<Rightarrow>
               (case walk_json_path root (trim_prefix path ''.'') of
                  Inl e \<Rightarrow> Inl e
                | Inr current \<Rightarrow>
                    if length_mode
                    then (case current of JArr xs \<Rightarrow> Inr (Some (VInt (int (length xs)))) | _ \<Rightarrow> Inl LengthOfNonArray)
                    else Inr (coerce_json_number (pe_conv env) current))))"

definition count_non_empty_lines :: "string \<Rightarrow> nat" where
  "count_non_empty_lines stdout = length (filter (\<lambda>l. trim_space l \<noteq> []) (split_on CHR 0x0A stdout))"

definition parse_regex :: "parse_env \<Rightarrow> string \<Rightarrow> string \<Rightarrow> parse_failure + val option" where
  "parse_regex env pattern stdout =
     (let s = trim_space stdout
      in case pe_match env pattern s of
           None \<Rightarrow> Inl (BadPattern pattern)
         | Some None \<Rightarrow> Inl (NoMatch pattern s)
         | Some (Some groups) \<Rightarrow> (case groups of whole # first # rest \<Rightarrow> Inr (Some (VStr first)) | _ \<Rightarrow> Inr (Some (VStr (hd groups)))))"

definition parse_output :: "parse_env \<Rightarrow> string \<Rightarrow> string \<Rightarrow> int \<Rightarrow> parse_failure + val option" where
  "parse_output env mode stdout exit_code =
     (if mode = ''int'' then parse_int_mode stdout
      else if mode = ''float'' then parse_float_mode stdout
      else if mode = ''bool'' then parse_bool_mode stdout
      else if mode = ''string'' then Inr (Some (VStr (trim_space stdout)))
      else if mode = ''exit_code'' then Inr (Some (VBool (exit_code = 0)))
      else if mode = ''age_seconds'' then parse_age_seconds env stdout
      else if has_prefix mode ''json:'' then parse_json env (trim_prefix mode ''json:'') stdout
      else if has_prefix mode ''lines:'' then Inr (Some (VInt (int (count_non_empty_lines stdout))))
      else if has_prefix mode ''regex:'' then parse_regex env (trim_prefix mode ''regex:'') stdout
      else Inl (UnknownMode mode))"

subsection \<open>The command\<close>

definition ident_start :: "char \<Rightarrow> bool" where
  "ident_start c \<longleftrightarrow> (let n = char_code c in 97 \<le> n \<and> n \<le> 122 \<or> 65 \<le> n \<and> n \<le> 90 \<or> n = 95)"

definition ident_char :: "char \<Rightarrow> bool" where
  "ident_char c \<longleftrightarrow> ident_start c \<or> is_digit c"

text \<open>A match of the pattern \<open>\{([a-zA-Z_][a-zA-Z0-9_]*)\}\<close> at the start: the name and what follows.\<close>

definition placeholder :: "string \<Rightarrow> (string \<times> string) option" where
  "placeholder s =
     (case s of
        [] \<Rightarrow> None
      | c # cs \<Rightarrow>
          (let name = takeWhile ident_char cs; rest = dropWhile ident_char cs
           in if c = CHR ''{'' \<and> name \<noteq> [] \<and> ident_start (hd name) \<and> rest \<noteq> [] \<and> hd rest = CHR ''}''
              then Some (name, tl rest) else None))"

lemma placeholder_split: "placeholder s = Some (name, rest) \<Longrightarrow> s = CHR ''{'' # name @ CHR ''}'' # rest"
proof -
  assume p: "placeholder s = Some (name, rest)"
  obtain c cs where s: "s = c # cs" using p by (cases s) (auto simp: placeholder_def)
  show ?thesis
  proof (cases "dropWhile ident_char cs")
    case Nil
    then show ?thesis using p by (simp add: placeholder_def s Let_def del: dropWhile_eq_Nil_conv)
  next
    case (Cons d ds)
    then have "c = CHR ''{''" "d = CHR ''}''" "takeWhile ident_char cs = name" "ds = rest"
      using p by (simp_all add: placeholder_def s Let_def split: if_splits)
    moreover have "cs = takeWhile ident_char cs @ dropWhile ident_char cs" by simp
    ultimately show ?thesis using Cons s by metis
  qed
qed

text \<open>\<open>ReplaceAllStringFunc\<close>: the pieces of a template, text or placeholder, from left to right.\<close>

datatype piece = Text char | Placeholder string

function pieces :: "string \<Rightarrow> piece list" where
  "pieces s =
     (case placeholder s of
        Some (name, rest) \<Rightarrow> Placeholder name # pieces rest
      | None \<Rightarrow> (case s of [] \<Rightarrow> [] | c # cs \<Rightarrow> Text c # pieces cs))"
  by pat_completeness auto

termination pieces
  by (relation "measure length") (auto dest: placeholder_split)

declare pieces.simps [simp del]

text \<open>What a placeholder becomes; one that nothing defines stays as it is.\<close>

definition lookup_placeholder :: "string \<Rightarrow> string dict \<Rightarrow> string dict \<Rightarrow> string \<Rightarrow> string" where
  "lookup_placeholder name model_vars provider_vars key =
     (if key = ''name'' then name
      else (case map_of model_vars key of
              Some v \<Rightarrow> v
            | None \<Rightarrow> (case map_of provider_vars key of Some v \<Rightarrow> v | None \<Rightarrow> CHR ''{'' # key @ ''}'')))"

fun render_piece :: "(string \<Rightarrow> string) \<Rightarrow> piece \<Rightarrow> string" where
  "render_piece f (Text c) = [c]"
| "render_piece f (Placeholder k) = f k"

definition substitute :: "string \<Rightarrow> string \<Rightarrow> string dict \<Rightarrow> string dict \<Rightarrow> string" where
  "substitute template name model_vars provider_vars =
     concat (map (render_piece (lookup_placeholder name model_vars provider_vars)) (pieces template))"

text \<open>\<open>strings.Count\<close> of a non-empty text: occurrences that do not overlap.\<close>

function count_text :: "string \<Rightarrow> string \<Rightarrow> nat" where
  "count_text s p =
     (if s = [] \<or> p = [] then 0
      else if has_prefix s p then Suc (count_text (drop (length p) s) p)
      else count_text (tl s) p)"
  by pat_completeness auto

termination count_text
  by (relation "measure (\<lambda>(s, p). length s)") auto

declare count_text.simps [simp del]

definition metacharacters :: "string list" where
  "metacharacters = ['';'', ''&&'', ''||'', ''|'', ''$('', ''`'', ''>>'', ''<<'', ''>'', ''<'', [CHR 0x0A]]"

definition validate_command :: "string \<Rightarrow> string \<Rightarrow> run_error option" where
  "validate_command rendered template =
     map_option Injection (List.find (\<lambda>m. count_text template m < count_text rendered m) metacharacters)"

record command =
  pc_raw :: string
  pc_parse :: string
  pc_provider :: string
  pc_component :: string
  pc_fact :: string
  pc_type :: string
  pc_resource :: string
  pc_window :: int
  pc_derive :: string
  pc_vars :: "string dict"
  pc_extra :: "string dict"
  pc_timeout :: int

record probe_result =
  pr_raw :: string
  pr_parsed :: "val option"
  pr_status :: string

subsection \<open>A provider's runner\<close>

text \<open>\<open>m[k]\<close> of a map of texts: the empty text where there is none.\<close>

definition text_at :: "string dict \<Rightarrow> string \<Rightarrow> string" where
  "text_at m k = (case map_of m k of None \<Rightarrow> [] | Some v \<Rightarrow> v)"

definition reserved_keys :: "string list" where
  "reserved_keys = [''type'', ''window'', ''derive'']"

definition merged_vars :: "command \<Rightarrow> string dict" where
  "merged_vars cmd =
     foldl (\<lambda>m (k, v). if v \<noteq> [] then AList.update k v m else m) [] (pc_vars cmd @ pc_extra cmd)"

definition probe_name :: "command \<Rightarrow> string" where
  "probe_name cmd = (if pc_resource cmd = [] then pc_component cmd else pc_resource cmd)"

definition build_args :: "command \<Rightarrow> run_error + string list" where
  "build_args cmd =
     (case List.find (\<lambda>k. map_of (pc_vars cmd) k \<noteq> None) (keys (pc_extra cmd)) of
        Some k \<Rightarrow> Inl (KeyConflict k)
      | None \<Rightarrow>
          (case List.find (\<lambda>k. text_at (pc_vars cmd) k \<noteq> [] \<or> text_at (pc_extra cmd) k \<noteq> []) reserved_keys of
             Some k \<Rightarrow> Inl (ReservedKey k)
           | None \<Rightarrow>
               Inr ([''probe'', probe_name cmd, pc_fact cmd] @
                    (if pc_type cmd \<noteq> [] then [''--type'', pc_type cmd] else []) @
                    (if 0 < pc_window cmd \<and> pc_derive cmd \<noteq> []
                     then [''--window'', short_duration (pc_window cmd), ''--derive'', pc_derive cmd] else []) @
                    concat (map (\<lambda>k. [''--'' @ k, text_at (merged_vars cmd) k]) (sort (keys (merged_vars cmd)))))))"

record external_runner =
  er_binary :: string
  er_arg_prefix :: "string list"

definition new_external_runner :: "string \<Rightarrow> external_runner" where
  "new_external_runner binary = \<lparr>er_binary = binary, er_arg_prefix = []\<rparr>"

text \<open>\<open>NewImageRunner\<close>; \<open>apply_needs\<close> is \<open>Apply\<close> of capabilities.go.\<close>

definition new_image_runner :: "(string list \<Rightarrow> string list) \<Rightarrow> string \<Rightarrow> string list \<Rightarrow> string \<Rightarrow> external_runner" where
  "new_image_runner apply_needs image_ref needs network =
     \<lparr>er_binary = ''docker'',
      er_arg_prefix = [''run'', ''--rm''] @
        (if network \<noteq> [] \<and> network \<noteq> ''bridge'' then [''--network'', network] else []) @
        apply_needs needs @ [image_ref]\<rparr>"

definition build_full_argv :: "external_runner \<Rightarrow> command \<Rightarrow> run_error + string list" where
  "build_full_argv r cmd = (case build_args cmd of Inl e \<Rightarrow> Inl e | Inr args \<Rightarrow> Inr (er_arg_prefix r @ args))"

text \<open>How a process ended: its output, past its deadline, with an exit code, or not started at all.\<close>

datatype process_end = Finished string | DeadlineExceeded | ExitCode int string | NotStarted string

definition default_timeout :: int where
  "default_timeout = 30000000000"

definition max_stdout_bytes :: nat where
  "max_stdout_bytes = 10 * 1024 * 1024"

definition exec_with_timeout ::
    "(string \<Rightarrow> string list \<Rightarrow> int \<Rightarrow> process_end) \<Rightarrow> external_runner \<Rightarrow> int \<Rightarrow> string list \<Rightarrow> run_error + string" where
  "exec_with_timeout proc r cmd_timeout argv =
     (let timeout = (if cmd_timeout = 0 then default_timeout else cmd_timeout)
      in case proc (er_binary r) argv timeout of
           Finished stdout \<Rightarrow> Inr stdout
         | DeadlineExceeded \<Rightarrow> Inl (Wrapped ErrTransient (''runner '' @ er_binary r @ '' exceeded '' @ duration_string timeout))
         | ExitCode code stderr \<Rightarrow> Inl (classify_exit code stderr)
         | NotStarted why \<Rightarrow> Inl (Wrapped ErrEnv (''runner '' @ er_binary r @ '': '' @ why)))"

text \<open>The JSON reply's value, raw text and status; the decoder is a parameter.\<close>

type_synonym reply = "val option \<times> string \<times> string"

definition parse_runner_output :: "(string \<Rightarrow> reply option) \<Rightarrow> external_runner \<Rightarrow> string \<Rightarrow> run_error + probe_result" where
  "parse_runner_output decode r stdout =
     (case decode stdout of
        None \<Rightarrow> Inl (Wrapped ErrProtocol (''parse runner '' @ er_binary r @ '' output''))
      | Some (v, raw, status) \<Rightarrow>
          if status = [] then Inr \<lparr>pr_raw = raw, pr_parsed = v, pr_status = ''ok''\<rparr>
          else if status = ''ok'' \<or> status = ''not_found'' then Inr \<lparr>pr_raw = raw, pr_parsed = v, pr_status = status\<rparr>
          else Inl (Wrapped ErrProtocol (''runner '' @ er_binary r @ '' returned unknown status '' @ status)))"

definition run_external ::
    "(string \<Rightarrow> string list \<Rightarrow> int \<Rightarrow> process_end) \<Rightarrow> (string \<Rightarrow> reply option) \<Rightarrow> external_runner \<Rightarrow> command \<Rightarrow>
     run_error + probe_result" where
  "run_external proc decode r cmd =
     (case build_full_argv r cmd of
        Inl e \<Rightarrow> Inl e
      | Inr argv \<Rightarrow>
          (case exec_with_timeout proc r (pc_timeout cmd) argv of
             Inl e \<Rightarrow> Inl e
           | Inr stdout \<Rightarrow>
               if max_stdout_bytes < length stdout
               then Inl (Wrapped ErrProtocol (''runner '' @ er_binary r @ '' output '' @ nat_to_dec (length stdout) @
                      '' bytes exceeds cap '' @ nat_to_dec max_stdout_bytes))
               else parse_runner_output decode r stdout))"

subsection \<open>The other executors\<close>

text \<open>
  An executor is the function its \<open>Run\<close> computes; a result returned beside an error is read by no
  caller and left out. \<open>shell\<close> runs \<open>sh -c\<close> under a deadline: its output and exit code (\<open>-1\<close> when it
  was killed), or \<open>None\<close> where the shell could not be started.
\<close>

type_synonym executor = "command \<Rightarrow> run_error + probe_result"

definition run_shell :: "parse_env \<Rightarrow> (string \<Rightarrow> int \<Rightarrow> (string \<times> int) option) \<Rightarrow> executor" where
  "run_shell env shell cmd =
     (case shell (pc_raw cmd) (if pc_timeout cmd = 0 then default_timeout else pc_timeout cmd) of
        None \<Rightarrow> Inl ExecFailed
      | Some (out, exit_code) \<Rightarrow>
          (case parse_output env (pc_parse cmd) out exit_code of
             Inl e \<Rightarrow> Inl (ParseFailed e)
           | Inr v \<Rightarrow> Inr \<lparr>pr_raw = out, pr_parsed = v, pr_status = ''ok''\<rparr>))"

record fixture_entry =
  fx_stdout :: string
  fx_exit :: int
  fx_status :: string

definition run_fixture :: "parse_env \<Rightarrow> fixture_entry dict dict dict \<Rightarrow> executor" where
  "run_fixture env data cmd =
     (case map_of data (pc_provider cmd) of
        None \<Rightarrow> Inl (FixtureMissing [pc_provider cmd])
      | Some prov_map \<Rightarrow>
     (case map_of prov_map (pc_component cmd) of
        None \<Rightarrow> Inl (FixtureMissing [pc_provider cmd, pc_component cmd])
      | Some comp_map \<Rightarrow>
     (case map_of comp_map (pc_fact cmd) of
        None \<Rightarrow> Inl (FixtureMissing [pc_provider cmd, pc_component cmd, pc_fact cmd])
      | Some entry \<Rightarrow>
          if fx_status entry = ''not_found''
          then Inr \<lparr>pr_raw = fx_stdout entry, pr_parsed = None, pr_status = ''not_found''\<rparr>
          else (case parse_output env (pc_parse cmd) (fx_stdout entry) (fx_exit entry) of
                  Inl e \<Rightarrow> Inl (ParseFailed e)
                | Inr v \<Rightarrow> Inr \<lparr>pr_raw = fx_stdout entry, pr_parsed = v, pr_status = ''ok''\<rparr>))))"

definition run_mux :: "executor \<Rightarrow> (string \<Rightarrow> executor option) \<Rightarrow> executor" where
  "run_mux fallback runners cmd = (case runners (pc_provider cmd) of Some r \<Rightarrow> r cmd | None \<Rightarrow> fallback cmd)"

subsection \<open>The dispatcher\<close>

text \<open>What installing a provider left behind; \<open>im_method\<close> is \<open>git\<close>, \<open>image\<close> or another text.\<close>

record install_meta =
  im_method :: string
  im_namespace :: string
  im_source :: string
  im_installed_at :: int
  im_version :: string

datatype file_read = Missing | Unreadable | Content string

text \<open>\<open>ReadInstallMeta\<close> over what reading the file below a directory gave; an error leaves the zero
  value, which the dispatcher goes on with.\<close>

definition no_meta :: install_meta where
  "no_meta = \<lparr>im_method = [], im_namespace = [], im_source = [], im_installed_at = 0, im_version = []\<rparr>"

definition read_install_meta :: "(string \<Rightarrow> install_meta option) \<Rightarrow> file_read \<Rightarrow> install_meta \<times> bool" where
  "read_install_meta decode f =
     (case f of
        Missing \<Rightarrow> (no_meta\<lparr>im_method := ''git''\<rparr>, True)
      | Unreadable \<Rightarrow> (no_meta, False)
      | Content body \<Rightarrow> (case decode body of None \<Rightarrow> (no_meta, False) | Some m \<Rightarrow> (m, True)))"

text \<open>\<open>strings.ReplaceAll\<close> of a non-empty text.\<close>

function replace_all :: "string \<Rightarrow> string \<Rightarrow> string \<Rightarrow> string" where
  "replace_all s old new =
     (if s = [] \<or> old = [] then s
      else if has_prefix s old then new @ replace_all (drop (length old) s) old new
      else hd s # replace_all (tl s) old new)"
  by pat_completeness auto

termination replace_all
  by (relation "measure (\<lambda>(s, old, new). length s)") auto

declare replace_all.simps [simp del]

text \<open>\<open>expandProviderDir\<close>; \<open>filepath.Join\<close> of \<open>providers\<close> and a name of one path element.\<close>

definition expand_provider_dir :: "string \<Rightarrow> string \<Rightarrow> string \<Rightarrow> string" where
  "expand_provider_dir entry dir name =
     replace_all entry ''$MGTT_PROVIDER_DIR'' (if dir = [] then ''providers/'' @ name else dir)"

text \<open>What the dispatcher asks of its surroundings.\<close>

record surroundings =
  sr_provider_dir :: "string \<Rightarrow> string"
  sr_meta_file :: "string \<Rightarrow> file_read"
  sr_decode_meta :: "string \<Rightarrow> install_meta option"
  sr_exists :: "string \<Rightarrow> bool"
  sr_apply_needs :: "string list \<Rightarrow> string list"
  sr_process :: "string \<Rightarrow> string list \<Rightarrow> int \<Rightarrow> process_end"
  sr_decode_reply :: "string \<Rightarrow> reply option"
  sr_shell :: "string \<Rightarrow> int \<Rightarrow> (string \<times> int) option"
  sr_parse :: parse_env

definition runner_for :: "surroundings \<Rightarrow> provider \<Rightarrow> external_runner option" where
  "runner_for sr p =
     (let dir = sr_provider_dir sr (pv_name p);
          (m, ok) = read_install_meta (sr_decode_meta sr) (sr_meta_file sr dir);
          rt = pv_runtime p;
          bin = resolve_entrypoint p False dir
      in if im_method m = ''image''
         then Some (new_image_runner (sr_apply_needs sr) (im_source m) (sort (keys (pr_needs rt))) (pr_network_mode rt))
         else if pr_entrypoint rt \<noteq> []
         then Some (new_external_runner (expand_provider_dir (pr_entrypoint rt) dir (pv_name p)))
         else if dir = [] then None
         else if \<not> sr_exists sr bin then None
         else Some (new_external_runner bin))"

record dispatcher =
  ds_exec :: executor
  ds_runners :: "string \<Rightarrow> bool"
  ds_fixture :: bool

text \<open>\<open>New\<close>; \<open>fixtures\<close> is \<open>None\<close> where \<open>MGTT_FIXTURES\<close> is unset, else the decoded file or its failure.\<close>

definition new_dispatcher ::
    "surroundings \<Rightarrow> fixture_entry dict dict dict option option \<Rightarrow> registry \<Rightarrow> dispatcher option" where
  "new_dispatcher sr fixtures reg =
     (case fixtures of
        Some None \<Rightarrow> None
      | Some (Some data) \<Rightarrow> Some \<lparr>ds_exec = run_fixture (sr_parse sr) data, ds_runners = (\<lambda>_. False), ds_fixture = True\<rparr>
      | None \<Rightarrow>
          (let runners = foldl (\<lambda>m p. case runner_for sr p of Some r \<Rightarrow> m(pv_name p \<mapsto> r) | None \<Rightarrow> m) Map.empty (registry_all reg);
               shell = run_shell (sr_parse sr) (sr_shell sr);
               start = (\<lambda>r. run_external (sr_process sr) (sr_decode_reply sr) r)
           in Some \<lparr>ds_exec = run_mux shell (\<lambda>name. map_option start (runners name)),
                    ds_runners = (\<lambda>name. runners name \<noteq> None), ds_fixture = False\<rparr>))"

definition runnable :: "dispatcher \<Rightarrow> string \<Rightarrow> string \<Rightarrow> bool" where
  "runnable d provider_name cmd \<longleftrightarrow> cmd \<noteq> [] \<or> ds_fixture d \<or> ds_runners d provider_name"

datatype outcome = OutValue | OutNotFound | OutForbidden | OutTransient

fun outcome_text :: "outcome \<Rightarrow> string" where
  "outcome_text OutValue = ''value''"
| "outcome_text OutNotFound = ''not_found''"
| "outcome_text OutForbidden = ''forbidden''"
| "outcome_text OutTransient = ''transient''"

fun message_of :: "run_error \<Rightarrow> string" where
  "message_of (Wrapped k msg) = error_text k msg"
| "message_of _ = []"

text \<open>\<open>dispatch.Record\<close>. Only a wrapped sentinel is forbidden or transient, so only its text is noted.\<close>

definition probe_fact :: "int \<Rightarrow> string \<Rightarrow> obs_fact" where
  "probe_fact now k = \<lparr>f_key = k, f_value = None, f_collector = ''probe'', f_at = now, f_note = [], f_raw = [], f_status = Normal\<rparr>"

definition record_probe ::
    "int \<Rightarrow> store \<Rightarrow> string \<Rightarrow> string \<Rightarrow> run_error + probe_result \<Rightarrow> store \<times> (run_error + outcome)" where
  "record_probe now st component k run =
     (let f = probe_fact now k
      in case run of
           Inl e \<Rightarrow>
             (if kind_of e = ErrForbidden
              then (append_fact st component (f\<lparr>f_status := Forbidden, f_note := ''forbidden: '' @ message_of e\<rparr>), Inr OutForbidden)
              else if kind_of e = ErrTransient
              then (append_fact st component (f\<lparr>f_status := Transient, f_note := ''transient: '' @ message_of e\<rparr>), Inr OutTransient)
              else (st, Inl e))
         | Inr res \<Rightarrow>
             (if pr_status res = ''not_found''
              then (append_fact st component (f\<lparr>f_status := NotFound, f_raw := pr_raw res\<rparr>), Inr OutNotFound)
              else (append_fact st component (f\<lparr>f_value := pr_parsed res, f_raw := pr_raw res\<rparr>), Inr OutValue)))"

subsection \<open>What is recorded\<close>

lemma latest_append_fact:
  "latest (append_fact st c f) c' k = (if c' = c \<and> k = f_key f then Some f else latest st c' k)"
  using log.newest_added [of st c f] log.newest_other [of c' c k f st] by auto

lemma lookup_append_fact:
  "lookup_value (append_fact st c f) c' k = (if c' = c \<and> k = f_key f then f_value f else lookup_value st c' k)"
  by (simp add: lookup_value_def latest_append_fact)

lemma unreadable_append_fact:
  "(\<exists>s. (f_key f, s) \<in> set (unreadable (append_fact st c f) c)) \<longleftrightarrow> f_status f = Forbidden \<or> f_status f = Transient"
  by (auto simp: unreadable_iff_latest latest_append_fact)

lemma probe_fact_simps [simp]:
  "f_key (probe_fact now k) = k" "f_value (probe_fact now k) = None" "f_status (probe_fact now k) = Normal"
  by (simp_all add: probe_fact_def)

lemmas record_simps = record_probe_def Let_def latest_append_fact lookup_append_fact unreadable_append_fact

lemma record_probe_other:
  "c' \<noteq> c \<or> k' \<noteq> k \<Longrightarrow> latest (fst (record_probe now st c k run)) c' k' = latest st c' k'"
  by (cases run) (auto simp: record_probe_def Let_def latest_append_fact)

lemma record_probe_value:
  "lookup_value (fst (record_probe now st c k run)) c k =
     (case run of
        Inr r \<Rightarrow> if pr_status r = ''not_found'' then None else pr_parsed r
      | Inl e \<Rightarrow> if kind_of e = ErrForbidden \<or> kind_of e = ErrTransient then None else lookup_value st c k)"
  by (cases run) (auto simp: record_probe_def Let_def lookup_append_fact)

lemma record_probe_unreadable:
  "(\<exists>s. (k, s) \<in> set (unreadable (fst (record_probe now st c k run)) c)) \<longleftrightarrow>
     (case run of
        Inr r \<Rightarrow> False
      | Inl e \<Rightarrow> kind_of e = ErrForbidden \<or> kind_of e = ErrTransient \<or> (\<exists>s. (k, s) \<in> set (unreadable st c)))"
proof -
  have u: "(\<exists>s. (k, s) \<in> set (unreadable (append_fact st c f) c)) \<longleftrightarrow> f_status f = Forbidden \<or> f_status f = Transient"
    if "f_key f = k" for f using unreadable_append_fact [of f st c] that by simp
  show ?thesis by (cases run) (simp_all add: record_probe_def Let_def u del: not_ex)
qed

text \<open>
  A probe changes only what is known of its own fact. The value recorded is the one a successful
  run gave; a failed or refused run never leaves a value of its own, and the fact counts as
  unreadable exactly when the run was refused or timed out, or it already did and nothing was
  recorded.
\<close>

theorem probe_records_what_it_established:
  "(lookup_value (fst (record_probe now st c k run)) c k = Some v \<longleftrightarrow>
      (case run of
         Inr r \<Rightarrow> pr_status r \<noteq> ''not_found'' \<and> pr_parsed r = Some v
       | Inl e \<Rightarrow> kind_of e \<notin> {ErrForbidden, ErrTransient} \<and> lookup_value st c k = Some v)) \<and>
    ((\<exists>s. (k, s) \<in> set (unreadable (fst (record_probe now st c k run)) c)) \<longleftrightarrow>
      (case run of
         Inr r \<Rightarrow> False
       | Inl e \<Rightarrow> kind_of e \<in> {ErrForbidden, ErrTransient} \<or> (\<exists>s. (k, s) \<in> set (unreadable st c)))) \<and>
    (c' = c \<and> k' = k \<or> latest (fst (record_probe now st c k run)) c' k' = latest st c' k')"
  using record_probe_value [of now st c k run] record_probe_unreadable [of k now st c run]
    record_probe_other [of c' c k' k now st run]
  by (auto split: sum.splits)

subsection \<open>What the injection guard lets through\<close>


lemma pieces_Nil [simp]: "pieces [] = []"
  by (simp add: pieces.simps placeholder_def)















text \<open>A command line that substitutes one host name.\<close>

definition ex_ping :: string where
  "ex_ping = ''ping {host}''"


text \<open>An ampersand on its own is no metacharacter of the guard, though it ends a shell command.\<close>

lemma ampersand_accepted:
  "validate_command (substitute ex_ping ''web'' [] [(''host'', ''a & reboot'')]) ex_ping = None \<and>
   substitute ex_ping ''web'' [] [(''host'', ''a & reboot'')] = ''ping a & reboot''"
  by code_simp

text \<open>
  A shell command that fails, is killed at its deadline or is not found, and prints nothing, is
  read as the number zero by the mode \<open>int\<close>, with status ok.
\<close>

lemma failed_command_reads_zero:
  assumes "pc_parse cmd = ''int''"
  shows "run_shell env (\<lambda>raw timeout. Some ([], exit_code)) cmd =
    Inr \<lparr>pr_raw = [], pr_parsed = Some (VInt 0), pr_status = ''ok''\<rparr>"
  using assms by (simp add: run_shell_def parse_output_def parse_int_mode_def trim_space_def)

end
