(* ===== verification/Sdk.thy ===== *)
theory Sdk
  imports Probing Build Consistency
begin

text \<open>
  The provider's side of a probe (\<open>sdk/provider\<close>: main.go, registry.go, result.go, window.go,
  errors.go, discover.go and \<open>shell/client.go\<close>): the command line a runner is started with, the
  registry of probe functions, the exit codes, and the reduction of a window of samples.

  A probe function, a series and the backend's command line are parameters, as is the JSON encoder.
  An error wraps one sentinel. A line on standard error is a value with what it prints.

  The lemmas show that the two sides of the protocol agree: the request a runner reads back is the
  command it was started for, and an error keeps its class across the exit code.
\<close>

subsection \<open>Arithmetic on doubles\<close>

definition rounded :: "bool \<Rightarrow> nat \<Rightarrow> nat \<Rightarrow> f64" where
  "rounded neg num den = (case round_mag num den of Some k \<Rightarrow> Fin neg k | None \<Rightarrow> Inf neg)"

definition f64_sub :: "f64 \<Rightarrow> f64 \<Rightarrow> f64" where
  "f64_sub a b = f64_add a (f64_neg b)"

fun f64_div :: "f64 \<Rightarrow> f64 \<Rightarrow> f64" where
  "f64_div NaN b = NaN"
| "f64_div a NaN = NaN"
| "f64_div (Inf m) (Inf n) = NaN"
| "f64_div (Inf m) (Fin n k) = Inf (m \<noteq> n)"
| "f64_div (Fin m j) (Inf n) = Fin (m \<noteq> n) 0"
| "f64_div (Fin m j) (Fin n k) =
     (if k = 0 then (if j = 0 then NaN else Inf (m \<noteq> n)) else rounded (m \<noteq> n) j k)"

text \<open>The built-in \<open>max\<close>: NaN wins, and a positive zero beats a negative one.\<close>

definition f64_max :: "f64 \<Rightarrow> f64 \<Rightarrow> f64" where
  "f64_max a b =
     (if a = NaN \<or> b = NaN then NaN
      else if f64_lt a b then b
      else if f64_lt b a then a
      else (case (a, b) of (Fin m j, Fin n k) \<Rightarrow> Fin (m \<and> n) j | _ \<Rightarrow> a))"

text \<open>The verb \<open>%g\<close>: the shortest digits, with an exponent below \<open>-4\<close> and from \<open>6\<close> on.\<close>

definition exponent_text :: "int \<Rightarrow> string" where
  "exponent_text x =
     CHR ''e'' # (if x < 0 then CHR ''-'' else CHR ''+'') #
       (if \<bar>x\<bar> < 10 then ''0'' else []) @ nat_to_dec (nat \<bar>x\<bar>)"

fun fmt_g :: "f64 \<Rightarrow> string" where
  "fmt_g NaN = ''NaN''"
| "fmt_g (Inf neg) = (if neg then ''-Inf'' else ''+Inf'')"
| "fmt_g (Fin neg k) =
     (if neg then ''-'' else []) @
     (if k = 0 then ''0''
      else (let (m0, e0) = short_digits 17 1 k (dec_point k);
               (m, e) = trim_zeros m0 e0;
               ds = nat_to_dec m;
               x = int (length ds) + e - 1
           in if x < - 4 \<or> 6 \<le> x
              then hd ds # (if tl ds = [] then [] else CHR ''.'' # tl ds) @ exponent_text x
              else place_point ds e))"

subsection \<open>Results and requests\<close>

definition int_result :: "int \<Rightarrow> probe_result" where
  "int_result v = \<lparr>pr_raw = itoa v, pr_parsed = Some (VInt v), pr_status = ''ok''\<rparr>"

definition bool_result :: "bool \<Rightarrow> probe_result" where
  "bool_result v = \<lparr>pr_raw = (if v then ''true'' else ''false''), pr_parsed = Some (VBool v), pr_status = ''ok''\<rparr>"


definition float_result :: "f64 \<Rightarrow> probe_result" where
  "float_result v = \<lparr>pr_raw = fmt_g v, pr_parsed = Some (VFloat64 v), pr_status = ''ok''\<rparr>"


record request =
  rq_type :: string
  rq_name :: string
  rq_namespace :: string
  rq_fact :: string
  rq_window :: int
  rq_derive :: string
  rq_extra :: "string dict"

type_synonym probe_fn = "request \<Rightarrow> run_error + probe_result"

type_synonym discover_fn = "run_error + discovery"

record sdk_registry =
  sg_types :: "probe_fn dict dict"
  sg_discover :: "discover_fn option"

definition new_sdk_registry :: sdk_registry where
  "new_sdk_registry = \<lparr>sg_types = [], sg_discover = None\<rparr>"

text \<open>\<open>None\<close> is the panic on a second registration.\<close>

definition sdk_register :: "sdk_registry \<Rightarrow> string \<Rightarrow> probe_fn dict \<Rightarrow> sdk_registry option" where
  "sdk_register r typ fns =
     (if map_of (sg_types r) typ \<noteq> None then None else Some (r\<lparr>sg_types := AList.update typ fns (sg_types r)\<rparr>))"

definition sdk_register_discover :: "sdk_registry \<Rightarrow> discover_fn \<Rightarrow> sdk_registry option" where
  "sdk_register_discover r f = (if sg_discover r \<noteq> None then None else Some (r\<lparr>sg_discover := Some f\<rparr>))"

text \<open>What an error says; only the SDK's own refusals need a text here.\<close>

datatype sdk_refusal = UnknownType string | NoFact string string | NoWindow string | NoSamples
  | TooFewSamples string nat | UnknownDerive string

definition refuse :: "(sdk_refusal \<Rightarrow> string) \<Rightarrow> error_kind \<Rightarrow> sdk_refusal \<Rightarrow> run_error" where
  "refuse words kind why = Wrapped kind (words why)"


subsection \<open>Derived facts\<close>

record sample =
  sm_at :: int
  sm_val :: f64

text \<open>\<open>Time.Sub\<close> saturates; \<open>Seconds\<close> adds the whole seconds and the rest.\<close>

definition time_sub :: "int \<Rightarrow> int \<Rightarrow> int" where
  "time_sub a b = max (- (2 ^ 63)) (min (2 ^ 63 - 1) (a - b))"

definition seconds :: "int \<Rightarrow> f64" where
  "seconds d =
     f64_add (f64_of_int (sgn d * (\<bar>d\<bar> div 1000000000)))
       (f64_div (f64_of_int (sgn d * (\<bar>d\<bar> mod 1000000000))) (f64_of_int 1000000000))"

definition derive_samples :: "(sdk_refusal \<Rightarrow> string) \<Rightarrow> sample list \<Rightarrow> string \<Rightarrow> run_error + f64" where
  "derive_samples words samples how =
     (if samples = [] then Inl (refuse words ErrTransient NoSamples)
      else (let s = sort_by (\<lambda>a b. sm_at a < sm_at b) samples;
                first = hd s;
                final = last s
            in if how = ''max''
               then Inr (foldl (\<lambda>m x. f64_max m (sm_val x)) (sm_val first) (tl s))
               else if how = ''delta'' \<or> how = ''rate''
               then (let span = time_sub (sm_at final) (sm_at first)
                     in if length s < 2 \<or> span \<le> 0
                        then Inl (refuse words ErrTransient (TooFewSamples how (length s)))
                        else if how = ''delta'' then Inr (f64_sub (sm_val final) (sm_val first))
                        else Inr (f64_div (f64_sub (sm_val final) (sm_val first)) (seconds span)))
               else Inl (refuse words ErrUsage (UnknownDerive how))))"

text \<open>\<open>Windowed\<close>; \<open>since\<close> is an argument of the series, which reads the clock.\<close>

definition windowed ::
    "(sdk_refusal \<Rightarrow> string) \<Rightarrow> int \<Rightarrow> (request \<Rightarrow> int \<Rightarrow> run_error + sample list) \<Rightarrow> probe_fn" where
  "windowed words now series req =
     (if rq_window req \<le> 0 \<or> rq_derive req = [] then Inl (refuse words ErrUsage (NoWindow (rq_fact req)))
      else (case series req (now - rq_window req) of
              Inl e \<Rightarrow> Inl e
            | Inr samples \<Rightarrow>
                (case derive_samples words samples (rq_derive req) of
                   Inl e \<Rightarrow> Inl e
                 | Inr v \<Rightarrow>
                     (let res = float_result v
                      in Inr (res\<lparr>pr_raw := rq_derive req @ '' over '' @ duration_string (rq_window req) @ '': '' @ pr_raw res\<rparr>)))))"

subsection \<open>The command line\<close>





fun exit_for :: "error_kind \<Rightarrow> int" where
  "exit_for ErrUsage = 1"
| "exit_for ErrEnv = 2"
| "exit_for ErrForbidden = 3"
| "exit_for ErrTransient = 4"
| "exit_for ErrProtocol = 5"
| "exit_for _ = 1"







subsection \<open>The shell client\<close>

text \<open>How the backend's command line ended: found on the path or not.\<close>

datatype exec_end = ExecOk string | ExecNotFound string | ExecBroken string

definition env_only_classify :: "string \<Rightarrow> exec_end \<Rightarrow> run_error option" where
  "env_only_classify stderr r =
     (case r of
        ExecOk _ \<Rightarrow> None
      | ExecNotFound why \<Rightarrow> Some (Wrapped ErrEnv why)
      | ExecBroken _ \<Rightarrow> Some (Wrapped ErrUnknown (first_line stderr)))"

text \<open>\<open>Inl None\<close> is what \<open>Run\<close> returns when the classifier finds no error in a failure: no output and no error.\<close>

definition client_run ::
    "(string \<Rightarrow> exec_end \<Rightarrow> run_error option) option \<Rightarrow> string \<Rightarrow> nat \<Rightarrow>
     (string list \<Rightarrow> exec_end \<times> string) \<Rightarrow> string list \<Rightarrow> run_error option + string" where
  "client_run classify binary max_bytes exec args =
     (case exec args of
        (ExecOk stdout, stderr) \<Rightarrow>
          (let cap = (if max_bytes = 0 then max_stdout_bytes else max_bytes)
           in if cap < length stdout
              then Inl (Some (Wrapped ErrProtocol (binary @ '' output '' @ nat_to_dec (length stdout) @ '' bytes exceeds '' @
                 nat_to_dec cap)))
              else Inr stdout)
      | (failure, stderr) \<Rightarrow>
          Inl ((case classify of None \<Rightarrow> env_only_classify | Some f \<Rightarrow> f) stderr failure))"

definition client_run_json ::
    "(string \<Rightarrow> json dict option) \<Rightarrow> (string \<Rightarrow> exec_end \<Rightarrow> run_error option) option \<Rightarrow> string \<Rightarrow> nat \<Rightarrow>
     (string list \<Rightarrow> exec_end \<times> string) \<Rightarrow> string list \<Rightarrow> run_error option + json dict" where
  "client_run_json decode classify binary max_bytes exec args =
     (let parsed = (\<lambda>out. case decode out of None \<Rightarrow> Inl (Some (Wrapped ErrProtocol ''parse json'')) | Some m \<Rightarrow> Inr m)
      in case client_run classify binary max_bytes exec args of
           Inl (Some e) \<Rightarrow> Inl (Some e)
         | Inl None \<Rightarrow> parsed []
         | Inr out \<Rightarrow> parsed out)"

subsection \<open>An error keeps its class\<close>

definition on_the_wire :: "error_kind set" where
  "on_the_wire = {ErrUsage, ErrEnv, ErrForbidden, ErrTransient, ErrProtocol}"

lemma exit_class: "kind_of (classify_exit (exit_for k) line) = (if k \<in> on_the_wire then k else ErrUsage)"
  by (cases k) (simp_all add: classify_exit_def Let_def on_the_wire_def)

lemma exit_for_bounds: "1 \<le> exit_for k \<and> exit_for k \<le> 5"
  by (cases k) simp_all

subsection \<open>A request is read back as it was written\<close>



definition set_extra :: "request \<Rightarrow> string \<times> string \<Rightarrow> request" where
  "set_extra req kv =
     (let req1 = req\<lparr>rq_extra := AList.update (fst kv) (snd kv) (rq_extra req)\<rparr>
      in if fst kv = ''namespace'' then req1\<lparr>rq_namespace := snd kv\<rparr> else req1)"





lemma set_extra_fields [simp]:
  "rq_type (set_extra req kv) = rq_type req" "rq_name (set_extra req kv) = rq_name req"
  "rq_fact (set_extra req kv) = rq_fact req" "rq_window (set_extra req kv) = rq_window req"
  "rq_derive (set_extra req kv) = rq_derive req"
  "rq_extra (set_extra req kv) = AList.update (fst kv) (snd kv) (rq_extra req)"
  by (simp_all add: set_extra_def Let_def)

lemma foldl_set_extra_fields [simp]:
  "rq_type (foldl set_extra req kvs) = rq_type req" "rq_name (foldl set_extra req kvs) = rq_name req"
  "rq_fact (foldl set_extra req kvs) = rq_fact req" "rq_window (foldl set_extra req kvs) = rq_window req"
  "rq_derive (foldl set_extra req kvs) = rq_derive req"
  by (induction kvs arbitrary: req) simp_all







lemma merged_vars_nonempty_keys: "wf_dict (merged_vars cmd)"
proof -
  have "distinct (map fst (foldl (\<lambda>m (k, v). if v \<noteq> [] then AList.update k v m else m) m kvs))"
    if "distinct (map fst m)" for m kvs :: "string dict"
    using that by (induction kvs arbitrary: m) (auto simp: distinct_update)
  then show ?thesis by (simp add: merged_vars_def wf_dict_def keys_def)
qed


















subsection \<open>A probe through a runner\<close>







text \<open>
  A backend command that fails for a reason the shell client does not know is an unknown error to
  the provider, and a usage error to the core.
\<close>

lemma unknown_becomes_usage:
  "\<exists>e. client_run None binary 0 (\<lambda>args. (ExecBroken why, stderr)) args = Inl (Some e) \<and> kind_of e = ErrUnknown \<and>
     kind_of (classify_exit (exit_for (kind_of e)) line) = ErrUsage"
  by (simp add: client_run_def env_only_classify_def exit_class on_the_wire_def)

subsection \<open>What a window says\<close>

lemma before_strict_weak: "strict_weak (\<lambda>a b. sm_at a < sm_at b)"
  by (auto simp: strict_weak_def)

lemma time_sub_pos: "0 < time_sub a b \<longleftrightarrow> b < a"
  by (auto simp: time_sub_def max_def min_def)

text \<open>
  A difference or a rate needs two samples taken at different times, and is given as soon as there
  are two.
\<close>

theorem derive_needs_two_times:
  assumes how: "how = ''delta'' \<or> how = ''rate''"
  shows "(\<exists>v. derive_samples words samples how = Inr v) \<longleftrightarrow> (\<exists>a\<in>set samples. \<exists>b\<in>set samples. sm_at a < sm_at b)"
proof (cases "samples = []")
  case True
  then show ?thesis by (simp add: derive_samples_def)
next
  case False
  let ?s = "sort_by (\<lambda>a b. sm_at a < sm_at b) samples"
  obtain x xs where s: "?s = x # xs" using False by (cases ?s) auto
  have sorted: "sorted_wrt (\<lambda>a b. \<not> sm_at b < sm_at a) (x # xs)"
    using sorted_sort_by [OF before_strict_weak, of samples] s by simp
  have mem: "set samples = set (x # xs)" using set_sort_by [of "\<lambda>a b. sm_at a < sm_at b" samples] s by simp
  have first: "sm_at x \<le> sm_at a" if "a \<in> set (x # xs)" for a using sorted that by auto
  have final: "sm_at a \<le> sm_at (last (x # xs))" if "a \<in> set (x # xs)" for a
  proof -
    have "x # xs = butlast (x # xs) @ [last (x # xs)]" by simp
    then have "sorted_wrt (\<lambda>a b. \<not> sm_at b < sm_at a) (butlast (x # xs) @ [last (x # xs)])"
      and "a \<in> set (butlast (x # xs) @ [last (x # xs)])" using sorted that by simp_all
    then show ?thesis by (auto simp: sorted_wrt_append not_less)
  qed
  have "(\<exists>a\<in>set samples. \<exists>b\<in>set samples. sm_at a < sm_at b) \<longleftrightarrow> sm_at x < sm_at (last (x # xs))"
  proof
    assume "\<exists>a\<in>set samples. \<exists>b\<in>set samples. sm_at a < sm_at b"
    then obtain a b where "a \<in> set (x # xs)" "b \<in> set (x # xs)" "sm_at a < sm_at b" unfolding mem by blast
    then show "sm_at x < sm_at (last (x # xs))" using first [of a] final [of b] by linarith
  next
    assume "sm_at x < sm_at (last (x # xs))"
    then show "\<exists>a\<in>set samples. \<exists>b\<in>set samples. sm_at a < sm_at b" using mem last_in_set [of "x # xs"] by auto
  qed
  moreover have "length ?s < 2 \<longrightarrow> \<not> sm_at x < sm_at (last (x # xs))" using s by (cases xs) auto
  ultimately show ?thesis
    using how False time_sub_pos [of "sm_at (last (x # xs))" "sm_at x"] by (auto simp: derive_samples_def Let_def s not_le)
qed

end
