(* ===== verification/Diagnose.thy ===== *)
theory Diagnose
  imports Plan_Engine Probing
begin

text \<open>
  \<open>mgtt diagnose\<close> (\<open>internal/cli/diagnose.go\<close>): the loop that asks the strategy for a probe, gates it,
  runs it or asks the operator, records the outcome and goes on until a conclusion, an error, the
  budget or the deadline; and the report it ends with.

  What lies outside is a \<open>world\<close>: the executor the dispatcher built, the clock, the deadline, the
  operator's lines, each indexed by the number of the iteration. Saving the store after a probe
  changes nothing the loop reads and is left out.

  The lemmas show that the loop ends, never probes a fact twice, runs no writing probe it was told
  not to run, and stays within its budget.
\<close>

subsection \<open>Running one probe\<close>

text \<open>What the two loops, here and in \<open>mgtt plan\<close>, hand to the executor; \<open>fmt.Sprint\<close> of a value is \<open>show\<close>.\<close>

definition command_of :: "int \<Rightarrow> string \<Rightarrow> probe \<Rightarrow> command" where
  "command_of timeout rendered p =
     \<lparr>pc_raw = rendered, pc_parse = pb_parse_mode p, pc_provider = pb_provider p, pc_component = pb_component p,
      pc_fact = pb_fact p, pc_type = pb_type p, pc_resource = pb_resource p, pc_window = pb_window p,
      pc_derive = pb_derive p, pc_vars = pb_vars p, pc_extra = [], pc_timeout = timeout\<rparr>"

text \<open>\<open>probeTimeout\<close> of the value of \<open>MGTT_PROBE_TIMEOUT\<close>.\<close>

definition probe_timeout :: "string \<Rightarrow> int" where
  "probe_timeout v = (if v = [] then 0 else (case parse_duration v of None \<Rightarrow> 0 | Some d \<Rightarrow> d))"

definition fact_label :: "probe \<Rightarrow> string" where
  "fact_label p = pb_component p @ ''.'' @ pb_fact p"

definition shell_probe_run ::
    "(val option \<Rightarrow> string) \<Rightarrow> int \<Rightarrow> int \<Rightarrow> executor \<Rightarrow> probe \<Rightarrow> store \<Rightarrow> store \<times> (run_error + string)" where
  "shell_probe_run show timeout now exec p st =
     (let rendered = substitute (pb_command p) (probe_target p) (pb_vars p) []
      in case validate_command rendered (pb_command p) of
           Some e \<Rightarrow> (st, Inl e)
         | None \<Rightarrow>
             (let result = exec (command_of timeout rendered p)
              in case record_probe now st (pb_component p) (pb_fact p) result of
                   (st1, Inl e) \<Rightarrow> (st1, Inl e)
                 | (st1, Inr out) \<Rightarrow>
                     (st1, Inr (if out \<noteq> OutValue then fact_label p @ '' = <'' @ outcome_text out @ ''>''
                                else (case result of
                                        Inr res \<Rightarrow> fact_label p @ '' = '' @ show (pr_parsed res)
                                      | Inl _ \<Rightarrow> [])))))"

subsection \<open>The operator\<close>

definition says_healthy_key :: string where
  "says_healthy_key = ''operator_says_healthy''"

definition skipped_key :: string where
  "skipped_key = ''__operator_skipped''"

text \<open>What reading a line gave: a whole line, what was left before the end of the input, or a failure.\<close>

datatype read_line = LineRead string | EndAfter string | ReadBroken

datatype prompt_error = NoMoreAnswers | CannotRead | Unrecognized string

definition prompt_yes_no_skip :: "read_line \<Rightarrow> prompt_error + string" where
  "prompt_yes_no_skip l =
     (let understood = (\<lambda>text.
            let answer = to_lower (trim_space text)
            in if answer \<in> {''y'', ''yes''} then Inr ''y''
               else if answer \<in> {''n'', ''no''} then Inr ''n''
               else if answer \<in> {''skip'', ''s'', []} then Inr ''skip''
               else Inl (Unrecognized answer))
      in case l of
           LineRead text \<Rightarrow> understood text
         | EndAfter text \<Rightarrow> if trim_space text = [] then Inl NoMoreAnswers else understood text
         | ReadBroken \<Rightarrow> Inl CannotRead)"

definition operator_fact :: "int \<Rightarrow> string \<Rightarrow> val option \<Rightarrow> string \<Rightarrow> obs_fact" where
  "operator_fact now k v note =
     \<lparr>f_key = k, f_value = v, f_collector = ''operator'', f_at = now, f_note = note, f_raw = [], f_status = Normal\<rparr>"

definition apply_operator_answer :: "int \<Rightarrow> store \<Rightarrow> string \<Rightarrow> string \<Rightarrow> store" where
  "apply_operator_answer now st component answer =
     (if answer = ''y'' then append_fact st component (operator_fact now says_healthy_key (Some (VBool True)) [])
      else if answer = ''n'' then append_fact st component (operator_fact now says_healthy_key (Some (VBool False)) [])
      else if answer = ''skip''
      then append_fact
             (append_fact st component (operator_fact now skipped_key (Some (VBool True)) ''operator skipped prompt''))
             component (operator_fact now says_healthy_key None ''skipped'')
      else st)"

subsection \<open>Gates\<close>

definition probe_is_read_only :: "probe \<Rightarrow> registry \<Rightarrow> bool" where
  "probe_is_read_only p r = (case rg_providers r (pb_provider p) of None \<Rightarrow> False | Some pv \<Rightarrow> pv_read_only pv)"

definition is_generic_component :: "model \<Rightarrow> registry \<Rightarrow> string \<Rightarrow> bool" where
  "is_generic_component m r name =
     (case component_of m name of
        None \<Rightarrow> False
      | Some c \<Rightarrow> (case resolve_type c m r of Inl _ \<Rightarrow> False | Inr (_, owner) \<Rightarrow> owner = ''generic''))"

definition uses_unseeded_generic :: "model \<Rightarrow> registry \<Rightarrow> store \<Rightarrow> bool" where
  "uses_unseeded_generic m r st \<longleftrightarrow>
     (\<exists>name\<in>set (keys (m_components m)). is_generic_component m r name \<and> latest st name says_healthy_key = None)"

record diagnose_flags =
  fl_readonly_only :: bool
  fl_max_probes :: int
  fl_on_write :: string
  fl_suspects :: "string list"

subsection \<open>The loop\<close>

record world =
  wd_exec :: "nat \<Rightarrow> executor"
  wd_now :: "nat \<Rightarrow> int"
  wd_expired :: "nat \<Rightarrow> bool"
  wd_expired_after :: "nat \<Rightarrow> bool"
  wd_input :: "nat \<Rightarrow> read_line"
  wd_timeout :: string
  wd_show :: "val option \<Rightarrow> string"

record loop_state =
  ls_store :: store
  ls_trail :: "(probe \<times> string) list"
  ls_run :: int

text \<open>How a run ends: a report, with the number of probes it prints, or an error.\<close>

datatype report = ReportDone "scenario option" int | ReportStuck int | ReportPartial string int

datatype diagnose_error =
    ProbeFailed string string run_error
  | WriteProbe string string
  | BadOnWrite string
  | PromptFailed prompt_error
  | NeedsTerminal

datatype step_end = Continue | Stop report | Fail diagnose_error

definition handle_generic_prompt :: "world \<Rightarrow> nat \<Rightarrow> probe \<Rightarrow> loop_state \<Rightarrow> loop_state \<times> step_end" where
  "handle_generic_prompt w i p l =
     (case prompt_yes_no_skip (wd_input w i) of
        Inl NoMoreAnswers \<Rightarrow>
          (l\<lparr>ls_store := apply_operator_answer (wd_now w i) (ls_store l) (pb_component p) ''skip'',
             ls_trail := ls_trail l @ [(p, ''operator-answered: skip (stdin closed)'')]\<rparr>,
           Stop (ReportPartial ''no more operator input (stdin closed)'' (ls_run l + 1)))
      | Inl e \<Rightarrow> (l, Fail (PromptFailed e))
      | Inr answer \<Rightarrow>
          (l\<lparr>ls_store := apply_operator_answer (wd_now w i) (ls_store l) (pb_component p) answer,
             ls_trail := ls_trail l @ [(p, ''operator-answered: '' @ answer)],
             ls_run := ls_run l + 1\<rparr>,
           Continue))"

definition check_readonly_gate :: "diagnose_flags \<Rightarrow> registry \<Rightarrow> probe \<Rightarrow> loop_state \<Rightarrow> step_end" where
  "check_readonly_gate f r p l =
     (if \<not> fl_readonly_only f \<or> probe_is_read_only p r then Continue
      else if fl_on_write f = ''pause''
      then Stop (ReportPartial (''next probe requires writes (component='' @ pb_component p @ '' fact='' @ pb_fact p @
             ''); --on-write=pause'') (ls_run l))
      else if fl_on_write f = ''fail'' then Fail (WriteProbe (pb_component p) (pb_fact p))
      else if fl_on_write f = ''run'' \<or> fl_on_write f = [] then Continue
      else Fail (BadOnWrite (fl_on_write f)))"

definition run_and_record :: "world \<Rightarrow> nat \<Rightarrow> probe \<Rightarrow> loop_state \<Rightarrow> loop_state \<times> step_end" where
  "run_and_record w i p l =
     (case shell_probe_run (wd_show w) (probe_timeout (wd_timeout w)) (wd_now w i) (wd_exec w i) p (ls_store l) of
        (st, Inl e) \<Rightarrow>
          (l\<lparr>ls_store := st\<rparr>,
           if wd_expired_after w i then Stop (ReportPartial ''deadline exceeded'' (ls_run l))
           else Fail (ProbeFailed (pb_component p) (pb_fact p) e))
      | (st, Inr text) \<Rightarrow>
          (l\<lparr>ls_store := st, ls_trail := ls_trail l @ [(p, text)], ls_run := ls_run l + 1\<rparr>, Continue))"

text \<open>\<open>step\<close>; \<open>None\<close> where the strategy does not return.\<close>

definition diagnose_step ::
    "diagnose_flags \<Rightarrow> model \<Rightarrow> registry \<Rightarrow> scenario_set \<Rightarrow> suspect_hint list \<Rightarrow> world \<Rightarrow> nat \<Rightarrow> loop_state \<Rightarrow>
     (loop_state \<times> step_end) option" where
  "diagnose_step f m r scs suspects w i l =
     (let inp = \<lparr>in_model = m, in_registry = r, in_store = ls_store l, in_scenarios = ss_chains scs,
                 in_graph = ss_graph scs, in_suspects = suspects\<rparr>
      in case suggest_probe (auto_select inp) inp of
           None \<Rightarrow> None
         | Some d \<Rightarrow>
             if dc_done d then Some (l, Stop (ReportDone (dc_root_cause d) (ls_run l)))
             else if dc_stuck d then Some (l, Stop (ReportStuck (ls_run l)))
             else (case dc_probe d of
                     None \<Rightarrow> Some (l, Stop (ReportPartial ''strategy returned no probe'' (ls_run l)))
                   | Some p \<Rightarrow>
                       if is_generic_component m r (pb_component p) then Some (handle_generic_prompt w i p l)
                       else (case check_readonly_gate f r p l of
                               Continue \<Rightarrow> Some (run_and_record w i p l)
                             | e \<Rightarrow> Some (l, e))))"

lemma diagnose_step_counts:
  "diagnose_step f m r scs suspects w i l = Some (l', Continue) \<Longrightarrow> ls_run l' = ls_run l + 1"
  by (auto simp: diagnose_step_def Let_def handle_generic_prompt_def run_and_record_def
      split: option.splits if_splits sum.splits prompt_error.splits step_end.splits prod.splits)

function diagnose_loop ::
    "diagnose_flags \<Rightarrow> model \<Rightarrow> registry \<Rightarrow> scenario_set \<Rightarrow> suspect_hint list \<Rightarrow> world \<Rightarrow> nat \<Rightarrow> loop_state \<Rightarrow>
     (loop_state \<times> (diagnose_error + report)) option" where
  "diagnose_loop f m r scs suspects w i l =
     (if fl_max_probes f \<le> ls_run l then Some (l, Inr (ReportPartial ''budget exhausted'' (ls_run l)))
      else if wd_expired w i then Some (l, Inr (ReportPartial ''deadline exceeded'' (ls_run l)))
      else (case diagnose_step f m r scs suspects w i l of
              None \<Rightarrow> None
            | Some (l', Continue) \<Rightarrow> diagnose_loop f m r scs suspects w (Suc i) l'
            | Some (l', Stop rep) \<Rightarrow> Some (l', Inr rep)
            | Some (l', Fail e) \<Rightarrow> Some (l', Inl e)))"
  by pat_completeness auto

termination diagnose_loop
  by (relation "measure (\<lambda>(f, m, r, scs, suspects, w, i, l). nat (fl_max_probes f - ls_run l))")
    (auto dest: diagnose_step_counts)

declare diagnose_loop.simps [simp del]

text \<open>\<open>runDiagnose\<close>, once the model, the registry and the incident's store are loaded.\<close>

definition run_diagnose ::
    "bool \<Rightarrow> diagnose_flags \<Rightarrow> model \<Rightarrow> registry \<Rightarrow> scenario_set \<Rightarrow> world \<Rightarrow> store \<Rightarrow>
     (loop_state \<times> (diagnose_error + report)) option" where
  "run_diagnose interactive f m r scs w st =
     (let l = \<lparr>ls_store = st, ls_trail = [], ls_run = 0\<rparr>;
          given = parse_suspect_hints (fl_suspects f);
          suspects = (if given = [] then parse_suspect_hints (sm_suspects (st_meta st)) else given)
      in if \<not> interactive \<and> uses_unseeded_generic m r st then Some (l, Inl NeedsTerminal)
         else diagnose_loop f m r scs suspects w 0 l)"

subsection \<open>What one step leaves\<close>

text \<open>A fact that has a record keeps one.\<close>

definition keeps_records :: "store \<Rightarrow> store \<Rightarrow> bool" where
  "keeps_records st st' \<longleftrightarrow> (\<forall>c k. latest st c k \<noteq> None \<longrightarrow> latest st' c k \<noteq> None)"

lemma keeps_records_refl [simp]: "keeps_records st st"
  by (simp add: keeps_records_def)

lemma keeps_records_append [simp]: "keeps_records st (append_fact st c f)"
  by (simp add: keeps_records_def latest_append_fact)

lemma keeps_records_trans: "keeps_records a b \<Longrightarrow> keeps_records b c \<Longrightarrow> keeps_records a c"
  by (simp add: keeps_records_def)

lemma record_probe_keeps: "keeps_records st (fst (record_probe now st c k run))"
  by (cases run) (simp_all add: record_probe_def Let_def)

lemma record_probe_leaves: "record_probe now st c k run = (st', Inr out) \<Longrightarrow> latest st' c k \<noteq> None"
  by (cases run) (auto simp: record_probe_def Let_def latest_append_fact split: if_splits)

lemma apply_answer_keeps: "keeps_records st (apply_operator_answer now st c answer)"
  by (auto simp: apply_operator_answer_def intro: keeps_records_trans [OF keeps_records_append keeps_records_append])

lemma apply_answer_leaves [simp]:
  "\<exists>f. latest (apply_operator_answer now st c ''y'') c says_healthy_key = Some f"
  "\<exists>f. latest (apply_operator_answer now st c ''n'') c says_healthy_key = Some f"
  "\<exists>f. latest (apply_operator_answer now st c ''skip'') c says_healthy_key = Some f"
  by (simp_all add: apply_operator_answer_def latest_append_fact operator_fact_def)

lemma prompt_answers: "prompt_yes_no_skip l = Inr answer \<Longrightarrow> answer \<in> {''y'', ''n'', ''skip''}"
  by (auto simp: prompt_yes_no_skip_def Let_def split: read_line.splits if_splits)

lemma shell_probe_run_store:
  "shell_probe_run show timeout now exec p st = (st', res) \<Longrightarrow>
   keeps_records st st' \<and> (\<forall>text. res = Inr text \<longrightarrow> latest st' (pb_component p) (pb_fact p) \<noteq> None)"
  using record_probe_keeps [of st now "pb_component p" "pb_fact p"]
  by (auto simp: shell_probe_run_def Let_def split: option.splits prod.splits sum.splits dest: record_probe_leaves)
    (metis fst_conv)+

text \<open>The generic provider's components have the operator's word as their only fact.\<close>

definition generic_asks_once :: "model \<Rightarrow> registry \<Rightarrow> bool" where
  "generic_asks_once m r \<longleftrightarrow>
     (\<forall>name c t. component_of m name = Some c \<longrightarrow> resolve_type c m r = Inr (t, ''generic'') \<longrightarrow>
        set (keys (ty_facts t)) \<subseteq> {says_healthy_key})"

definition declared_facts :: "model \<Rightarrow> registry \<Rightarrow> (string \<times> string) set" where
  "declared_facts m r =
     {(name, k). \<exists>c t owner. component_of m name = Some c \<and> resolve_type c m r = Inr (t, owner) \<and> k \<in> set (keys (ty_facts t))}"

definition probe_key :: "probe \<times> string \<Rightarrow> string \<times> string" where
  "probe_key e = (pb_component (fst e), pb_fact (fst e))"

lemma fresh_probe_declared: "fresh_probe m r st p \<Longrightarrow> (pb_component p, pb_fact p) \<in> declared_facts m r"
  by (fastforce simp: fresh_probe_def declared_facts_def set_keys)

lemma fresh_probe_generic:
  assumes "generic_asks_once m r" and "fresh_probe m r st p" and "is_generic_component m r (pb_component p)"
  shows "pb_fact p = says_healthy_key"
  using assms by (fastforce simp: generic_asks_once_def fresh_probe_def is_generic_component_def set_keys)

text \<open>One step keeps every record, and what it puts on the trail was not known before and is now.\<close>

definition trail_step :: "model \<Rightarrow> registry \<Rightarrow> loop_state \<Rightarrow> loop_state \<Rightarrow> bool" where
  "trail_step m r l l' \<longleftrightarrow>
     (\<exists>p text. ls_trail l' = ls_trail l @ [(p, text)] \<and> fresh_probe m r (ls_store l) p \<and>
        latest (ls_store l') (pb_component p) (pb_fact p) \<noteq> None)"

lemma run_and_record_step:
  assumes "run_and_record w i p l = (l', e)" and "fresh_probe m r (ls_store l) p"
  shows "keeps_records (ls_store l) (ls_store l')"
    and "if e = Continue then trail_step m r l l' \<and> ls_run l' = ls_run l + 1
         else ls_trail l' = ls_trail l \<and> ls_run l' = ls_run l"
proof -
  let ?run = "shell_probe_run (wd_show w) (probe_timeout (wd_timeout w)) (wd_now w i) (wd_exec w i) p (ls_store l)"
  obtain st res where r: "?run = (st, res)" by (cases ?run)
  note facts = shell_probe_run_store [OF r]
  show "keeps_records (ls_store l) (ls_store l')"
    using assms(1) r facts by (auto simp: run_and_record_def split: sum.splits)
  show "if e = Continue then trail_step m r l l' \<and> ls_run l' = ls_run l + 1
         else ls_trail l' = ls_trail l \<and> ls_run l' = ls_run l"
    using assms r facts by (auto simp: run_and_record_def trail_step_def split: sum.splits if_splits)
qed

lemma generic_prompt_step:
  assumes "handle_generic_prompt w i p l = (l', e)" and "fresh_probe m r (ls_store l) p"
    and "generic_asks_once m r" "is_generic_component m r (pb_component p)"
  shows "keeps_records (ls_store l) (ls_store l')"
    and "e = Continue \<Longrightarrow> trail_step m r l l' \<and> ls_run l' = ls_run l + 1"
    and "e \<noteq> Continue \<Longrightarrow> (ls_trail l' = ls_trail l \<or> trail_step m r l l') \<and> ls_run l' = ls_run l"
proof -
  have key: "pb_fact p = says_healthy_key" using fresh_probe_generic assms(2-4) by blast
  note defs = handle_generic_prompt_def trail_step_def key
  show "keeps_records (ls_store l) (ls_store l')"
    using assms(1) apply_answer_keeps by (auto simp: handle_generic_prompt_def split: sum.splits prompt_error.splits)
  show "e = Continue \<Longrightarrow> trail_step m r l l' \<and> ls_run l' = ls_run l + 1"
    using assms(1,2) by (auto simp: defs split: sum.splits prompt_error.splits dest!: prompt_answers)
  show "e \<noteq> Continue \<Longrightarrow> (ls_trail l' = ls_trail l \<or> trail_step m r l l') \<and> ls_run l' = ls_run l"
    using assms(1,2) by (auto simp: defs split: sum.splits prompt_error.splits)
qed

lemma diagnose_step_effect:
  assumes step: "diagnose_step f m r scs suspects w i l = Some (l', e)" and g: "generic_asks_once m r"
  shows "keeps_records (ls_store l) (ls_store l')"
    and "e = Continue \<Longrightarrow> trail_step m r l l' \<and> ls_run l' = ls_run l + 1"
    and "e \<noteq> Continue \<Longrightarrow> (ls_trail l' = ls_trail l \<or> trail_step m r l l') \<and> ls_run l' = ls_run l"
proof -
  let ?inp = "\<lparr>in_model = m, in_registry = r, in_store = ls_store l, in_scenarios = ss_chains scs,
      in_graph = ss_graph scs, in_suspects = suspects\<rparr>"
  consider (same) "l' = l" "e \<noteq> Continue"
    | (prompt) p where "fresh_probe m r (ls_store l) p" "is_generic_component m r (pb_component p)"
        "handle_generic_prompt w i p l = (l', e)"
    | (run) p where "fresh_probe m r (ls_store l) p" "run_and_record w i p l = (l', e)"
  proof -
    obtain d where d: "suggest_probe (auto_select ?inp) ?inp = Some d"
      using step by (auto simp: diagnose_step_def Let_def split: option.splits)
    have fresh: "dc_probe d = Some p \<Longrightarrow> fresh_probe m r (ls_store l) p" for p
      using suggest_probe_fresh_lemma [OF d] by simp
    show ?thesis
      using step d fresh that
      by (auto simp: diagnose_step_def Let_def split: option.splits if_splits step_end.splits)
        (metis step_end.distinct)+
  qed
  note cases = this
  show "keeps_records (ls_store l) (ls_store l')"
    using cases by cases (auto dest: generic_prompt_step(1) [OF _ _ g] run_and_record_step(1))
  show "e = Continue \<Longrightarrow> trail_step m r l l' \<and> ls_run l' = ls_run l + 1"
    using cases by cases (auto dest: generic_prompt_step(2) [OF _ _ g] run_and_record_step(2))
  show "e \<noteq> Continue \<Longrightarrow> (ls_trail l' = ls_trail l \<or> trail_step m r l l') \<and> ls_run l' = ls_run l"
    using cases by cases (auto dest: generic_prompt_step(3) [OF _ _ g] run_and_record_step(2))
qed

lemma step_reasons: "diagnose_step f m r scs suspects w i l = Some (l', Stop (ReportPartial why n)) \<Longrightarrow> why \<noteq> ''budget exhausted''"
  by (auto simp: diagnose_step_def Let_def handle_generic_prompt_def run_and_record_def check_readonly_gate_def
      split: option.splits if_splits sum.splits prompt_error.splits step_end.splits prod.splits)

subsection \<open>The whole run\<close>

definition trail_ok :: "model \<Rightarrow> registry \<Rightarrow> loop_state \<Rightarrow> bool" where
  "trail_ok m r l \<longleftrightarrow>
     distinct (map probe_key (ls_trail l)) \<and> set (map probe_key (ls_trail l)) \<subseteq> declared_facts m r \<and>
     (\<forall>(c, k)\<in>set (map probe_key (ls_trail l)). latest (ls_store l) c k \<noteq> None)"

lemma trail_ok_keep:
  assumes "trail_ok m r l" and "keeps_records (ls_store l) (ls_store l')" and "ls_trail l' = ls_trail l"
  shows "trail_ok m r l'"
  using assms by (force simp: trail_ok_def keeps_records_def)

lemma trail_ok_step:
  assumes ok: "trail_ok m r l" and keep: "keeps_records (ls_store l) (ls_store l')" and step: "trail_step m r l l'"
  shows "trail_ok m r l'"
proof -
  obtain p said where t: "ls_trail l' = ls_trail l @ [(p, said)]" and fresh: "fresh_probe m r (ls_store l) p"
      and now: "latest (ls_store l') (pb_component p) (pb_fact p) \<noteq> None"
    using step by (auto simp: trail_step_def)
  let ?k = "(pb_component p, pb_fact p)"
  have "?k \<notin> set (map probe_key (ls_trail l))" using fresh ok by (auto simp: trail_ok_def fresh_probe_def)
  moreover have "?k \<in> declared_facts m r" by (rule fresh_probe_declared [OF fresh])
  moreover have "\<forall>(c, k)\<in>set (map probe_key (ls_trail l)). latest (ls_store l') c k \<noteq> None"
    using ok keep by (force simp: trail_ok_def keeps_records_def)
  ultimately show ?thesis using ok now by (simp add: trail_ok_def t probe_key_def [of "(p, said)"])
qed

lemma diagnose_loop_trail:
  assumes "diagnose_loop f m r scs suspects w i l = Some (l', res)" and "generic_asks_once m r" and "trail_ok m r l"
    and "int (length (ls_trail l)) = ls_run l"
  shows "trail_ok m r l'" and "ls_run l' \<le> max (ls_run l) (fl_max_probes f)" and "ls_run l \<le> ls_run l'"
    and "int (length (ls_trail l')) \<in> {ls_run l', ls_run l' + 1}"
    and "res = Inr (ReportPartial ''budget exhausted'' n) \<Longrightarrow>
      fl_max_probes f \<le> ls_run l' \<and> int (length (ls_trail l')) = ls_run l'"
proof -
  have "trail_ok m r l' \<and> ls_run l' \<le> max (ls_run l) (fl_max_probes f) \<and> ls_run l \<le> ls_run l' \<and>
      int (length (ls_trail l')) \<in> {ls_run l', ls_run l' + 1} \<and>
      (res = Inr (ReportPartial ''budget exhausted'' n) \<longrightarrow>
        fl_max_probes f \<le> ls_run l' \<and> int (length (ls_trail l')) = ls_run l')"
    using assms
  proof (induction f m r scs suspects w i l rule: diagnose_loop.induct)
    case (1 f m r scs suspects w i l)
    show ?case
    proof (cases "fl_max_probes f \<le> ls_run l \<or> wd_expired w i")
      case True
      then show ?thesis using "1.prems" by (auto simp: diagnose_loop.simps [of f m r scs suspects w i l] split: if_splits)
    next
      case False
      then obtain l1 e where step: "diagnose_step f m r scs suspects w i l = Some (l1, e)"
        using "1.prems"(1) by (auto simp: diagnose_loop.simps [of f m r scs suspects w i l] split: option.splits)
      note effect = diagnose_step_effect [OF step "1.prems"(2)]
      show ?thesis
      proof (cases "e = Continue")
        case True
        have grown: "trail_step m r l l1" "ls_run l1 = ls_run l + 1" using effect(2) True by simp_all
        have "diagnose_loop f m r scs suspects w (Suc i) l1 = Some (l', res)"
          using "1.prems"(1) False step True by (simp add: diagnose_loop.simps [of f m r scs suspects w i l])
        moreover have "trail_ok m r l1" by (rule trail_ok_step [OF "1.prems"(3) effect(1) grown(1)])
        moreover have "int (length (ls_trail l1)) = ls_run l1" using grown "1.prems"(4) by (auto simp: trail_step_def)
        ultimately show ?thesis using "1.IH" [of "(l1, e)" l1 e] False step True "1.prems"(2) grown(2) by auto
      next
        case stop: False
        then have res: "l' = l1" "(\<exists>rep. e = Stop rep \<and> res = Inr rep) \<or> (\<exists>x. res = Inl x)"
          using "1.prems"(1) False step
          by (auto simp: diagnose_loop.simps [of f m r scs suspects w i l] split: step_end.splits)
        have "trail_ok m r l1"
          using effect(3) [OF stop] trail_ok_keep [OF "1.prems"(3) effect(1)] trail_ok_step [OF "1.prems"(3) effect(1)] by auto
        moreover have "int (length (ls_trail l1)) \<in> {ls_run l1, ls_run l1 + 1}"
          using effect(3) [OF stop] "1.prems"(4) by (auto simp: trail_step_def)
        moreover have "res \<noteq> Inr (ReportPartial ''budget exhausted'' n)" using res step by (auto dest: step_reasons)
        ultimately show ?thesis using effect(3) [OF stop] res False by auto
      qed
    qed
  qed
  then show "trail_ok m r l'" "ls_run l' \<le> max (ls_run l) (fl_max_probes f)" "ls_run l \<le> ls_run l'"
    "int (length (ls_trail l')) \<in> {ls_run l', ls_run l' + 1}"
    "res = Inr (ReportPartial ''budget exhausted'' n) \<Longrightarrow>
      fl_max_probes f \<le> ls_run l' \<and> int (length (ls_trail l')) = ls_run l'" by blast+
qed

lemma finite_declared_facts: "finite (declared_facts m r)"
proof -
  let ?F = "\<lambda>name. case component_of m name of None \<Rightarrow> {} | Some c \<Rightarrow>
      (case resolve_type c m r of Inl _ \<Rightarrow> {} | Inr (t, owner) \<Rightarrow> Pair name ` set (keys (ty_facts t)))"
  have "declared_facts m r \<subseteq> (\<Union>name\<in>set (keys (m_components m)). ?F name)"
  proof
    fix x assume "x \<in> declared_facts m r"
    then obtain name k c t owner where x: "x = (name, k)" and c: "component_of m name = Some c"
        and t: "resolve_type c m r = Inr (t, owner)" "k \<in> set (keys (ty_facts t))"
      by (auto simp: declared_facts_def)
    have "name \<in> set (keys (m_components m))" using c by (auto simp: set_keys)
    moreover have "x \<in> ?F name" using x c t by simp
    ultimately show "x \<in> (\<Union>name\<in>set (keys (m_components m)). ?F name)" by blast
  qed
  moreover have "finite (?F name)" for name by (auto split: option.splits sum.splits)
  then have "finite (\<Union>name\<in>set (keys (m_components m)). ?F name)" by (intro finite_UN_I) auto
  ultimately show ?thesis by (rule finite_subset)
qed

lemma run_diagnose_trail:
  assumes run: "run_diagnose interactive f m r scs w st = Some (l, res)" and g: "generic_asks_once m r"
  shows "trail_ok m r l" and "0 \<le> ls_run l" and "ls_run l \<le> max 0 (fl_max_probes f)"
    and "int (length (ls_trail l)) \<in> {ls_run l, ls_run l + 1}"
    and "res = Inr (ReportPartial ''budget exhausted'' n) \<Longrightarrow>
      fl_max_probes f \<le> ls_run l \<and> int (length (ls_trail l)) = ls_run l"
proof -
  let ?l0 = "\<lparr>ls_store = st, ls_trail = [], ls_run = 0\<rparr>"
  have start: "trail_ok m r ?l0" "int (length (ls_trail ?l0)) = ls_run ?l0" by (simp_all add: trail_ok_def)
  consider (refused) "l = ?l0" "res = Inl NeedsTerminal"
    | (loop) suspects where "diagnose_loop f m r scs suspects w 0 ?l0 = Some (l, res)"
  proof (cases "\<not> interactive \<and> uses_unseeded_generic m r st")
    case True
    with run have "l = ?l0" "res = Inl NeedsTerminal" by (simp_all add: run_diagnose_def Let_def)
    then show ?thesis by (rule that(1))
  next
    case False
    with run show ?thesis unfolding run_diagnose_def Let_def by (intro that(2)) (simp only: if_False)
  qed
  note ways = this
  have "trail_ok m r l \<and> 0 \<le> ls_run l \<and> ls_run l \<le> max 0 (fl_max_probes f) \<and>
      int (length (ls_trail l)) \<in> {ls_run l, ls_run l + 1}"
    using ways
  proof cases
    case refused
    then show ?thesis using start(1) by simp
  next
    case loop
    note d = diagnose_loop_trail [OF loop g start]
    show ?thesis using d(1-4) by (simp only: loop_state.simps)
  qed
  then show "trail_ok m r l" "0 \<le> ls_run l" "ls_run l \<le> max 0 (fl_max_probes f)"
    "int (length (ls_trail l)) \<in> {ls_run l, ls_run l + 1}" by blast+
  show "fl_max_probes f \<le> ls_run l \<and> int (length (ls_trail l)) = ls_run l"
    if "res = Inr (ReportPartial ''budget exhausted'' n)"
    using ways
  proof cases
    case loop
    from diagnose_loop_trail(5) [OF loop g start that] show ?thesis .
  qed (simp add: that)
qed

text \<open>
  C39: A run puts each fact on its trail at most once, only facts the types declare, each with a record
  in the store when the run ends, and stays within its budget: what it counts is the trail, but for
  the last question when the operator's input has ended.
\<close>

theorem diagnose_probes_once:
  assumes "run_diagnose interactive f m r scs w st = Some (l, res)" and "generic_asks_once m r"
  shows "distinct (map (\<lambda>(p, said). (pb_component p, pb_fact p)) (ls_trail l)) \<and>
    (\<forall>(p, said)\<in>set (ls_trail l). latest (ls_store l) (pb_component p) (pb_fact p) \<noteq> None \<and>
       (\<exists>c t owner. component_of m (pb_component p) = Some c \<and> resolve_type c m r = Inr (t, owner) \<and>
          map_of (ty_facts t) (pb_fact p) \<noteq> None)) \<and>
    0 \<le> ls_run l \<and> ls_run l \<le> max 0 (fl_max_probes f) \<and> int (length (ls_trail l)) \<in> {ls_run l, ls_run l + 1}"
proof -
  have key: "probe_key = (\<lambda>(p, said). (pb_component p, pb_fact p))" by (auto simp: probe_key_def)
  note facts = run_diagnose_trail [OF assms]
  have "(pb_component p, pb_fact p) \<in> declared_facts m r \<and> latest (ls_store l) (pb_component p) (pb_fact p) \<noteq> None"
    if "(p, said) \<in> set (ls_trail l)" for p said
  proof -
    have "(pb_component p, pb_fact p) \<in> set (map probe_key (ls_trail l))" using that by (force simp: key)
    then show ?thesis using facts(1) by (auto simp: trail_ok_def)
  qed
  then show ?thesis using facts by (auto simp: trail_ok_def key declared_facts_def set_keys)
qed

text \<open>
  C36: With a budget above the number of facts the model's types declare, a run never ends for lack of
  budget: it concludes, finds itself stuck, is stopped by a gate, the operator or the deadline, or
  fails.
\<close>

theorem diagnose_concludes:
  assumes "generic_asks_once m r" and "int (card (declared_facts m r)) < fl_max_probes f"
  shows "run_diagnose interactive f m r scs w st \<noteq> Some (l, Inr (ReportPartial ''budget exhausted'' n))"
proof
  assume run: "run_diagnose interactive f m r scs w st = Some (l, Inr (ReportPartial ''budget exhausted'' n))"
  note facts = run_diagnose_trail [OF run assms(1)]
  have "distinct (map probe_key (ls_trail l))" using facts(1) by (simp add: trail_ok_def)
  then have "length (ls_trail l) = card (set (map probe_key (ls_trail l)))" using distinct_card by fastforce
  also have "\<dots> \<le> card (declared_facts m r)"
    using facts(1) by (intro card_mono finite_declared_facts) (simp add: trail_ok_def)
  finally show False using facts(5) assms(2) by force
qed

subsection \<open>No writing probe is run\<close>

lemma handle_generic_world: "handle_generic_prompt (w\<lparr>wd_exec := e\<rparr>) i p l = handle_generic_prompt w i p l"
  by (auto simp: handle_generic_prompt_def split: sum.splits prompt_error.splits)

lemma shell_probe_run_exec:
  assumes "\<And>cmd. pc_provider cmd = pb_provider p \<Longrightarrow> e' cmd = e cmd"
  shows "shell_probe_run show timeout now e' p st = shell_probe_run show timeout now e p st"
proof -
  have "e' (command_of timeout rendered p) = e (command_of timeout rendered p)" for rendered
    by (rule assms) (simp add: command_of_def)
  then show ?thesis by (simp add: shell_probe_run_def Let_def cong: option.case_cong)
qed

lemma diagnose_step_read_only:
  assumes "fl_readonly_only f" "fl_on_write f \<noteq> ''run''" "fl_on_write f \<noteq> []"
    and same: "\<And>i cmd pv. rg_providers r (pc_provider cmd) = Some pv \<Longrightarrow> pv_read_only pv \<Longrightarrow> e' i cmd = wd_exec w i cmd"
  shows "diagnose_step f m r scs suspects (w\<lparr>wd_exec := e'\<rparr>) i l = diagnose_step f m r scs suspects w i l"
proof -
  have "run_and_record (w\<lparr>wd_exec := e'\<rparr>) i p l = run_and_record w i p l" if "check_readonly_gate f r p l = Continue" for p
  proof -
    have "probe_is_read_only p r" using that assms(1-3) by (auto simp: check_readonly_gate_def split: if_splits)
    then obtain pv where pv: "rg_providers r (pb_provider p) = Some pv" "pv_read_only pv"
      by (auto simp: probe_is_read_only_def split: option.splits)
    have "shell_probe_run sh t now (e' i) p st = shell_probe_run sh t now (wd_exec w i) p st" for sh t now st
      by (rule shell_probe_run_exec) (use same pv in metis)
    then show ?thesis by (simp add: run_and_record_def cong: prod.case_cong sum.case_cong)
  qed
  then show ?thesis
    by (auto simp: diagnose_step_def Let_def handle_generic_world split: option.splits step_end.splits)
qed

lemma diagnose_loop_read_only:
  assumes "fl_readonly_only f" "fl_on_write f \<noteq> ''run''" "fl_on_write f \<noteq> []"
    and same: "\<And>i cmd pv. rg_providers r (pc_provider cmd) = Some pv \<Longrightarrow> pv_read_only pv \<Longrightarrow> e' i cmd = wd_exec w i cmd"
  shows "diagnose_loop f m r scs suspects (w\<lparr>wd_exec := e'\<rparr>) i l = diagnose_loop f m r scs suspects w i l"
  using assms
proof (induction f m r scs suspects w i l rule: diagnose_loop.induct)
  case (1 f m r scs suspects w i l)
  note step = diagnose_step_read_only [where m = m and scs = scs and suspects = suspects and i = i and l = l, OF "1.prems"]
  note loop = diagnose_loop.simps [of f m r scs suspects _ i l]
  show ?case
  proof (cases "\<exists>l1. diagnose_step f m r scs suspects w i l = Some (l1, Continue)")
    case True
    then obtain l1 where l1: "diagnose_step f m r scs suspects w i l = Some (l1, Continue)" by blast
    have "diagnose_loop f m r scs suspects (w\<lparr>wd_exec := e'\<rparr>) (Suc i) l1 = diagnose_loop f m r scs suspects w (Suc i) l1"
      if "\<not> fl_max_probes f \<le> ls_run l" "\<not> wd_expired w i"
      by (rule "1.IH" [OF that l1 refl refl "1.prems"])
    then show ?thesis by (simp add: loop step l1)
  next
    case False
    then show ?thesis by (auto simp: loop step split: option.splits step_end.splits)
  qed
qed

text \<open>
  C7: Told to run read-only probes only, and not to run writing ones all the same, a run depends on the
  executor only where the provider is one of the registry that declares itself read-only: what any
  other provider's probe would do cannot matter, because it is never started.
\<close>

theorem diagnose_runs_read_only:
  assumes "fl_readonly_only f" and "fl_on_write f \<noteq> ''run''" and "fl_on_write f \<noteq> []"
    and "\<And>i cmd pv. rg_providers r (pc_provider cmd) = Some pv \<Longrightarrow> pv_read_only pv \<Longrightarrow> e' i cmd = wd_exec w i cmd"
  shows "run_diagnose interactive f m r scs (w\<lparr>wd_exec := e'\<rparr>) st = run_diagnose interactive f m r scs w st"
proof -
  have "diagnose_loop f m r scs suspects (w\<lparr>wd_exec := e'\<rparr>) i l = diagnose_loop f m r scs suspects w i l" for suspects i l
    using assms(4) by (intro diagnose_loop_read_only [OF assms(1-3)])
  then show ?thesis by (simp add: run_diagnose_def Let_def)
qed

subsection \<open>A run\<close>

text \<open>Every probe finds its component up; the operator is never asked.\<close>

definition ex_flags :: "int \<Rightarrow> diagnose_flags" where
  "ex_flags budget = \<lparr>fl_readonly_only = True, fl_max_probes = budget, fl_on_write = ''pause'', fl_suspects = []\<rparr>"

definition ex_world :: world where
  "ex_world =
     \<lparr>wd_exec = (\<lambda>i cmd. Inr \<lparr>pr_raw = ''true'', pr_parsed = Some (VBool True), pr_status = ''ok''\<rparr>),
      wd_now = (\<lambda>i. int i), wd_expired = (\<lambda>i. False), wd_expired_after = (\<lambda>i. False),
      wd_input = (\<lambda>i. EndAfter []), wd_timeout = [], wd_show = (\<lambda>v. [])\<rparr>"

definition no_scenarios :: scenario_set where
  "no_scenarios = \<lparr>ss_chains = [], ss_graph = None\<rparr>"

text \<open>One component of the type \<open>svc\<close>, whose provider is read-only or is not.\<close>

definition ex_solo :: model where
  "ex_solo = ex_model [ex_component ''web'' ''svc'' []]"

definition ex_writing :: registry where
  "ex_writing = \<lparr>rg_providers = map_option (\<lambda>pv. pv\<lparr>pv_read_only := False\<rparr>) \<circ> rg_providers ex_probed,
     rg_order = rg_order ex_probed\<rparr>"

definition ex_run :: "(loop_state \<times> (diagnose_error + report)) option" where
  "ex_run = run_diagnose True (ex_flags 1) ex_solo ex_probed no_scenarios ex_world (ex_up [])"

lemma ex_run_trail:
  "map_option (\<lambda>(l, res). map (\<lambda>(p, said). (pb_component p, pb_fact p)) (ls_trail l)) ex_run = Some [(''web'', ''up'')]"
  by code_simp

lemma ex_solo_type:
  "resolve_type (ex_component ''web'' ''svc'' []) ex_solo ex_probed =
     Inr ((ex_type ''svc'' [CmpNode [] ''up'' OpEq (VBool True)]
        [ex_state ''live'' (Some (CmpNode [] ''up'' OpEq (VBool True))) NoVerdict,
         ex_state ''down'' (Some (CmpNode [] ''up'' OpEq (VBool False))) NoVerdict])\<lparr>ty_facts := [(''up'', ex_spec)]\<rparr>, ''p'')"
  by code_simp

lemma ex_solo_component: "component_of ex_solo name = Some c \<longleftrightarrow> name = ''web'' \<and> c = ex_component ''web'' ''svc'' []"
  by (auto simp: ex_solo_def ex_model_def ex_component_def)

lemma ex_solo_asks_once: "generic_asks_once ex_solo ex_probed"
  by (auto simp: generic_asks_once_def ex_solo_component ex_solo_type)

lemma ex_solo_declared: "declared_facts ex_solo ex_probed = {(''web'', ''up'')}"
  by (auto simp: declared_facts_def ex_solo_component ex_solo_type keys_def)

theorem diagnose_probes_once_witness:
  "\<exists>l res. ex_run = Some (l, res) \<and> map (\<lambda>(p, said). (pb_component p, pb_fact p)) (ls_trail l) = [(''web'', ''up'')] \<and>
     latest (ls_store l) ''web'' ''up'' \<noteq> None \<and> ls_run l \<le> 1"
proof -
  obtain l res where run: "ex_run = Some (l, res)" and trail: "map (\<lambda>(p, said). (pb_component p, pb_fact p)) (ls_trail l) = [(''web'', ''up'')]"
    using ex_run_trail by (cases ex_run) auto
  from diagnose_probes_once [OF run [unfolded ex_run_def] ex_solo_asks_once] run trail
  show ?thesis by (intro exI [of _ l] exI [of _ res]) (auto simp: ex_flags_def)
qed

theorem diagnose_concludes_witness:
  "\<nexists>l n. run_diagnose True (ex_flags 20) ex_solo ex_probed no_scenarios ex_world (ex_up []) =
     Some (l, Inr (ReportPartial ''budget exhausted'' n))"
  unfolding not_ex by (intro allI, rule diagnose_concludes [OF ex_solo_asks_once]) (simp add: ex_solo_declared ex_flags_def)

text \<open>Where the provider writes, an executor that would fail is never asked.\<close>

theorem diagnose_runs_read_only_witness:
  "run_diagnose True (ex_flags 1) ex_solo ex_writing no_scenarios (ex_world\<lparr>wd_exec := (\<lambda>i cmd. Inl ExecFailed)\<rparr>) (ex_up []) =
   run_diagnose True (ex_flags 1) ex_solo ex_writing no_scenarios ex_world (ex_up [])"
proof (rule diagnose_runs_read_only)
  fix i :: nat and cmd :: command and pv
  assume "rg_providers ex_writing (pc_provider cmd) = Some pv" "pv_read_only pv"
  then show "Inl ExecFailed = wd_exec ex_world i cmd" by (auto simp: ex_writing_def)
qed (simp_all add: ex_flags_def)

end
