(* ===== verification/Plan_Loop.thy ===== *)
theory Plan_Loop
  imports Diagnose Root_Cause
begin

text \<open>
  \<open>mgtt plan\<close> (\<open>internal/cli/plan.go\<close>): the loop that shows the engine's conclusion, runs the probe it
  suggests with the operator's consent, records the outcome and goes round again, fifty times at
  most.

  The executor, the clock and the operator's consent are arguments, indexed by the round. What is
  printed is the value that ends a run, with the conclusion it was printed from.

  The lemmas show what a run that names a root cause has established, and two places where what is
  printed is not what the documents promise.
\<close>

subsection \<open>One probe\<close>

datatype plan_probe_end =
    ProbeRejected run_error
  | ProbeError run_error
  | ProbeUnknown outcome
  | ProbeValue "val option" bool

text \<open>\<open>runPlanProbe\<close>: the first two ends stop the loop; the flag says whether the component is in its
  default state now.\<close>

definition run_plan_probe ::
    "int \<Rightarrow> int \<Rightarrow> model \<Rightarrow> registry \<Rightarrow> executor \<Rightarrow> probe \<Rightarrow> store \<Rightarrow> store \<times> plan_probe_end" where
  "run_plan_probe timeout now m r exec p st =
     (let rendered = substitute (pb_command p) (probe_target p) (pb_vars p) []
      in case validate_command rendered (pb_command p) of
           Some e \<Rightarrow> (st, ProbeRejected e)
         | None \<Rightarrow>
             (let result = exec (command_of timeout rendered p)
              in case record_probe now st (pb_component p) (pb_fact p) result of
                   (st1, Inl e) \<Rightarrow> (st1, ProbeError e)
                 | (st1, Inr out) \<Rightarrow>
                     if out \<noteq> OutValue then (st1, ProbeUnknown out)
                     else (let d = derive m r st1;
                               def = resolve_default_active (component_of m (pb_component p)) m r
                           in (st1, ProbeValue (case result of Inr res \<Rightarrow> pr_parsed res | Inl _ \<Rightarrow> None)
                                (state_of d (pb_component p) = def \<and> def \<noteq> [])))))"

fun stops :: "plan_probe_end \<Rightarrow> bool" where
  "stops (ProbeRejected e) = True"
| "stops (ProbeError e) = True"
| "stops _ = False"

text \<open>\<open>promptProbeAccept\<close>: a failed read is the empty line.\<close>

definition prompt_probe_accept :: "string \<Rightarrow> bool" where
  "prompt_probe_accept line = (trim_space (to_lower line) \<notin> {''n'', ''no''})"

subsection \<open>The loop\<close>

record plan_world =
  pw_exec :: "nat \<Rightarrow> executor"
  pw_now :: "nat \<Rightarrow> int"
  pw_interactive :: bool
  pw_input :: "nat \<Rightarrow> string"
  pw_timeout :: string

datatype plan_end =
    PlanRootCause path_tree
  | PlanAllHealthy path_tree
  | PlanSkipped
  | PlanStopped plan_probe_end
  | PlanGaveUp

definition max_plan_iterations :: nat where
  "max_plan_iterations = 50"

fun plan_rounds ::
    "model \<Rightarrow> registry \<Rightarrow> scenario_set \<Rightarrow> string \<Rightarrow> suspect_hint list \<Rightarrow> plan_world \<Rightarrow> nat \<Rightarrow> nat \<Rightarrow> store \<Rightarrow>
     (store \<times> plan_end) option" where
  "plan_rounds m r scs entry suspects w 0 i st = Some (st, PlanGaveUp)"
| "plan_rounds m r scs entry suspects w (Suc n) i st =
     (case plan_with m r st scs entry suspects of
        None \<Rightarrow> None
      | Some tree \<Rightarrow>
          (case tr_suggested tree of
             None \<Rightarrow> Some (st, if tr_root_cause tree \<noteq> [] then PlanRootCause tree else PlanAllHealthy tree)
           | Some p \<Rightarrow>
               if pw_interactive w \<and> \<not> prompt_probe_accept (pw_input w i) then Some (st, PlanSkipped)
               else (case run_plan_probe (probe_timeout (pw_timeout w)) (pw_now w i) m r (pw_exec w i) p st of
                       (st1, e) \<Rightarrow>
                         if stops e then Some (st1, PlanStopped e)
                         else plan_rounds m r scs entry suspects w n (Suc i) st1)))"

text \<open>\<open>runPlan\<close> over a loaded plan context; \<open>component\<close> is the flag of that name.\<close>

definition run_plan ::
    "model \<Rightarrow> registry \<Rightarrow> scenario_set \<Rightarrow> string \<Rightarrow> plan_world \<Rightarrow> store \<Rightarrow> (store \<times> plan_end) option" where
  "run_plan m r scs component w st =
     plan_rounds m r scs (if component \<noteq> [] then component else entry_point m)
       (parse_suspect_hints (sm_suspects (st_meta st))) w max_plan_iterations 0 st"

text \<open>The line \<open>renderRootCauseSummary\<close> would open with for a conclusion without a root cause.\<close>

definition no_root_cause_line :: "path_tree \<Rightarrow> string" where
  "no_root_cause_line t =
     (if tr_cannot_rule_out t \<noteq> [] then ''No root cause among the components that could be seen.''
      else if tr_degraded t \<noteq> [] then ''No root cause: redundancy is absorbing the failures below.''
      else ''All components healthy -- no root cause found.'')"

subsection \<open>What a run establishes\<close>

lemma plan_rounds_end:
  assumes "plan_rounds m r scs entry suspects w n i st = Some (st', e)"
    and "e = PlanRootCause t \<or> e = PlanAllHealthy t"
  shows "\<exists>p. t = (conclude m r st' entry)\<lparr>tr_suggested := p\<rparr> \<and> tr_suggested t = None \<and>
    (e = PlanRootCause t \<longleftrightarrow> tr_root_cause t \<noteq> [])"
  using assms
proof (induction n arbitrary: i st)
  case (Suc n)
  obtain tree where tree: "plan_with m r st scs entry suspects = Some tree"
    using Suc.prems(1) by (auto split: option.splits)
  then obtain q where q: "tree = (conclude m r st entry)\<lparr>tr_suggested := q\<rparr>" by (auto simp: plan_with_def)
  show ?case
  proof (cases "tr_suggested tree")
    case None
    then show ?thesis using Suc.prems tree q by (auto split: if_splits)
  next
    case (Some p)
    obtain st1 e1 where "run_plan_probe (probe_timeout (pw_timeout w)) (pw_now w i) m r (pw_exec w i) p st = (st1, e1)"
      by (cases "run_plan_probe (probe_timeout (pw_timeout w)) (pw_now w i) m r (pw_exec w i) p st")
    then show ?thesis using Suc.prems Suc.IH [of "Suc i" st1] tree Some by (auto split: if_splits)
  qed
qed simp

text \<open>
  A run that names a root cause has nothing left to probe, and the component it names is in play,
  seen broken in the facts the run collected, and covered by no redundancy group.
\<close>

lemma plan_names_broken:
  assumes "run_plan m r scs component w st = Some (st', PlanRootCause t)"
  shows "tr_suggested t = None \<and> tr_root_cause t \<in> set (m_order m) \<and>
    component_verdict m r st' (tr_root_cause t) = Unhealthy \<and> \<not> redundancy_covered m r st' (tr_root_cause t)"
proof -
  obtain entry where run: "plan_rounds m r scs entry (parse_suspect_hints (sm_suspects (st_meta st))) w max_plan_iterations 0 st =
      Some (st', PlanRootCause t)"
    using assms by (auto simp: run_plan_def)
  from plan_rounds_end [OF run, of t] have "tr_suggested t = None" "tr_root_cause t \<noteq> []"
      "\<exists>e. tr_root_cause t = root_cause m r st' e"
    by (auto simp: conclude_def Let_def split_def)
  then show ?thesis
    using deepest_kept [of m r st']
    by (auto simp: root_cause_def Let_def candidate_def split: if_splits)
qed

subsection \<open>What is printed\<close>

definition ex_blind :: store where
  "ex_blind = append_fact new_in_memory ''web'' (ex_fact ''up'' None Forbidden)"

definition ex_plan_world :: plan_world where
  "ex_plan_world = \<lparr>pw_exec = (\<lambda>i cmd. Inl ExecFailed), pw_now = int, pw_interactive = False, pw_input = (\<lambda>i. []), pw_timeout = []\<rparr>"

text \<open>
  Where the only fact of the only component was refused, a run prints that all components are
  healthy, although its conclusion lists the component among those it cannot rule out; the line
  \<open>renderRootCauseSummary\<close> has for this case is never reached.
\<close>

lemma plan_blind_says_healthy:
  "case run_plan ex_solo ex_probed no_scenarios [] ex_plan_world ex_blind of
     Some (st, PlanAllHealthy t) \<Rightarrow> map us_component (tr_cannot_rule_out t) = [''web''] \<and>
       no_root_cause_line t = ''No root cause among the components that could be seen.''
   | _ \<Rightarrow> False"
  by code_simp

text \<open>
  The probe of a generic component has no command; \<open>mgtt plan\<close> runs the empty one, reads a
  boolean from no output, and stops with an error instead of asking the operator.
\<close>

lemma plan_stops_at_generic:
  assumes "pb_command p = []" and "pb_parse_mode p = ''bool''"
  shows "run_plan_probe timeout now m r (run_shell env (\<lambda>raw t. Some ([], 0))) p st =
    (st, ProbeError (ParseFailed (NotBool [])))"
proof -
  have "substitute [] nm mv pv = []" "validate_command [] [] = None" for nm mv pv
    by (simp_all add: substitute_def validate_command_def find_None_iff)
  then show ?thesis
    using assms by (simp add: run_plan_probe_def run_shell_def command_of_def parse_output_def parse_bool_mode_def
        to_lower_def trim_space_def Let_def record_probe_def)
qed

end
