(* ===== verification/Spec2Isabelle.thy ===== *)
theory Spec2Isabelle
  imports Expr_Parse Provider_Resolve Plan_Engine Validate Emit Model_Diff Synth Drafts Class_Reps Sdk
  Plan_Loop
begin

text \<open>
  mgtt troubleshoots a system from a model of it. A model (\<open>system.model.yaml\<close>) names components,
  their types and their dependencies; providers give each type its facts, the states those facts
  put a component in, and the rules that call it healthy. From collected facts the engine derives
  states and verdicts, walks the dependencies in play, eliminates paths, names a root cause or
  suggests the next probe; from model and types alone it lists, counts and summarises the failure
  scenarios the system can show. This library models that core, with the code's data and control
  flow, and proves what makes each part correct.

  The parts, bottom up; the sources are under \<open>src/internal\<close>.

  \<^item> \<open>Prelude\<close>, \<open>Go_Num\<close>, \<open>Sha256\<close>: Go's strings, maps, sorting with a comparator; \<open>Atoi\<close>,
    \<open>ParseFloat\<close>, \<open>FormatFloat\<close> and IEEE comparison; the digest of scenario identifiers.
  \<^item> \<open>Expr\<close>, \<open>Expr_Parse\<close> (expr): values, the AST, three-valued evaluation, the parser. Evaluation
    is Kleene's logic, decisions are stable under learning more, the parser accepts exactly a
    grammar and reads back what is printed.
  \<^item> \<open>Facts\<close> (facts/store.go, types.go): the append-only fact store, against the locale \<open>fact_log\<close>.
  \<^item> \<open>System_Model\<close> (providersupport types.go and registry.go; model types.go, resolve_type.go,
    healthy.go, resource.go, vars.go): the data, type resolution, effective types and rules.
  \<^item> \<open>Sem_Ver\<close>, \<open>Provider_Resolve\<close> (model semver.go, providerref.go, resolve.go): versions,
    constraints and the choice of an installed provider.
  \<^item> \<open>Health\<close> (state/derive.go; engine/strategy health.go, redundancy.go): derived states, verdicts,
    redundancy groups.
  \<^item> \<open>Walks\<close> (engine/strategy/bfs.go, engine/plan.go): the breadth-first walk of what is in play and
    the enumeration of shortest paths.
  \<^item> \<open>Dep_Graph\<close> (model/graph.go): cycle detection and the entry point.
  \<^item> \<open>Consistency\<close>, \<open>Edit_Distance\<close>, \<open>Validate\<close> (model consistency.go, validate.go): the search for
    facts on which rules and states disagree, suggestions for misspelled names, and the passes of
    \<open>Validate\<close>, whose acceptance is characterised.
  \<^item> \<open>Root_Cause\<close> (engine/strategy/rootcause.go): candidates, casualties, chain depth, the choice.
  \<^item> \<open>Scenarios\<close> (scenarios scenario.go, enumerate.go, graph.go, representative.go): the failure
    graph, its expansion into scenarios, representatives.
  \<^item> \<open>Impact\<close> (scenarios/impact.go): what a failing component breaks, on which condition.
  \<^item> \<open>Build\<close>, \<open>Emit\<close> (model/build): a model from the providers' discoveries, merged with the previous
    one, gated against deletions, and written as YAML nodes.
  \<^item> \<open>Model_Diff\<close> (modeldiff/diff.go): two revisions of a model compared by what they mean.
  \<^item> \<open>Graph_Count\<close> (scenarios/graphdp.go): counting over the graph on 64-bit words, which agrees with
    listing, and the live chains layer by layer.
  \<^item> \<open>Classes\<close>, \<open>Class_Reps\<close> (scenarios/classes.go): the representatives of the live and the eliminated
    chains from one topological walk per root, which are those chosen from the listing.
  \<^item> \<open>Strategies\<close> (engine/strategy): the two probe strategies, over a listing and over the graph.
  \<^item> \<open>Plan_Engine\<close> (engine plan.go, types.go): conclusions, eliminations and the next probe.
  \<^item> \<open>Satisfy\<close>, \<open>Simulate\<close>, \<open>Synth\<close>, \<open>Drafts\<close> (simulate): values that make a predicate true; a written
    scenario checked and run, and one recorded from an incident; the runs that ask whether the strategy
    finds each scenario's root; scenarios drafted from the failure chains.
  \<^item> \<open>Duration\<close>, \<open>Probing\<close> (providersupport/probe and its exec, fixture and dispatch packages;
    installmeta.go): durations; a probe's command and the guard on what is put into it, a runner's
    argument list, the parse modes, exit classes, executors, and the fact an outcome records.
  \<^item> \<open>Sdk\<close> (\<open>src/sdk/provider\<close>): the other side of that protocol. A request survives the command line
    and an outcome the way back.
  \<^item> \<open>Diagnose\<close>, \<open>Plan_Loop\<close> (cli diagnose.go, plan.go): the two loops that probe, record and ask
    again: no fact twice, no writing probe against the operator's word, an end within the budget.

  How the code's state is represented. A string is a byte list, taken as ASCII where the code
  works on runes. A pointer the callers never leave nil is a value; one that may be nil is an
  option, or a lookup that may fail. A map that is iterated over is a \<open>dict\<close>, an association list
  whose order is one iteration order, so a theorem about it holds for every order; one only looked
  up is a partial function. Errors are values of a sum type, with the values a message prints
  rather than its text. Counts of scenarios are 64-bit words; other lengths stay within memory and
  are naturals. Comparators passed to \<open>sort.Slice\<close> are total on the elements, so its result is the
  stable one.

  Loops. A loop over a finite structure is structural recursion; a graph search is a \<open>function\<close>
  whose termination proof measures the nodes not yet visited, so it needs no fuel. A loop that need
  not end (the parent chain of \<open>reconstructCycle\<close>, the layers of \<open>LiveByLength\<close>) is a
  \<open>partial_function\<close>, and where its end is claimed it is proved. The bound of 4096 assignments in
  \<open>Consistency\<close> and the depth limit of \<open>Root_Cause\<close> are the code's own.

  Parameters. The random source of \<open>Consistency\<close> beyond its bound, the scenario sidecar the plan
  reads from disk, and what runs outside the program are arguments: processes, the shell, JSON and
  regular expressions, the clock, a provider's own probe functions. What an iteration of a loop
  meets is indexed by its number, so a theorem holds for every course of events. No property
  assumes more of a parameter than its documentation; the one about a runner assumes that JSON
  reads back what it writes.

  Not modelled: the rest of the command line (cli) with its reports and the MCP server (mcp), YAML
  loading and writing, HTTP, Docker and the flags a container gets from the environment
  (capabilities.go), and the checks of a manifest before it is published. They are input, output
  and glue around the parts above.

  The properties of this theory span components: a model that validates has a simple failure
  graph, which is what the exact counts of \<open>Graph_Count\<close> need.
\<close>

subsection \<open>Validation and the failure graph\<close>

lemma failure_graph_entries:
  assumes "wf_model m"
  shows "wf_dict (build_failure_graph m r)"
    and "map_of (build_failure_graph m r) n =
      map_option (graph_entry_of m r (dependency_closure m) (sorted_component_names m) n) (component_of m n)"
proof -
  let ?e = "graph_entry_of m r (dependency_closure m) (sorted_component_names m)"
  let ?ns = "sorted_component_names m"
  have ns: "set ?ns = dom (\<lambda>n. component_of m n)" "distinct ?ns"
    using assms by (auto simp: sorted_component_names_def set_keys wf_model_def wf_dict_def)
  have g: "List.map_filter (\<lambda>name. map_option (\<lambda>c. (name, ?e name c)) (component_of m name)) ns =
      map (\<lambda>name. (name, ?e name (the (component_of m name)))) ns" if "set ns \<subseteq> dom (\<lambda>n. component_of m n)" for ns
    using that by (induction ns) (auto simp: List.map_filter_def)
  have eq: "build_failure_graph m r = map (\<lambda>name. (name, ?e name (the (component_of m name)))) ?ns"
    unfolding build_failure_graph_def Let_def by (rule g) (simp add: ns)
  show "wf_dict (build_failure_graph m r)" unfolding eq wf_dict_def keys_def by (simp add: comp_def ns)
  show "map_of (build_failure_graph m r) n = map_option (?e n) (component_of m n)"
    unfolding eq map_of_map_restrict
    using ns(1) by (cases "component_of m n") (auto simp: restrict_map_def)
qed

lemma gl_to_build_link [simp]: "gl_to (build_link m reach roots parent child) = parent"
  by (simp add: build_link_def Let_def)

lemma graph_entry_links [simp]:
  "map gl_to (gc_dependents (graph_entry_of m r reach roots n c)) = inverse_deps m n"
  by (auto simp: graph_entry_of_def Let_def comp_def split: sum.split prod.split)

lemma graph_entry_states:
  "gc_states (graph_entry_of m r reach roots n c) =
     (case resolve_type c m r of Inl _ \<Rightarrow> [] | Inr (t, _) \<Rightarrow> failure_states t)"
  by (simp add: graph_entry_of_def Let_def split: sum.split prod.split)

lemma distinct_effective_states:
  assumes "distinct (map sd_name (c_states c))" and "distinct (map sd_name (ty_states t))"
    and "\<forall>st\<in>set (c_states c). sd_name st \<notin> state_names (ty_states t)"
  shows "distinct (map sd_name (ty_states (effective_type c t)))"
  using assms by (auto simp: effective_type_def state_names_def comp_def)

lemma distinct_failure_states: "distinct (map sd_name (ty_states t)) \<Longrightarrow> distinct (map gs_name (failure_states t))"
  by (auto simp: failure_states_def comp_def distinct_map inj_on_def)

text \<open>
  C12: The failure graph of a model \<open>Validate\<close> finds no error in is simple: acyclic, with every link and
  every failure state once, provided neither the model's own states nor a provider type names a
  state twice. Counting over it is then exact.
\<close>

theorem validated_graph_simple:
  assumes wf: "wf_model m" and ok: "\<not> has_errors (validate intn m (Some r))"
    and names: "\<And>n c t owner. component_of m n = Some c \<Longrightarrow>
      registry_resolve r (effective_providers c m) (c_type c) = Inr (t, owner) \<Longrightarrow>
      distinct (map sd_name (c_states c)) \<and> distinct (map sd_name (ty_states t))"
  shows "simple_graph (build_failure_graph m r)"
  unfolding simple_graph_def
proof (intro conjI allI impI)
  let ?g = "build_failure_graph m r"
  have valid: "valid_model m r" using validate_accepts_iff [OF wf] ok by simp
  show "wf_dict ?g" by (rule failure_graph_entries(1) [OF wf])
  have "spread ?g \<subseteq> (edges (dependencies_of m))\<inverse>"
  proof safe
    fix a b assume "(a, b) \<in> spread ?g"
    then obtain gc where gc: "map_of ?g a = Some gc" "b \<in> set (map gl_to (gc_dependents gc))"
      by (auto simp: spread_def)
    then obtain c where "gc = graph_entry_of m r (dependency_closure m) (sorted_component_names m) a c"
      by (auto simp: failure_graph_entries(2) [OF wf])
    with gc(2) have "b \<in> set (inverse_deps m a)" by (simp only: graph_entry_links)
    then show "(b, a) \<in> edges (dependencies_of m)"
      using wf by (auto simp: inverse_deps_def dependencies_of_eq next_of_def targets_of_def wf_model_def map_of_wf_dict)
  qed
  then show "acyclic (spread ?g)"
    using valid acyclic_subset [of "(edges (dependencies_of m))\<inverse>" "spread ?g"] by (simp add: valid_model_def)
  fix n gc assume "map_of ?g n = Some gc"
  then obtain c where c: "component_of m n = Some c"
      "gc = graph_entry_of m r (dependency_closure m) (sorted_component_names m) n c"
    by (auto simp: failure_graph_entries(2) [OF wf])
  show "distinct (map gl_to (gc_dependents gc))" by (simp add: c(2) inverse_deps_def)
  from c(1) valid declared_iff [OF wf, of n c] obtain t owner where
    t: "registry_resolve r (effective_providers c m) (c_type c) = Inr (t, owner)" "valid_typing m r c t owner"
    by (auto simp: valid_model_def valid_component_def)
  then have "distinct (map sd_name (ty_states (effective_type c t)))"
    using names [OF c(1)] by (intro distinct_effective_states) (auto simp: valid_typing_def)
  then show "distinct (map gs_name (gc_states gc))"
    using t(1) by (simp add: c(2) graph_entry_states resolve_type_def distinct_failure_states)
qed

theorem validated_graph_simple_witness: "simple_graph (build_failure_graph ex_chain ex_svc_registry)"
proof (rule validated_graph_simple [OF wf_ex_chain ex_chain_valid])
  fix n c t owner
  assume c: "component_of ex_chain n = Some c"
    and t: "registry_resolve ex_svc_registry (effective_providers c ex_chain) (c_type c) = Inr (t, owner)"
  from c have "c_states c = []" "c_type c = ''svc''" "c_providers c = []"
    by (auto simp: ex_chain_def ex_model_def ex_component_def split: if_splits)
  moreover from this have "effective_providers c ex_chain = [''p'']"
    by (simp add: effective_providers_def ex_chain_def ex_model_def)
  ultimately show "distinct (map sd_name (c_states c)) \<and> distinct (map sd_name (ty_states t))"
    using t ex_svc_resolves by (auto simp: ex_type_def)
qed

end
